(* ===== verification/Prelude.thy ===== *)
theory Prelude
  imports Main "HOL-Library.Word" "HOL-Library.Monad_Syntax"
begin

unbundle bit_operations_syntax

text \<open>
  Shared vocabulary of the development: the machine types of the 32-bit kernel, the
  search loop that most components contain, loops over an array, and little-endian
  words in a byte memory.

  Conventions used by every component.
  \<^item> A C array is a total function from its index type. Every access whose index is not
    bounded by the enclosing loop is guarded by an explicit bounds check in the model.
  \<^item> \<open>'a option\<close> as the result of an operation: \<open>None\<close> means that the C code has no
    defined result there (NULL or freed memory dereferenced, an array bound exceeded, a
    loop that does not end). Error codes of the C functions are ordinary values.
  \<^item> A pointer that may be NULL is a \<open>ptr\<close>, with \<open>None\<close> for NULL.
  \<^item> \<open>for (i = 0; i < n; i++)\<close> over an array is \<open>fold\<close> over \<open>[0..<n]\<close>; a loop that returns
    at the first hit is \<^term>\<open>find_first\<close>.
\<close>

type_synonym u8 = "8 word"
type_synonym u16 = "16 word"
type_synonym u32 = "32 word"
type_synonym addr = nat
type_synonym ptr = "addr option"

named_theorems array_simps \<open>closed forms of the loops over arrays\<close>
named_theorems byte_simps \<open>reading back what was stored in the byte memory\<close>

subsection \<open>The search loop\<close>

function find_first :: "(nat \<Rightarrow> bool) \<Rightarrow> nat \<Rightarrow> nat \<Rightarrow> nat option" where
  "find_first P lo hi =
     (if lo < hi then (if P lo then Some lo else find_first P (Suc lo) hi) else None)"
  by pat_completeness auto
termination
  by (relation "measure (\<lambda>(P, lo, hi). hi - lo)") auto

declare find_first.simps [simp del]

lemma find_first_SomeD:
  "find_first P lo hi = Some i \<Longrightarrow> lo \<le> i \<and> i < hi \<and> P i \<and> (\<forall>j. lo \<le> j \<longrightarrow> j < i \<longrightarrow> \<not> P j)"
proof (induction P lo hi rule: find_first.induct)
  case (1 P lo hi)
  show ?case
  proof (cases "lo < hi \<and> \<not> P lo")
    case True
    with "1.prems" have "find_first P (Suc lo) hi = Some i"
      by (simp add: find_first.simps [of P lo hi])
    with "1.IH" True have IH: "Suc lo \<le> i \<and> i < hi \<and> P i \<and> (\<forall>j. Suc lo \<le> j \<longrightarrow> j < i \<longrightarrow> \<not> P j)"
      by blast
    with True show ?thesis by (metis Suc_leD Suc_leI le_neq_implies_less)
  next
    case False
    with "1.prems" show ?thesis
      by (auto simp: find_first.simps [of P lo hi] split: if_splits)
  qed
qed

lemma find_first_None: "find_first P lo hi = None \<longleftrightarrow> (\<forall>i. lo \<le> i \<longrightarrow> i < hi \<longrightarrow> \<not> P i)"
proof (induction P lo hi rule: find_first.induct)
  case (1 P lo hi)
  show ?case
  proof (cases "lo < hi \<and> \<not> P lo")
    case True
    then have "find_first P lo hi = None \<longleftrightarrow> find_first P (Suc lo) hi = None"
      by (simp add: find_first.simps [of P lo hi])
    also have "\<dots> \<longleftrightarrow> (\<forall>i. Suc lo \<le> i \<longrightarrow> i < hi \<longrightarrow> \<not> P i)"
      using "1.IH" True by blast
    finally show ?thesis using True by (metis Suc_leD Suc_leI le_neq_implies_less)
  next
    case False
    then show ?thesis by (auto simp: find_first.simps [of P lo hi])
  qed
qed

lemma find_first_Some:
  "find_first P lo hi = Some i \<longleftrightarrow>
     lo \<le> i \<and> i < hi \<and> P i \<and> (\<forall>j. lo \<le> j \<longrightarrow> j < i \<longrightarrow> \<not> P j)"
proof
  assume r: "lo \<le> i \<and> i < hi \<and> P i \<and> (\<forall>j. lo \<le> j \<longrightarrow> j < i \<longrightarrow> \<not> P j)"
  then obtain k where k: "find_first P lo hi = Some k"
    using find_first_None [of P lo hi] by (cases "find_first P lo hi") auto
  from find_first_SomeD [OF k] r have "k = i"
    by (metis linorder_neqE_nat)
  with k show "find_first P lo hi = Some i" by simp
qed (rule find_first_SomeD)

lemma find_first_cong:
  assumes "\<And>i. lo \<le> i \<Longrightarrow> i < hi \<Longrightarrow> P i = Q i"
  shows "find_first P lo hi = find_first Q lo hi"
proof (cases "find_first Q lo hi")
  case None
  then have "\<forall>i. lo \<le> i \<longrightarrow> i < hi \<longrightarrow> \<not> P i"
    using assms by (auto simp: find_first_None)
  with None show ?thesis by (metis find_first_None)
next
  case (Some i)
  with assms have "find_first P lo hi = Some i" by (simp add: find_first_Some)
  with Some show ?thesis by simp
qed

lemma find_first_skip:
  "lo \<le> lo' \<Longrightarrow> (\<And>i. lo \<le> i \<Longrightarrow> i < lo' \<Longrightarrow> \<not> P i) \<Longrightarrow> find_first P lo hi = find_first P lo' hi"
proof (induction "lo' - lo" arbitrary: lo)
  case 0
  then show ?case by simp
next
  case (Suc k)
  then have "\<not> P lo" and "find_first P (Suc lo) hi = find_first P lo' hi" by auto
  moreover have "\<not> lo < hi \<Longrightarrow> find_first P lo' hi = None"
    using Suc.prems(1) by (simp add: find_first_None)
  ultimately show ?case by (simp add: find_first.simps [of P lo hi])
qed

subsection \<open>Loops that update an array\<close>

lemma fold_array_update [array_simps]:
  "fold (\<lambda>i t. t(i := g i (t i))) [0..<n] f = (\<lambda>i. if i < n then g i (f i) else f i)"
  by (induction n) (auto simp: fun_eq_iff)

lemma fold_array_const [array_simps]:
  "fold (\<lambda>i t. t(i := c)) [0..<n] f = (\<lambda>i. if i < n then c else f i)"
  by (induction n) (auto simp: fun_eq_iff)

subsection \<open>Bijections that gain or lose a pair\<close>

lemma bij_betw_add:
  assumes "bij_betw f A B" "i \<notin> A" "n \<notin> B" "\<And>a. a \<in> A \<Longrightarrow> g a = f a" "g i = n"
  shows "bij_betw g (insert i A) (insert n B)"
proof -
  have "bij_betw g A B" using assms(1) bij_betw_cong [of A g f B] assms(4) by blast
  then have "bij_betw g (A \<union> {i}) (B \<union> {g i})"
    using notIn_Un_bij_betw3 [OF assms(2), of g B] assms(3,5) by blast
  with assms(5) show ?thesis by simp
qed

lemma bij_betw_del:
  assumes "bij_betw f A B" "i \<in> A" "\<And>a. a \<in> A - {i} \<Longrightarrow> g a = f a"
  shows "bij_betw g (A - {i}) (B - {f i})"
proof -
  have "inj_on f A" "f ` A = B" using assms(1) by (simp_all only: bij_betw_def)
  then have "f ` (A - {i}) = B - {f i}"
    using inj_on_image_set_diff [of f A A "{i}"] assms(2) by blast
  with assms(1) have "bij_betw f (A - {i}) (B - {f i})"
    by (intro bij_betw_subset [OF assms(1)]) blast+
  then show ?thesis using bij_betw_cong [of "A - {i}" g f] assms(3) by blast
qed

subsection \<open>Little-endian words in a byte memory\<close>

definition store32 :: "nat \<Rightarrow> u32 \<Rightarrow> (nat \<Rightarrow> u8) \<Rightarrow> nat \<Rightarrow> u8" where
  "store32 a v m = m(a := ucast v, a + 1 := ucast (drop_bit 8 v),
     a + 2 := ucast (drop_bit 16 v), a + 3 := ucast (drop_bit 24 v))"

definition load32 :: "nat \<Rightarrow> (nat \<Rightarrow> u8) \<Rightarrow> u32" where
  "load32 a m = ucast (m a) OR push_bit 8 (ucast (m (a + 1)))
     OR push_bit 16 (ucast (m (a + 2))) OR push_bit 24 (ucast (m (a + 3)))"

lemma word32_of_bytes:
  fixes v :: u32
  shows "(ucast (ucast v :: u8) :: u32) OR push_bit 8 (ucast (ucast (drop_bit 8 v) :: u8))
     OR push_bit 16 (ucast (ucast (drop_bit 16 v) :: u8))
     OR push_bit 24 (ucast (ucast (drop_bit 24 v) :: u8)) = v"
proof (rule bit_word_eqI)
  fix n assume "n < LENGTH(32)"
  then have "n < 8 \<or> (8 \<le> n \<and> n < 16) \<or> (16 \<le> n \<and> n < 24) \<or> (24 \<le> n \<and> n < 32)" by auto
  then show "bit ((ucast (ucast v :: u8) :: u32) OR push_bit 8 (ucast (ucast (drop_bit 8 v) :: u8))
     OR push_bit 16 (ucast (ucast (drop_bit 16 v) :: u8))
     OR push_bit 24 (ucast (ucast (drop_bit 24 v) :: u8))) n = bit v n"
    by (elim disjE) (simp_all add: bit_or_iff bit_push_bit_iff bit_ucast_iff bit_drop_bit_eq,
        (presburger | blast | arith)+)
qed

lemma load32_store32 [byte_simps]: "load32 a (store32 a v m) = v"
  by (simp add: load32_def store32_def word32_of_bytes)

lemma store32_other [byte_simps]: "b < a \<or> a + 4 \<le> b \<Longrightarrow> store32 a v m b = m b"
  by (auto simp: store32_def)

lemma load32_store32_other [byte_simps]:
  "b + 4 \<le> a \<or> a + 4 \<le> b \<Longrightarrow> load32 b (store32 a v m) = load32 b m"
  by (auto simp: load32_def store32_def)

lemma load32_cong: "(\<And>i. i < 4 \<Longrightarrow> m (a + i) = m' (b + i)) \<Longrightarrow> load32 a m = load32 b m'"
proof -
  assume eq: "\<And>i. i < 4 \<Longrightarrow> m (a + i) = m' (b + i)"
  from eq [of 0] eq [of 1] eq [of 2] eq [of 3] show ?thesis by (simp add: load32_def)
qed

end
