(* ===== verification/Memory.thy ===== *)
theory Memory
  imports Prelude
begin

text \<open>
  The page allocator of \<^verbatim>\<open>memory/memory.c\<close>: a 16 MB arena cut into 4096 pages of
  4096 bytes, one status byte per page (0 free, 1 head of an allocation, 2 tail) and a
  rotating start index for the search (next fit).

  An address is the offset of a byte in \<^verbatim>\<open>kernel_memory\<close>: the C pointer is
  \<open>&kernel_memory[off]\<close>, and NULL is \<open>None\<close>. Debug output is not modelled.
\<close>

subsection \<open>State and constants\<close>

abbreviation KERNEL_MEMORY_SIZE :: nat where "KERNEL_MEMORY_SIZE \<equiv> 16777216"
abbreviation PAGE_SIZE :: nat where "PAGE_SIZE \<equiv> 4096"
abbreviation NUM_PAGES :: nat where "NUM_PAGES \<equiv> 4096"

record mem_state =
  kernel_memory :: "nat \<Rightarrow> u8"
  page_table :: "nat \<Rightarrow> u8"
  last_page_index :: nat

text \<open>\<^verbatim>\<open>memory_block_t\<close>: \<open>size\<close> at offset 0, \<open>is_free\<close> at offset 4, padded to 8 bytes.\<close>

definition sizeof_block :: nat where "sizeof_block = 8"

definition memory_init :: "mem_state \<Rightarrow> mem_state" where
  "memory_init m =
     m\<lparr>kernel_memory := fold (\<lambda>i t. t(i := 0)) [0..<KERNEL_MEMORY_SIZE] (kernel_memory m),
       page_table := fold (\<lambda>i t. t(i := 0)) [0..<NUM_PAGES] (page_table m),
       last_page_index := 0\<rparr>"

subsection \<open>Allocation\<close>

text \<open>
  The loop of \<open>allocate_pages\<close>: \<open>count\<close> consecutive free pages have been seen, the first of
  them at \<open>found\<close> (\<open>None\<close> for the sentinel \<^verbatim>\<open>(size_t)-1\<close>). The index wraps around.
\<close>

function scan_pages ::
  "(nat \<Rightarrow> u8) \<Rightarrow> nat \<Rightarrow> nat \<Rightarrow> nat \<Rightarrow> nat \<Rightarrow> nat option \<Rightarrow> nat option" where
  "scan_pages pt start num i count found =
     (if i < NUM_PAGES then
        (let index = (start + i) mod NUM_PAGES in
         if pt index = 0 then
           (let found' = (case found of None \<Rightarrow> index | Some f \<Rightarrow> f);
                count' = count + 1 in
            if count' = num then Some found'
            else scan_pages pt start num (i + 1) count' (Some found'))
         else scan_pages pt start num (i + 1) 0 None)
      else None)"
  by pat_completeness auto
termination
  by (relation "measure (\<lambda>(pt, start, num, i, count, found). NUM_PAGES - i)") auto

declare scan_pages.simps [simp del]

definition mark_pages :: "nat \<Rightarrow> nat \<Rightarrow> (nat \<Rightarrow> u8) \<Rightarrow> (nat \<Rightarrow> u8)" where
  "mark_pages s num pt =
     fold (\<lambda>j t. t((s + j) mod NUM_PAGES := 2)) [1..<num] (pt(s := 1))"

definition allocate_pages :: "nat \<Rightarrow> mem_state \<Rightarrow> mem_state \<times> ptr" where
  "allocate_pages num_pages m =
     (case scan_pages (page_table m) (last_page_index m) num_pages 0 0 None of
        None \<Rightarrow> (m, None)
      | Some found_start \<Rightarrow>
          (m\<lparr>page_table := mark_pages found_start num_pages (page_table m),
             last_page_index := (found_start + num_pages) mod NUM_PAGES\<rparr>,
           Some (found_start * PAGE_SIZE)))"

text \<open>The page count of \<open>kmalloc\<close>, in 32-bit arithmetic: both additions wrap.\<close>

definition pages_for :: "u32 \<Rightarrow> nat" where
  "pages_for sz =
     (let total_size = sz + of_nat sizeof_block
      in unat ((total_size + of_nat PAGE_SIZE - 1) div of_nat PAGE_SIZE))"

definition kmalloc :: "u32 \<Rightarrow> mem_state \<Rightarrow> mem_state \<times> ptr" where
  "kmalloc sz m =
     (case allocate_pages (pages_for sz) m of
        (m', None) \<Rightarrow> (m', None)
      | (m', Some block) \<Rightarrow>
          (m'\<lparr>kernel_memory := (store32 block sz (kernel_memory m'))(block + 4 := 0)\<rparr>,
           Some (block + sizeof_block)))"

subsection \<open>Release\<close>

text \<open>The loop of \<open>kfree\<close>: clear the tail pages that follow, up to the end of the table.\<close>

function clear_tail :: "(nat \<Rightarrow> u8) \<Rightarrow> nat \<Rightarrow> (nat \<Rightarrow> u8)" where
  "clear_tail pt i =
     (if i < NUM_PAGES \<and> pt i = 2 then clear_tail (pt(i := 0)) (i + 1) else pt)"
  by pat_completeness auto
termination
  by (relation "measure (\<lambda>(pt, i). NUM_PAGES - i)") auto

declare clear_tail.simps [simp del]

text \<open>
  \<open>kfree\<close>: undefined (\<open>None\<close>) when the header would lie outside the arena; the page of the
  header is released only when it is the head of an allocation.
\<close>

definition kfree :: "ptr \<Rightarrow> mem_state \<Rightarrow> mem_state option" where
  "kfree p m =
     (case p of
        None \<Rightarrow> Some m
      | Some a \<Rightarrow>
          if sizeof_block \<le> a \<and> a - sizeof_block + 4 < KERNEL_MEMORY_SIZE then
            (let block = a - sizeof_block;
                 m' = m\<lparr>kernel_memory := (kernel_memory m)(block + 4 := 1)\<rparr>;
                 start_page = block div PAGE_SIZE
             in Some (if page_table m' start_page = 1
                  then m'\<lparr>page_table := clear_tail ((page_table m')(start_page := 0)) (start_page + 1)\<rparr>
                  else m'))
          else None)"

subsection \<open>Copying\<close>

definition copy_bytes :: "nat \<Rightarrow> nat \<Rightarrow> nat \<Rightarrow> (nat \<Rightarrow> u8) \<Rightarrow> (nat \<Rightarrow> u8)" where
  "copy_bytes d s sz bytes = fold (\<lambda>i t. t(d + i := t (s + i))) [0..<sz] bytes"

definition copy_memory :: "addr \<Rightarrow> addr \<Rightarrow> nat \<Rightarrow> mem_state \<Rightarrow> mem_state option" where
  "copy_memory dest src sz m =
     (if dest + sz \<le> KERNEL_MEMORY_SIZE \<and> src + sz \<le> KERNEL_MEMORY_SIZE
      then Some (m\<lparr>kernel_memory := copy_bytes dest src sz (kernel_memory m)\<rparr>)
      else None)"

definition copy_page_tables :: "addr \<Rightarrow> addr \<Rightarrow> mem_state \<Rightarrow> mem_state option" where
  "copy_page_tables parent_cr3 child_cr3 m = copy_memory child_cr3 parent_cr3 PAGE_SIZE m"

subsection \<open>The search is the first free window\<close>

definition free_window :: "(nat \<Rightarrow> u8) \<Rightarrow> nat \<Rightarrow> nat \<Rightarrow> nat \<Rightarrow> bool" where
  "free_window pt start num w \<longleftrightarrow> (\<forall>j<num. pt ((start + w + j) mod NUM_PAGES) = 0)"

lemma scan_pages_find_first:
  assumes "count < num" "count \<le> i" "i \<le> NUM_PAGES"
    and "found = (if count = 0 then None else Some ((start + (i - count)) mod NUM_PAGES))"
    and "\<And>k. i - count \<le> k \<Longrightarrow> k < i \<Longrightarrow> pt ((start + k) mod NUM_PAGES) = 0"
  shows "scan_pages pt start num i count found =
    map_option (\<lambda>w. (start + w) mod NUM_PAGES)
      (find_first (free_window pt start num) (i - count) (NUM_PAGES + 1 - num))"
  using assms
proof (induction pt start num i count found rule: scan_pages.induct)
  case (1 pt start num i count found)
  let ?idx = "\<lambda>k. (start + k) mod NUM_PAGES" and ?W = "free_window pt start num"
  let ?lo = "i - count" and ?hi = "NUM_PAGES + 1 - num"
  show ?case
  proof (cases "i < NUM_PAGES")
    case False
    with "1.prems" have "?hi \<le> ?lo" by auto
    with False show ?thesis by (simp add: scan_pages.simps [of pt] find_first.simps [of ?W])
  next
    case in_range: True
    show ?thesis
    proof (cases "pt (?idx i) = 0")
      case True
      define f' where "f' = (case found of None \<Rightarrow> ?idx i | Some f \<Rightarrow> f)"
      have f': "f' = ?idx ?lo" using "1.prems"(4) by (simp add: f'_def)
      have free: "pt (?idx k) = 0" if "?lo \<le> k" "k < i + 1" for k
        using that True "1.prems"(5) by (cases "k = i") auto
      show ?thesis
      proof (cases "count + 1 = num")
        case full: True
        have "?W ?lo"
          unfolding free_window_def
        proof (intro allI impI)
          fix j assume "j < num"
          with full have "?lo + j < i + 1" using "1.prems"(2) by auto
          then show "pt ((start + ?lo + j) mod NUM_PAGES) = 0"
            using free [of "?lo + j"] by (simp add: add.assoc)
        qed
        moreover have "?lo < ?hi" using full in_range "1.prems"(2) by auto
        ultimately show ?thesis
          using in_range True full f'
          by (simp add: scan_pages.simps [of pt] find_first.simps [of ?W] Let_def f'_def [symmetric])
      next
        case notfull: False
        have "scan_pages pt start num (i + 1) (count + 1) (Some f') =
            map_option ?idx (find_first ?W (i + 1 - (count + 1)) ?hi)"
          unfolding f'_def
        proof (rule "1.IH"(1) [OF in_range refl True refl refl notfull])
          show "Some (case found of None \<Rightarrow> ?idx i | Some f \<Rightarrow> f) =
              (if count + 1 = 0 then None else Some (?idx (i + 1 - (count + 1))))"
            using f' by (simp add: f'_def)
        qed (use "1.prems" notfull in_range free in auto)
        then show ?thesis
          using in_range True notfull by (simp add: scan_pages.simps [of pt _ _ i] Let_def f'_def)
      qed
    next
      case busy: False
      have "\<not> ?W w" if "?lo \<le> w" "w < i + 1" for w
      proof -
        from that "1.prems"(1,2) have "i - w < num" "start + w + (i - w) = start + i" by auto
        with busy show ?thesis unfolding free_window_def by metis
      qed
      then have "find_first ?W ?lo ?hi = find_first ?W (i + 1) ?hi"
        by (intro find_first_skip) auto
      moreover have "scan_pages pt start num (i + 1) 0 None =
          map_option ?idx (find_first ?W (i + 1 - 0) ?hi)"
        by (rule "1.IH"(2) [OF in_range refl busy]) (use "1.prems"(1) in_range in auto)
      ultimately show ?thesis
        using in_range busy by (simp add: scan_pages.simps [of pt _ _ i] Let_def)
    qed
  qed
qed

lemma scan_pages_eq:
  assumes "0 < num"
  shows "scan_pages pt start num 0 0 None =
    map_option (\<lambda>w. (start + w) mod NUM_PAGES)
      (find_first (free_window pt start num) 0 (NUM_PAGES + 1 - num))"
  using scan_pages_find_first [of 0 num 0 None start pt] assms by simp

lemma scan_pages_zero: "scan_pages pt start 0 i count found = None"
proof (induction pt start "0::nat" i count found rule: scan_pages.induct)
  case (1 pt start i count found)
  then show ?case by (simp add: scan_pages.simps [of pt _ _ i] Let_def)
qed

subsection \<open>Marking and clearing in closed form\<close>

lemma mark_pages_fold:
  assumes "s < NUM_PAGES" "s + n \<le> NUM_PAGES"
  shows "fold (\<lambda>j t. t((s + j) mod NUM_PAGES := (2 :: u8))) [1..<n] t
    = (\<lambda>p. if s < p \<and> p < s + n then 2 else t p)"
  using assms
proof (induction n)
  case (Suc n)
  then show ?case by (cases "1 \<le> n") (auto simp: fun_eq_iff)
qed (auto simp: fun_eq_iff)

lemma mark_pages_eq [array_simps]:
  assumes "s < NUM_PAGES" "s + num \<le> NUM_PAGES"
  shows "mark_pages s num pt p = (if p = s then 1 else if s < p \<and> p < s + num then 2 else pt p)"
  unfolding mark_pages_def mark_pages_fold [OF assms] by auto

text \<open>The tail of an allocation: how many consecutive pages from \<open>i\<close> have status 2.\<close>

function tail_len :: "(nat \<Rightarrow> u8) \<Rightarrow> nat \<Rightarrow> nat" where
  "tail_len pt i = (if i < NUM_PAGES \<and> pt i = 2 then Suc (tail_len pt (i + 1)) else 0)"
  by pat_completeness auto
termination
  by (relation "measure (\<lambda>(pt, i). NUM_PAGES - i)") auto

declare tail_len.simps [simp del]

lemma tail_len_iff:
  assumes "i \<le> NUM_PAGES"
  shows "tail_len pt i = k \<longleftrightarrow> i + k \<le> NUM_PAGES \<and> (\<forall>p. i \<le> p \<longrightarrow> p < i + k \<longrightarrow> pt p = 2)
    \<and> (i + k < NUM_PAGES \<longrightarrow> pt (i + k) \<noteq> 2)"
  using assms
proof (induction pt i arbitrary: k rule: tail_len.induct)
  case (1 pt i)
  show ?case
  proof (cases "i < NUM_PAGES \<and> pt i = 2")
    case True
    then have unf: "tail_len pt i = Suc (tail_len pt (i + 1))"
      by (simp add: tail_len.simps [of pt i])
    show ?thesis
    proof (cases k)
      case 0
      with True unf show ?thesis by auto
    next
      case (Suc k')
      have split: "(\<forall>p. i \<le> p \<longrightarrow> p < i + k \<longrightarrow> pt p = 2) \<longleftrightarrow>
          (\<forall>p. i + 1 \<le> p \<longrightarrow> p < i + 1 + k' \<longrightarrow> pt p = 2)"
      proof -
        have "i \<le> p \<longleftrightarrow> p = i \<or> i + 1 \<le> p" for p by linarith
        moreover have "i + k = i + 1 + k'" using Suc by simp
        ultimately show ?thesis using True by auto
      qed
      have "tail_len pt i = k \<longleftrightarrow> tail_len pt (i + 1) = k'"
        using unf Suc by simp
      also have "\<dots> \<longleftrightarrow> i + 1 + k' \<le> NUM_PAGES \<and> (\<forall>p. i + 1 \<le> p \<longrightarrow> p < i + 1 + k' \<longrightarrow> pt p = 2)
          \<and> (i + 1 + k' < NUM_PAGES \<longrightarrow> pt (i + 1 + k') \<noteq> 2)"
        by (rule "1.IH") (use True in auto)
      finally show ?thesis using split Suc by simp
    qed
  next
    case False
    then have "tail_len pt i = 0" by (simp add: tail_len.simps [of pt i])
    with False "1.prems" show ?thesis by (cases k) auto
  qed
qed

lemma clear_tail_eq [array_simps]:
  "clear_tail pt i = (\<lambda>p. if i \<le> p \<and> p < i + tail_len pt i then 0 else pt p)"
proof (induction pt i rule: clear_tail.induct)
  case (1 pt i)
  show ?case
  proof (cases "i < NUM_PAGES \<and> pt i = 2")
    case True
    have tl: "tail_len (pt(i := 0)) (i + 1) = tail_len pt (i + 1)"
      using True tail_len_iff [of "i + 1" pt "tail_len pt (i + 1)"]
      by (intro tail_len_iff [THEN iffD2]) auto
    have "clear_tail pt i = clear_tail (pt(i := 0)) (i + 1)"
      using True by (simp add: clear_tail.simps [of pt i])
    also have "\<dots> = (\<lambda>p. if i + 1 \<le> p \<and> p < i + 1 + tail_len pt (i + 1) then 0 else (pt(i := 0)) p)"
      by (rule "1.IH" [OF True, unfolded tl])
    also have "\<dots> = (\<lambda>p. if i \<le> p \<and> p < i + tail_len pt i then 0 else pt p)"
      using True by (auto simp: tail_len.simps [of pt i])
    finally show ?thesis .
  next
    case False
    then show ?thesis
      by (auto simp: clear_tail.simps [of pt i] tail_len.simps [of pt i] fun_eq_iff)
  qed
qed

subsection \<open>Abstraction: the live blocks\<close>

text \<open>
  What the page table means: a partial map from the head page of every live block to its
  number of pages. The table is well formed when its entries are 0, 1 or 2 and no tail
  page follows a free page.
\<close>

definition blocks :: "(nat \<Rightarrow> u8) \<Rightarrow> nat \<Rightarrow> nat option" where
  "blocks pt s =
     (if s < NUM_PAGES \<and> pt s = 1 then Some (Suc (tail_len pt (s + 1))) else None)"

definition wf_table :: "(nat \<Rightarrow> u8) \<Rightarrow> bool" where
  "wf_table pt \<longleftrightarrow> (\<forall>p<NUM_PAGES. pt p = 0 \<or> pt p = 1 \<or> pt p = 2 \<and> 0 < p \<and> pt (p - 1) \<noteq> 0)"

definition mem_inv :: "mem_state \<Rightarrow> bool" where
  "mem_inv m \<longleftrightarrow> wf_table (page_table m) \<and> last_page_index m < NUM_PAGES"

lemma blocks_Some_iff:
  "blocks pt s = Some n \<longleftrightarrow> 0 < n \<and> s + n \<le> NUM_PAGES \<and> pt s = 1
     \<and> (\<forall>p. s < p \<longrightarrow> p < s + n \<longrightarrow> pt p = 2) \<and> (s + n < NUM_PAGES \<longrightarrow> pt (s + n) \<noteq> 2)"
proof (cases "s < NUM_PAGES \<and> pt s = 1 \<and> 0 < n")
  case True
  then obtain k where n: "n = Suc k" by (cases n) auto
  with True have "blocks pt s = Some n \<longleftrightarrow> tail_len pt (s + 1) = k" by (simp add: blocks_def)
  also have "\<dots> \<longleftrightarrow> s + n \<le> NUM_PAGES \<and> (\<forall>p. s < p \<longrightarrow> p < s + n \<longrightarrow> pt p = 2)
     \<and> (s + n < NUM_PAGES \<longrightarrow> pt (s + n) \<noteq> 2)"
    using True n by (subst tail_len_iff) (auto simp: Suc_le_eq)
  finally show ?thesis using True by simp
next
  case False
  then show ?thesis by (auto simp: blocks_def)
qed

lemma blocks_disjoint:
  assumes "blocks pt s = Some n" "blocks pt t = Some k" "s \<noteq> t"
  shows "s + n \<le> t \<or> t + k \<le> s"
proof (rule ccontr)
  assume "\<not> ?thesis"
  then consider "s < t" "t < s + n" | "t < s" "s < t + k" using assms(3) by linarith
  then show False
    using assms(1,2) unfolding blocks_Some_iff by cases auto
qed

lemma blocks_eqI:
  assumes "\<And>n. blocks pt s = Some n \<longleftrightarrow> f s = Some n"
  shows "blocks pt s = f s"
  using assms by (cases "f s"; cases "blocks pt s") auto

lemma blocks_mark_pages:
  assumes wf: "wf_table pt" and s: "s + n \<le> NUM_PAGES" "0 < n"
    and free: "\<And>p. s \<le> p \<Longrightarrow> p < s + n \<Longrightarrow> pt p = 0"
  shows "blocks (mark_pages s n pt) = (blocks pt)(s \<mapsto> n)"
proof
  fix t
  let ?pt = "mark_pages s n pt"
  have m: "?pt p = (if p = s then 1 else if s < p \<and> p < s + n then 2 else pt p)" for p
    using s by (intro mark_pages_eq) auto
  have after: "pt (s + n) \<noteq> 2" if "s + n < NUM_PAGES"
  proof
    assume "pt (s + n) = 2"
    with wf that have "pt (s + n - 1) \<noteq> 0" unfolding wf_table_def by fastforce
    with free [of "s + n - 1"] s show False by simp
  qed
  show "blocks ?pt t = ((blocks pt)(s \<mapsto> n)) t"
  proof (cases "t = s")
    case True
    have "blocks ?pt s = Some n"
      unfolding blocks_Some_iff m using s after by auto
    with True show ?thesis by simp
  next
    case neq: False
    have "blocks ?pt t = blocks pt t"
    proof (rule blocks_eqI)
      fix k
      show "blocks ?pt t = Some k \<longleftrightarrow> blocks pt t = Some k"
      proof
        assume new: "blocks ?pt t = Some k"
        with neq s have old: "pt t = 1" "0 < k" "t + k \<le> NUM_PAGES"
          unfolding blocks_Some_iff m by (auto split: if_splits)
        have ms: "?pt s = 1" and mt: "?pt t = 1" using new m [of s] by (auto simp: blocks_Some_iff)
        have "t + k \<le> s \<or> s + n \<le> t"
        proof (rule ccontr)
          assume "\<not> ?thesis"
          then consider "t < s" "s < t + k" | "s < t" "t < s + n" using neq by linarith
          then show False
            using new ms mt m [of t] by cases (auto simp: blocks_Some_iff)
        qed
        with new neq free [of "t + k"] s show "blocks pt t = Some k"
          unfolding blocks_Some_iff m by (auto split: if_splits)
      next
        assume old: "blocks pt t = Some k"
        then have ne: "pt p \<noteq> 0" if "t \<le> p" "p < t + k" for p
          using that unfolding blocks_Some_iff by (cases "p = t") auto
        then have out: "p < s \<or> s + n \<le> p" if "t \<le> p" "p < t + k" for p
          using that free [of p] by force
        have "t + k \<le> s \<or> s + n \<le> t"
        proof -
          have "\<not> (t \<le> s \<and> s < t + k)" using out [of s] s by auto
          moreover have "t < s \<or> s + n \<le> t" using out [of t] old by (auto simp: blocks_Some_iff)
          ultimately show ?thesis by linarith
        qed
        with old neq s show "blocks ?pt t = Some k"
          unfolding blocks_Some_iff m by (auto split: if_splits)
      qed
    qed
    with neq show ?thesis by simp
  qed
qed

lemma wf_mark_pages:
  assumes "wf_table pt" "s + n \<le> NUM_PAGES" "0 < n"
    and free: "\<And>p. s \<le> p \<Longrightarrow> p < s + n \<Longrightarrow> pt p = 0"
  shows "wf_table (mark_pages s n pt)"
proof -
  have m: "mark_pages s n pt p = (if p = s then 1 else if s < p \<and> p < s + n then 2 else pt p)" for p
    using assms by (intro mark_pages_eq) auto
  have "pt p = 0 \<or> pt p = 1 \<or> pt p = 2 \<and> 0 < p \<and> pt (p - 1) \<noteq> 0" if "p < NUM_PAGES" for p
    using assms(1) that unfolding wf_table_def by blast
  then show ?thesis unfolding wf_table_def m by auto
qed

text \<open>What \<open>kfree\<close> does to the table when the page of the header is a head.\<close>

lemma release_table_eq:
  assumes "blocks pt s = Some n"
  shows "clear_tail (pt(s := 0)) (s + 1) = (\<lambda>p. if s \<le> p \<and> p < s + n then 0 else pt p)"
proof -
  obtain k where n: "n = Suc k" using assms by (cases n) (auto simp: blocks_Some_iff)
  have "tail_len (pt(s := 0)) (s + 1) = k"
    using assms n by (subst tail_len_iff) (auto simp: blocks_Some_iff)
  then show ?thesis using n by (auto simp: clear_tail_eq fun_eq_iff)
qed

lemma blocks_release:
  assumes "blocks pt s = Some n"
  shows "blocks (clear_tail (pt(s := 0)) (s + 1)) = (blocks pt)(s := None)"
proof
  fix t
  let ?pt = "clear_tail (pt(s := 0)) (s + 1)"
  note r = release_table_eq [OF assms]
  show "blocks ?pt t = ((blocks pt)(s := None)) t"
  proof (cases "t = s")
    case True
    have "?pt s = 0" unfolding r using assms by (simp add: blocks_Some_iff)
    then have "blocks ?pt s = None" by (simp add: blocks_def)
    with True show ?thesis by simp
  next
    case neq: False
    have "blocks ?pt t = blocks pt t"
    proof (rule blocks_eqI)
      fix k
      show "blocks ?pt t = Some k \<longleftrightarrow> blocks pt t = Some k"
      proof
        assume new: "blocks ?pt t = Some k"
        then have out: "\<not> (s \<le> p \<and> p < s + n)" if "t \<le> p" "p < t + k" for p
          using that unfolding blocks_Some_iff r by (cases "p = t") (auto split: if_splits)
        have "t + k = s" if "s \<le> t + k" "t + k < s + n"
        proof -
          have "0 < k" using new by (simp add: blocks_Some_iff)
          with out [of "t + k - 1"] have "\<not> (s \<le> t + k - 1 \<and> t + k - 1 < s + n)" by simp
          with \<open>0 < k\<close> that show ?thesis by linarith
        qed
        with new out assms show "blocks pt t = Some k"
          unfolding blocks_Some_iff r by (auto split: if_splits)
      next
        assume old: "blocks pt t = Some k"
        from blocks_disjoint [OF old assms neq] old show "blocks ?pt t = Some k"
          unfolding blocks_Some_iff r by auto
      qed
    qed
    with neq show ?thesis by simp
  qed
qed

lemma wf_release:
  assumes "wf_table pt" "blocks pt s = Some n"
  shows "wf_table (clear_tail (pt(s := 0)) (s + 1))"
  unfolding wf_table_def release_table_eq [OF assms(2)]
proof (intro allI impI)
  fix p assume p: "p < NUM_PAGES"
  have "pt p = 0 \<or> pt p = 1 \<or> pt p = 2 \<and> 0 < p \<and> pt (p - 1) \<noteq> 0"
    using assms(1) p unfolding wf_table_def by blast
  moreover have "pt p \<noteq> 2" if "p = s + n"
    using assms(2) that p by (simp add: blocks_Some_iff)
  moreover have "p = s + n" if "\<not> (s \<le> p \<and> p < s + n)" "s \<le> p - 1 \<and> p - 1 < s + n" "0 < p"
    using that by linarith
  ultimately show "(if s \<le> p \<and> p < s + n then 0 else pt p) = 0 \<or>
      (if s \<le> p \<and> p < s + n then 0 else pt p) = 1 \<or>
      (if s \<le> p \<and> p < s + n then 0 else pt p) = 2 \<and>
      0 < p \<and> (if s \<le> p - 1 \<and> p - 1 < s + n then 0 else pt (p - 1)) \<noteq> 0"
    by (auto split: if_splits)
qed

subsection \<open>The contract of an allocator\<close>

text \<open>
  What the process code relies on. \<open>capacity m a = Some c\<close>: \<open>a\<close> is a live block with \<open>c\<close>
  usable bytes. \<open>sane r a\<close>: the request and its result are not one of the two cases in
  which the allocator of this kernel breaks its contract (the size computation wraps, or
  the block runs over the end of the arena).
\<close>

locale heap_allocator =
  fixes inv :: "'m \<Rightarrow> bool"
    and capacity :: "'m \<Rightarrow> addr \<Rightarrow> nat option"
    and malloc :: "u32 \<Rightarrow> 'm \<Rightarrow> 'm \<times> ptr"
    and free :: "ptr \<Rightarrow> 'm \<Rightarrow> 'm option"
    and sane :: "u32 \<Rightarrow> addr \<Rightarrow> bool"
  assumes malloc_NULL: "malloc r m = (m', None) \<Longrightarrow> m' = m"
    and malloc_inv: "inv m \<Longrightarrow> malloc r m = (m', Some a) \<Longrightarrow> sane r a \<Longrightarrow> inv m'"
    and malloc_fresh: "inv m \<Longrightarrow> malloc r m = (m', Some a) \<Longrightarrow> sane r a \<Longrightarrow> capacity m a = None"
    and malloc_capacity: "inv m \<Longrightarrow> malloc r m = (m', Some a) \<Longrightarrow> sane r a \<Longrightarrow>
      \<exists>c. unat r \<le> c \<and> capacity m' = (capacity m)(a \<mapsto> c)"
    and free_live: "inv m \<Longrightarrow> capacity m a = Some c \<Longrightarrow>
      \<exists>m'. free (Some a) m = Some m' \<and> inv m' \<and> capacity m' = (capacity m)(a := None)"
    and disjoint: "inv m \<Longrightarrow> capacity m a = Some c \<Longrightarrow> capacity m b = Some d \<Longrightarrow> a \<noteq> b \<Longrightarrow>
      a + c \<le> b \<or> b + d \<le> a"
begin

lemma malloc_live:
  assumes "inv m" "malloc r m = (m', Some a)" "sane r a"
  shows "\<exists>c. unat r \<le> c \<and> capacity m' a = Some c"
  using malloc_capacity [OF assms] by auto

lemma malloc_keeps:
  assumes "inv m" "malloc r m = (m', Some a)" "sane r a" "capacity m b = Some d"
  shows "capacity m' b = Some d \<and> a \<noteq> b"
  using malloc_capacity [OF assms(1-3)] malloc_fresh [OF assms(1-3)] assms(4) by auto

lemma malloc_apart:
  assumes "inv m" "malloc r m = (m', Some a)" "sane r a" "capacity m b = Some d"
  shows "a + unat r \<le> b \<or> b + d \<le> a"
proof -
  from malloc_live [OF assms(1-3)] obtain c where c: "unat r \<le> c" "capacity m' a = Some c"
    by blast
  from malloc_keeps [OF assms] have "capacity m' b = Some d" "a \<noteq> b" by auto
  from disjoint [OF malloc_inv [OF assms(1-3)] c(2) this] c(1) show ?thesis by auto
qed

lemma malloc_free:
  assumes "inv m" "malloc r m = (m', Some a)" "sane r a"
  shows "\<exists>m''. free (Some a) m' = Some m'' \<and> inv m'' \<and> capacity m'' = capacity m"
proof -
  from malloc_capacity [OF assms] obtain c where c: "capacity m' = (capacity m)(a \<mapsto> c)" by blast
  with free_live [OF malloc_inv [OF assms], of a c] malloc_fresh [OF assms] show ?thesis
    by fastforce
qed

end

subsection \<open>The page allocator keeps the contract\<close>

definition capacity :: "mem_state \<Rightarrow> addr \<Rightarrow> nat option" where
  "capacity m a =
     (if sizeof_block \<le> a \<and> (a - sizeof_block) mod PAGE_SIZE = 0
      then map_option (\<lambda>n. n * PAGE_SIZE - sizeof_block)
        (blocks (page_table m) ((a - sizeof_block) div PAGE_SIZE))
      else None)"

definition sane_block :: "u32 \<Rightarrow> addr \<Rightarrow> bool" where
  "sane_block r a \<longleftrightarrow> unat r \<le> 4294963192 \<and>
     a - sizeof_block + pages_for r * PAGE_SIZE \<le> KERNEL_MEMORY_SIZE"

lemma pages_for_eq:
  assumes "unat r \<le> 4294963192"
  shows "pages_for r = (unat r + 4103) div 4096"
proof -
  have "unat (r + 4103) = unat r + 4103"
    using assms by (subst unat_add_lem [THEN iffD1]) simp_all
  moreover have "r + of_nat sizeof_block + of_nat PAGE_SIZE - 1 = r + 4103"
    by (simp add: sizeof_block_def)
  moreover have "unat (x div of_nat PAGE_SIZE) = unat x div PAGE_SIZE" for x :: u32
    by (subst unat_div) simp
  ultimately show ?thesis by (simp only: pages_for_def Let_def)
qed

lemma div_page_covers: "(n :: nat) + 8 \<le> (n + 4103) div 4096 * 4096"
proof -
  have "(n + 4103) div 4096 * 4096 + (n + 4103) mod 4096 = n + 4103" by simp
  moreover have "(n + 4103) mod 4096 < 4096" by simp
  ultimately show ?thesis by linarith
qed

lemma pages_for_covers:
  assumes "unat r \<le> 4294963192"
  shows "unat r + 8 \<le> pages_for r * PAGE_SIZE" and "0 < pages_for r"
  using div_page_covers [of "unat r"] pages_for_eq [OF assms] by auto

lemma allocate_pages_SomeD:
  assumes "allocate_pages n m = (m', Some a)"
  obtains s w where "a = s * PAGE_SIZE" "s < NUM_PAGES" "0 < n" "w + n \<le> NUM_PAGES"
    "s = (last_page_index m + w) mod NUM_PAGES"
    "\<And>j. j < n \<Longrightarrow> page_table m ((s + j) mod NUM_PAGES) = 0"
    "m' = m\<lparr>page_table := mark_pages s n (page_table m),
       last_page_index := (s + n) mod NUM_PAGES\<rparr>"
proof -
  from assms have n: "0 < n"
    by (cases n) (auto simp: allocate_pages_def scan_pages_zero)
  from assms obtain w where w:
    "find_first (free_window (page_table m) (last_page_index m) n) 0 (NUM_PAGES + 1 - n) = Some w"
    and m': "m' = m\<lparr>page_table := mark_pages ((last_page_index m + w) mod NUM_PAGES) n (page_table m),
       last_page_index := ((last_page_index m + w) mod NUM_PAGES + n) mod NUM_PAGES\<rparr>"
    and a: "a = (last_page_index m + w) mod NUM_PAGES * PAGE_SIZE"
    using n by (auto simp: allocate_pages_def scan_pages_eq split: option.splits)
  from find_first_SomeD [OF w] have "w < NUM_PAGES + 1 - n" and
    free: "free_window (page_table m) (last_page_index m) n w" by auto
  show ?thesis
  proof (rule that [OF a _ n _ refl _ m'])
    show "w + n \<le> NUM_PAGES" using \<open>w < NUM_PAGES + 1 - n\<close> by auto
    fix j assume "j < n"
    with free show "page_table m (((last_page_index m + w) mod NUM_PAGES + j) mod NUM_PAGES) = 0"
      by (simp add: free_window_def mod_add_left_eq)
  qed simp
qed

lemma kmalloc_None: "kmalloc r m = (m', None) \<Longrightarrow> m' = m"
  by (auto simp: kmalloc_def allocate_pages_def split: prod.splits option.splits)

lemma kmalloc_SomeD:
  assumes "kmalloc r m = (m', Some a)"
  obtains s w where "a = s * PAGE_SIZE + sizeof_block" "s < NUM_PAGES" "0 < pages_for r"
    "w + pages_for r \<le> NUM_PAGES" "s = (last_page_index m + w) mod NUM_PAGES"
    "\<And>j. j < pages_for r \<Longrightarrow> page_table m ((s + j) mod NUM_PAGES) = 0"
    "page_table m' = mark_pages s (pages_for r) (page_table m)"
    "last_page_index m' = (s + pages_for r) mod NUM_PAGES"
    "kernel_memory m' = (store32 (s * PAGE_SIZE) r (kernel_memory m))(s * PAGE_SIZE + 4 := 0)"
proof -
  from assms obtain m1 b where b: "allocate_pages (pages_for r) m = (m1, Some b)"
    and a: "a = b + sizeof_block"
    and m': "m' = m1\<lparr>kernel_memory := (store32 b r (kernel_memory m1))(b + 4 := 0)\<rparr>"
    by (auto simp: kmalloc_def split: prod.splits option.splits)
  from allocate_pages_SomeD [OF b] obtain s w where
    "b = s * PAGE_SIZE" "s < NUM_PAGES" "0 < pages_for r" "w + pages_for r \<le> NUM_PAGES"
    "s = (last_page_index m + w) mod NUM_PAGES"
    "\<And>j. j < pages_for r \<Longrightarrow> page_table m ((s + j) mod NUM_PAGES) = 0"
    "m1 = m\<lparr>page_table := mark_pages s (pages_for r) (page_table m),
       last_page_index := (s + pages_for r) mod NUM_PAGES\<rparr>" by metis
  with that [of s w] a m' show ?thesis by simp
qed

lemma pages_for_fit: "kmalloc r m = (m', Some a) \<Longrightarrow> pages_for r \<le> NUM_PAGES"
  by (erule kmalloc_SomeD) simp

text \<open>A sane block does not wrap: its pages are consecutive and were all free.\<close>

lemma kmalloc_saneD:
  assumes "kmalloc r m = (m', Some a)" "sane_block r a"
  obtains s where "a = s * PAGE_SIZE + sizeof_block" "s + pages_for r \<le> NUM_PAGES"
    "0 < pages_for r" "\<And>p. s \<le> p \<Longrightarrow> p < s + pages_for r \<Longrightarrow> page_table m p = 0"
    "page_table m' = mark_pages s (pages_for r) (page_table m)"
    "last_page_index m' < NUM_PAGES"
proof -
  from kmalloc_SomeD [OF assms(1)] obtain s w where *: "a = s * PAGE_SIZE + sizeof_block"
    "0 < pages_for r" "page_table m' = mark_pages s (pages_for r) (page_table m)"
    and free: "\<And>j. j < pages_for r \<Longrightarrow> page_table m ((s + j) mod NUM_PAGES) = 0"
    and last: "last_page_index m' = (s + pages_for r) mod NUM_PAGES" by metis
  from assms(2) *(1) have fit: "s + pages_for r \<le> NUM_PAGES" by (simp add: sane_block_def)
  show ?thesis
  proof (rule that [OF *(1) fit *(2) _ *(3)])
    fix p assume p: "s \<le> p" "p < s + pages_for r"
    with fit have "(s + (p - s)) mod NUM_PAGES = p" by simp
    with free [of "p - s"] p show "page_table m p = 0" by simp
  qed (simp add: last)
qed

lemma page_addr:
  assumes "sizeof_block \<le> a" "(a - sizeof_block) mod PAGE_SIZE = 0"
  shows "(a - sizeof_block) div PAGE_SIZE * PAGE_SIZE + sizeof_block = a"
  using assms div_mult_mod_eq [of "a - sizeof_block" PAGE_SIZE] by linarith

lemma capacity_at_block:
  "capacity m (s * PAGE_SIZE + sizeof_block)
    = map_option (\<lambda>n. n * PAGE_SIZE - sizeof_block) (blocks (page_table m) s)"
  by (simp add: capacity_def)

lemma capacity_SomeD:
  assumes "capacity m a = Some c"
  obtains s n where "a = s * PAGE_SIZE + sizeof_block" "blocks (page_table m) s = Some n"
    "c = n * PAGE_SIZE - sizeof_block"
proof -
  from assms obtain n where al: "sizeof_block \<le> a" "(a - sizeof_block) mod PAGE_SIZE = 0"
    and n: "blocks (page_table m) ((a - sizeof_block) div PAGE_SIZE) = Some n"
    and c: "c = n * PAGE_SIZE - sizeof_block"
    by (auto simp: capacity_def split: if_splits)
  from that [OF page_addr [OF al, symmetric] n c] show ?thesis .
qed

lemma capacity_upd:
  assumes "blocks (page_table m') = (blocks (page_table m))(s := v)"
  shows "capacity m' = (capacity m)(s * PAGE_SIZE + sizeof_block :=
    map_option (\<lambda>n. n * PAGE_SIZE - sizeof_block) v)"
proof
  fix b
  show "capacity m' b = ((capacity m)(s * PAGE_SIZE + sizeof_block :=
    map_option (\<lambda>n. n * PAGE_SIZE - sizeof_block) v)) b"
  proof (cases "b = s * PAGE_SIZE + sizeof_block")
    case True
    then show ?thesis using assms by (simp add: capacity_at_block)
  next
    case False
    then have "(b - sizeof_block) div PAGE_SIZE \<noteq> s"
      if "sizeof_block \<le> b" "(b - sizeof_block) mod PAGE_SIZE = 0"
      using page_addr [OF that] by auto
    with False assms show ?thesis by (auto simp: capacity_def)
  qed
qed

lemma kmalloc_capacity:
  assumes "mem_inv m" "kmalloc r m = (m', Some a)" "sane_block r a"
  shows "mem_inv m'" and "capacity m a = None"
    and "capacity m' = (capacity m)(a \<mapsto> pages_for r * PAGE_SIZE - sizeof_block)"
proof -
  from kmalloc_saneD [OF assms(2,3)] obtain s where s: "a = s * PAGE_SIZE + sizeof_block"
    "s + pages_for r \<le> NUM_PAGES" "0 < pages_for r"
    and free: "\<And>p. s \<le> p \<Longrightarrow> p < s + pages_for r \<Longrightarrow> page_table m p = 0"
    and pt: "page_table m' = mark_pages s (pages_for r) (page_table m)"
    and last: "last_page_index m' < NUM_PAGES" by metis
  have wf: "wf_table (page_table m)" using assms(1) by (simp add: mem_inv_def)
  show "mem_inv m'"
    using wf_mark_pages [OF wf s(2,3) free] last by (simp add: mem_inv_def pt)
  show "capacity m a = None"
    using free [of s] s by (simp add: capacity_at_block blocks_def)
  show "capacity m' = (capacity m)(a \<mapsto> pages_for r * PAGE_SIZE - sizeof_block)"
    using capacity_upd [of m' m s "Some (pages_for r)"] blocks_mark_pages [OF wf s(2,3) free]
    by (simp add: pt s(1))
qed

lemma kfree_capacity:
  assumes "mem_inv m" "capacity m a = Some c"
  shows "\<exists>m'. kfree (Some a) m = Some m' \<and> mem_inv m' \<and> capacity m' = (capacity m)(a := None)"
proof -
  from capacity_SomeD [OF assms(2)] obtain s n where a: "a = s * PAGE_SIZE + sizeof_block"
    and n: "blocks (page_table m) s = Some n" by metis
  let ?m' = "m\<lparr>kernel_memory := (kernel_memory m)(s * PAGE_SIZE + 4 := 1),
    page_table := clear_tail ((page_table m)(s := 0)) (s + 1)\<rparr>"
  have s: "s < NUM_PAGES" "page_table m s = 1" using n by (auto simp: blocks_def split: if_splits)
  then have "kfree (Some a) m = Some ?m'"
    by (simp add: kfree_def a Let_def)
  moreover have "mem_inv ?m'"
    using assms(1) wf_release [OF _ n] by (simp add: mem_inv_def)
  moreover have "capacity ?m' = (capacity m)(a := None)"
    using capacity_upd [of ?m' m s None] blocks_release [OF n] by (simp add: a)
  ultimately show ?thesis by blast
qed

interpretation page_alloc: heap_allocator mem_inv capacity kmalloc kfree sane_block
proof unfold_locales
  fix m r m' a b c d
  assume inv: "mem_inv m" and cap: "capacity m a = Some c" "capacity m b = Some d" "a \<noteq> b"
  from capacity_SomeD [OF cap(1)] obtain s n where 1: "a = s * PAGE_SIZE + sizeof_block"
    "blocks (page_table m) s = Some n" "c = n * PAGE_SIZE - sizeof_block" by metis
  from capacity_SomeD [OF cap(2)] obtain t k where 2: "b = t * PAGE_SIZE + sizeof_block"
    "blocks (page_table m) t = Some k" "d = k * PAGE_SIZE - sizeof_block" by metis
  from blocks_disjoint [OF 1(2) 2(2)] cap(3) 1(1) 2(1) have "s + n \<le> t \<or> t + k \<le> s" by auto
  moreover have "0 < n" "0 < k" using 1(2) 2(2) by (auto simp: blocks_Some_iff)
  ultimately show "a + c \<le> b \<or> b + d \<le> a"
    unfolding 1(1,3) 2(1,3) sizeof_block_def by auto
next
  fix m r m' a
  assume "mem_inv m" "kmalloc r m = (m', Some a)" "sane_block r a"
  with kmalloc_capacity(3) [OF this] pages_for_covers(1) [of r]
  show "\<exists>c. unat r \<le> c \<and> capacity m' = (capacity m)(a \<mapsto> c)"
    by (auto simp: sane_block_def sizeof_block_def intro!: exI [of _ "pages_for r * PAGE_SIZE - 8"])
qed (auto dest: kmalloc_None kmalloc_capacity kfree_capacity)

subsection \<open>Copying in closed form\<close>

lemma copy_bytes_eq [byte_simps]:
  assumes "d \<le> s \<or> s + sz \<le> d"
  shows "copy_bytes d s sz t = (\<lambda>x. if d \<le> x \<and> x < d + sz then t (s + (x - d)) else t x)"
  using assms
proof (induction sz)
  case 0
  show ?case by (auto simp: copy_bytes_def fun_eq_iff)
next
  case (Suc sz)
  then have IH: "copy_bytes d s sz t = (\<lambda>x. if d \<le> x \<and> x < d + sz then t (s + (x - d)) else t x)"
    by auto
  have "copy_bytes d s (Suc sz) t = (copy_bytes d s sz t)(d + sz := copy_bytes d s sz t (s + sz))"
    by (simp add: copy_bytes_def)
  moreover have "copy_bytes d s sz t (s + sz) = t (s + sz)"
    using Suc.prems unfolding IH by auto
  ultimately show ?case by (auto simp: IH fun_eq_iff)
qed

lemma memory_init_simps [simp]:
  "kernel_memory (memory_init m) x = (if x < KERNEL_MEMORY_SIZE then 0 else kernel_memory m x)"
  "page_table (memory_init m) p = (if p < NUM_PAGES then 0 else page_table m p)"
  "last_page_index (memory_init m) = 0"
  unfolding memory_init_def fold_array_const by simp_all

lemma mem_inv_init: "mem_inv (memory_init m)"
  by (simp add: mem_inv_def wf_table_def)

lemma capacity_init: "capacity (memory_init m) a = None"
  by (auto simp: capacity_def blocks_def)

text \<open>An allocation in a free arena that starts at the beginning of the table.\<close>

lemma kmalloc_at:
  assumes "0 < pages_for r" "free_window (page_table m) (last_page_index m) (pages_for r) 0"
    "pages_for r \<le> NUM_PAGES" "last_page_index m < NUM_PAGES"
  shows "kmalloc r m = (m\<lparr>page_table := mark_pages (last_page_index m) (pages_for r) (page_table m),
      last_page_index := (last_page_index m + pages_for r) mod NUM_PAGES,
      kernel_memory := (store32 (last_page_index m * PAGE_SIZE) r (kernel_memory m))
        (last_page_index m * PAGE_SIZE + 4 := 0)\<rparr>,
    Some (last_page_index m * PAGE_SIZE + sizeof_block))"
proof -
  have "find_first (free_window (page_table m) (last_page_index m) (pages_for r)) 0
      (NUM_PAGES + 1 - pages_for r) = Some 0"
    using assms by (simp add: find_first_Some)
  with assms show ?thesis by (simp add: kmalloc_def allocate_pages_def scan_pages_eq)
qed

lemma pages_for_values:
  "pages_for 100 = 1" "pages_for 4096 = 2" "pages_for 16773112 = 4095" "pages_for 4294967295 = 1"
  "pages_for 4294967288 = 0"
  by (simp_all add: pages_for_def sizeof_block_def unat_div)

lemma kfree_roundtrip_table:
  assumes "mem_inv m" "kmalloc r m = (m', Some a)" "sane_block r a"
  shows "\<exists>m''. kfree (Some a) m' = Some m'' \<and> page_table m'' = page_table m"
proof -
  from kmalloc_saneD [OF assms(2,3)] obtain s where s: "a = s * PAGE_SIZE + sizeof_block"
    "s + pages_for r \<le> NUM_PAGES" "0 < pages_for r"
    and free: "\<And>p. s \<le> p \<Longrightarrow> p < s + pages_for r \<Longrightarrow> page_table m p = 0"
    and pt: "page_table m' = mark_pages s (pages_for r) (page_table m)" by metis
  have n: "blocks (page_table m') s = Some (pages_for r)"
    using blocks_mark_pages [OF _ s(2,3) free] assms(1) by (simp add: pt mem_inv_def)
  then have "s < NUM_PAGES" "page_table m' s = 1" by (auto simp: blocks_def split: if_splits)
  then have "kfree (Some a) m' = Some (m'\<lparr>kernel_memory := (kernel_memory m')(s * PAGE_SIZE + 4 := 1),
      page_table := clear_tail ((page_table m')(s := 0)) (s + 1)\<rparr>)"
    by (simp add: kfree_def s(1) Let_def)
  moreover have "clear_tail ((page_table m')(s := 0)) (s + 1) = page_table m"
    unfolding release_table_eq [OF n] using free s(2,3) by (auto simp: pt mark_pages_eq)
  ultimately show ?thesis by simp
qed

lemma kfree_last: "kfree p m = Some m' \<Longrightarrow> last_page_index m' = last_page_index m"
  by (auto simp: kfree_def Let_def split: option.splits if_splits)

subsection \<open>Blocks that run over the end of the arena\<close>

lemma mark_pages_fold_mod:
  "fold (\<lambda>j t. t((s + j) mod NUM_PAGES := (2 :: u8))) [1..<n] t
    = (\<lambda>p. if \<exists>j. 1 \<le> j \<and> j < n \<and> p = (s + j) mod NUM_PAGES then 2 else t p)"
proof (induction n)
  case (Suc n)
  show ?case
  proof (cases "1 \<le> n")
    case True
    then show ?thesis using Suc by (auto simp: fun_eq_iff less_Suc_eq)
  qed (auto simp: fun_eq_iff)
qed (auto simp: fun_eq_iff)

text \<open>The pages behind the end of the table are the first ones.\<close>

lemma mark_pages_wrap:
  assumes "s < NUM_PAGES" "n \<le> NUM_PAGES" "NUM_PAGES < s + n"
  shows "mark_pages s n pt = (\<lambda>p. if p < s + n - NUM_PAGES then 2 else mark_pages s (NUM_PAGES - s) pt p)"
proof
  fix p
  have "(\<exists>j. 1 \<le> j \<and> j < n \<and> p = (s + j) mod NUM_PAGES) \<longleftrightarrow> p < s + n - NUM_PAGES \<or> s < p \<and> p < NUM_PAGES"
  proof
    assume "\<exists>j. 1 \<le> j \<and> j < n \<and> p = (s + j) mod NUM_PAGES"
    then obtain j where j: "1 \<le> j" "j < n" "p = (s + j) mod NUM_PAGES" by blast
    then have "p = (if s + j < NUM_PAGES then s + j else s + j - NUM_PAGES)"
      using assms by (simp add: mod_if)
    with j assms show "p < s + n - NUM_PAGES \<or> s < p \<and> p < NUM_PAGES" by (auto split: if_splits)
  next
    assume "p < s + n - NUM_PAGES \<or> s < p \<and> p < NUM_PAGES"
    then show "\<exists>j. 1 \<le> j \<and> j < n \<and> p = (s + j) mod NUM_PAGES"
    proof
      assume p: "p < s + n - NUM_PAGES"
      then have "(s + (p + NUM_PAGES - s)) mod NUM_PAGES = p" using assms by simp
      with p assms show ?thesis by (intro exI [of _ "p + NUM_PAGES - s"]) auto
    next
      assume p: "s < p \<and> p < NUM_PAGES"
      with assms show ?thesis by (intro exI [of _ "p - s"]) auto
    qed
  qed
  moreover have "mark_pages s (NUM_PAGES - s) pt p = (if p = s then 1 else if s < p \<and> p < NUM_PAGES then 2 else pt p)"
    using assms mark_pages_eq [of s "NUM_PAGES - s" pt p] by simp
  moreover have "\<not> s < s + n - NUM_PAGES" using assms by linarith
  ultimately show "mark_pages s n pt p = (if p < s + n - NUM_PAGES then 2 else mark_pages s (NUM_PAGES - s) pt p)"
    unfolding mark_pages_def mark_pages_fold_mod by auto
qed

lemma blocks_tails_only:
  assumes "\<And>p. p < w \<Longrightarrow> pt p = 0"
  shows "blocks (\<lambda>p. if p < w then 2 else pt p) = blocks pt"
proof
  fix t
  show "blocks (\<lambda>p. if p < w then 2 else pt p) t = blocks pt t"
  proof (cases "t < w")
    case True
    then show ?thesis using assms by (simp add: blocks_def)
  next
    case False
    then show ?thesis by (intro blocks_eqI) (auto simp: blocks_Some_iff)
  qed
qed

text \<open>Any block that \<open>kmalloc\<close> returns: its part in front of the end of the arena becomes a live block.\<close>

lemma kmalloc_any:
  assumes "mem_inv m" "kmalloc r m = (m', Some a)"
  obtains s where "a = s * PAGE_SIZE + sizeof_block" "s < NUM_PAGES" "page_table m s = 0" "0 < pages_for r"
    "blocks (page_table m') = (blocks (page_table m))(s \<mapsto> min (pages_for r) (NUM_PAGES - s))"
    "mem_inv m' \<longleftrightarrow> s + pages_for r \<le> NUM_PAGES"
    "\<forall>p. s \<le> p \<and> p < s + pages_for r \<and> p < NUM_PAGES \<longrightarrow> page_table m p = 0"
    "\<forall>p. p < s + pages_for r - NUM_PAGES \<longrightarrow> page_table m p = 0"
    "\<forall>p. page_table m' p = (if p = s then 1 else if s < p \<and> p < s + pages_for r \<and> p < NUM_PAGES \<or> p < s + pages_for r - NUM_PAGES
      then 2 else page_table m p)"
    "kernel_memory m' = (store32 (s * PAGE_SIZE) r (kernel_memory m))(s * PAGE_SIZE + 4 := 0)"
proof -
  let ?n = "pages_for r"
  from kmalloc_SomeD [OF assms(2)] obtain s w where s: "a = s * PAGE_SIZE + sizeof_block" "s < NUM_PAGES" "0 < ?n"
    "w + ?n \<le> NUM_PAGES" and free: "\<And>j. j < ?n \<Longrightarrow> page_table m ((s + j) mod NUM_PAGES) = 0"
    and pt: "page_table m' = mark_pages s ?n (page_table m)" "last_page_index m' = (s + ?n) mod NUM_PAGES"
      "kernel_memory m' = (store32 (s * PAGE_SIZE) r (kernel_memory m))(s * PAGE_SIZE + 4 := 0)" by metis
  have wf: "wf_table (page_table m)" using assms(1) by (simp add: mem_inv_def)
  have n: "?n \<le> NUM_PAGES" using s(4) by simp
  have f1: "page_table m p = 0" if "s \<le> p" "p < s + ?n" "p < NUM_PAGES" for p
    using free [of "p - s"] that by simp
  have f2: "page_table m p = 0" if "p < s + ?n - NUM_PAGES" for p
  proof -
    have "(s + (p + NUM_PAGES - s)) mod NUM_PAGES = p" "p + NUM_PAGES - s < ?n" using that s(2) n by simp_all
    with free [of "p + NUM_PAGES - s"] show ?thesis by simp
  qed
  have f0: "page_table m s = 0" using f1 [of s] s(2,3) by simp
  have last: "last_page_index m' < NUM_PAGES" by (simp add: pt(2))
  show ?thesis
  proof (cases "s + ?n \<le> NUM_PAGES")
    case True
    have f: "page_table m p = 0" if "s \<le> p" "p < s + ?n" for p using f1 [of p] that True by simp
    have "blocks (page_table m') = (blocks (page_table m))(s \<mapsto> ?n)" "wf_table (page_table m')"
      unfolding pt(1) using blocks_mark_pages [OF wf True s(3) f] wf_mark_pages [OF wf True s(3) f] by blast+
    with True last show ?thesis
      by (intro that [OF s(1,2) f0 s(3) _ _ _ _ _ pt(3)]) (auto simp: mem_inv_def min_def pt(1) mark_pages_eq s(2) f1 f2)
  next
    case False
    let ?w = "s + ?n - NUM_PAGES" and ?k = "NUM_PAGES - s"
    have k: "s + ?k \<le> NUM_PAGES" "0 < ?k" "min ?n ?k = ?k" using s(2) False by simp_all
    have f: "page_table m p = 0" if "s \<le> p" "p < s + ?k" for p using f1 [of p] that False s(2) by simp
    have eq: "page_table m' = (\<lambda>p. if p < ?w then 2 else mark_pages s ?k (page_table m) p)"
      unfolding pt(1) using False by (intro mark_pages_wrap [OF s(2) n]) simp
    have ms: "mark_pages s ?k (page_table m) p = (if p = s then 1 else if s < p \<and> p < NUM_PAGES then 2 else page_table m p)" for p
      using mark_pages_eq [OF s(2) k(1), of "page_table m" p] s(2) by simp
    have ws: "?w \<le> s" using n by linarith
    have "mark_pages s ?k (page_table m) p = 0" if "p < ?w" for p
      using that ws f2 [OF that] by (simp add: ms)
    then have "blocks (page_table m') = (blocks (page_table m))(s \<mapsto> ?k)"
      unfolding eq using blocks_tails_only blocks_mark_pages [OF wf k(1,2) f] by simp
    moreover have "page_table m' 0 = 2" using False by (simp add: eq)
    then have "\<not> mem_inv m'" by (auto simp: mem_inv_def wf_table_def intro!: exI [of _ 0])
    ultimately show ?thesis using k(3) False ws
      by (intro that [OF s(1,2) f0 s(3) _ _ _ _ _ pt(3)]) (auto simp: eq ms f1 f2)
  qed
qed

text \<open>The capacity covers the request in the two regular cases only.\<close>

lemma request_covered:
  assumes a: "a = s * PAGE_SIZE + sizeof_block" "s < NUM_PAGES" and n: "0 < pages_for r"
    and c: "c = min (pages_for r) (NUM_PAGES - s) * PAGE_SIZE - sizeof_block"
  shows "unat r \<le> c \<longleftrightarrow> sane_block r a"
proof (cases "unat r \<le> 4294963192")
  case True
  let ?n = "pages_for r"
  have cover: "unat r + 8 \<le> ?n * PAGE_SIZE" by (rule pages_for_covers(1) [OF True])
  have least: "(?n - 1) * PAGE_SIZE < unat r + 8"
  proof -
    have "(unat r + 4103) div 4096 * 4096 \<le> unat r + 4103" by simp
    then have "?n * 4096 \<le> unat r + 4103" by (simp only: pages_for_eq [OF True])
    moreover have "?n * 4096 = (?n - 1) * 4096 + 4096" using n by (cases ?n) simp_all
    ultimately show ?thesis by linarith
  qed
  show ?thesis
  proof (cases "s + ?n \<le> NUM_PAGES")
    case fits: True
    then have "c = ?n * PAGE_SIZE - 8" by (simp add: c sizeof_block_def min_def)
    moreover have "sane_block r a" using True fits by (simp add: sane_block_def a(1))
    ultimately show ?thesis using cover by simp
  next
    case False
    then have "NUM_PAGES - s \<le> ?n - 1" by linarith
    then have "(NUM_PAGES - s) * PAGE_SIZE \<le> (?n - 1) * PAGE_SIZE" by (rule mult_le_mono1)
    moreover have "c = (NUM_PAGES - s) * PAGE_SIZE - 8" using False by (simp add: c sizeof_block_def min_def)
    moreover have "8 \<le> (NUM_PAGES - s) * PAGE_SIZE" using a(2) by linarith
    ultimately have "\<not> unat r \<le> c" using least by linarith
    moreover have "\<not> sane_block r a" using False by (simp add: sane_block_def a(1))
    ultimately show ?thesis by simp
  qed
next
  case False
  have "unat r < 4294967296" using unsigned_less [of r] by simp
  have "c < 16777216"
  proof -
    have "min (pages_for r) (NUM_PAGES - s) * PAGE_SIZE \<le> NUM_PAGES * PAGE_SIZE" by (intro mult_le_mono1) simp
    then show ?thesis unfolding c sizeof_block_def by simp
  qed
  with False show ?thesis by (simp add: sane_block_def)
qed

subsection \<open>Properties\<close>

text \<open>C7 (allocation contract). Every successful \<open>kmalloc\<close> from a well-formed page table, in full. The block was not live
  and becomes live with a capacity of \<open>c\<close> bytes and no other change, where \<open>c\<close> is the room of its pages up to the end of the
  arena; these bytes overlap no other live block. The capacity covers the request exactly when the computation of the
  size does not wrap and the pages end in front of the end of the arena (\<open>sane_block\<close>), so the two ways in which the code breaks
  the contract are the only ones. The table stays well formed exactly when the pages end in front of the end of
  the arena.\<close>

theorem kmalloc_contract:
  assumes "mem_inv m" "kmalloc r m = (m', Some a)"
  defines "c \<equiv> min (pages_for r * PAGE_SIZE) (KERNEL_MEMORY_SIZE - (a - sizeof_block)) - sizeof_block"
  shows "capacity m a = None \<and> capacity m' = (capacity m)(a \<mapsto> c)
    \<and> (\<forall>b d. capacity m b = Some d \<longrightarrow> a + c \<le> b \<or> b + d \<le> a)
    \<and> (unat r \<le> c \<longleftrightarrow> sane_block r a)
    \<and> (mem_inv m' \<longleftrightarrow> a - sizeof_block + pages_for r * PAGE_SIZE \<le> KERNEL_MEMORY_SIZE)"
proof -
  from kmalloc_any [OF assms(1,2)] obtain s where s: "a = s * PAGE_SIZE + sizeof_block" "s < NUM_PAGES" "page_table m s = 0"
    "0 < pages_for r" "blocks (page_table m') = (blocks (page_table m))(s \<mapsto> min (pages_for r) (NUM_PAGES - s))"
    "mem_inv m' \<longleftrightarrow> s + pages_for r \<le> NUM_PAGES" by metis
  have c: "c = min (pages_for r) (NUM_PAGES - s) * PAGE_SIZE - sizeof_block"
    using s(2) by (auto simp: c_def s(1) min_def)
  have new: "capacity m a = None" using s(3) by (simp add: s(1) capacity_at_block blocks_def)
  have cap: "capacity m' = (capacity m)(a \<mapsto> c)" using capacity_upd [OF s(5)] by (simp add: s(1) c)
  have "a + c \<le> b \<or> b + d \<le> a" if "capacity m b = Some d" for b d
  proof -
    from capacity_SomeD [OF that] obtain t n where t: "b = t * PAGE_SIZE + sizeof_block" "blocks (page_table m) t = Some n"
      "d = n * PAGE_SIZE - sizeof_block" by metis
    have ts: "t \<noteq> s" using t(2) s(3) by (auto simp: blocks_Some_iff)
    have "blocks (page_table m') s = Some (min (pages_for r) (NUM_PAGES - s))" "blocks (page_table m') t = Some n"
      using s(5) t(2) ts by simp_all
    from blocks_disjoint [OF this ts [symmetric]] show ?thesis
      using s(2,4) t(2) unfolding s(1) t(1,3) c sizeof_block_def by (auto simp: blocks_Some_iff)
  qed
  moreover have "unat r \<le> c \<longleftrightarrow> sane_block r a" by (rule request_covered [OF s(1,2,4) c])
  moreover have "mem_inv m' \<longleftrightarrow> a - sizeof_block + pages_for r * PAGE_SIZE \<le> KERNEL_MEMORY_SIZE"
    using s(6) by (simp add: s(1)) linarith
  ultimately show ?thesis using new cap by blast
qed

theorem kmalloc_contract_witness:
  "\<exists>m m' c. kmalloc 100 m = (m', Some 8) \<and> mem_inv m' \<and> 100 \<le> c \<and> capacity m' = (capacity m)(8 \<mapsto> c)"
proof -
  let ?m = "memory_init \<lparr>kernel_memory = (\<lambda>_. 255), page_table = (\<lambda>_. 9), last_page_index = 7\<rparr>"
  obtain m' where m': "kmalloc 100 ?m = (m', Some 8)"
    using kmalloc_at [of 100 ?m] by (simp add: pages_for_values free_window_def sizeof_block_def)
  from kmalloc_contract [OF mem_inv_init m'] m' show ?thesis
    by (intro exI [of _ ?m] exI [of _ m'] exI [of _ 4088]) (simp add: pages_for_values sizeof_block_def)
qed

text \<open>Completeness and next fit: Which block \<open>kmalloc\<close> returns, for every request and
  state: none when the computed page count is 0, and otherwise the block at the first
  cyclic window of free pages counted from the rotating index, among the windows that the
  single pass over the table can see; it is NULL exactly when there is no such window.\<close>

theorem kmalloc_next_fit:
  "snd (kmalloc r m) =
     (if pages_for r = 0 then None
      else map_option (\<lambda>w. (last_page_index m + w) mod NUM_PAGES * PAGE_SIZE + sizeof_block)
        (find_first (free_window (page_table m) (last_page_index m) (pages_for r))
           0 (NUM_PAGES + 1 - pages_for r)))"
  by (auto simp: kmalloc_def allocate_pages_def scan_pages_eq scan_pages_zero split: option.splits)

text \<open>C34 (round trip). Releasing the block that \<open>kmalloc\<close> has just returned, in full: the page table is as before, entry by
  entry, but for the pages by which the block runs over the end of the arena. These are the first pages of the
  table and stay marked. So the table is restored exactly when the block ends in front of the end of the arena.\<close>

theorem kfree_kmalloc_roundtrip:
  assumes "mem_inv m" "kmalloc r m = (m', Some a)"
  defines "over \<equiv> (a - sizeof_block) div PAGE_SIZE + pages_for r - NUM_PAGES"
  shows "\<exists>m''. kfree (Some a) m' = Some m'' \<and> (\<forall>p. page_table m'' p = (if p < over then 2 else page_table m p))
    \<and> (page_table m'' = page_table m \<longleftrightarrow> a - sizeof_block + pages_for r * PAGE_SIZE \<le> KERNEL_MEMORY_SIZE)"
proof -
  obtain s where s: "a = s * PAGE_SIZE + sizeof_block" "s < NUM_PAGES" "page_table m s = 0" "0 < pages_for r"
    "blocks (page_table m') = (blocks (page_table m))(s \<mapsto> min (pages_for r) (NUM_PAGES - s))"
    "mem_inv m' \<longleftrightarrow> s + pages_for r \<le> NUM_PAGES"
    and free: "\<forall>p. s \<le> p \<and> p < s + pages_for r \<and> p < NUM_PAGES \<longrightarrow> page_table m p = 0"
      "\<forall>p. p < s + pages_for r - NUM_PAGES \<longrightarrow> page_table m p = 0"
    and pt: "\<forall>p. page_table m' p = (if p = s then 1
        else if s < p \<and> p < s + pages_for r \<and> p < NUM_PAGES \<or> p < s + pages_for r - NUM_PAGES then 2 else page_table m p)"
      "kernel_memory m' = (store32 (s * PAGE_SIZE) r (kernel_memory m))(s * PAGE_SIZE + 4 := 0)"
    by (rule kmalloc_any [OF assms(1,2)]) (rule that)
  have over: "over = s + pages_for r - NUM_PAGES" by (simp add: over_def s(1))
  have n: "blocks (page_table m') s = Some (min (pages_for r) (NUM_PAGES - s))" using s(5) by simp
  then have "page_table m' s = 1" by (simp add: blocks_Some_iff)
  then have k: "kfree (Some a) m' = Some (m'\<lparr>kernel_memory := (kernel_memory m')(s * PAGE_SIZE + 4 := 1),
      page_table := clear_tail ((page_table m')(s := 0)) (s + 1)\<rparr>)" (is "_ = Some ?m''")
    using s(2) by (simp add: kfree_def s(1) Let_def)
  have "over \<le> s" using pages_for_fit [OF assms(2)] over by linarith
  then have t: "page_table ?m'' p = (if p < over then 2 else page_table m p)" for p
    using release_table_eq [OF n] free(1) s(2,4) by (auto simp: pt(1) over min_def)
  have "page_table ?m'' = page_table m \<longleftrightarrow> over = 0"
  proof
    assume eq: "page_table ?m'' = page_table m"
    show "over = 0"
    proof (rule ccontr)
      assume "over \<noteq> 0"
      with t [of 0] free(2) eq show False by (simp add: over)
    qed
  qed (use t in \<open>auto simp: fun_eq_iff\<close>)
  also have "over = 0 \<longleftrightarrow> a - sizeof_block + pages_for r * PAGE_SIZE \<le> KERNEL_MEMORY_SIZE"
    by (simp add: over s(1)) linarith
  finally show ?thesis using k t by blast
qed

theorem kfree_kmalloc_roundtrip_witness:
  "\<exists>m m' m''. kmalloc 4096 m = (m', Some 8) \<and> kfree (Some 8) m' = Some m''
     \<and> page_table m' 1 = 2 \<and> page_table m'' = page_table m"
proof -
  let ?m = "memory_init \<lparr>kernel_memory = (\<lambda>_. 0), page_table = (\<lambda>_. 0), last_page_index = 0\<rparr>"
  obtain m' where m': "kmalloc 4096 ?m = (m', Some 8)" "page_table m' 1 = 2"
    using kmalloc_at [of 4096 ?m]
    by (simp add: pages_for_values free_window_def sizeof_block_def mark_pages_eq)
  have "8 - sizeof_block + pages_for 4096 * PAGE_SIZE \<le> KERNEL_MEMORY_SIZE" by (simp add: pages_for_values sizeof_block_def)
  with kfree_kmalloc_roundtrip [OF mem_inv_init m'(1)] m' show ?thesis by blast
qed

text \<open>C35 (isolation). \<open>kmalloc\<close>, whatever the state of the table, the request and the result, writes no byte of a block
  that is live before the call: it only writes the header of the new block, into a page that was free.\<close>

theorem kmalloc_isolation:
  assumes "capacity m b = Some d" "b - sizeof_block \<le> x" "x < b + d"
  shows "kernel_memory (fst (kmalloc r m)) x = kernel_memory m x"
proof (cases "kmalloc r m")
  case (Pair m' res)
  show ?thesis
  proof (cases res)
    case None
    with kmalloc_None Pair show ?thesis by fastforce
  next
    case (Some a)
    from kmalloc_SomeD [OF Pair [unfolded Some]] obtain s where s: "s < NUM_PAGES" "0 < pages_for r"
      "\<And>j. j < pages_for r \<Longrightarrow> page_table m ((s + j) mod NUM_PAGES) = 0"
      and km: "kernel_memory m' = (store32 (s * PAGE_SIZE) r (kernel_memory m))(s * PAGE_SIZE + 4 := 0)" by metis
    from capacity_SomeD [OF assms(1)] obtain t n where t: "b = t * PAGE_SIZE + sizeof_block"
      "blocks (page_table m) t = Some n" "d = n * PAGE_SIZE - sizeof_block" by metis
    have free: "page_table m s = 0" using s(3) [of 0] s(1,2) by simp
    have n: "0 < n" "page_table m p \<noteq> 0" if "t \<le> p" "p < t + n" for p
      using t(2) that by (cases "p = t"; simp add: blocks_Some_iff)+
    have "b + d = (t + n) * PAGE_SIZE" using t(2) by (cases n) (simp_all add: t(1,3) sizeof_block_def blocks_Some_iff)
    then have x: "t * PAGE_SIZE \<le> x" "x < (t + n) * PAGE_SIZE" using assms(2,3) by (simp_all add: t(1))
    have "s < t \<or> t + n \<le> s" using n [of s] free by (meson not_less)
    then have "(s + 1) * PAGE_SIZE \<le> t * PAGE_SIZE \<or> (t + n) * PAGE_SIZE \<le> s * PAGE_SIZE"
      by (metis Suc_eq_plus1 Suc_leI mult_le_mono1)
    moreover have "(s + 1) * PAGE_SIZE = s * PAGE_SIZE + PAGE_SIZE" by simp
    ultimately have "\<not> (s * PAGE_SIZE \<le> x \<and> x < s * PAGE_SIZE + 8)" using x by linarith
    then have "x < s * PAGE_SIZE \<or> s * PAGE_SIZE + 8 \<le> x" by linarith
    then show ?thesis by (auto simp: Pair km byte_simps)
  qed
qed

theorem kmalloc_isolation_witness:
  "\<exists>m m'. kmalloc 100 m = (m', Some 4104) \<and> capacity m 8 = Some 4088
     \<and> kernel_memory m' 20 = kernel_memory m 20"
proof -
  let ?m = "memory_init \<lparr>kernel_memory = (\<lambda>_. 5), page_table = (\<lambda>_. 0), last_page_index = 0\<rparr>"
  have ok: "sane_block 100 8"
    by (simp_all add: sane_block_def sizeof_block_def pages_for_values)
  obtain m1 where m1: "kmalloc 100 ?m = (m1, Some 8)" "last_page_index m1 = 1"
    "page_table m1 = mark_pages 0 1 (page_table ?m)"
    using kmalloc_at [of 100 ?m] by (simp add: pages_for_values free_window_def sizeof_block_def)
  then obtain m2 where m2: "kmalloc 100 m1 = (m2, Some 4104)"
    using kmalloc_at [of 100 m1]
    by (simp add: pages_for_values free_window_def sizeof_block_def mark_pages_eq)
  from kmalloc_capacity [OF mem_inv_init m1(1) ok]
  have inv: "capacity m1 8 = Some 4088"
    by (simp_all add: pages_for_values sizeof_block_def)
  from kmalloc_isolation [OF inv, of 20 100] m2 inv show ?thesis by (auto simp: sizeof_block_def)
qed

text \<open>Copy: \<open>copy_memory\<close> inside the arena, with areas that are disjoint or with the
  destination below the source, leaves in the destination the bytes that the source had
  before the call and changes nothing else.\<close>

theorem copy_memory_correct:
  assumes "dest + n \<le> KERNEL_MEMORY_SIZE" "src + n \<le> KERNEL_MEMORY_SIZE"
    and "dest \<le> src \<or> src + n \<le> dest"
  shows "copy_memory dest src n m = Some (m\<lparr>kernel_memory :=
    (\<lambda>x. if dest \<le> x \<and> x < dest + n then kernel_memory m (src + (x - dest)) else kernel_memory m x)\<rparr>)"
  using assms by (simp add: copy_memory_def copy_bytes_eq)

theorem copy_memory_correct_witness:
  "\<exists>m'. copy_memory 100 200 4096 \<lparr>kernel_memory = of_nat, page_table = (\<lambda>_. 0), last_page_index = 0\<rparr>
      = Some m' \<and> kernel_memory m' 101 = 201 \<and> kernel_memory m' 99 = 99"
  using copy_memory_correct [of 100 4096 200] by simp

text \<open>The arena wraps: On a boot with an untouched arena, after one block of 4095 pages
  has been allocated and released, \<open>kmalloc(4096)\<close> hands out pages 4095 and 0 as one block:
  it starts in the last page, its second page would be past the end of \<open>kernel_memory\<close>, and
  page 0 is marked as a tail without a head, which \<open>kfree\<close> of the block does not release.\<close>

theorem kmalloc_wraps_around:
  "\<exists>m1 m2 m3 m4. kmalloc 16773112 (memory_init m) = (m1, Some 8) \<and> kfree (Some 8) m1 = Some m2
     \<and> kmalloc 4096 m2 = (m3, Some (4095 * PAGE_SIZE + sizeof_block))
     \<and> KERNEL_MEMORY_SIZE < 4095 * PAGE_SIZE + sizeof_block + 4096
     \<and> page_table m3 0 = 2
     \<and> kfree (Some (4095 * PAGE_SIZE + sizeof_block)) m3 = Some m4
     \<and> page_table m4 4095 = 0 \<and> page_table m4 0 = 2"
proof -
  let ?m0 = "memory_init m"
  have ok: "sane_block 16773112 8" by (simp add: sane_block_def sizeof_block_def pages_for_values)
  obtain m1 where m1: "kmalloc 16773112 ?m0 = (m1, Some 8)" "last_page_index m1 = 4095"
    using kmalloc_at [of 16773112 ?m0]
    by (simp add: pages_for_values free_window_def sizeof_block_def)
  from kfree_roundtrip_table [OF mem_inv_init m1(1) ok] obtain m2 where
    m2: "kfree (Some 8) m1 = Some m2" "page_table m2 = page_table ?m0" by blast
  from kfree_last [OF m2(1)] m1(2) have last: "last_page_index m2 = 4095" by simp
  have w: "(4095 + j) mod NUM_PAGES < NUM_PAGES" for j by simp
  have "kmalloc 4096 m2 = (m2\<lparr>page_table := mark_pages 4095 2 (page_table m2),
      last_page_index := 1,
      kernel_memory := (store32 (4095 * PAGE_SIZE) 4096 (kernel_memory m2))(4095 * PAGE_SIZE + 4 := 0)\<rparr>,
    Some (4095 * PAGE_SIZE + sizeof_block))" (is "_ = (?m3, _)")
    using kmalloc_at [of 4096 m2] by (simp add: pages_for_values free_window_def m2(2) last)
  moreover have mk: "mark_pages 4095 2 pt = (pt(4095 := 1))(0 := 2)" for pt
    by (simp add: mark_pages_def upt_rec)
  moreover have "kfree (Some (4095 * PAGE_SIZE + sizeof_block)) ?m3 = Some (?m3\<lparr>
      kernel_memory := (kernel_memory ?m3)(4095 * PAGE_SIZE + 4 := 1),
      page_table := (page_table ?m3)(4095 := 0)\<rparr>)"
    unfolding kfree_def by (simp add: Let_def mk sizeof_block_def clear_tail.simps)
  ultimately show ?thesis using m1 m2 by (auto simp: sizeof_block_def mk)
qed

text \<open>The size computation wraps: The largest request succeeds on a fresh arena with a
  block of one page: the size of the header overflows the 32-bit sum.\<close>

theorem kmalloc_size_overflow:
  "\<exists>m'. kmalloc 4294967295 (memory_init m) = (m', Some 8) \<and> capacity m' 8 = Some 4088"
proof -
  obtain m' where m': "kmalloc 4294967295 (memory_init m) = (m', Some 8)"
    "page_table m' = mark_pages 0 1 (page_table (memory_init m))"
    using kmalloc_at [of 4294967295 "memory_init m"]
    by (simp add: pages_for_values free_window_def sizeof_block_def)
  have "blocks (page_table m') = (blocks (page_table (memory_init m)))(0 \<mapsto> 1)"
    unfolding m'(2) using mem_inv_init [of m] by (intro blocks_mark_pages) (auto simp: mem_inv_def)
  with m' show ?thesis using capacity_at_block [of m' 0] by (simp add: sizeof_block_def)
qed

end
