(* ===== verification/CString.thy ===== *)
theory CString
  imports Prelude
begin

text \<open>
  The string routines of \<^verbatim>\<open>keyboard/string.c\<close>.

  A \<open>char\<close> is an HOL \<open>char\<close> (one byte). A pointer argument is the list of the bytes of the
  object from that pointer on, so reading or writing past the end of the object is \<open>None\<close>.
  A destination is returned with its new contents. \<open>strtok\<close> keeps a position in a buffer
  that it modifies: its model takes the buffer, the static position and the argument.
\<close>

abbreviation NUL :: char where "NUL \<equiv> CHR 0x00"

abbreviation uchar :: "char \<Rightarrow> int" where "uchar c \<equiv> of_char c"

text \<open>A C string: no NUL inside, one at the end.\<close>

definition cstr :: "string \<Rightarrow> char list" where "cstr s = s @ [NUL]"

named_theorems string_simps \<open>the string routines on well-formed C strings\<close>

subsection \<open>Operations\<close>

fun strlen :: "char list \<Rightarrow> nat option" where
  "strlen [] = None"
| "strlen (c # cs) = (if c \<noteq> NUL then map_option Suc (strlen cs) else Some 0)"

fun memcpy :: "char list \<Rightarrow> char list \<Rightarrow> nat \<Rightarrow> char list option" where
  "memcpy d s 0 = Some d"
| "memcpy (_ # d) (c # s) (Suc n) = map_option ((#) c) (memcpy d s n)"
| "memcpy _ _ (Suc _) = None"

fun memset :: "char list \<Rightarrow> char \<Rightarrow> nat \<Rightarrow> char list option" where
  "memset p c 0 = Some p"
| "memset (_ # p) c (Suc n) = map_option ((#) c) (memset p c n)"
| "memset [] c (Suc _) = None"

fun strcmp :: "char list \<Rightarrow> char list \<Rightarrow> int option" where
  "strcmp (a # s1) (b # s2) =
     (if a \<noteq> NUL \<and> a = b then strcmp s1 s2 else Some (uchar a - uchar b))"
| "strcmp _ _ = None"

fun strncmp :: "char list \<Rightarrow> char list \<Rightarrow> nat \<Rightarrow> int option" where
  "strncmp s1 s2 0 = Some 0"
| "strncmp (a # s1) (b # s2) (Suc n) =
     (if a \<noteq> NUL \<and> b \<noteq> NUL then
        (if a \<noteq> b then Some (uchar a - uchar b) else strncmp s1 s2 n)
      else Some (uchar a - uchar b))"
| "strncmp _ _ (Suc _) = None"

text \<open>
  The second loop of \<open>strncpy\<close> pads with the remaining count. When the first loop ends
  because the count ran out, \<^verbatim>\<open>n--\<close> has wrapped to the largest \<open>size_t\<close>, and the second loop
  takes that as its count.
\<close>

fun strncpy_pad :: "char list \<Rightarrow> nat \<Rightarrow> char list option" where
  "strncpy_pad d 0 = Some d"
| "strncpy_pad (_ # d) (Suc n) = map_option ((#) NUL) (strncpy_pad d n)"
| "strncpy_pad [] (Suc _) = None"

definition SIZE_MAX :: nat where "SIZE_MAX = 2 ^ 32 - 1"

fun strncpy :: "char list \<Rightarrow> char list \<Rightarrow> nat \<Rightarrow> char list option" where
  "strncpy d src 0 = strncpy_pad d SIZE_MAX"
| "strncpy (_ # d) (c # src) (Suc n) =
     map_option ((#) c) (if c \<noteq> NUL then strncpy d src n else strncpy_pad d n)"
| "strncpy _ _ (Suc _) = None"

text \<open>\<open>strchr\<close> returns the offset of the hit; the terminator is never found.\<close>

fun strchr :: "char list \<Rightarrow> char \<Rightarrow> nat option option" where
  "strchr [] c = None"
| "strchr (x # s) c =
     (if x \<noteq> NUL then (if x = c then Some (Some 0) else map_option (map_option Suc) (strchr s c))
      else Some None)"

text \<open>
  The two scanning loops of \<open>strtok\<close>: advance while the byte is not NUL and is (is not) a
  delimiter. The delimiters are a C string literal, given without its terminator.
\<close>

definition is_delim :: "string \<Rightarrow> char \<Rightarrow> bool" where
  "is_delim delim c = (case strchr (cstr delim) c of Some (Some i) \<Rightarrow> True | _ \<Rightarrow> False)"

fun strtok_scan :: "(char \<Rightarrow> bool) \<Rightarrow> char list \<Rightarrow> nat option" where
  "strtok_scan P [] = None"
| "strtok_scan P (c # cs) =
     (if c \<noteq> NUL \<and> P c then map_option Suc (strtok_scan P cs) else Some 0)"

text \<open>
  \<open>strtok str delim\<close> with the static pointer \<open>st\<close> over the buffer \<open>buf\<close>; positions are
  offsets in \<open>buf\<close>. The result is the token's position, the buffer and the new static
  pointer.
\<close>

definition strtok ::
  "nat option \<Rightarrow> string \<Rightarrow> char list \<Rightarrow> nat option \<Rightarrow> (nat option \<times> char list \<times> nat option) option" where
  "strtok str delim buf st =
     (let st' = (if str \<noteq> None then str else st) in
      case st' of
        None \<Rightarrow> Some (None, buf, None)
      | Some p \<Rightarrow> do {
          k \<leftarrow> strtok_scan (is_delim delim) (drop p buf);
          let token = p + k;
          if buf ! token = NUL then Some (None, buf, Some token)
          else do {
            l \<leftarrow> strtok_scan (\<lambda>c. \<not> is_delim delim c) (drop token buf);
            let e = token + l;
            if buf ! e \<noteq> NUL then Some (Some token, buf[e := NUL], Some (e + 1))
            else Some (Some token, buf, Some e)
          }
        })"

text \<open>The C string that starts at a position of a buffer.\<close>

definition string_at :: "char list \<Rightarrow> nat \<Rightarrow> string" where
  "string_at buf p = takeWhile (\<lambda>c. c \<noteq> NUL) (drop p buf)"

subsection \<open>What the routines compute\<close>

lemma strlen_cstr [string_simps]: "NUL \<notin> set s \<Longrightarrow> strlen (s @ NUL # rest) = Some (length s)"
  by (induction s) auto

lemma memcpy_eq [string_simps]:
  "memcpy d s n = (if n \<le> length d \<and> n \<le> length s then Some (take n s @ drop n d) else None)"
  by (induction d s n rule: memcpy.induct) auto

lemma memset_eq [string_simps]:
  "memset p c n = (if n \<le> length p then Some (replicate n c @ drop n p) else None)"
  by (induction p c n rule: memset.induct) auto

lemma strncpy_pad_eq [string_simps]:
  "strncpy_pad d n = (if n \<le> length d then Some (replicate n NUL @ drop n d) else None)"
  by (induction d n rule: strncpy_pad.induct) auto

lemma strncpy_short [string_simps]:
  assumes "NUL \<notin> set s" "length s < n" "n \<le> length d"
  shows "strncpy d (s @ NUL # rest) n = Some (s @ replicate (n - length s) NUL @ drop n d)"
  using assms
proof (induction s arbitrary: d n)
  case Nil
  then obtain x d' n' where "d = x # d'" "n = Suc n'" by (cases d; cases n) auto
  with Nil show ?case by (simp add: strncpy_pad_eq)
next
  case (Cons c s)
  then obtain x d' n' where "d = x # d'" "n = Suc n'" by (cases d; cases n) auto
  with Cons show ?case by auto
qed

text \<open>A source that fills the whole field: the padding count has wrapped.\<close>

lemma strncpy_long:
  assumes "NUL \<notin> set s" "length s = n"
  shows "strncpy d (s @ rest) n =
    (if n + SIZE_MAX \<le> length d
     then Some (s @ replicate SIZE_MAX NUL @ drop (n + SIZE_MAX) d) else None)"
  using assms
proof (induction s arbitrary: d n)
  case Nil
  then show ?case by (simp add: strncpy_pad_eq)
next
  case (Cons c s)
  then show ?case by (cases d) auto
qed

lemma uchar_zero [simp]: "uchar a = 0 \<longleftrightarrow> a = NUL"
  using of_char_eq_iff [where c = a and d = NUL] by simp

lemma strcmp_zero [string_simps]:
  "NUL \<notin> set s \<Longrightarrow> NUL \<notin> set t \<Longrightarrow>
     \<exists>d. strcmp (s @ NUL # x) (t @ NUL # y) = Some d \<and> (d = 0 \<longleftrightarrow> s = t)"
proof (induction s arbitrary: t)
  case Nil
  then show ?case by (cases t) auto
next
  case (Cons a s)
  then show ?case by (cases t) auto
qed

lemma strncmp_zero:
  assumes "NUL \<notin> set s" "NUL \<notin> set t"
  shows "\<exists>d. strncmp (s @ NUL # x) (t @ NUL # y) n = Some d \<and> (d = 0 \<longleftrightarrow> take n s = take n t)"
  using assms
proof (induction s arbitrary: t n)
  case Nil
  then show ?case by (cases t; cases n) auto
next
  case (Cons a s)
  then show ?case by (cases t; cases n) auto
qed

lemma strchr_found: "NUL \<notin> set s \<Longrightarrow> c \<noteq> NUL \<Longrightarrow>
    strchr (s @ NUL # rest) c = Some (if c \<in> set s then Some (length (takeWhile (\<lambda>x. x \<noteq> c) s)) else None)"
  by (induction s) auto

lemma is_delim_iff [string_simps]:
  "NUL \<notin> set delim \<Longrightarrow> c \<noteq> NUL \<Longrightarrow> is_delim delim c \<longleftrightarrow> c \<in> set delim"
  by (auto simp: is_delim_def cstr_def strchr_found)

lemma strtok_scan_eq:
  "NUL \<in> set cs \<Longrightarrow> strtok_scan P cs = Some (length (takeWhile (\<lambda>c. c \<noteq> NUL \<and> P c) cs))"
  by (induction cs) auto

subsection \<open>Tokens of a line\<close>

function tokens :: "string \<Rightarrow> string \<Rightarrow> string list" where
  "tokens delim s =
     (let t = dropWhile (\<lambda>c. c \<in> set delim) s in
      if t = [] then []
      else takeWhile (\<lambda>c. c \<notin> set delim) t # tokens delim (tl (dropWhile (\<lambda>c. c \<notin> set delim) t)))"
  by pat_completeness auto
termination
proof (relation "measure (\<lambda>(delim, s). length s)")
  fix delim s t :: string
  assume "t = dropWhile (\<lambda>c. c \<in> set delim) s" "t \<noteq> []"
  then have "length t \<le> length s" "0 < length t" by (auto simp: length_dropWhile_le)
  moreover have "length (dropWhile (\<lambda>c. c \<notin> set delim) t) \<le> length t" by (rule length_dropWhile_le)
  ultimately have "length (tl (dropWhile (\<lambda>c. c \<notin> set delim) t)) < length s"
    unfolding length_tl by linarith
  then show "((delim, tl (dropWhile (\<lambda>c. c \<notin> set delim) t)), delim, s)
      \<in> measure (\<lambda>(delim, s). length s)" by simp
qed simp

declare tokens.simps [simp del]

lemma takeWhile_NUL: "NUL \<notin> set s \<Longrightarrow> takeWhile (\<lambda>c. c \<noteq> NUL) (s @ NUL # r) = s"
  by (induction s) auto

lemma string_at_append [string_simps]:
  "NUL \<notin> set s \<Longrightarrow> length pre = p \<Longrightarrow> string_at (pre @ s @ NUL # r) p = s"
  by (auto simp: string_at_def takeWhile_NUL)

text \<open>Where the string that starts at a position ends.\<close>

lemma string_at_split:
  assumes "NUL \<in> set (drop p buf)"
  obtains pre r where "buf = pre @ string_at buf p @ NUL # r" "length pre = p"
    "NUL \<notin> set (string_at buf p)"
proof -
  from split_list_first [OF assms] obtain s r where sr: "drop p buf = s @ NUL # r" "NUL \<notin> set s"
    by blast
  then have "string_at buf p = s" by (simp add: string_at_def takeWhile_NUL)
  moreover have "length (take p buf) = p" using sr(1) by (cases "p \<le> length buf") auto
  moreover have "buf = take p buf @ s @ NUL # r" using sr(1) by (metis append_take_drop_id)
  ultimately show ?thesis using that sr(2) by simp
qed

lemma strtok_scan_word:
  assumes "NUL \<notin> set s"
  shows "strtok_scan P (s @ NUL # r) = Some (length (takeWhile P s))"
proof -
  have "takeWhile (\<lambda>c. c \<noteq> NUL \<and> P c) (s @ NUL # r) = takeWhile P s"
    using assms by (induction s) auto
  then show ?thesis by (simp add: strtok_scan_eq)
qed

lemma takeWhile_delim:
  assumes "NUL \<notin> set s" "NUL \<notin> set delim"
  shows "takeWhile (is_delim delim) s = takeWhile (\<lambda>c. c \<in> set delim) s"
    and "takeWhile (\<lambda>c. \<not> is_delim delim c) s = takeWhile (\<lambda>c. c \<notin> set delim) s"
proof -
  have "is_delim delim c \<longleftrightarrow> c \<in> set delim" if "c \<in> set s" for c
    using is_delim_iff [OF assms(2), of c] that assms(1) by auto
  then show "takeWhile (is_delim delim) s = takeWhile (\<lambda>c. c \<in> set delim) s"
    and "takeWhile (\<lambda>c. \<not> is_delim delim c) s = takeWhile (\<lambda>c. c \<notin> set delim) s"
    by (auto intro: takeWhile_cong)
qed

lemma strtok_split:
  assumes buf: "buf = pre @ a @ b @ NUL # r" and p: "length pre = p"
    and nn: "NUL \<notin> set a" "NUL \<notin> set b" "NUL \<notin> set delim"
    and ab: "takeWhile (\<lambda>c. c \<in> set delim) (a @ b) = a"
    and st: "(if str \<noteq> None then str else st) = Some p"
  shows "strtok str delim buf st =
    (if b = [] then Some (None, buf, Some (p + length a))
     else let w = takeWhile (\<lambda>c. c \<notin> set delim) b; e = p + length a + length w in
       if w = b then Some (Some (p + length a), buf, Some e)
       else Some (Some (p + length a), buf[e := NUL], Some (e + 1)))"
proof -
  let ?w = "takeWhile (\<lambda>c. c \<notin> set delim) b"
  have s1: "strtok_scan (is_delim delim) (drop p buf) = Some (length a)"
    using strtok_scan_word [of "a @ b" "is_delim delim" r] takeWhile_delim [of "a @ b" delim] nn ab
    by (simp add: buf p)
  have d: "drop (p + length a) buf = b @ NUL # r" using p by (simp add: buf)
  have s2: "strtok_scan (\<lambda>c. \<not> is_delim delim c) (drop (p + length a) buf) = Some (length ?w)"
    unfolding d using strtok_scan_word [of b] takeWhile_delim [of b delim] nn by simp
  have n1: "buf ! (p + length a) = (b @ NUL # r) ! 0"
    using d by (simp add: buf p nth_append)
  have n2: "buf ! (p + length a + length ?w) = (b @ NUL # r) ! length ?w"
    using p by (simp add: buf nth_append)
  have lt: "?w \<noteq> b \<longleftrightarrow> length ?w < length b"
    by (metis length_takeWhile_le le_neq_implies_less nat_less_le takeWhile_eq_take take_all_iff)
  have n3: "buf ! (p + length a + length ?w) \<noteq> NUL \<longleftrightarrow> ?w \<noteq> b"
  proof (cases "?w = b")
    case True
    then have "length ?w = length b" by (rule arg_cong)
    then show ?thesis unfolding n2 using True by (simp only: nth_append) simp
  next
    case False
    with lt have len: "length ?w < length b" by blast
    then have "b ! length ?w \<in> set b" by (rule nth_mem)
    with nn(2) have "b ! length ?w \<noteq> NUL" by metis
    with False show ?thesis unfolding n2 by (simp only: nth_append len if_True)
  qed
  show ?thesis
  proof (cases b)
    case Nil
    then show ?thesis using st s1 n1 by (simp add: strtok_def Let_def)
  next
    case (Cons x xs)
    then have "buf ! (p + length a) \<noteq> NUL" using n1 nn(2) by auto
    then show ?thesis
      using st s1 s2 n3 Cons by (auto simp: strtok_def Let_def)
  qed
qed

lemma strtok_token:
  assumes nul: "NUL \<in> set (drop p buf)" and d: "NUL \<notin> set delim"
    and st: "(if str \<noteq> None then str else st) = Some p"
  shows "case tokens delim (string_at buf p) of
     [] \<Rightarrow> \<exists>q. strtok str delim buf st = Some (None, buf, Some q)
   | w # ws \<Rightarrow> \<exists>t buf' q. strtok str delim buf st = Some (Some t, buf', Some q)
       \<and> string_at buf' t = w \<and> NUL \<in> set (drop q buf') \<and> tokens delim (string_at buf' q) = ws
       \<and> length buf' = length buf \<and> p \<le> t \<and> t + length w \<le> q \<and> take t buf' = take t buf"
proof -
  from string_at_split [OF nul] obtain pre r where
    buf: "buf = pre @ string_at buf p @ NUL # r" and p: "length pre = p"
    and nn: "NUL \<notin> set (string_at buf p)" .
  define a b where "a = takeWhile (\<lambda>c. c \<in> set delim) (string_at buf p)"
    and "b = dropWhile (\<lambda>c. c \<in> set delim) (string_at buf p)"
  have ab: "string_at buf p = a @ b" by (simp add: a_def b_def)
  have nab: "NUL \<notin> set a" "NUL \<notin> set b" using nn ab by auto
  have buf': "buf = pre @ a @ b @ NUL # r" using buf ab by simp
  have ta: "takeWhile (\<lambda>c. c \<in> set delim) (a @ b) = a" using ab a_def by simp
  note step = strtok_split [OF buf' p nab d ta st]
  define w where "w = takeWhile (\<lambda>c. c \<notin> set delim) b"
  define v where "v = dropWhile (\<lambda>c. c \<notin> set delim) b"
  have wv: "b = w @ v" by (simp add: w_def v_def)
  have nwv: "NUL \<notin> set w" "NUL \<notin> set v" using nab wv by auto
  have tk: "tokens delim (string_at buf p) = (if b = [] then [] else w # tokens delim (tl v))"
    unfolding tokens.simps [of delim "string_at buf p"] by (simp add: b_def w_def v_def Let_def)
  show ?thesis
  proof (cases "b = []")
    case True
    then show ?thesis using step tk by auto
  next
    case b: False
    show ?thesis
    proof (cases v)
      case Nil
      then have wb: "w = b" using wv by simp
      have "strtok str delim buf st = Some (Some (p + length a), buf, Some (p + length a + length b))"
        using step b wb [unfolded w_def] by (simp only: Let_def if_False if_True simp_thms)
      moreover have "string_at buf (p + length a) = w"
        using string_at_append [OF nwv(1), of "pre @ a" "p + length a" r] p buf' wb by simp
      moreover have "drop (p + length a + length b) buf = NUL # r" using p buf' by simp
      moreover have "string_at buf (p + length a + length b) = []"
        using calculation(3) by (simp add: string_at_def)
      moreover have "tokens delim (tl v) = tokens delim []" using Nil by simp
      ultimately show ?thesis using tk b wb by auto
    next
      case (Cons x v')
      then have wb: "w \<noteq> b" using wv by auto
      let ?e = "p + length a + length w"
      have r: "strtok str delim buf st = Some (Some (p + length a), buf[?e := NUL], Some (?e + 1))"
        using step b wb by (simp add: w_def [symmetric] Let_def)
      have up: "buf[?e := NUL] = (pre @ a) @ w @ NUL # v' @ NUL # r"
        using buf' p wv Cons by (simp add: list_update_append)
      have w: "string_at (buf[?e := NUL]) (p + length a) = w"
        unfolding up using nwv(1) p by (intro string_at_append) simp_all
      have dr: "drop (?e + 1) (buf[?e := NUL]) = v' @ NUL # r"
        unfolding up using p by simp
      have v': "string_at (buf[?e := NUL]) (?e + 1) = tl v"
        unfolding string_at_def dr using nwv(2) Cons by (simp add: takeWhile_NUL)
      have "NUL \<in> set (drop (?e + 1) (buf[?e := NUL]))" unfolding dr by simp
      moreover have "take (p + length a) (buf[?e := NUL]) = take (p + length a) buf" by simp
      moreover have "length (buf[?e := NUL]) = length buf" by simp
      ultimately show ?thesis
        unfolding tk if_not_P [OF b] list.case using r w v' by (metis le_add1 le_add2 add.assoc)
    qed
  qed
qed

subsection \<open>Properties\<close>

text \<open>String equality: On two C strings, \<open>strncmp\<close> bounded by \<open>n\<close> is defined and returns
  0 exactly when the first \<open>n\<close> characters agree, and \<open>strcmp\<close> returns 0 exactly when the
  strings are equal.\<close>

theorem string_compare_correct:
  assumes "NUL \<notin> set s" "NUL \<notin> set t"
  shows "(\<exists>d. strncmp (cstr s) (cstr t) n = Some d \<and> (d = 0 \<longleftrightarrow> take n s = take n t))
    \<and> (\<exists>d. strcmp (cstr s) (cstr t) = Some d \<and> (d = 0 \<longleftrightarrow> s = t))"
  using strncmp_zero [OF assms, of "[]" "[]" n] strcmp_zero [OF assms, of "[]" "[]"]
  by (simp add: cstr_def)

theorem string_compare_correct_witness:
  "(\<exists>d. strncmp (cstr ''make'') (cstr ''maker'') 4 = Some d \<and> d = 0)
    \<and> (\<exists>d. strcmp (cstr ''make'') (cstr ''maker'') = Some d \<and> d \<noteq> 0)"
proof -
  have "NUL \<notin> set ''make''" "NUL \<notin> set ''maker''" by simp_all
  from string_compare_correct [OF this, of 4] show ?thesis by simp
qed

text \<open>Bounded copy, in range: When the source is shorter than the bound and the field has
  room, \<open>strncpy\<close> stores the source, fills the rest of the bound with NUL and leaves what
  follows unchanged.\<close>

theorem strncpy_pads:
  assumes "NUL \<notin> set s" "length s < n" "n \<le> length d"
  shows "strncpy d (cstr s) n = Some (s @ replicate (n - length s) NUL @ drop n d)"
  using strncpy_short [OF assms, of "[]"] by (simp add: cstr_def)

theorem strncpy_pads_witness:
  "strncpy ''????????'' (cstr ''abc'') 5 = Some (''abc'' @ [NUL, NUL] @ ''???'')"
  using strncpy_pads [of "''abc''" 5 "''????????''"] by (simp add: numeral_eq_Suc)

text \<open>Bounded copy, overrun: A source that is at least as long as the bound makes
  \<open>strncpy\<close> leave its field: the count has wrapped when the padding loop starts, and unless
  the object has 4294967295 further bytes the loop writes past its end.\<close>

theorem strncpy_overruns:
  assumes "NUL \<notin> set s" "n \<le> length s" "length d < SIZE_MAX"
  shows "strncpy d (cstr s) n = None"
proof -
  have "NUL \<notin> set (take n s)" using assms(1) in_set_takeD by fast
  moreover have "cstr s = take n s @ (drop n s @ [NUL])" by (simp add: cstr_def)
  ultimately show ?thesis
    using strncpy_long [of "take n s" n d "drop n s @ [NUL]"] assms(2,3) by simp
qed

theorem strncpy_overruns_witness: "strncpy ''????????'' (cstr ''abc'') 3 = None"
  using strncpy_overruns [of "''abc''" 3 "''????????''"] by (simp add: SIZE_MAX_def)

text \<open>C36 (tokens). Called at a position of a buffer that holds a terminator from there on,
  \<open>strtok\<close> yields NULL when the rest of the line has no token; otherwise it yields the
  position of the first token, terminated in place, and leaves a static pointer from which
  the remaining tokens are exactly those that followed it. Nothing before the token
  changes and every access is inside the buffer.\<close>

theorem strtok_tokens:
  assumes "NUL \<in> set (drop p buf)" "NUL \<notin> set delim" "(if str \<noteq> None then str else st) = Some p"
  shows "case tokens delim (string_at buf p) of
     [] \<Rightarrow> \<exists>q. strtok str delim buf st = Some (None, buf, Some q)
   | w # ws \<Rightarrow> \<exists>t buf' q. strtok str delim buf st = Some (Some t, buf', Some q)
       \<and> string_at buf' t = w \<and> NUL \<in> set (drop q buf') \<and> tokens delim (string_at buf' q) = ws
       \<and> length buf' = length buf \<and> p \<le> t \<and> t + length w \<le> q \<and> take t buf' = take t buf"
  using assms by (rule strtok_token)

theorem strtok_tokens_witness:
  "\<exists>t buf' q. strtok (Some 0) '' '' (cstr '' rm  a '') None = Some (Some t, buf', Some q)
     \<and> string_at buf' t = ''rm'' \<and> tokens '' '' (string_at buf' q) = [''a'']"
proof -
  have "tokens '' '' (string_at (cstr '' rm  a '') 0) = [''rm'', ''a'']"
    by (simp add: string_at_def cstr_def tokens.simps)
  with strtok_tokens [of 0 "cstr '' rm  a ''" "'' ''" "Some 0" None] show ?thesis
    by (auto simp: cstr_def)
qed

end
