(* ===== verification/NumConv.thy ===== *)
theory NumConv
  imports CString "HOL-Library.Signed_Division"
begin

text \<open>
  The number conversions of \<^verbatim>\<open>kernel.c\<close>: \<open>atoi\<close>, \<open>itoa\<close>, \<open>int_to_hex\<close>, \<open>int_to_dec\<close> and
  \<open>int_to_str\<close>. An \<open>int\<close> is a \<open>u32\<close> read as two's complement with \<open>sint\<close>; signed division
  truncates (\<open>sdiv\<close>, \<open>smod\<close>). The output buffer is the list of its bytes; a write past
  its end is \<open>None\<close>.
\<close>

subsection \<open>Operations\<close>

text \<open>Store the characters and the terminator at the start of the buffer.\<close>

definition put_string :: "char list \<Rightarrow> string \<Rightarrow> char list option" where
  "put_string buffer s =
     (if length s < length buffer then Some (s @ NUL # drop (length s + 1) buffer) else None)"

definition digit_char :: "int \<Rightarrow> char" where
  "digit_char d = char_of (d + 48)"

fun atoi_loop :: "char list \<Rightarrow> u32 \<Rightarrow> u32 option" where
  "atoi_loop [] num = None"
| "atoi_loop (c # s) num =
     (if c \<noteq> NUL then
        (if uchar CHR ''0'' \<le> uchar c \<and> uchar c \<le> uchar CHR ''9''
         then atoi_loop s (num * 10 + of_int (uchar c - uchar CHR ''0''))
         else Some num)
      else Some num)"

definition atoi :: "char list \<Rightarrow> u32 option" where
  "atoi s =
     (case s of
        [] \<Rightarrow> None
      | c # s' \<Rightarrow> if c = CHR ''-'' then map_option (\<lambda>num. - 1 * num) (atoi_loop s' 0)
                 else map_option (\<lambda>num. 1 * num) (atoi_loop s 0))"

text \<open>The do-while loop of \<open>itoa\<close>: digits, least significant first.\<close>

function itoa_digits :: "int \<Rightarrow> string" where
  "itoa_digits n =
     digit_char (n smod 10) # (if n sdiv 10 > 0 then itoa_digits (n sdiv 10) else [])"
  by pat_completeness auto
termination
proof (relation "measure (\<lambda>n. nat n)")
  fix n :: int assume "n sdiv 10 > 0"
  then have "n > 0" by (auto simp: signed_divide_int_def sgn_if split: if_splits)
  then show "(n sdiv 10, n) \<in> measure nat"
    by (simp add: signed_divide_int_def sgn_if)
qed simp

declare itoa_digits.simps [simp del]

text \<open>The in-place reversal loop of \<open>itoa\<close>.\<close>

definition swap_loop :: "string \<Rightarrow> string" where
  "swap_loop str = (let i = length str in
     fold (\<lambda>j s. s[j := s ! (i - j - 1), i - j - 1 := s ! j]) [0..<i div 2] str)"

definition itoa :: "u32 \<Rightarrow> char list \<Rightarrow> char list option" where
  "itoa n str =
     (let sign = sint n;
          v = (if sign < 0 then sint (- n) else sint n);
          ds = itoa_digits v @ (if sign < 0 then ''-'' else [])
      in put_string str (swap_loop ds))"

definition hex_chars :: string where "hex_chars = ''0123456789ABCDEF''"

definition int_to_hex :: "u32 \<Rightarrow> char list \<Rightarrow> char list option" where
  "int_to_hex num buffer =
     put_string buffer (''0x'' @
       map (\<lambda>i. hex_chars ! unat (drop_bit ((7 - i) * 4) num AND 15)) [0..<8])"

text \<open>The digit loop of \<open>int_to_dec\<close> stops when the value is 0 or 15 digits are stored.\<close>

function dec_loop :: "u32 \<Rightarrow> nat \<Rightarrow> string" where
  "dec_loop num pos =
     (if num > 0 \<and> pos < 15
      then digit_char (uint (num mod 10)) # dec_loop (num div 10) (pos + 1) else [])"
  by pat_completeness auto
termination
  by (relation "measure (\<lambda>(num, pos). 15 - pos)") auto

declare dec_loop.simps [simp del]

definition int_to_dec :: "u32 \<Rightarrow> char list \<Rightarrow> char list option" where
  "int_to_dec num buffer =
     (if num = 0 then put_string buffer ''0''
      else put_string buffer (rev (dec_loop num 0)))"

text \<open>\<open>int_to_str\<close>: \<^verbatim>\<open>temp\<close> has 10 bytes; a further digit would be out of range.\<close>

function str_loop :: "int \<Rightarrow> nat \<Rightarrow> string option" where
  "str_loop v j =
     (if v \<noteq> 0 then
        (if j < 10 then map_option ((#) (digit_char (v smod 10))) (str_loop (v sdiv 10) (j + 1))
         else None)
      else Some [])"
  by pat_completeness auto
termination
  by (relation "measure (\<lambda>(v, j). 10 - j)") auto

declare str_loop.simps [simp del]

definition int_to_str :: "u32 \<Rightarrow> char list \<Rightarrow> char list option" where
  "int_to_str value buffer =
     (if sint value = 0 then put_string buffer ''0''
      else Option.bind (str_loop (sint value) 0) (\<lambda>temp. put_string buffer (rev temp)))"

subsection \<open>Decimal notation\<close>

text \<open>The reference: decimal notation of a natural number, and the value of a digit string.\<close>

fun dec :: "nat \<Rightarrow> string" where
  "dec n = (if n < 10 then [digit_char (int n)] else dec (n div 10) @ [digit_char (int (n mod 10))])"

declare dec.simps [simp del]

lemma dec_0: "dec 0 = ''0''"
  by (simp add: dec.simps [of 0] digit_char_def char_of_eq_iff)

lemma sdiv_nat: "int n sdiv 10 = int (n div 10)" "int n smod 10 = int (n mod 10)"
  by (auto simp: signed_divide_int_def signed_modulo_int_def sgn_if zdiv_int zmod_int
      minus_div_mult_eq_mod [symmetric])

lemma itoa_digits_dec: "itoa_digits (int n) = rev (dec n)"
proof (induction n rule: dec.induct)
  case (1 n)
  show ?case
  proof (cases "n < 10")
    case True
    then have "itoa_digits (int n) = [digit_char (int n)]"
      by (simp add: itoa_digits.simps [of "int n"] sdiv_nat)
    then show ?thesis using True by (simp add: dec.simps [of n])
  next
    case False
    then have "n div 10 > 0" by auto
    with False "1" show ?thesis
      by (simp add: itoa_digits.simps [of "int n"] dec.simps [of n] sdiv_nat)
  qed
qed

lemma uchar_digit: "0 \<le> d \<Longrightarrow> d < 10 \<Longrightarrow> uchar (digit_char d) = d + 48"
  by (simp add: digit_char_def)

lemma digit_not_NUL: "0 \<le> d \<Longrightarrow> d < 10 \<Longrightarrow> digit_char d \<noteq> NUL"
  using uchar_digit [of d] by auto

lemma atoi_loop_digit:
  "0 \<le> d \<Longrightarrow> d < 10 \<Longrightarrow> atoi_loop (digit_char d # s) num = atoi_loop s (num * 10 + of_int d)"
  by (simp add: uchar_digit digit_not_NUL)

lemma atoi_loop_dec: "atoi_loop (dec n @ s) 0 = atoi_loop s (of_nat n)"
proof (induction n arbitrary: s rule: dec.induct)
  case (1 n)
  show ?case
  proof (cases "n < 10")
    case True
    then show ?thesis
      using atoi_loop_digit [of "int n" s 0] by (simp add: dec.simps [of n])
  next
    case False
    have "atoi_loop (dec n @ s) 0 = atoi_loop (digit_char (int (n mod 10)) # s) (of_nat (n div 10))"
      using False "1" by (simp add: dec.simps [of n])
    also have "\<dots> = atoi_loop s (of_nat (n div 10) * 10 + of_nat (n mod 10))"
      by (subst atoi_loop_digit) simp_all
    also have "of_nat (n div 10) * 10 + of_nat (n mod 10) = (of_nat (n div 10 * 10 + n mod 10) :: u32)"
      by (simp only: of_nat_add of_nat_mult of_nat_numeral)
    finally show ?thesis by simp
  qed
qed

lemma dec_nonempty: "dec n \<noteq> []"
  by (subst dec.simps) simp

lemma length_dec: "n < 10 ^ k \<Longrightarrow> 0 < k \<Longrightarrow> length (dec n) \<le> k"
proof (induction n arbitrary: k rule: dec.induct)
  case (1 n)
  show ?case
  proof (cases "n < 10")
    case True
    with "1.prems" show ?thesis by (simp add: dec.simps [of n])
  next
    case False
    with "1.prems" obtain k' where k: "k = Suc k'" "0 < k'"
      by (cases k; cases "k - 1") auto
    with "1.prems" have "n div 10 < 10 ^ k'" by auto
    from "1.IH" [OF False this k(2)] False k show ?thesis by (simp add: dec.simps [of n])
  qed
qed

lemma dec_no_minus: "hd (dec n) \<noteq> CHR ''-''"
proof (induction n rule: dec.induct)
  case (1 n)
  have "digit_char (int n) \<noteq> CHR ''-''" if "n < 10"
    using that uchar_digit [of "int n"] by auto
  with "1" show ?case by (subst dec.simps) (auto simp: dec_nonempty hd_append)
qed

subsection \<open>The reversal loop reverses\<close>

lemma swap_loop_invariant:
  fixes str :: string
  assumes "k \<le> length str div 2"
  shows "fold (\<lambda>j s. s[j := s ! (length str - j - 1), length str - j - 1 := s ! j]) [0..<k] str
    = map (\<lambda>i. if i < k \<or> length str - k \<le> i then str ! (length str - i - 1) else str ! i) [0..<length str]"
  using assms
proof (induction k)
  case 0
  then show ?case by (auto intro: nth_equalityI)
next
  case (Suc k)
  let ?n = "length str" and ?f = "\<lambda>j s. s[j := s ! (length str - j - 1), length str - j - 1 := s ! j]"
  define s where "s = fold ?f [0..<k] str"
  have k: "k < ?n - k - 1" "k < ?n" using Suc.prems by auto
  have s: "length s = ?n" "\<And>i. i < ?n \<Longrightarrow> s ! i = (if i < k \<or> ?n - k \<le> i then str ! (?n - i - 1) else str ! i)"
    using Suc by (auto simp: s_def)
  have "s ! k = str ! k" "s ! (?n - k - 1) = str ! (?n - k - 1)"
    using s(2) [of k] s(2) [of "?n - k - 1"] k by auto
  then have step: "fold ?f [0..<Suc k] str = s[k := str ! (?n - k - 1), ?n - k - 1 := str ! k]"
    by (simp add: s_def)
  have "s[k := str ! (?n - k - 1), ?n - k - 1 := str ! k] ! i
      = (if i < Suc k \<or> ?n - Suc k \<le> i then str ! (?n - i - 1) else str ! i)" if "i < ?n" for i
  proof -
    consider "i = k" | "i = ?n - k - 1" | "i \<noteq> k" "i \<noteq> ?n - k - 1" by blast
    then show ?thesis
    proof cases
      case 3
      then have "i < Suc k \<longleftrightarrow> i < k" "?n - Suc k \<le> i \<longleftrightarrow> ?n - k \<le> i" using k by arith+
      with 3 s(2) [OF that] show ?thesis by simp
    qed (use k s(1) in \<open>simp_all add: nth_list_update\<close>)
  qed
  then show ?case unfolding step using s(1) by (auto intro: nth_equalityI)
qed

lemma swap_loop_rev: "swap_loop str = rev str"
proof -
  have "str ! i = str ! (length str - i - 1)"
    if "\<not> (i < length str div 2 \<or> length str - length str div 2 \<le> i)" for i
  proof -
    from that have "length str - i - 1 = i" by arith
    then show ?thesis by simp
  qed
  then show ?thesis
    unfolding swap_loop_def Let_def swap_loop_invariant [OF order_refl]
    by (intro nth_equalityI) (auto simp: rev_nth)
qed

lemma itoa_eq:
  assumes "sint n \<noteq> - 2147483648"
  shows "itoa n str = put_string str ((if sint n < 0 then ''-'' else []) @ dec (nat \<bar>sint n\<bar>))"
proof -
  have "(if sint n < 0 then sint (- n) else sint n) = int (nat \<bar>sint n\<bar>)"
  proof (cases "sint n < 0")
    case True
    have "sint n \<ge> - (2 ^ 31)" using sint_ge [of n] by simp
    with assms True have "sint (- n) = - sint n"
      by (simp add: sint_word_ariths signed_take_bit_int_eq_self)
    with True show ?thesis by simp
  qed simp
  then have "itoa_digits (if sint n < 0 then sint (- n) else sint n) = rev (dec (nat \<bar>sint n\<bar>))"
    by (simp only: itoa_digits_dec)
  then show ?thesis
    by (simp only: itoa_def Let_def swap_loop_rev) simp
qed

lemma dec_loop_eq:
  assumes "unat num < 10 ^ k" "pos + k \<le> 15" "num \<noteq> 0"
  shows "rev (dec_loop num pos) = dec (unat num)"
  using assms
proof (induction num pos arbitrary: k rule: dec_loop.induct)
  case (1 num pos)
  have k: "0 < k" using "1.prems" by (cases k) (auto simp: unat_eq_zero)
  have run: "dec_loop num pos = digit_char (uint (num mod 10)) # dec_loop (num div 10) (pos + 1)"
    using "1.prems" k by (simp add: dec_loop.simps [of num pos] word_gt_0)
  have dm: "unat (num div 10) = unat num div 10" "uint (num mod 10) = int (unat num mod 10)"
    by (simp_all add: unat_div uint_mod zmod_int)
  show ?case
  proof (cases "unat num < 10")
    case True
    then have "num div 10 = 0" using dm(1) by (simp add: unat_eq_zero [symmetric])
    then show ?thesis
      using True run dm(2) by (simp add: dec_loop.simps [of 0] dec.simps [of "unat num"])
  next
    case False
    then have "num div 10 \<noteq> 0" using dm(1) by (auto simp: unat_eq_zero [symmetric])
    moreover have "unat (num div 10) < 10 ^ (k - 1)"
      using "1.prems"(1) k dm(1) by (cases k) auto
    ultimately have "rev (dec_loop (num div 10) (pos + 1)) = dec (unat (num div 10))"
      using "1.prems" k by (intro "1.IH" [of "k - 1"]) (auto simp: word_gt_0)
    then show ?thesis using False run dm by (simp add: dec.simps [of "unat num"])
  qed
qed

lemma str_loop_eq:
  assumes "0 < n" "n < 10 ^ k" "j + k \<le> 10"
  shows "map_option rev (str_loop (int n) j) = Some (dec n)"
  using assms
proof (induction n arbitrary: j k rule: dec.induct)
  case (1 n)
  have k: "0 < k" using "1.prems" by (cases k) auto
  have run: "str_loop (int n) j
      = map_option ((#) (digit_char (int (n mod 10)))) (str_loop (int (n div 10)) (j + 1))"
    using "1.prems" k by (simp add: str_loop.simps [of "int n"] sdiv_nat)
  show ?case
  proof (cases "n < 10")
    case True
    then show ?thesis
      using run by (simp add: str_loop.simps [of 0] dec.simps [of n])
  next
    case False
    have "n div 10 < 10 ^ (k - 1)" using "1.prems"(2) k by (cases k) auto
    with False "1.prems" k have "map_option rev (str_loop (int (n div 10)) (j + 1)) = Some (dec (n div 10))"
      by (intro "1.IH" [of "k - 1"]) auto
    then show ?thesis using False run by (auto simp: dec.simps [of n])
  qed
qed

lemma nibble: "unat (drop_bit k (w :: u32) AND 15) = unat w div 2 ^ k mod 16"
proof -
  have "drop_bit k w AND 15 = take_bit 4 (drop_bit k w)"
    by (simp only: take_bit_eq_mask mask_eq_exp_minus_1) simp
  then have "unat (drop_bit k w AND 15) = take_bit 4 (unat (drop_bit k w))"
    by (simp only: unsigned_take_bit_eq)
  also have "unat (drop_bit k w) = drop_bit k (unat w)"
    using unsigned_less [of w, where 'a = nat] by (simp add: unsigned_drop_bit_eq take_bit_nat_eq_self)
  finally show ?thesis by (simp add: take_bit_eq_mod drop_bit_eq_div)
qed

text \<open>The value of a string of hexadecimal digits.\<close>

definition hex_value :: "string \<Rightarrow> nat" where
  "hex_value s = foldl (\<lambda>a c. a * 16 +
     (if uchar c < 58 then nat (uchar c - 48) else nat (uchar c - 55))) 0 s"

lemma hex_chars_value:
  assumes "d < 16"
  shows "(if uchar (hex_chars ! d) < 58 then nat (uchar (hex_chars ! d) - 48)
    else nat (uchar (hex_chars ! d) - 55)) = d"
proof -
  have "\<forall>d \<in> set [0..<16]. (if uchar (hex_chars ! d) < 58 then nat (uchar (hex_chars ! d) - 48)
    else nat (uchar (hex_chars ! d) - 55)) = d"
    by code_simp
  with assms show ?thesis by simp
qed

lemma hex_value_snoc: "d < 16 \<Longrightarrow> hex_value (s @ [hex_chars ! d]) = hex_value s * 16 + d"
  using hex_chars_value [of d] by (simp add: hex_value_def)

lemma hex_digits_value:
  assumes "k \<le> 8"
  shows "hex_value (map (\<lambda>i. hex_chars ! unat (drop_bit ((7 - i) * 4) (num :: u32) AND 15)) [0..<k])
    = unat num div 2 ^ ((8 - k) * 4)"
  using assms
proof (induction k)
  case 0
  have "unat num < 2 ^ 32" using unsigned_less [of num] by simp
  then show ?case by (simp add: hex_value_def)
next
  case (Suc k)
  define n where "n = unat num div 2 ^ ((7 - k) * 4)"
  have "(8 - k) * 4 = (7 - k) * 4 + 4" using Suc.prems by auto
  then have "unat num div 2 ^ ((8 - k) * 4) = n div 16"
    by (simp add: n_def power_add div_mult2_eq)
  moreover have "unat (drop_bit ((7 - k) * 4) num AND 15) = n mod 16"
    by (simp add: nibble n_def)
  ultimately show ?case
    using Suc hex_value_snoc [of "n mod 16"] by (simp add: n_def)
qed

subsection \<open>Properties\<close>

text \<open>C40 (round trip). For every \<open>int\<close> except the smallest and every buffer of 12 bytes,
  \<open>itoa\<close> stays inside the buffer and \<open>atoi\<close> reads the number back.\<close>

theorem atoi_itoa_roundtrip:
  assumes "sint n \<noteq> - 2147483648" "12 \<le> length str"
  shows "\<exists>out. itoa n str = Some out \<and> length out = length str \<and> atoi out = Some n"
proof -
  define k where "k = nat \<bar>sint n\<bar>"
  have "- (2 ^ 31) \<le> sint n" "sint n < 2 ^ 31"
    using sint_ge [of n] sint_lt [of n] by simp_all
  then have "k < 10 ^ 10" unfolding k_def by simp
  then have len: "length (dec k) \<le> 10" by (rule length_dec) simp
  have n: "(if sint n < 0 then - of_nat k else of_nat k) = n"
  proof -
    have "(of_nat k :: u32) = of_int \<bar>sint n\<bar>" by (simp add: k_def of_nat_nat)
    then show ?thesis by (cases "sint n < 0") simp_all
  qed
  let ?out = "((if sint n < 0 then ''-'' else []) @ dec k)"
  have "length ?out < length str" using len assms(2) by simp
  then have "itoa n str = Some (?out @ NUL # drop (length ?out + 1) str)"
    unfolding itoa_eq [OF assms(1), of str, folded k_def] by (simp only: put_string_def if_True)
  moreover have "atoi (?out @ NUL # drop (length ?out + 1) str) = Some n"
  proof (cases "sint n < 0")
    case True
    with n show ?thesis by (simp add: atoi_def atoi_loop_dec)
  next
    case False
    obtain c cs where c: "dec k = c # cs" using dec_nonempty [of k] by (cases "dec k") auto
    with dec_no_minus [of k] have "c \<noteq> CHR ''-''" by simp
    with False n c atoi_loop_dec [of k "NUL # drop (length (dec k) + 1) str"] show ?thesis
      by (simp add: atoi_def)
  qed
  moreover have "length (?out @ NUL # drop (length ?out + 1) str) = length str"
    using \<open>length ?out < length str\<close> by simp
  ultimately show ?thesis by blast
qed

theorem atoi_itoa_roundtrip_witness:
  "\<exists>out. itoa (- 340) (replicate 12 CHR ''?'') = Some out \<and> atoi out = Some (- 340)"
  using atoi_itoa_roundtrip [of "- 340" "replicate 12 CHR ''?''"] by (auto simp: sint_word_ariths)

text \<open>Decimal printers agree: \<open>int_to_dec\<close> on every unsigned value, \<open>int_to_str\<close> on every
  non-negative \<open>int\<close> and \<open>itoa\<close> on every non-negative \<open>int\<close> store the same text, the decimal
  notation without leading zeros, and their digit buffers of 16 and 10 bytes suffice.\<close>

theorem decimal_printers_agree:
  assumes "0 \<le> sint v"
  shows "int_to_dec num buffer = put_string buffer (dec (unat num))
    \<and> int_to_str v buffer = put_string buffer (dec (nat (sint v)))
    \<and> itoa v buffer = put_string buffer (dec (nat (sint v)))"
proof (intro conjI)
  have "unat num < 2 ^ 32" using unsigned_less [of num] by simp
  then have "unat num < 10 ^ 10" by simp
  from dec_loop_eq [OF this, of 0]
  show "int_to_dec num buffer = put_string buffer (dec (unat num))"
    by (auto simp: int_to_dec_def dec_0)
  define n where "n = nat (sint v)"
  have v: "sint v = int n" using assms by (simp add: n_def)
  have "sint v < 2 ^ 31" using sint_lt [of v] by simp
  then have "n < 10 ^ 10" by (simp add: v)
  from str_loop_eq [OF _ this, of 0]
  show "int_to_str v buffer = put_string buffer (dec (nat (sint v)))"
    by (cases "n = 0") (auto simp: int_to_str_def v dec_0)
  show "itoa v buffer = put_string buffer (dec (nat (sint v)))"
    using assms itoa_eq [of v buffer] by simp
qed

theorem decimal_printers_agree_witness:
  "int_to_str 30 ''..........'' = put_string ''..........'' ''30''"
proof -
  have "(0 :: int) \<le> sint (30 :: u32)" by simp
  from decimal_printers_agree [OF this, of 30 "''..........''"]
  have "int_to_str 30 ''..........'' = put_string ''..........'' (dec 30)" by simp
  also have "dec 30 = ''30''" by (simp add: dec.simps digit_char_def char_of_eq_iff)
  finally show ?thesis .
qed

text \<open>Hexadecimal: Into a buffer of at least 11 bytes \<open>int_to_hex\<close> writes \<^verbatim>\<open>0x\<close> and eight
  digits whose value is the number.\<close>

theorem int_to_hex_value:
  assumes "11 \<le> length buffer"
  shows "\<exists>ds. int_to_hex num buffer = Some (''0x'' @ ds @ NUL # drop 11 buffer)
    \<and> length ds = 8 \<and> hex_value ds = unat num"
  using assms hex_digits_value [of 8 num] by (simp add: int_to_hex_def put_string_def)

theorem int_to_hex_value_witness:
  "\<exists>ds. int_to_hex 48879 ''................'' = Some (''0x'' @ ds @ NUL # drop 11 ''................'')
    \<and> hex_value ds = 48879"
  using int_to_hex_value [of "''................''" 48879] by auto

text \<open>Negative numbers. \<open>itoa\<close> prints the smallest \<open>int\<close> as the two characters
  \<^verbatim>\<open>-(\<close>, because its negation overflows, and \<open>int_to_str\<close> prints no sign and takes
  characters below \<^verbatim>\<open>0\<close> for a negative number: -5 becomes \<^verbatim>\<open>+\<close>.\<close>

theorem negative_printing:
  "itoa 2147483648 buffer = put_string buffer ''-(''
   \<and> int_to_str (- 5) buffer = put_string buffer ''+''"
proof
  have "itoa_digits (- 2147483648) = ''(''"
    by (simp add: itoa_digits.simps signed_divide_int_def signed_modulo_int_def digit_char_def char_of_eq_iff)
  then show "itoa 2147483648 buffer = put_string buffer ''-(''"
    by (simp add: itoa_def Let_def swap_loop_rev)
  have "str_loop (- 5) 0 = Some ''+''"
    by (simp add: str_loop.simps signed_divide_int_def signed_modulo_int_def digit_char_def char_of_eq_iff)
  then show "int_to_str (- 5) buffer = put_string buffer ''+''"
    by (simp add: int_to_str_def sint_word_ariths)
qed

end
