(* ===== verification/FileSystem.thy ===== *)
theory FileSystem
  imports CString
begin

text \<open>
  The in-memory file system of \<^verbatim>\<open>filesystem/filesystem.c\<close>: 256 inodes with four direct
  block pointers each, a flat root directory, 1024 blocks of 4096 bytes and a block
  bitmap. This theory holds the state and the operations; \<open>FileInv\<close> and \<open>FileSpec\<close> hold
  the invariant and the abstract view.

  The C functions return -1 on every error and print which one; the model returns the
  message as an \<open>fs_error\<close>. Debug output itself is not modelled. A \<open>size_t\<close> local is a
  \<open>nat\<close>: each is bounded by an argument or by a field before it is added to another.
\<close>

subsection \<open>State\<close>

abbreviation BLOCK_COUNT :: nat where "BLOCK_COUNT \<equiv> 1024"
abbreviation BLOCK_SIZE :: nat where "BLOCK_SIZE \<equiv> 4096"
abbreviation MAX_BLOCKS_PER_FILE :: nat where "MAX_BLOCKS_PER_FILE \<equiv> 4"
abbreviation MAX_FILES :: nat where "MAX_FILES \<equiv> 256"
abbreviation MAX_FILENAME_LEN :: nat where "MAX_FILENAME_LEN \<equiv> 255"

text \<open>The block pointer -1, stored in an unsigned field.\<close>

definition no_block :: u32 where "no_block = - 1"

record Superblock =
  inode_count :: u32
  block_count :: u32
  free_inodes :: u32
  free_blocks :: u32
  magic :: u16
  volume_name :: "char list"

record Inode =
  inode_number :: u32
  file_size :: u32
  file_blocks :: "nat \<Rightarrow> u32"
  permissions :: u16

record DirectoryEntry =
  filename :: "char list"
  entry_inode :: u32

record fs_state =
  sb :: Superblock
  inode_table :: "nat \<Rightarrow> Inode"
  root_directory :: "nat \<Rightarrow> DirectoryEntry"
  storage :: "nat \<Rightarrow> nat \<Rightarrow> char"
  block_bitmap :: "nat \<Rightarrow> int"

datatype fs_error =
    NoFreeInode | NoFreeBlock | RootDirectoryFull | FileNotFound | PermissionDenied | AtMaxSize

type_synonym 'a fs_result = "(fs_state \<times> (fs_error + 'a)) option"

subsection \<open>Access helpers\<close>

definition set_inode :: "nat \<Rightarrow> (Inode \<Rightarrow> Inode) \<Rightarrow> fs_state \<Rightarrow> fs_state" where
  "set_inode i f s = s\<lparr>inode_table := (inode_table s)(i := f (inode_table s i))\<rparr>"

definition set_entry :: "nat \<Rightarrow> (DirectoryEntry \<Rightarrow> DirectoryEntry) \<Rightarrow> fs_state \<Rightarrow> fs_state" where
  "set_entry i f s = s\<lparr>root_directory := (root_directory s)(i := f (root_directory s i))\<rparr>"

text \<open>\<open>memcpy\<close> into a storage block or into a caller's buffer at an offset.\<close>

definition copy_in :: "(nat \<Rightarrow> char) \<Rightarrow> nat \<Rightarrow> char list \<Rightarrow> nat \<Rightarrow> char" where
  "copy_in f off bs = (\<lambda>i. if off \<le> i \<and> i < off + length bs then bs ! (i - off) else f i)"

definition copy_out :: "char list \<Rightarrow> nat \<Rightarrow> char list \<Rightarrow> char list option" where
  "copy_out buffer off bs =
     (if off + length bs \<le> length buffer
      then Some (take off buffer @ bs @ drop (off + length bs) buffer) else None)"

definition slice :: "char list \<Rightarrow> nat \<Rightarrow> nat \<Rightarrow> char list option" where
  "slice buffer off n = (if off + n \<le> length buffer then Some (take n (drop off buffer)) else None)"

subsection \<open>Formatting\<close>

definition format_disk :: "fs_state \<Rightarrow> fs_state option" where
  "format_disk s = do {
     name \<leftarrow> strncpy (volume_name (sb s)) (cstr ''ApnaFS'') 16;
     Some (s\<lparr>sb := \<lparr>inode_count = of_nat MAX_FILES, block_count = of_nat BLOCK_COUNT,
           free_inodes = of_nat MAX_FILES, free_blocks = of_nat BLOCK_COUNT,
           magic = 0xEF53, volume_name = name[15 := NUL]\<rparr>,
         inode_table := fold (\<lambda>i t. t(i := (t i)\<lparr>inode_number := 0, file_size := 0,
             file_blocks := (\<lambda>j. if j < MAX_BLOCKS_PER_FILE then no_block else file_blocks (t i) j)\<rparr>))
           [0..<MAX_FILES] (inode_table s),
         root_directory := fold (\<lambda>i t. t(i := (t i)\<lparr>entry_inode := 0\<rparr>))
           [0..<MAX_FILES] (root_directory s),
         block_bitmap := fold (\<lambda>i t. t(i := 0)) [0..<BLOCK_COUNT] (block_bitmap s)\<rparr>)
   }"

definition create_file_system :: "fs_state \<Rightarrow> fs_state option" where
  "create_file_system s = format_disk s"

subsection \<open>Allocation of inodes and blocks\<close>

definition allocate_inode :: "fs_state \<Rightarrow> fs_state \<times> nat option" where
  "allocate_inode s =
     (case find_first (\<lambda>i. inode_number (inode_table s i) = 0) 0 MAX_FILES of
        Some i \<Rightarrow>
          (set_inode i (inode_number_update (\<lambda>_. of_nat (i + 1))) s
             \<lparr>sb := (sb s)\<lparr>free_inodes := free_inodes (sb s) - 1\<rparr>\<rparr>, Some i)
      | None \<Rightarrow> (s, None))"

definition allocate_block :: "fs_state \<Rightarrow> fs_state \<times> nat option" where
  "allocate_block s =
     (case find_first (\<lambda>i. block_bitmap s i = 0) 0 BLOCK_COUNT of
        Some i \<Rightarrow>
          (s\<lparr>block_bitmap := (block_bitmap s)(i := 1),
             sb := (sb s)\<lparr>free_blocks := free_blocks (sb s) - 1\<rparr>\<rparr>, Some i)
      | None \<Rightarrow> (s, None))"

text \<open>The loop of \<open>allocate_blocks\<close> fills the slots that hold -1 until enough are filled.\<close>

function allocate_blocks_loop :: "nat \<Rightarrow> nat \<Rightarrow> nat \<Rightarrow> nat \<Rightarrow> fs_state \<Rightarrow> fs_state \<times> nat" where
  "allocate_blocks_loop inode_index required i allocated s =
     (if i < MAX_BLOCKS_PER_FILE \<and> allocated < required then
        (if file_blocks (inode_table s inode_index) i = no_block then
           (case allocate_block s of
              (s', None) \<Rightarrow> (s', allocated)
            | (s', Some b) \<Rightarrow>
                allocate_blocks_loop inode_index required (i + 1) (allocated + 1)
                  (set_inode inode_index (\<lambda>n. n\<lparr>file_blocks := (file_blocks n)(i := of_nat b)\<rparr>) s'))
         else allocate_blocks_loop inode_index required (i + 1) allocated s)
      else (s, allocated))"
  by pat_completeness auto
termination
  by (relation "measure (\<lambda>(_, _, i, _, _). MAX_BLOCKS_PER_FILE - i)") auto

declare allocate_blocks_loop.simps [simp del]

definition allocate_blocks :: "nat \<Rightarrow> nat \<Rightarrow> fs_state \<Rightarrow> fs_state \<times> nat" where
  "allocate_blocks inode_index required s = allocate_blocks_loop inode_index required 0 0 s"

subsection \<open>Permissions and lookup\<close>

definition check_permissions :: "u16 \<Rightarrow> int \<Rightarrow> bool" where
  "check_permissions perms mode =
     (if mode = 0 then perms AND 4 \<noteq> 0
      else if mode = 1 then perms AND 2 \<noteq> 0
      else if mode = 2 then perms AND 1 \<noteq> 0
      else False)"

text \<open>
  The loop at the head of every operation on an existing file: the first used directory
  entry whose name agrees. \<open>inode_of_entry\<close> is the index that the body computes.
\<close>

function find_entry :: "fs_state \<Rightarrow> char list \<Rightarrow> nat \<Rightarrow> nat option option" where
  "find_entry s name i =
     (if i < MAX_FILES then
        (if entry_inode (root_directory s i) \<noteq> 0 then do {
           c \<leftarrow> strncmp (filename (root_directory s i)) name MAX_FILENAME_LEN;
           if c = 0 then Some (Some i) else find_entry s name (i + 1)
         } else find_entry s name (i + 1))
      else Some None)"
  by pat_completeness auto
termination
  by (relation "measure (\<lambda>(_, _, i). MAX_FILES - i)") auto

declare find_entry.simps [simp del]

definition inode_of_entry :: "fs_state \<Rightarrow> nat \<Rightarrow> nat option" where
  "inode_of_entry s i =
     (let n = unat (entry_inode (root_directory s i) - 1) in if n < MAX_FILES then Some n else None)"

definition chmod_file :: "char list \<Rightarrow> u16 \<Rightarrow> fs_state \<Rightarrow> unit fs_result" where
  "chmod_file name new_permissions s = do {
     e \<leftarrow> find_entry s name 0;
     case e of
       None \<Rightarrow> Some (s, Inl FileNotFound)
     | Some i \<Rightarrow> do {
         n \<leftarrow> inode_of_entry s i;
         Some (set_inode n (permissions_update (\<lambda>_. new_permissions)) s, Inr ())
       }
   }"

subsection \<open>Creation and deletion\<close>

definition create_file :: "char list \<Rightarrow> fs_state \<Rightarrow> nat fs_result" where
  "create_file name s =
     (case allocate_inode s of
        (s1, None) \<Rightarrow> Some (s1, Inl NoFreeInode)
      | (s1, Some n) \<Rightarrow>
          (case allocate_block s1 of
             (s2, None) \<Rightarrow> Some (set_inode n (inode_number_update (\<lambda>_. 0)) s2, Inl NoFreeBlock)
           | (s2, Some b) \<Rightarrow>
               (let s3 = set_inode n (\<lambda>x. x\<lparr>file_size := 0,
                          file_blocks := (file_blocks x)(0 := of_nat b), permissions := 7\<rparr>) s2 in
                case find_first (\<lambda>i. entry_inode (root_directory s3 i) = 0) 0 MAX_FILES of
                  None \<Rightarrow> Some (s3, Inl RootDirectoryFull)
                | Some i \<Rightarrow> do {
                    fname \<leftarrow> strncpy (filename (root_directory s3 i)) name MAX_FILENAME_LEN;
                    Some (set_entry i (\<lambda>x. x\<lparr>filename := fname, entry_inode := of_nat (n + 1)\<rparr>) s3,
                          Inr n)
                  })))"

text \<open>The loop of \<open>delete_file\<close> over the block pointers.\<close>

fun release_blocks :: "nat list \<Rightarrow> nat \<Rightarrow> fs_state \<Rightarrow> fs_state option" where
  "release_blocks [] n s = Some s"
| "release_blocks (j # js) n s =
     (let b = file_blocks (inode_table s n) j in
      if b \<noteq> no_block then
        (if unat b < BLOCK_COUNT then
           release_blocks js n
             (set_inode n (\<lambda>x. x\<lparr>file_blocks := (file_blocks x)(j := no_block)\<rparr>)
                (s\<lparr>block_bitmap := (block_bitmap s)(unat b := 0),
                   sb := (sb s)\<lparr>free_blocks := free_blocks (sb s) + 1\<rparr>\<rparr>))
         else None)
      else release_blocks js n s)"

definition delete_file :: "char list \<Rightarrow> fs_state \<Rightarrow> unit fs_result" where
  "delete_file name s = do {
     e \<leftarrow> find_entry s name 0;
     case e of
       None \<Rightarrow> Some (s, Inl FileNotFound)
     | Some i \<Rightarrow> do {
         n \<leftarrow> inode_of_entry s i;
         if \<not> check_permissions (permissions (inode_table s n)) 1 then Some (s, Inl PermissionDenied)
         else do {
           s1 \<leftarrow> release_blocks [0..<MAX_BLOCKS_PER_FILE] n s;
           let s2 = set_inode n (\<lambda>x. x\<lparr>inode_number := 0, file_size := 0\<rparr>) s1;
           let s3 = s2\<lparr>sb := (sb s2)\<lparr>free_inodes := free_inodes (sb s2) + 1\<rparr>\<rparr>;
           fname \<leftarrow> memset (filename (root_directory s3 i)) NUL MAX_FILENAME_LEN;
           Some (set_entry i (\<lambda>x. x\<lparr>entry_inode := 0, filename := fname\<rparr>) s3, Inr ())
         }
       }
   }"

subsection \<open>Reading\<close>

text \<open>
  The loop of \<open>read_file\<close> at position \<open>rd\<close> of \<open>read_size\<close> bytes. A block number past the
  pointer array or a block index past the storage is undefined; -1 ends the loop.
\<close>

function read_loop :: "fs_state \<Rightarrow> nat \<Rightarrow> nat \<Rightarrow> nat \<Rightarrow> char list \<Rightarrow> (nat \<times> char list) option" where
  "read_loop s n read_size rd buffer =
     (if rd < read_size then
        (let block_number = rd div BLOCK_SIZE; offset = rd mod BLOCK_SIZE in
         if block_number < MAX_BLOCKS_PER_FILE then
           (let b = file_blocks (inode_table s n) block_number in
            if b = no_block then Some (rd, buffer)
            else if unat b < BLOCK_COUNT then
              (let chunk = min (BLOCK_SIZE - offset) (read_size - rd) in
               case copy_out buffer rd (map (storage s (unat b)) [offset..<offset + chunk]) of
                 None \<Rightarrow> None
               | Some buffer' \<Rightarrow> read_loop s n read_size (rd + chunk) buffer')
            else None)
         else None)
      else Some (rd, buffer))"
  by pat_completeness auto
termination
  by (relation "measure (\<lambda>(_, _, read_size, rd, _). read_size - rd)") auto

declare read_loop.simps [simp del]

definition read_file :: "char list \<Rightarrow> char list \<Rightarrow> nat \<Rightarrow> fs_state \<Rightarrow> (fs_error + nat \<times> char list) option" where
  "read_file name buffer sz s = do {
     e \<leftarrow> find_entry s name 0;
     case e of
       None \<Rightarrow> Some (Inl FileNotFound)
     | Some i \<Rightarrow> do {
         n \<leftarrow> inode_of_entry s i;
         if \<not> check_permissions (permissions (inode_table s n)) 0 then Some (Inl PermissionDenied)
         else do {
           let fsize = unat (file_size (inode_table s n));
           let read_size = (if sz > fsize then fsize else sz);
           r \<leftarrow> read_loop s n read_size 0 buffer;
           Some (Inr r)
         }
       }
   }"

subsection \<open>Writing\<close>

text \<open>The copy loop of \<open>write_file\<close> over the block pointers.\<close>

function write_loop :: "nat \<Rightarrow> char list \<Rightarrow> nat \<Rightarrow> nat \<Rightarrow> nat \<Rightarrow> fs_state \<Rightarrow> (fs_state \<times> nat) option" where
  "write_loop n buffer write_size j written s =
     (if j < MAX_BLOCKS_PER_FILE \<and> written < write_size then
        (let b = file_blocks (inode_table s n) j in
         if b = no_block then Some (s, written)
         else if unat b < BLOCK_COUNT then
           (let chunk = min BLOCK_SIZE (write_size - written) in
            case slice buffer written chunk of
              None \<Rightarrow> None
            | Some bs \<Rightarrow> write_loop n buffer write_size (j + 1) (written + chunk)
                (s\<lparr>storage := (storage s)(unat b := copy_in (storage s (unat b)) 0 bs)\<rparr>))
         else None)
      else Some (s, written))"
  by pat_completeness auto
termination
  by (relation "measure (\<lambda>(_, _, _, j, _, _). MAX_BLOCKS_PER_FILE - j)") auto

declare write_loop.simps [simp del]

definition blocks_for :: "nat \<Rightarrow> nat" where
  "blocks_for n = (n + BLOCK_SIZE - 1) div BLOCK_SIZE"

definition write_file :: "char list \<Rightarrow> char list \<Rightarrow> nat \<Rightarrow> fs_state \<Rightarrow> nat fs_result" where
  "write_file name buffer sz s = do {
     e \<leftarrow> find_entry s name 0;
     case e of
       None \<Rightarrow> Some (s, Inl FileNotFound)
     | Some i \<Rightarrow> do {
         n \<leftarrow> inode_of_entry s i;
         if \<not> check_permissions (permissions (inode_table s n)) 1 then Some (s, Inl PermissionDenied)
         else do {
           let max_size = MAX_BLOCKS_PER_FILE * BLOCK_SIZE;
           let write_size = min sz max_size;
           let current_blocks = max (unat ((file_size (inode_table s n) + of_nat BLOCK_SIZE - 1)
                 div of_nat BLOCK_SIZE)) 1;
           let needed_blocks = int (blocks_for write_size) - int current_blocks;
           let (s1, allocated) =
             (if needed_blocks > 0 then allocate_blocks n (nat needed_blocks) s else (s, 0));
           let write_size' =
             (if needed_blocks > 0 \<and> int allocated < needed_blocks
              then (current_blocks + allocated) * BLOCK_SIZE else write_size);
           (s2, written) \<leftarrow> write_loop n buffer write_size' 0 0 s1;
           Some (set_inode n (file_size_update (\<lambda>_. of_nat written)) s2, Inr written)
         }
       }
   }"

text \<open>The copy loop of \<open>append_to_file\<close>.\<close>

function append_loop ::
  "nat \<Rightarrow> char list \<Rightarrow> nat \<Rightarrow> nat \<Rightarrow> nat \<Rightarrow> fs_state \<Rightarrow> (fs_state \<times> nat) option" where
  "append_loop n buffer current_size append_size written s =
     (if written < append_size then
        (let offset = (current_size + written) mod BLOCK_SIZE;
             block_number = (current_size + written) div BLOCK_SIZE in
         if block_number < MAX_BLOCKS_PER_FILE then
           (let b = file_blocks (inode_table s n) block_number in
            if b = no_block then Some (s, written)
            else if unat b < BLOCK_COUNT then
              (let chunk = min (BLOCK_SIZE - offset) (append_size - written) in
               case slice buffer written chunk of
                 None \<Rightarrow> None
               | Some bs \<Rightarrow> append_loop n buffer current_size append_size (written + chunk)
                   (s\<lparr>storage := (storage s)(unat b := copy_in (storage s (unat b)) offset bs)\<rparr>))
            else None)
         else None)
      else Some (s, written))"
  by pat_completeness auto
termination
  by (relation "measure (\<lambda>(_, _, _, append_size, written, _). append_size - written)") auto

declare append_loop.simps [simp del]

definition append_to_file :: "char list \<Rightarrow> char list \<Rightarrow> nat \<Rightarrow> fs_state \<Rightarrow> nat fs_result" where
  "append_to_file name buffer sz s = do {
     e \<leftarrow> find_entry s name 0;
     case e of
       None \<Rightarrow> Some (s, Inl FileNotFound)
     | Some i \<Rightarrow> do {
         n \<leftarrow> inode_of_entry s i;
         if \<not> check_permissions (permissions (inode_table s n)) 1 then Some (s, Inl PermissionDenied)
         else do {
           let current_size = unat (file_size (inode_table s n));
           let max_size = MAX_BLOCKS_PER_FILE * BLOCK_SIZE;
           if current_size \<ge> max_size then Some (s, Inl AtMaxSize)
           else do {
             let append_size = min sz (max_size - current_size);
             let used = current_size mod BLOCK_SIZE;
             let space_left = (if used = 0 \<and> current_size > 0 then 0 else BLOCK_SIZE - used);
             let overflow = (if append_size > space_left then append_size - space_left else 0);
             let needed_blocks = blocks_for overflow;
             let (s1, allocated) =
               (if needed_blocks > 0 then allocate_blocks n needed_blocks s else (s, 0));
             let append_size' =
               (if needed_blocks > 0 \<and> allocated < needed_blocks
                then space_left + allocated * BLOCK_SIZE else append_size);
             (s2, written) \<leftarrow> append_loop n buffer current_size append_size' 0 s1;
             Some (set_inode n (\<lambda>x. x\<lparr>file_size := file_size x + of_nat written\<rparr>) s2, Inr written)
           }
         }
       }
   }"

subsection \<open>Listing\<close>

text \<open>\<open>list_files\<close> prints the name of every used entry, each up to its terminator.\<close>

definition name_of_entry :: "DirectoryEntry \<Rightarrow> string option" where
  "name_of_entry d = (if NUL \<in> set (filename d) then Some (string_at (filename d) 0) else None)"

fun list_loop :: "fs_state \<Rightarrow> nat list \<Rightarrow> string list option" where
  "list_loop s [] = Some []"
| "list_loop s (i # is) =
     (if entry_inode (root_directory s i) \<noteq> 0 then do {
        name \<leftarrow> name_of_entry (root_directory s i);
        names \<leftarrow> list_loop s is;
        Some (name # names)
      } else list_loop s is)"

definition list_files :: "fs_state \<Rightarrow> string list option" where
  "list_files s = list_loop s [0..<MAX_FILES]"

end
