(* ===== verification/FileInv.thy ===== *)
theory FileInv
  imports FileSystem
begin

text \<open>
  The invariant of the file system and how the allocation and release loops act on it.

  \<^item> \<open>nslots s n\<close>: how many leading block pointers of inode \<open>n\<close> are set. The invariant says
    that no pointer is set behind a hole.
  \<^item> \<open>blocks_inv\<close>: the set pointers are in range, pairwise different, exactly the blocks
    marked in the bitmap, and the superblock counts the unmarked ones.
  \<^item> \<open>inodes_inv\<close>: inode numbers, and the size of a used inode against its pointers.
  \<^item> \<open>dir_inv\<close>: the used directory entries are a bijection onto the used inodes, and names
    are terminated inside their field.
\<close>

subsection \<open>Definitions\<close>

definition bptr :: "fs_state \<Rightarrow> nat \<Rightarrow> nat \<Rightarrow> u32" where
  "bptr s n j = file_blocks (inode_table s n) j"

definition nslots :: "fs_state \<Rightarrow> nat \<Rightarrow> nat" where
  "nslots s n =
     (case find_first (\<lambda>j. bptr s n j = no_block) 0 MAX_BLOCKS_PER_FILE of
        None \<Rightarrow> MAX_BLOCKS_PER_FILE | Some j \<Rightarrow> j)"

definition free_block_set :: "fs_state \<Rightarrow> nat set" where
  "free_block_set s = {b. b < BLOCK_COUNT \<and> block_bitmap s b = 0}"

definition slots_inv :: "fs_state \<Rightarrow> bool" where
  "slots_inv s \<longleftrightarrow> (\<forall>n<MAX_FILES. \<forall>j<MAX_BLOCKS_PER_FILE. bptr s n j \<noteq> no_block \<longrightarrow> j < nslots s n)"

definition owner_inv :: "fs_state \<Rightarrow> bool" where
  "owner_inv s \<longleftrightarrow>
     (\<forall>n<MAX_FILES. \<forall>j<nslots s n. unat (bptr s n j) < BLOCK_COUNT \<and> block_bitmap s (unat (bptr s n j)) \<noteq> 0)
   \<and> (\<forall>n<MAX_FILES. \<forall>j<nslots s n. \<forall>n'<MAX_FILES. \<forall>j'<nslots s n'.
        bptr s n j = bptr s n' j' \<longrightarrow> n = n' \<and> j = j')
   \<and> (\<forall>b<BLOCK_COUNT. block_bitmap s b \<noteq> 0 \<longrightarrow> (\<exists>n<MAX_FILES. \<exists>j<nslots s n. unat (bptr s n j) = b))"

definition blocks_inv :: "fs_state \<Rightarrow> bool" where
  "blocks_inv s \<longleftrightarrow> slots_inv s \<and> owner_inv s
     \<and> free_blocks (sb s) = of_nat (card (free_block_set s))"

definition inode_used :: "fs_state \<Rightarrow> nat \<Rightarrow> bool" where
  "inode_used s n \<longleftrightarrow> inode_number (inode_table s n) \<noteq> 0"

definition fsize :: "fs_state \<Rightarrow> nat \<Rightarrow> nat" where
  "fsize s n = unat (file_size (inode_table s n))"

definition inodes_inv :: "fs_state \<Rightarrow> bool" where
  "inodes_inv s \<longleftrightarrow> (\<forall>n<MAX_FILES.
     if inode_used s n
     then inode_number (inode_table s n) = of_nat (n + 1) \<and> 0 < nslots s n
       \<and> fsize s n \<le> nslots s n * BLOCK_SIZE
     else nslots s n = 0)"

definition entry_used :: "fs_state \<Rightarrow> nat \<Rightarrow> bool" where
  "entry_used s i \<longleftrightarrow> entry_inode (root_directory s i) \<noteq> 0"

definition entry_target :: "fs_state \<Rightarrow> nat \<Rightarrow> nat" where
  "entry_target s i = unat (entry_inode (root_directory s i) - 1)"

definition entry_name :: "fs_state \<Rightarrow> nat \<Rightarrow> string" where
  "entry_name s i = string_at (filename (root_directory s i)) 0"

definition names_inv :: "fs_state \<Rightarrow> bool" where
  "names_inv s \<longleftrightarrow> (\<forall>i<MAX_FILES. length (filename (root_directory s i)) = MAX_FILENAME_LEN
     \<and> (entry_used s i \<longrightarrow> NUL \<in> set (filename (root_directory s i))))"

definition dir_inv :: "fs_state \<Rightarrow> bool" where
  "dir_inv s \<longleftrightarrow> names_inv s
     \<and> bij_betw (entry_target s) {i. i < MAX_FILES \<and> entry_used s i} {n. n < MAX_FILES \<and> inode_used s n}"

definition fs_inv :: "fs_state \<Rightarrow> bool" where
  "fs_inv s \<longleftrightarrow> blocks_inv s \<and> inodes_inv s \<and> dir_inv s"

subsection \<open>Basic facts\<close>

named_theorems fs_simps \<open>fields of the file system after an update\<close>

lemma set_inode_fields [fs_simps]:
  "inode_table (set_inode n f s) m = (if m = n then f (inode_table s n) else inode_table s m)"
  "root_directory (set_inode n f s) = root_directory s"
  "storage (set_inode n f s) = storage s"
  "block_bitmap (set_inode n f s) = block_bitmap s"
  "sb (set_inode n f s) = sb s"
  by (simp_all add: set_inode_def)

lemma set_entry_fields [fs_simps]:
  "root_directory (set_entry n f s) m = (if m = n then f (root_directory s n) else root_directory s m)"
  "inode_table (set_entry n f s) = inode_table s"
  "storage (set_entry n f s) = storage s"
  "block_bitmap (set_entry n f s) = block_bitmap s"
  "sb (set_entry n f s) = sb s"
  by (simp_all add: set_entry_def)

lemma nslots_le: "nslots s n \<le> MAX_BLOCKS_PER_FILE"
  by (auto simp: nslots_def find_first_Some split: option.split)

lemma nslots_set: "j < nslots s n \<Longrightarrow> bptr s n j \<noteq> no_block"
  by (auto simp: nslots_def find_first_None find_first_Some split: option.splits)

lemma slots_iff:
  "slots_inv s \<Longrightarrow> n < MAX_FILES \<Longrightarrow> j < MAX_BLOCKS_PER_FILE \<Longrightarrow> bptr s n j = no_block \<longleftrightarrow> nslots s n \<le> j"
  using nslots_set [of j s n] unfolding slots_inv_def by (meson linorder_not_le)

text \<open>The count is determined by the shape of the pointer array.\<close>

lemma nslotsI:
  assumes "c \<le> MAX_BLOCKS_PER_FILE" "\<And>j. j < c \<Longrightarrow> bptr s n j \<noteq> no_block"
    "c < MAX_BLOCKS_PER_FILE \<Longrightarrow> bptr s n c = no_block"
  shows "nslots s n = c"
proof (cases "c < MAX_BLOCKS_PER_FILE")
  case True
  then have "find_first (\<lambda>j. bptr s n j = no_block) 0 MAX_BLOCKS_PER_FILE = Some c"
    using assms by (simp add: find_first_Some)
  then show ?thesis by (simp add: nslots_def)
next
  case False
  then have "find_first (\<lambda>j. bptr s n j = no_block) 0 MAX_BLOCKS_PER_FILE = None"
    using assms by (simp add: find_first_None)
  with False assms(1) show ?thesis by (simp add: nslots_def)
qed

lemma nslots_cong: "(\<And>j. bptr s n j = bptr t n j) \<Longrightarrow> nslots s n = nslots t n"
  by (simp add: nslots_def)

lemma finite_free_block_set [simp]: "finite (free_block_set s)"
  by (simp add: free_block_set_def)

lemma allocate_block_None_iff: "allocate_block s = (s', None) \<longleftrightarrow> s' = s \<and> free_block_set s = {}"
  by (auto simp: allocate_block_def free_block_set_def find_first_None split: option.splits)
    (auto simp: find_first_Some)

lemma allocate_block_SomeD:
  assumes "allocate_block s = (s', Some b)"
  shows "b \<in> free_block_set s"
    and "s' = s\<lparr>block_bitmap := (block_bitmap s)(b := 1),
       sb := (sb s)\<lparr>free_blocks := free_blocks (sb s) - 1\<rparr>\<rparr>"
  using assms by (auto simp: allocate_block_def free_block_set_def find_first_Some split: option.splits)

lemma no_block_unat: "unat no_block = 4294967295"
  by (simp add: no_block_def unsigned_minus_1_eq_mask mask_eq_exp_minus_1)

lemma of_nat_block: "b < BLOCK_COUNT \<Longrightarrow> unat (of_nat b :: u32) = b \<and> (of_nat b :: u32) \<noteq> no_block"
proof -
  assume "b < BLOCK_COUNT"
  then have "unat (of_nat b :: u32) = b" by (simp add: unat_of_nat)
  with \<open>b < BLOCK_COUNT\<close> no_block_unat show ?thesis by auto
qed

subsection \<open>Taking a block for the next slot\<close>

definition take_slot :: "nat \<Rightarrow> nat \<Rightarrow> nat \<Rightarrow> fs_state \<Rightarrow> fs_state" where
  "take_slot n c b s = set_inode n (\<lambda>x. x\<lparr>file_blocks := (file_blocks x)(c := of_nat b)\<rparr>)
     (s\<lparr>block_bitmap := (block_bitmap s)(b := 1),
        sb := (sb s)\<lparr>free_blocks := free_blocks (sb s) - 1\<rparr>\<rparr>)"

lemma take_slot_fields [fs_simps]:
  "bptr (take_slot n c b s) m j = (if m = n \<and> j = c then of_nat b else bptr s m j)"
  "block_bitmap (take_slot n c b s) b' = (if b' = b then 1 else block_bitmap s b')"
  "free_blocks (sb (take_slot n c b s)) = free_blocks (sb s) - 1"
  "root_directory (take_slot n c b s) = root_directory s"
  "storage (take_slot n c b s) = storage s"
  "inode_number (inode_table (take_slot n c b s) m) = inode_number (inode_table s m)"
  "file_size (inode_table (take_slot n c b s) m) = file_size (inode_table s m)"
  "permissions (inode_table (take_slot n c b s) m) = permissions (inode_table s m)"
  by (simp_all add: take_slot_def bptr_def set_inode_fields)

lemma owner_range:
  "owner_inv s \<Longrightarrow> n < MAX_FILES \<Longrightarrow> j < nslots s n \<Longrightarrow>
     unat (bptr s n j) < BLOCK_COUNT \<and> block_bitmap s (unat (bptr s n j)) \<noteq> 0"
  by (simp add: owner_inv_def)

lemma owner_inj:
  "owner_inv s \<Longrightarrow> n < MAX_FILES \<Longrightarrow> j < nslots s n \<Longrightarrow> n' < MAX_FILES \<Longrightarrow> j' < nslots s n' \<Longrightarrow>
     bptr s n j = bptr s n' j' \<Longrightarrow> n = n' \<and> j = j'"
  unfolding owner_inv_def by blast

lemma owner_marked:
  "owner_inv s \<Longrightarrow> b < BLOCK_COUNT \<Longrightarrow> block_bitmap s b \<noteq> 0 \<Longrightarrow>
     \<exists>n<MAX_FILES. \<exists>j<nslots s n. unat (bptr s n j) = b"
  by (simp add: owner_inv_def)

lemma nslots_take_slot:
  assumes "nslots s n = c" "c < MAX_BLOCKS_PER_FILE" "b < BLOCK_COUNT" "slots_inv s" "n < MAX_FILES"
  shows "nslots (take_slot n c b s) m = (if m = n then c + 1 else nslots s m)"
proof (cases "m = n")
  case True
  have "nslots (take_slot n c b s) n = c + 1"
  proof (rule nslotsI)
    show "bptr (take_slot n c b s) n j \<noteq> no_block" if "j < c + 1" for j
      using that assms(1,3) nslots_set [of j s n] of_nat_block [of b]
      by (cases "j = c") (auto simp: fs_simps)
    show "bptr (take_slot n c b s) n (c + 1) = no_block" if "c + 1 < MAX_BLOCKS_PER_FILE"
      using that assms slots_iff [of s n "c + 1"] by (simp add: fs_simps)
  qed (use assms in simp)
  with True show ?thesis by simp
next
  case False
  then show ?thesis by (auto intro: nslots_cong simp: fs_simps)
qed

lemma blocks_inv_take_slot:
  assumes inv: "blocks_inv s" and n: "n < MAX_FILES" and c: "nslots s n = c" "c < MAX_BLOCKS_PER_FILE"
    and b: "b \<in> free_block_set s"
  shows "blocks_inv (take_slot n c b s)"
    and "free_block_set (take_slot n c b s) = free_block_set s - {b}"
proof -
  let ?t = "take_slot n c b s"
  have sl: "slots_inv s" and ow: "owner_inv s"
    and cnt: "free_blocks (sb s) = of_nat (card (free_block_set s))"
    using inv by (simp_all add: blocks_inv_def)
  have br: "b < BLOCK_COUNT" "block_bitmap s b = 0" using b by (auto simp: free_block_set_def)
  note ub = of_nat_block [OF br(1)]
  have ns: "nslots ?t m = (if m = n then c + 1 else nslots s m)" for m
    using nslots_take_slot [OF c br(1) sl n] .
  have bp: "bptr ?t m j = (if m = n \<and> j = c then of_nat b else bptr s m j)" for m j
    by (simp add: fs_simps)
  have old: "j < nslots s m" if "j < nslots ?t m" "\<not> (m = n \<and> j = c)" for m j
    using that c by (cases "m = n") (auto simp: ns)
  have ne: "bptr s m j \<noteq> of_nat b" if "m < MAX_FILES" "j < nslots s m" for m j
    using owner_range [OF ow that] br ub by auto
  show fr: "free_block_set ?t = free_block_set s - {b}"
    by (auto simp: free_block_set_def fs_simps)
  have "slots_inv ?t"
    using sl c by (auto simp: slots_inv_def ns bp less_Suc_eq)
  moreover have "owner_inv ?t"
    unfolding owner_inv_def
  proof (intro conjI allI impI)
    fix m j assume m: "m < MAX_FILES" "j < nslots ?t m"
    show "unat (bptr ?t m j) < BLOCK_COUNT"
      using owner_range [OF ow m(1) old [OF m(2)]] br ub by (cases "m = n \<and> j = c") (auto simp: bp)
    show "block_bitmap ?t (unat (bptr ?t m j)) \<noteq> 0"
      using owner_range [OF ow m(1) old [OF m(2)]] br ub
      by (cases "m = n \<and> j = c") (auto simp: bp fs_simps)
  next
    fix m j m' j' assume m: "m < MAX_FILES" "j < nslots ?t m" "m' < MAX_FILES" "j' < nslots ?t m'"
      and eq: "bptr ?t m j = bptr ?t m' j'"
    have same: "(m = n \<and> j = c) \<longleftrightarrow> (m' = n \<and> j' = c)"
      using eq ne [OF m(1) old [OF m(2)]] ne [OF m(3) old [OF m(4)]] unfolding bp by metis
    have "m = m' \<and> j = j'"
    proof (cases "m = n \<and> j = c")
      case True
      with same show ?thesis by blast
    next
      case False
      with same eq have "bptr s m j = bptr s m' j'" by (metis bp)
      with owner_inj [OF ow m(1) old [OF m(2) False] m(3) old [OF m(4)]] False same
      show ?thesis by blast
    qed
    then show "m = m'" "j = j'" by auto
  next
    fix b' assume b': "b' < BLOCK_COUNT" "block_bitmap ?t b' \<noteq> 0"
    show "\<exists>m<MAX_FILES. \<exists>j<nslots ?t m. unat (bptr ?t m j) = b'"
    proof (cases "b' = b")
      case True
      then have "c < nslots ?t n" "unat (bptr ?t n c) = b'" using ub by (simp_all add: ns bp)
      with n show ?thesis by blast
    next
      case False
      then have "block_bitmap s b' \<noteq> 0" using b' by (simp add: fs_simps)
      from owner_marked [OF ow b'(1) this] obtain m j where
        m: "m < MAX_FILES" "j < nslots s m" "unat (bptr s m j) = b'" by blast
      then have "\<not> (m = n \<and> j = c)" using c by auto
      with m have "j < nslots ?t m" "unat (bptr ?t m j) = b'" using c by (auto simp: ns bp)
      with m(1) show ?thesis by blast
    qed
  qed
  moreover have "free_blocks (sb ?t) = of_nat (card (free_block_set ?t))"
  proof -
    have "0 < card (free_block_set s)" using b by (auto simp: card_gt_0_iff)
    then have "card (free_block_set s) = card (free_block_set ?t) + 1"
      unfolding fr using b by (simp add: card_Diff_singleton)
    with cnt show ?thesis by (simp add: fs_simps)
  qed
  ultimately show "blocks_inv ?t" by (simp add: blocks_inv_def)
qed

subsection \<open>The allocation loop\<close>

text \<open>
  \<open>grow_rel n k s t\<close>: \<open>t\<close> is \<open>s\<close> after inode \<open>n\<close> has received \<open>k\<close> further blocks; everything
  else that the abstract view depends on is unchanged.
\<close>

definition grow_rel :: "nat \<Rightarrow> nat \<Rightarrow> fs_state \<Rightarrow> fs_state \<Rightarrow> bool" where
  "grow_rel n k s t \<longleftrightarrow> blocks_inv t
     \<and> (\<forall>m. nslots t m = nslots s m + (if m = n then k else 0))
     \<and> (\<forall>m j. j < nslots s m \<longrightarrow> bptr t m j = bptr s m j)
     \<and> card (free_block_set t) + k = card (free_block_set s)
     \<and> root_directory t = root_directory s \<and> storage t = storage s
     \<and> (\<forall>m. inode_number (inode_table t m) = inode_number (inode_table s m)
          \<and> file_size (inode_table t m) = file_size (inode_table s m)
          \<and> permissions (inode_table t m) = permissions (inode_table s m))"

lemma grow_rel_refl: "blocks_inv s \<Longrightarrow> grow_rel n 0 s s"
  by (simp add: grow_rel_def)

lemma grow_rel_take_slot:
  assumes "grow_rel n k s t" "n < MAX_FILES" "nslots t n < MAX_BLOCKS_PER_FILE" "b \<in> free_block_set t"
  shows "grow_rel n (k + 1) s (take_slot n (nslots t n) b t)"
proof -
  let ?u = "take_slot n (nslots t n) b t"
  have inv: "blocks_inv t" using assms(1) by (simp add: grow_rel_def)
  have b: "b < BLOCK_COUNT" using assms(4) by (simp add: free_block_set_def)
  note u = blocks_inv_take_slot [OF inv assms(2) refl assms(3,4)]
  have ns: "nslots ?u m = (if m = n then nslots t n + 1 else nslots t m)" for m
    using nslots_take_slot [OF refl assms(3) b _ assms(2)] inv by (simp add: blocks_inv_def)
  have "bptr ?u m j = bptr s m j" if "j < nslots s m" for m j
    using that assms(1) by (auto simp: fs_simps grow_rel_def)
  moreover have "nslots ?u m = nslots s m + (if m = n then k + 1 else 0)" for m
    using assms(1) ns by (auto simp: grow_rel_def)
  moreover have "card (free_block_set ?u) + 1 = card (free_block_set t)"
    unfolding u(2) using assms(4) by (metis Suc_eq_plus1 card_Suc_Diff1 finite_free_block_set)
  ultimately show ?thesis
    using assms(1) u(1) unfolding grow_rel_def by (simp add: fs_simps)
qed

lemma allocate_blocks_loop_take:
  assumes "i < MAX_BLOCKS_PER_FILE" "k < req" "bptr t n i = no_block" "allocate_block t = (t1, Some b)"
  shows "allocate_blocks_loop n req i k t = allocate_blocks_loop n req (i + 1) (k + 1) (take_slot n i b t)"
  using assms allocate_block_SomeD(2) [OF assms(4)]
  by (simp add: allocate_blocks_loop.simps [of n req i] bptr_def take_slot_def)

lemma allocate_blocks_loop_grow:
  assumes "grow_rel n k s t" "n < MAX_FILES" "i \<le> nslots t n" "k \<le> req"
    and "allocate_blocks_loop n req i k t = (t', a)"
  shows "grow_rel n a s t' \<and> a = min req (min (k + (MAX_BLOCKS_PER_FILE - nslots t n))
     (k + card (free_block_set t)))"
  using assms
proof (induction "MAX_BLOCKS_PER_FILE - i" arbitrary: i k t)
  case 0
  then have "t' = t" "a = k" by (auto simp: allocate_blocks_loop.simps [of n req i])
  with 0 nslots_le [of t n] show ?case by auto
next
  case (Suc d)
  have inv: "blocks_inv t" "slots_inv t" using Suc.prems(1) by (auto simp: grow_rel_def blocks_inv_def)
  have i4: "i < MAX_BLOCKS_PER_FILE" "d = MAX_BLOCKS_PER_FILE - (i + 1)" using Suc.hyps(2) by auto
  consider "k = req" | "k < req" "i < nslots t n" | "k < req" "i = nslots t n"
    using Suc.prems(3,4) by linarith
  then show ?case
  proof cases
    case 1
    then have "t' = t" "a = k" using Suc.prems(5) by (auto simp: allocate_blocks_loop.simps [of n req i])
    with Suc.prems 1 show ?thesis by auto
  next
    case 2
    then have "allocate_blocks_loop n req (i + 1) k t = (t', a)"
      using Suc.prems(5) nslots_set [OF 2(2)] i4 by (simp add: allocate_blocks_loop.simps [of n req i] bptr_def)
    moreover have "i + 1 \<le> nslots t n" using 2 by simp
    ultimately show ?thesis using Suc.hyps(1) [OF i4(2) Suc.prems(1,2) _ Suc.prems(4)] by blast
  next
    case 3
    then have hole: "bptr t n i = no_block"
      using slots_iff [OF inv(2) Suc.prems(2) i4(1)] by simp
    obtain t1 r where ab: "allocate_block t = (t1, r)" by fastforce
    show ?thesis
    proof (cases r)
      case None
      with ab have "t1 = t" "free_block_set t = {}" using allocate_block_None_iff by auto
      moreover have "t' = t1" "a = k"
        using Suc.prems(5) i4 3 hole ab None
        by (auto simp: allocate_blocks_loop.simps [of n req "nslots t n"] bptr_def)
      ultimately show ?thesis using Suc.prems by simp
    next
      case (Some b)
      let ?u = "take_slot n i b t"
      have b: "b \<in> free_block_set t" using allocate_block_SomeD(1) ab Some by blast
      then have bb: "b < BLOCK_COUNT" by (simp add: free_block_set_def)
      have lt: "nslots t n < MAX_BLOCKS_PER_FILE" using i4 3 by simp
      have ns: "nslots ?u n = i + 1"
        using nslots_take_slot [of t n i b n] i4 3 bb inv(2) Suc.prems(2) by simp
      have "free_block_set ?u = free_block_set t - {b}"
        using blocks_inv_take_slot(2) [OF inv(1) Suc.prems(2), of i b] i4 3 b by simp
      then have fr: "card (free_block_set ?u) + 1 = card (free_block_set t)"
        using b by (metis Suc_eq_plus1 card_Suc_Diff1 finite_free_block_set)
      have "allocate_blocks_loop n req (i + 1) (k + 1) ?u = (t', a)"
        using allocate_blocks_loop_take [OF i4(1) 3(1) hole ab [unfolded Some]] Suc.prems(5) by simp
      moreover have "grow_rel n (k + 1) s ?u"
        using grow_rel_take_slot [OF Suc.prems(1,2) lt b] 3(2) by simp
      moreover have "i + 1 \<le> nslots ?u n" "k + 1 \<le> req" using ns 3 by simp_all
      ultimately have "grow_rel n a s t' \<and> a = min req
          (min (k + 1 + (MAX_BLOCKS_PER_FILE - nslots ?u n)) (k + 1 + card (free_block_set ?u)))"
        using Suc.hyps(1) [OF i4(2) _ Suc.prems(2)] by blast
      moreover have "k + 1 + (MAX_BLOCKS_PER_FILE - nslots ?u n) = k + (MAX_BLOCKS_PER_FILE - nslots t n)"
        using ns 3 lt by simp
      moreover have "k + 1 + card (free_block_set ?u) = k + card (free_block_set t)" using fr by simp
      ultimately show ?thesis by metis
    qed
  qed
qed

text \<open>What \<open>allocate_blocks\<close> does: as many as requested, limited by the slots and the disk.\<close>

lemma allocate_blocks_grow:
  assumes "blocks_inv s" "n < MAX_FILES" "allocate_blocks n req s = (t, a)"
  shows "grow_rel n a s t \<and> a = min req (min (MAX_BLOCKS_PER_FILE - nslots s n) (card (free_block_set s)))"
  using allocate_blocks_loop_grow [OF grow_rel_refl [OF assms(1)] assms(2) le0 le0
      assms(3) [unfolded allocate_blocks_def], unfolded add_0] .

subsection \<open>The release loop\<close>

definition released :: "nat list \<Rightarrow> nat \<Rightarrow> fs_state \<Rightarrow> fs_state" where
  "released js n s =
     (set_inode n (\<lambda>x. x\<lparr>file_blocks := (\<lambda>j. if j \<in> set js then no_block else file_blocks x j)\<rparr>) s)
       \<lparr>block_bitmap := (\<lambda>b. if \<exists>j\<in>set js. bptr s n j \<noteq> no_block \<and> unat (bptr s n j) = b
           then 0 else block_bitmap s b),
        sb := (sb s)\<lparr>free_blocks := free_blocks (sb s)
           + of_nat (length (filter (\<lambda>j. bptr s n j \<noteq> no_block) js))\<rparr>\<rparr>"

lemma release_blocks_eq:
  assumes "distinct js" "\<And>j. j \<in> set js \<Longrightarrow> bptr s n j \<noteq> no_block \<Longrightarrow> unat (bptr s n j) < BLOCK_COUNT"
  shows "release_blocks js n s = Some (released js n s)"
  using assms
proof (induction js arbitrary: s)
  case Nil
  then show ?case by (simp add: released_def set_inode_def)
next
  case (Cons j js)
  show ?case
  proof (cases "bptr s n j = no_block")
    case True
    have "released js n s = released (j # js) n s"
      using True by (auto simp: released_def set_inode_def bptr_def fun_eq_iff intro!: fs_state.equality Inode.equality)
    with Cons True show ?thesis by (simp add: bptr_def)
  next
    case False
    let ?s = "set_inode n (\<lambda>x. x\<lparr>file_blocks := (file_blocks x)(j := no_block)\<rparr>)
       (s\<lparr>block_bitmap := (block_bitmap s)(unat (bptr s n j) := 0),
          sb := (sb s)\<lparr>free_blocks := free_blocks (sb s) + 1\<rparr>\<rparr>)"
    have bp: "bptr ?s n i = (if i = j then no_block else bptr s n i)" for i
      by (simp add: bptr_def set_inode_fields)
    have fl: "filter (\<lambda>i. bptr ?s n i \<noteq> no_block) js = filter (\<lambda>i. bptr s n i \<noteq> no_block) js"
      using Cons.prems(1) by (intro filter_cong) (auto simp: bp)
    have ex: "(\<exists>i\<in>set js. bptr ?s n i \<noteq> no_block \<and> unat (bptr ?s n i) = b) \<longleftrightarrow>
        (\<exists>i\<in>set js. bptr s n i \<noteq> no_block \<and> unat (bptr s n i) = b)" for b
      using Cons.prems(1) by (auto simp: bp)
    have "released js n ?s = released (j # js) n s"
      unfolding released_def fl ex using False
      by (auto simp: set_inode_def bptr_def fun_eq_iff intro!: fs_state.equality Inode.equality Superblock.equality)
    moreover have "release_blocks (j # js) n s = release_blocks js n ?s"
      using False Cons.prems(2) by (simp add: bptr_def Let_def)
    moreover have "release_blocks js n ?s = Some (released js n ?s)"
      using Cons.prems by (intro Cons.IH) (auto simp: bp)
    ultimately show ?thesis by simp
  qed
qed

lemma released_fields [fs_simps]:
  "bptr (released js n s) m j = (if m = n \<and> j \<in> set js then no_block else bptr s m j)"
  "root_directory (released js n s) = root_directory s"
  "storage (released js n s) = storage s"
  "inode_number (inode_table (released js n s) m) = inode_number (inode_table s m)"
  "file_size (inode_table (released js n s) m) = file_size (inode_table s m)"
  "permissions (inode_table (released js n s) m) = permissions (inode_table s m)"
  by (simp_all add: released_def bptr_def set_inode_fields)

lemma filter_slots:
  assumes "slots_inv s" "n < MAX_FILES"
  shows "filter (\<lambda>j. bptr s n j \<noteq> no_block) [0..<MAX_BLOCKS_PER_FILE] = [0..<nslots s n]"
proof -
  have up: "[0..<MAX_BLOCKS_PER_FILE] = [0..<nslots s n] @ [nslots s n..<MAX_BLOCKS_PER_FILE]"
    using upt_add_eq_append [of 0 "nslots s n" "MAX_BLOCKS_PER_FILE - nslots s n"] nslots_le [of s n] by simp
  have "filter (\<lambda>j. bptr s n j \<noteq> no_block) [0..<nslots s n] = [0..<nslots s n]"
    using nslots_set by (simp add: filter_id_conv)
  moreover have "filter (\<lambda>j. bptr s n j \<noteq> no_block) [nslots s n..<MAX_BLOCKS_PER_FILE] = []"
    using slots_iff [OF assms] by (simp add: filter_empty_conv)
  ultimately show ?thesis unfolding up filter_append by simp
qed

lemma blocks_inv_released:
  assumes inv: "blocks_inv s" and n: "n < MAX_FILES"
  defines "t \<equiv> released [0..<MAX_BLOCKS_PER_FILE] n s"
  shows "release_blocks [0..<MAX_BLOCKS_PER_FILE] n s = Some t" (is ?run)
    and "nslots t m = (if m = n then 0 else nslots s m)" (is ?ns)
    and "blocks_inv t" (is ?inv)
    and "free_block_set t = free_block_set s \<union> (\<lambda>j. unat (bptr s n j)) ` {..<nslots s n}" (is ?free)
proof -
  have sl: "slots_inv s" and ow: "owner_inv s"
    and cnt: "free_blocks (sb s) = of_nat (card (free_block_set s))"
    using inv by (simp_all add: blocks_inv_def)
  let ?B = "(\<lambda>j. unat (bptr s n j)) ` {..<nslots s n}"
  have hit: "(\<exists>j\<in>set [0..<MAX_BLOCKS_PER_FILE]. bptr s n j \<noteq> no_block \<and> unat (bptr s n j) = b) \<longleftrightarrow> b \<in> ?B" for b
    using slots_iff [OF sl n] nslots_le [of s n] nslots_set [of _ s n]
    by (auto simp: linorder_not_le)
  have bm: "block_bitmap t b = (if b \<in> ?B then 0 else block_bitmap s b)" for b
    unfolding t_def released_def hit by simp
  have bp: "bptr t m j = (if m = n \<and> j < MAX_BLOCKS_PER_FILE then no_block else bptr s m j)" for m j
    by (simp add: t_def fs_simps)
  have ns: "nslots t m = (if m = n then 0 else nslots s m)" for m
  proof (cases "m = n")
    case True
    have "nslots t n = 0" by (rule nslotsI) (simp_all add: bp)
    with True show ?thesis by simp
  next
    case False
    then show ?thesis by (auto intro: nslots_cong simp: bp)
  qed
  then show ?ns .
  show ?run
    unfolding t_def using owner_range [OF ow n] slots_iff [OF sl n]
    by (intro release_blocks_eq) (auto simp: linorder_not_le)
  show fr: ?free
    using owner_range [OF ow n] by (auto simp: free_block_set_def bm)
  have inj: "inj_on (\<lambda>j. unat (bptr s n j)) {..<nslots s n}"
    using owner_inj [OF ow n _ n] by (auto simp: inj_on_def word_unat_eq_iff)
  have "free_block_set s \<inter> ?B = {}"
    using owner_range [OF ow n] by (auto simp: free_block_set_def)
  then have "card (free_block_set t) = card (free_block_set s) + nslots s n"
    unfolding fr using inj by (simp add: card_Un_disjoint card_image)
  then have cnt': "free_blocks (sb t) = of_nat (card (free_block_set t))"
    using cnt filter_slots [OF sl n] by (simp add: t_def released_def set_inode_fields)
  have other: "unat (bptr s m j) \<notin> ?B" if "m < MAX_FILES" "j < nslots s m" "m \<noteq> n" for m j
    using owner_inj [OF ow that(1,2) n] that(3) by (auto simp: word_unat_eq_iff)
  have "slots_inv t" using sl by (auto simp: slots_inv_def ns bp)
  moreover have "owner_inv t"
    unfolding owner_inv_def
  proof (intro conjI allI impI)
    fix m j assume "m < MAX_FILES" "j < nslots t m"
    then have m: "m < MAX_FILES" "j < nslots s m" "m \<noteq> n" by (auto simp: ns split: if_splits)
    with owner_range [OF ow m(1,2)] other show "unat (bptr t m j) < BLOCK_COUNT"
      "block_bitmap t (unat (bptr t m j)) \<noteq> 0" by (simp_all add: bp bm)
  next
    fix m j m' j' assume *: "m < MAX_FILES" "j < nslots t m" "m' < MAX_FILES" "j' < nslots t m'"
      "bptr t m j = bptr t m' j'"
    then have "m \<noteq> n" "m' \<noteq> n" by (auto simp: ns split: if_splits)
    with * owner_inj [OF ow, of m j m' j'] show "m = m'" "j = j'" by (auto simp: ns bp)
  next
    fix b assume b: "b < BLOCK_COUNT" "block_bitmap t b \<noteq> 0"
    then have "block_bitmap s b \<noteq> 0" "b \<notin> ?B" by (auto simp: bm split: if_splits)
    with owner_marked [OF ow b(1)] obtain m j where
      m: "m < MAX_FILES" "j < nslots s m" "unat (bptr s m j) = b" by blast
    then have "m \<noteq> n" using \<open>b \<notin> ?B\<close> by auto
    with m have "j < nslots t m" "unat (bptr t m j) = b" by (simp_all add: ns bp)
    with m(1) show "\<exists>m<MAX_FILES. \<exists>j<nslots t m. unat (bptr t m j) = b" by blast
  qed
  ultimately show ?inv using cnt' by (simp add: blocks_inv_def)
qed

end
