(* ===== verification/FileSpec.thy ===== *)
theory FileSpec
  imports FileInv
begin

text \<open>
  What the file system promises: the abstract view of a state is a partial map from
  directory slots to files (name, data, permissions), and every operation acts on that map
  at the slot that its name selects, leaves all other files alone and keeps the invariant.
\<close>

subsection \<open>The abstract view\<close>

record file_view =
  f_name :: string
  f_data :: "char list"
  f_perms :: u16

definition content :: "fs_state \<Rightarrow> nat \<Rightarrow> char list" where
  "content s n = map (\<lambda>k. storage s (unat (bptr s n (k div BLOCK_SIZE))) (k mod BLOCK_SIZE)) [0..<fsize s n]"

definition files :: "fs_state \<Rightarrow> nat \<Rightarrow> file_view option" where
  "files s i =
     (if i < MAX_FILES \<and> entry_used s i
      then Some \<lparr>f_name = entry_name s i, f_data = content s (entry_target s i),
                 f_perms = permissions (inode_table s (entry_target s i))\<rparr>
      else None)"

text \<open>The slot that a name selects: the first one with that name.\<close>

definition lookup :: "(nat \<Rightarrow> file_view option) \<Rightarrow> string \<Rightarrow> nat option" where
  "lookup fs nm = find_first (\<lambda>i. \<exists>f. fs i = Some f \<and> f_name f = nm) 0 MAX_FILES"

lemma lookup_SomeD:
  "lookup fs nm = Some i \<Longrightarrow> i < MAX_FILES \<and> (\<exists>f. fs i = Some f \<and> f_name f = nm)"
  by (auto simp: lookup_def find_first_Some)

subsection \<open>Lookup by the code and by the view\<close>

lemma find_entry_first:
  assumes "names_inv s" "NUL \<notin> set nm"
  shows "find_entry s (cstr nm) i =
    Some (find_first (\<lambda>i. entry_used s i \<and> entry_name s i = nm) i MAX_FILES)"
proof (induction "MAX_FILES - i" arbitrary: i)
  case 0
  then show ?case by (simp add: find_entry.simps [of s _ i] find_first.simps [of _ i])
next
  case (Suc d)
  then have i: "i < MAX_FILES" and IH: "find_entry s (cstr nm) (i + 1) =
    Some (find_first (\<lambda>i. entry_used s i \<and> entry_name s i = nm) (i + 1) MAX_FILES)" by auto
  show ?case
  proof (cases "entry_used s i")
    case False
    with i IH show ?thesis
      by (simp add: find_entry.simps [of s _ i] find_first.simps [of _ i] entry_used_def)
  next
    case True
    have fl: "length (filename (root_directory s i)) = MAX_FILENAME_LEN"
      "NUL \<in> set (drop 0 (filename (root_directory s i)))"
      using assms(1) i True by (auto simp: names_inv_def)
    from string_at_split [OF fl(2)] obtain r where
      r: "filename (root_directory s i) = entry_name s i @ NUL # r" "NUL \<notin> set (entry_name s i)"
      by (auto simp: entry_name_def)
    have "length (entry_name s i @ NUL # r) = MAX_FILENAME_LEN" using fl(1) r(1) by simp
    then have len: "length (entry_name s i) < MAX_FILENAME_LEN" by simp
    from strncmp_zero [OF r(2) assms(2), of r "[]" MAX_FILENAME_LEN] obtain d where
      d: "strncmp (filename (root_directory s i)) (cstr nm) MAX_FILENAME_LEN = Some d"
      and "d = 0 \<longleftrightarrow> take MAX_FILENAME_LEN (entry_name s i) = take MAX_FILENAME_LEN nm"
      by (auto simp: r(1) [symmetric] cstr_def)
    moreover have "take MAX_FILENAME_LEN (entry_name s i) = take MAX_FILENAME_LEN nm \<longleftrightarrow> entry_name s i = nm"
    proof
      assume eq: "take MAX_FILENAME_LEN (entry_name s i) = take MAX_FILENAME_LEN nm"
      then have "length (entry_name s i) = min (length nm) MAX_FILENAME_LEN"
        using len arg_cong [OF eq, of length] by simp
      with len have "length nm < MAX_FILENAME_LEN" by simp
      with eq len show "entry_name s i = nm" by simp
    qed simp
    ultimately have "d = 0 \<longleftrightarrow> entry_name s i = nm" by simp
    with d i True IH show ?thesis
      by (simp add: find_entry.simps [of s _ i] find_first.simps [of _ i] entry_used_def)
  qed
qed

lemma find_entry_lookup:
  assumes "names_inv s" "NUL \<notin> set nm"
  shows "find_entry s (cstr nm) 0 = Some (lookup (files s) nm)"
proof -
  have "lookup (files s) nm = find_first (\<lambda>i. entry_used s i \<and> entry_name s i = nm) 0 MAX_FILES"
    unfolding lookup_def by (rule find_first_cong) (simp add: files_def)
  with find_entry_first [OF assms] show ?thesis by simp
qed

lemma entry_facts:
  assumes "dir_inv s" "i < MAX_FILES" "entry_used s i"
  shows "entry_target s i < MAX_FILES" "inode_used s (entry_target s i)"
    "inode_of_entry s i = Some (entry_target s i)"
proof -
  have "entry_target s i \<in> {n. n < MAX_FILES \<and> inode_used s n}"
    using assms by (auto simp: dir_inv_def bij_betw_def)
  then show "entry_target s i < MAX_FILES" "inode_used s (entry_target s i)" by auto
  then show "inode_of_entry s i = Some (entry_target s i)"
    by (simp add: inode_of_entry_def entry_target_def Let_def)
qed

lemma entry_target_inj:
  assumes "dir_inv s" "i < MAX_FILES" "entry_used s i" "j < MAX_FILES" "entry_used s j" "i \<noteq> j"
  shows "entry_target s i \<noteq> entry_target s j"
  using assms by (auto simp: dir_inv_def bij_betw_def inj_on_def)

lemma files_SomeD:
  assumes "files s i = Some f"
  shows "i < MAX_FILES" "entry_used s i" "f_name f = entry_name s i"
    "f_data f = content s (entry_target s i)"
    "f_perms f = permissions (inode_table s (entry_target s i))"
  using assms by (auto simp: files_def split: if_splits)

text \<open>An operation on an existing file starts like this.\<close>

lemma lookup_inode:
  assumes "fs_inv s" "NUL \<notin> set nm" "lookup (files s) nm = Some i" "files s i = Some f"
  shows "find_entry s (cstr nm) 0 = Some (Some i)"
    and "inode_of_entry s i = Some (entry_target s i)"
    and "entry_target s i < MAX_FILES" and "inode_used s (entry_target s i)"
    and "permissions (inode_table s (entry_target s i)) = f_perms f"
proof -
  have d: "dir_inv s" "names_inv s" using assms(1) by (auto simp: fs_inv_def dir_inv_def)
  show "find_entry s (cstr nm) 0 = Some (Some i)"
    using find_entry_lookup [OF d(2) assms(2)] assms(3) by simp
  note f = files_SomeD [OF assms(4)]
  show "inode_of_entry s i = Some (entry_target s i)" "entry_target s i < MAX_FILES"
    "inode_used s (entry_target s i)"
    using entry_facts [OF d(1) f(1,2)] by auto
  show "permissions (inode_table s (entry_target s i)) = f_perms f" using f(5) by simp
qed

subsection \<open>Frame rules\<close>

lemma content_cong:
  assumes "fsize t m = fsize s m" "fsize s m \<le> nslots s m * BLOCK_SIZE"
    and "\<And>j. j < nslots s m \<Longrightarrow> bptr t m j = bptr s m j"
    and "\<And>j. j < nslots s m \<Longrightarrow> storage t (unat (bptr s m j)) = storage s (unat (bptr s m j))"
  shows "content t m = content s m"
proof -
  have "k div BLOCK_SIZE < nslots s m" if "k < fsize s m" for k
    using that assms(2) by (simp add: less_mult_imp_div_less)
  with assms show ?thesis by (auto simp: content_def)
qed

lemma inode_size_bound:
  assumes "fs_inv s" "i < MAX_FILES" "entry_used s i"
  shows "fsize s (entry_target s i) \<le> nslots s (entry_target s i) * BLOCK_SIZE"
    "0 < nslots s (entry_target s i)"
proof -
  have "dir_inv s" "inodes_inv s" using assms(1) by (auto simp: fs_inv_def)
  with entry_facts [OF \<open>dir_inv s\<close> assms(2,3)]
  show "fsize s (entry_target s i) \<le> nslots s (entry_target s i) * BLOCK_SIZE"
    "0 < nslots s (entry_target s i)" by (auto simp: inodes_inv_def)
qed

text \<open>
  A state that differs from \<open>s\<close> only in inode \<open>n\<close> and in its blocks has the same files in
  every slot that does not lead to \<open>n\<close>.
\<close>

lemma files_frame:
  assumes inv: "fs_inv s" and dir: "root_directory t = root_directory s"
    and other: "\<And>m. m \<noteq> n \<Longrightarrow> m < MAX_FILES \<Longrightarrow> fsize t m = fsize s m
        \<and> permissions (inode_table t m) = permissions (inode_table s m)
        \<and> (\<forall>j<nslots s m. bptr t m j = bptr s m j
             \<and> storage t (unat (bptr s m j)) = storage s (unat (bptr s m j)))"
    and i: "entry_target s i = n" "i < MAX_FILES" "entry_used s i"
  shows "files t = (files s)(i \<mapsto> \<lparr>f_name = entry_name s i, f_data = content t n,
     f_perms = permissions (inode_table t n)\<rparr>)"
proof
  fix k
  have same: "entry_used t k = entry_used s k" "entry_target t k = entry_target s k"
    "entry_name t k = entry_name s k" for k
    by (simp_all add: entry_used_def entry_target_def entry_name_def dir)
  have d: "dir_inv s" using inv by (simp add: fs_inv_def)
  show "files t k = ((files s)(i \<mapsto> \<lparr>f_name = entry_name s i, f_data = content t n,
     f_perms = permissions (inode_table t n)\<rparr>)) k"
  proof (cases "k = i \<or> \<not> (k < MAX_FILES \<and> entry_used s k)")
    case True
    then show ?thesis using i by (auto simp: files_def same)
  next
    case False
    then have ne: "entry_target s k \<noteq> n" and k: "k < MAX_FILES" "entry_used s k"
      using entry_target_inj [OF d _ _ i(2,3)] i(1) by auto
    have "content t (entry_target s k) = content s (entry_target s k)"
      using other [OF ne entry_facts(1) [OF d k]] inode_size_bound [OF inv k]
      by (intro content_cong) auto
    with False ne other [OF ne entry_facts(1) [OF d k]] show ?thesis
      by (simp add: files_def same)
  qed
qed

subsection \<open>Congruence of the invariant\<close>

lemma blocks_inv_cong:
  assumes "\<And>n j. bptr t n j = bptr s n j" "block_bitmap t = block_bitmap s"
    "free_blocks (sb t) = free_blocks (sb s)"
  shows "blocks_inv t \<longleftrightarrow> blocks_inv s"
proof -
  have ns: "nslots t n = nslots s n" for n by (rule nslots_cong) (rule assms)
  have "free_block_set t = free_block_set s" by (simp add: free_block_set_def assms(2))
  then show ?thesis
    by (simp add: blocks_inv_def slots_inv_def owner_inv_def ns assms)
qed

lemma dir_inv_cong:
  assumes "root_directory t = root_directory s"
    "\<And>n. inode_number (inode_table t n) = inode_number (inode_table s n)"
  shows "dir_inv t \<longleftrightarrow> dir_inv s"
proof -
  have "entry_target t = entry_target s" "entry_used t = entry_used s" "inode_used t = inode_used s"
    by (auto simp: entry_target_def entry_used_def inode_used_def assms fun_eq_iff)
  then show ?thesis by (simp add: dir_inv_def names_inv_def assms(1))
qed

subsection \<open>Writing through the block pointers\<close>

text \<open>
  \<open>wrote s st n z buf w\<close>: \<open>st\<close> is the storage of \<open>s\<close> after the first \<open>w\<close> bytes of \<open>buf\<close> have
  been stored in the file of inode \<open>n\<close> from position \<open>z\<close> on: they can be read there, what
  lies before \<open>z\<close> and every block of another file is as before.
\<close>

definition wrote :: "fs_state \<Rightarrow> (nat \<Rightarrow> nat \<Rightarrow> char) \<Rightarrow> nat \<Rightarrow> nat \<Rightarrow> char list \<Rightarrow> nat \<Rightarrow> bool" where
  "wrote s st n z buf w \<longleftrightarrow>
     (\<forall>k<w. st (unat (bptr s n ((z + k) div BLOCK_SIZE))) ((z + k) mod BLOCK_SIZE) = buf ! k)
   \<and> (\<forall>p<z. st (unat (bptr s n (p div BLOCK_SIZE))) (p mod BLOCK_SIZE)
        = storage s (unat (bptr s n (p div BLOCK_SIZE))) (p mod BLOCK_SIZE))
   \<and> (\<forall>b. (\<forall>j<nslots s n. unat (bptr s n j) \<noteq> b) \<longrightarrow> st b = storage s b)"

lemma wrote_0: "wrote s (storage s) n z buf 0"
  by (simp add: wrote_def)

lemma copy_in_eq: "copy_in f off bs i = (if off \<le> i \<and> i < off + length bs then bs ! (i - off) else f i)"
  by (simp add: copy_in_def)

lemma same_block:
  fixes p q :: nat
  assumes "p div BLOCK_SIZE = q div BLOCK_SIZE"
  shows "p + q mod BLOCK_SIZE = q + p mod BLOCK_SIZE"
  using assms div_mult_mod_eq [of p BLOCK_SIZE] div_mult_mod_eq [of q BLOCK_SIZE] by linarith

lemma wrote_step:
  assumes w: "wrote s st n z buf w" and ow: "owner_inv s" and n: "n < MAX_FILES"
    and bn: "(z + w) div BLOCK_SIZE < nslots s n"
    and chunk: "chunk \<le> BLOCK_SIZE - (z + w) mod BLOCK_SIZE" "w + chunk \<le> length buf"
  defines "b \<equiv> unat (bptr s n ((z + w) div BLOCK_SIZE))"
  shows "wrote s (st(b := copy_in (st b) ((z + w) mod BLOCK_SIZE) (take chunk (drop w buf)))) n z buf (w + chunk)"
    (is "wrote s ?st n z buf _")
proof -
  let ?blk = "\<lambda>p. unat (bptr s n (p div BLOCK_SIZE))"
  have other: "?blk p = b \<longleftrightarrow> p div BLOCK_SIZE = (z + w) div BLOCK_SIZE"
    if "p div BLOCK_SIZE \<le> (z + w) div BLOCK_SIZE" for p
    using owner_inj [OF ow n _ n bn, of "p div BLOCK_SIZE"] that bn
    by (auto simp: b_def word_unat_eq_iff)
  have before: "?st (?blk p) (p mod BLOCK_SIZE) = st (?blk p) (p mod BLOCK_SIZE)" if "p < z + w" for p
  proof (cases "?blk p = b")
    case True
    have "p div BLOCK_SIZE \<le> (z + w) div BLOCK_SIZE" using that by (intro div_le_mono) simp
    with True other have "p div BLOCK_SIZE = (z + w) div BLOCK_SIZE" by blast
    from same_block [OF this] that have "p mod BLOCK_SIZE < (z + w) mod BLOCK_SIZE" by linarith
    with True show ?thesis by (simp add: copy_in_eq)
  qed simp
  have new: "?st (?blk (z + k)) ((z + k) mod BLOCK_SIZE) = buf ! k" if k: "w \<le> k" "k < w + chunk" for k
  proof -
    define q r where "q = (z + w) div BLOCK_SIZE" and "r = (z + w) mod BLOCK_SIZE + (k - w)"
    have "z + k = q * BLOCK_SIZE + r"
      using k div_mult_mod_eq [of "z + w" BLOCK_SIZE] unfolding q_def r_def by linarith
    moreover have "r < BLOCK_SIZE"
      using k chunk(1) mod_less_divisor [of BLOCK_SIZE "z + w"] unfolding r_def by linarith
    ultimately have "(z + k) div BLOCK_SIZE = q" "(z + k) mod BLOCK_SIZE = r" by simp_all
    then have "(z + k) div BLOCK_SIZE = (z + w) div BLOCK_SIZE"
      "(z + k) mod BLOCK_SIZE = (z + w) mod BLOCK_SIZE + (k - w)" by (simp_all add: q_def r_def)
    moreover obtain e where "k = w + e" "e < chunk" using k by (metis le_Suc_ex nat_add_left_cancel_less)
    ultimately show ?thesis using chunk(2) by (simp add: b_def copy_in_eq)
  qed
  show ?thesis
    unfolding wrote_def
  proof (intro conjI allI impI)
    fix k assume "k < w + chunk"
    then show "?st (?blk (z + k)) ((z + k) mod BLOCK_SIZE) = buf ! k"
      using new [of k] before [of "z + k"] w by (cases "k < w") (auto simp: wrote_def)
  next
    fix p assume "p < z"
    then show "?st (?blk p) (p mod BLOCK_SIZE) = storage s (?blk p) (p mod BLOCK_SIZE)"
      using before [of p] w by (simp add: wrote_def)
  next
    fix b' assume b': "\<forall>j<nslots s n. unat (bptr s n j) \<noteq> b'"
    then have "b' \<noteq> b" using bn by (auto simp: b_def)
    with w b' show "?st b' = storage s b'" by (simp add: wrote_def)
  qed
qed

lemma append_loop_wrote:
  assumes "wrote s st n z buf w" "blocks_inv s" "n < MAX_FILES" "w \<le> as"
    "z + as \<le> nslots s n * BLOCK_SIZE" "as \<le> length buf"
  shows "\<exists>st'. append_loop n buf z as w (s\<lparr>storage := st\<rparr>) = Some (s\<lparr>storage := st'\<rparr>, as)
    \<and> wrote s st' n z buf as"
  using assms
proof (induction "as - w" arbitrary: w st rule: less_induct)
  case less
  show ?case
  proof (cases "w = as")
    case True
    with less.prems show ?thesis by (auto simp: append_loop.simps [of n buf z as])
  next
    case False
    let ?bn = "(z + w) div BLOCK_SIZE" and ?off = "(z + w) mod BLOCK_SIZE"
    define chunk where "chunk = min (BLOCK_SIZE - ?off) (as - w)"
    have bn: "?bn < nslots s n"
      using less.prems(4,5) False by (simp add: less_mult_imp_div_less)
    have inv: "owner_inv s" "slots_inv s" using less.prems(2) by (auto simp: blocks_inv_def)
    have ptr: "bptr s n ?bn \<noteq> no_block" "unat (bptr s n ?bn) < BLOCK_COUNT"
      using nslots_set [OF bn] owner_range [OF inv(1) less.prems(3) bn] by auto
    have off: "?off < BLOCK_SIZE" by simp
    then have ch: "0 < chunk" "chunk \<le> BLOCK_SIZE - ?off" "w + chunk \<le> as"
      using less.prems(4) False unfolding chunk_def by auto
    let ?b = "unat (bptr s n ?bn)"
    let ?st = "st(?b := copy_in (st ?b) ?off (take chunk (drop w buf)))"
    have "wrote s ?st n z buf (w + chunk)"
      using ch less.prems(6) by (intro wrote_step [OF less.prems(1) inv(1) less.prems(3) bn]) auto
    moreover have "as - (w + chunk) < as - w" using ch False less.prems(4) by linarith
    ultimately obtain st' where st': "append_loop n buf z as (w + chunk) (s\<lparr>storage := ?st\<rparr>) = Some (s\<lparr>storage := st'\<rparr>, as)"
      "wrote s st' n z buf as" using less.hyps [OF _ _ less.prems(2,3) ch(3) less.prems(5,6)] by blast
    have "append_loop n buf z as w (s\<lparr>storage := st\<rparr>) = append_loop n buf z as (w + chunk) (s\<lparr>storage := ?st\<rparr>)"
      using less.prems(4,6) False ptr ch nslots_le [of s n] bn
      by (simp add: append_loop.simps [of n buf z as w] bptr_def Let_def slice_def chunk_def [symmetric])
    with st' show ?thesis by auto
  qed
qed

lemma write_loop_wrote:
  assumes "wrote s st n 0 buf w" "blocks_inv s" "n < MAX_FILES" "w = min (j * BLOCK_SIZE) ws"
    "ws \<le> nslots s n * BLOCK_SIZE" "ws \<le> length buf"
  shows "\<exists>st'. write_loop n buf ws j w (s\<lparr>storage := st\<rparr>) = Some (s\<lparr>storage := st'\<rparr>, ws)
    \<and> wrote s st' n 0 buf ws"
  using assms
proof (induction "MAX_BLOCKS_PER_FILE - j" arbitrary: j w st)
  case 0
  then have "MAX_BLOCKS_PER_FILE * BLOCK_SIZE \<le> j * BLOCK_SIZE" by simp
  then have "w = ws" using 0 nslots_le [of s n] by auto
  with 0 show ?case by (auto simp: write_loop.simps [of n buf ws])
next
  case (Suc d)
  show ?case
  proof (cases "w = ws")
    case True
    with Suc.prems show ?thesis by (auto simp: write_loop.simps [of n buf ws])
  next
    case False
    then have w: "w = j * BLOCK_SIZE" "w < ws" using Suc.prems(4) by (auto split: if_splits simp: min_def)
    then have pos: "(0 + w) div BLOCK_SIZE = j" "(0 + w) mod BLOCK_SIZE = 0" by simp_all
    have "j * BLOCK_SIZE < nslots s n * BLOCK_SIZE" using w Suc.prems(5) by linarith
    then have bn: "j < nslots s n" by simp
    define chunk where "chunk = min BLOCK_SIZE (ws - w)"
    have inv: "owner_inv s" using Suc.prems(2) by (auto simp: blocks_inv_def)
    have ptr: "bptr s n j \<noteq> no_block" "unat (bptr s n j) < BLOCK_COUNT"
      using nslots_set [OF bn] owner_range [OF inv(1) Suc.prems(3) bn] by auto
    let ?b = "unat (bptr s n j)"
    let ?st = "st(?b := copy_in (st ?b) 0 (take chunk (drop w buf)))"
    have ch: "chunk \<le> BLOCK_SIZE" "w + chunk \<le> ws" using w by (auto simp: chunk_def)
    then have step: "wrote s ?st n 0 buf (w + chunk)"
      using wrote_step [OF Suc.prems(1) inv Suc.prems(3), of chunk] bn Suc.prems(6)
      unfolding pos by auto
    have w': "w + chunk = min ((j + 1) * BLOCK_SIZE) ws" using w by (auto simp: chunk_def)
    have "d = MAX_BLOCKS_PER_FILE - (j + 1)" using Suc.hyps(2) by simp
    from Suc.hyps(1) [OF this step Suc.prems(2,3) w' Suc.prems(5,6)] obtain st' where
      st': "write_loop n buf ws (j + 1) (w + chunk) (s\<lparr>storage := ?st\<rparr>) = Some (s\<lparr>storage := st'\<rparr>, ws)"
      "wrote s st' n 0 buf ws" by blast
    have "write_loop n buf ws j w (s\<lparr>storage := st\<rparr>) = write_loop n buf ws (j + 1) (w + chunk) (s\<lparr>storage := ?st\<rparr>)"
      using w(2) Suc.prems(6) ptr ch nslots_le [of s n] bn
      by (simp add: write_loop.simps [of n buf ws j] bptr_def Let_def slice_def chunk_def [symmetric])
    with st' show ?thesis by auto
  qed
qed

lemma unat_small: "k \<le> 16384 \<Longrightarrow> unat (of_nat k :: u32) = k"
  by (simp add: unat_of_nat)

lemma content_wrote:
  assumes w: "wrote s1 st n z buf w" and t: "storage t = st" "\<And>j. bptr t n j = bptr s1 n j"
    "fsize t n = z + w"
    and z: "z \<le> fsize s n" "fsize s n \<le> nslots s n * BLOCK_SIZE" and b: "w \<le> length buf"
    and s1: "storage s1 = storage s" "\<And>j. j < nslots s n \<Longrightarrow> bptr s1 n j = bptr s n j"
  shows "content t n = take z (content s n) @ take w buf"
proof (rule nth_equalityI)
  show "length (content t n) = length (take z (content s n) @ take w buf)"
    using t(3) z b by (simp add: content_def)
  fix k assume "k < length (content t n)"
  then have k: "k < z + w" by (simp add: content_def t(3))
  then have "content t n ! k = st (unat (bptr s1 n (k div BLOCK_SIZE))) (k mod BLOCK_SIZE)"
    by (simp add: content_def t)
  also have "\<dots> = (take z (content s n) @ take w buf) ! k"
  proof (cases "k < z")
    case True
    then have "k div BLOCK_SIZE < nslots s n" using z by (simp add: less_mult_imp_div_less)
    with True w s1 z show ?thesis by (simp add: wrote_def content_def nth_append)
  next
    case False
    then obtain e where "k = z + e" "e < w" using k by (metis le_Suc_ex linorder_not_le nat_add_left_cancel_less)
    with w z b show ?thesis by (simp add: wrote_def content_def nth_append)
  qed
  finally show "content t n ! k = (take z (content s n) @ take w buf) ! k" .
qed

lemma store_file:
  assumes inv: "fs_inv s" and f: "files s i = Some f" and n: "n = entry_target s i"
    and g: "grow_rel n a s s1" and w: "wrote s1 st n z buf w"
    and z: "z \<le> fsize s n" "z + w \<le> (nslots s n + a) * BLOCK_SIZE" "w \<le> length buf"
  defines "t \<equiv> set_inode n (file_size_update (\<lambda>_. of_nat (z + w))) (s1\<lparr>storage := st\<rparr>)"
  shows "fs_inv t \<and> files t = (files s)(i \<mapsto> f\<lparr>f_data := take z (f_data f) @ take w buf\<rparr>)"
proof
  note i = files_SomeD [OF f]
  have d: "dir_inv s" and io: "inodes_inv s" using inv by (auto simp: fs_inv_def)
  have nn: "n < MAX_FILES" "inode_used s n" using entry_facts [OF d i(1,2)] n by auto
  have ns1: "nslots s1 m = nslots s m + (if m = n then a else 0)" for m
    using g by (simp add: grow_rel_def)
  have "z + w \<le> MAX_BLOCKS_PER_FILE * BLOCK_SIZE"
    using z(2) nslots_le [of s1 n] ns1 [of n] by simp
  then have sz: "fsize t n = z + w"
    using unat_small [of "z + w"] by (simp add: t_def fsize_def set_inode_fields del: of_nat_add)
  have other: "fsize t m = fsize s m" if "m \<noteq> n" for m
    using that g by (simp add: t_def fsize_def set_inode_fields grow_rel_def)
  have bp: "bptr t m j = bptr s1 m j" for m j
    by (simp add: t_def bptr_def set_inode_fields)
  have ns: "nslots t m = nslots s1 m" for m by (rule nslots_cong) (rule bp)
  have num: "inode_number (inode_table t m) = inode_number (inode_table s m)"
    "permissions (inode_table t m) = permissions (inode_table s m)" for m
    using g by (simp_all add: t_def set_inode_fields grow_rel_def)
  have dir: "root_directory t = root_directory s" using g by (simp add: t_def set_inode_fields grow_rel_def)
  have b1: "blocks_inv s1" using g by (simp add: grow_rel_def)
  then have "blocks_inv t"
    using blocks_inv_cong [of t s1] bp by (simp add: t_def set_inode_fields)
  moreover have "dir_inv t" using d dir_inv_cong [of t s] dir num by simp
  moreover have "inodes_inv t"
    unfolding inodes_inv_def
  proof (intro allI impI)
    fix m assume m: "m < MAX_FILES"
    have "inode_used t m = inode_used s m" by (simp add: inode_used_def num)
    with io m show "if inode_used t m
     then inode_number (inode_table t m) = of_nat (m + 1) \<and> 0 < nslots t m
       \<and> fsize t m \<le> nslots t m * BLOCK_SIZE
     else nslots t m = 0"
      using z(2) nn sz other [of m] by (cases "m = n") (auto simp: inodes_inv_def ns ns1 num)
  qed
  ultimately show "fs_inv t" by (simp add: fs_inv_def)
  have "files t = (files s)(i \<mapsto> \<lparr>f_name = entry_name s i, f_data = content t n,
     f_perms = permissions (inode_table t n)\<rparr>)"
  proof (rule files_frame [OF inv dir])
    fix m assume m: "m \<noteq> n" "m < MAX_FILES"
    have keep: "bptr s1 m j = bptr s m j" if "j < nslots s m" for j using g that by (simp add: grow_rel_def)
    have "storage t (unat (bptr s m j)) = storage s (unat (bptr s m j))" if j: "j < nslots s m" for j
    proof -
      have ow: "owner_inv s1" using b1 by (simp add: blocks_inv_def)
      have "j < nslots s1 m" using j ns1 [of m] m by simp
      note inj = owner_inj [OF ow m(2) this nn(1)]
      have "\<forall>j'<nslots s1 n. unat (bptr s1 n j') \<noteq> unat (bptr s m j)"
      proof (intro allI impI notI)
        fix j' assume "j' < nslots s1 n" "unat (bptr s1 n j') = unat (bptr s m j)"
        with inj [of j'] keep [OF j] m(1) show False by (metis word_unat_eq_iff)
      qed
      then have "st (unat (bptr s m j)) = storage s1 (unat (bptr s m j))" using w by (simp add: wrote_def)
      then show ?thesis using g by (simp add: t_def set_inode_fields grow_rel_def)
    qed
    with keep show "fsize t m = fsize s m \<and> permissions (inode_table t m) = permissions (inode_table s m)
        \<and> (\<forall>j<nslots s m. bptr t m j = bptr s m j
             \<and> storage t (unat (bptr s m j)) = storage s (unat (bptr s m j)))"
      using other [OF m(1)] by (simp add: num bp)
  qed (use n i in auto)
  moreover have "content t n = take z (content s n) @ take w buf"
  proof (rule content_wrote [OF w _ bp sz z(1) _ z(3)])
    show "fsize s n \<le> nslots s n * BLOCK_SIZE" using inode_size_bound(1) [OF inv i(1,2)] n by simp
  qed (use g in \<open>simp_all add: t_def set_inode_fields grow_rel_def\<close>)
  moreover have "f\<lparr>f_data := take z (f_data f) @ take w buf\<rparr> = \<lparr>f_name = entry_name s i,
      f_data = take z (content s n) @ take w buf, f_perms = permissions (inode_table t n)\<rparr>"
    using i n num(2) [of n] by (intro file_view.equality) simp_all
  ultimately show "files t = (files s)(i \<mapsto> f\<lparr>f_data := take z (f_data f) @ take w buf\<rparr>)" by simp
qed

end
