(* ===== verification/FileOps.thy ===== *)
theory FileOps
  imports FileSpec
begin

text \<open>
  What each operation of the file system does to the abstract view, on every branch.
  \<open>write_count\<close> and \<open>append_count\<close> are the number of bytes that a write or an append
  stores when the disk or the pointer array has no room for the rest.
\<close>

subsection \<open>Refused operations\<close>

lemma find_entry_missing:
  assumes "fs_inv s" "NUL \<notin> set nm" "lookup (files s) nm = None"
  shows "find_entry s (cstr nm) 0 = Some None"
  using assms find_entry_lookup [of s nm] by (simp add: fs_inv_def dir_inv_def)

definition readable :: "u16 \<Rightarrow> bool" where "readable p \<longleftrightarrow> p AND 4 \<noteq> 0"
definition writable :: "u16 \<Rightarrow> bool" where "writable p \<longleftrightarrow> p AND 2 \<noteq> 0"

lemma check_permissions_modes [simp]:
  "check_permissions p 0 = readable p" "check_permissions p 1 = writable p"
  by (simp_all add: check_permissions_def readable_def writable_def)

subsection \<open>Arithmetic of block counts\<close>

lemma blocks_for_bounds: "n \<le> blocks_for n * BLOCK_SIZE" "blocks_for n * BLOCK_SIZE < n + BLOCK_SIZE"
  using div_mult_mod_eq [of "n + 4095" 4096] mod_less_divisor [of 4096 "n + 4095"]
  by (simp_all add: blocks_for_def)

lemma blocks_for_le: "n \<le> k * BLOCK_SIZE \<Longrightarrow> blocks_for n \<le> k"
  using blocks_for_bounds(2) [of n] by simp

lemma blocks_for_gr: "k < blocks_for n \<Longrightarrow> k * BLOCK_SIZE < n"
  using blocks_for_bounds(2) [of n] by simp

lemma blocks_for_word:
  assumes "unat z \<le> 16384"
  shows "unat ((z + of_nat BLOCK_SIZE - 1) div (of_nat BLOCK_SIZE :: u32)) = blocks_for (unat z)"
proof -
  have "z + of_nat BLOCK_SIZE - 1 = (z + 4095 :: u32)" by simp
  moreover have "unat (z + 4095 :: u32) = unat z + 4095"
    using assms by (subst unat_plus_if') simp
  moreover have "unat (of_nat BLOCK_SIZE :: u32) = BLOCK_SIZE" by (rule unat_small) simp
  ultimately show ?thesis by (simp only: unat_div) (simp add: blocks_for_def)
qed

definition write_count :: "fs_state \<Rightarrow> nat \<Rightarrow> nat \<Rightarrow> nat" where
  "write_count s n sz =
     (let ws = min sz (MAX_BLOCKS_PER_FILE * BLOCK_SIZE);
          cur = max (blocks_for (fsize s n)) 1;
          need = blocks_for ws - cur;
          got = min need (min (MAX_BLOCKS_PER_FILE - nslots s n) (card (free_block_set s))) in
      if got < need then (cur + got) * BLOCK_SIZE else ws)"

definition append_count :: "fs_state \<Rightarrow> nat \<Rightarrow> nat \<Rightarrow> nat" where
  "append_count s n sz =
     (let as = min sz (MAX_BLOCKS_PER_FILE * BLOCK_SIZE - fsize s n);
          space = max (blocks_for (fsize s n)) 1 * BLOCK_SIZE - fsize s n;
          need = blocks_for (as - space);
          got = min need (min (MAX_BLOCKS_PER_FILE - nslots s n) (card (free_block_set s))) in
      if got < need then space + got * BLOCK_SIZE else as)"

text \<open>The count is at most what was asked for and fits the blocks the file then has.\<close>

lemma write_count_fits:
  fixes s n sz
  defines "need \<equiv> blocks_for (min sz (MAX_BLOCKS_PER_FILE * BLOCK_SIZE)) - max (blocks_for (fsize s n)) 1"
  assumes a: "a = min need (min (MAX_BLOCKS_PER_FILE - nslots s n) (card (free_block_set s)))"
    and z: "fsize s n \<le> nslots s n * BLOCK_SIZE" "0 < nslots s n"
  shows "write_count s n sz \<le> sz" "write_count s n sz \<le> (nslots s n + a) * BLOCK_SIZE"
    and "write_count s n sz = (if a < need then (max (blocks_for (fsize s n)) 1 + a) * BLOCK_SIZE
           else min sz (MAX_BLOCKS_PER_FILE * BLOCK_SIZE))"
proof -
  let ?ws = "min sz (MAX_BLOCKS_PER_FILE * BLOCK_SIZE)" and ?cur = "max (blocks_for (fsize s n)) 1"
  show c: "write_count s n sz = (if a < need then (?cur + a) * BLOCK_SIZE else ?ws)"
    by (simp only: write_count_def Let_def a need_def)
  have cur: "?cur \<le> nslots s n" using blocks_for_le [OF z(1)] z(2) by simp
  show "write_count s n sz \<le> sz"
  proof (cases "a < need")
    case True
    then have "?cur + a < blocks_for ?ws" by (simp add: need_def less_diff_conv add.commute)
    then have "(?cur + a) * BLOCK_SIZE < ?ws" by (rule blocks_for_gr)
    then show ?thesis using c True by simp
  qed (simp add: c)
  have "?ws \<le> blocks_for ?ws * BLOCK_SIZE" by (rule blocks_for_bounds)
  moreover have "blocks_for ?ws \<le> nslots s n + a" if "\<not> a < need"
  proof -
    have "blocks_for ?ws - ?cur \<le> a" using that by (simp only: need_def not_less)
    then have "blocks_for ?ws \<le> a + ?cur" by (simp only: le_diff_conv)
    then show ?thesis using cur by (metis add.commute add_le_mono1 le_trans)
  qed
  then have "blocks_for ?ws * BLOCK_SIZE \<le> (nslots s n + a) * BLOCK_SIZE" if "\<not> a < need"
    using that by (intro mult_le_mono1) blast
  moreover have "(?cur + a) * BLOCK_SIZE \<le> (nslots s n + a) * BLOCK_SIZE"
    using cur by (intro mult_le_mono1 add_le_mono1)
  ultimately show "write_count s n sz \<le> (nslots s n + a) * BLOCK_SIZE"
    by (cases "a < need") (simp_all only: c if_True if_False simp_thms, blast intro: le_trans)
qed

lemma append_count_fits:
  fixes s n sz
  defines "space \<equiv> max (blocks_for (fsize s n)) 1 * BLOCK_SIZE - fsize s n"
  defines "need \<equiv> blocks_for (min sz (MAX_BLOCKS_PER_FILE * BLOCK_SIZE - fsize s n) - space)"
  assumes a: "a = min need (min (MAX_BLOCKS_PER_FILE - nslots s n) (card (free_block_set s)))"
    and z: "fsize s n \<le> nslots s n * BLOCK_SIZE" "0 < nslots s n"
  shows "append_count s n sz \<le> sz" "fsize s n + append_count s n sz \<le> (nslots s n + a) * BLOCK_SIZE"
    and "append_count s n sz = (if a < need then space + a * BLOCK_SIZE
           else min sz (MAX_BLOCKS_PER_FILE * BLOCK_SIZE - fsize s n))"
proof -
  let ?as = "min sz (MAX_BLOCKS_PER_FILE * BLOCK_SIZE - fsize s n)" and ?cur = "max (blocks_for (fsize s n)) 1"
  show c: "append_count s n sz = (if a < need then space + a * BLOCK_SIZE else ?as)"
    by (simp only: append_count_def Let_def a need_def space_def)
  have cur: "?cur \<le> nslots s n" using blocks_for_le [OF z(1)] z(2) by simp
  then have curb: "?cur * BLOCK_SIZE \<le> nslots s n * BLOCK_SIZE" by (rule mult_le_mono1)
  have "fsize s n \<le> ?cur * BLOCK_SIZE" using blocks_for_bounds(1) [of "fsize s n"] by simp
  then have sp: "fsize s n + space = ?cur * BLOCK_SIZE" by (simp add: space_def)
  show "append_count s n sz \<le> sz"
  proof (cases "a < need")
    case True
    then have "a * BLOCK_SIZE < ?as - space" unfolding need_def by (rule blocks_for_gr)
    then show ?thesis using c True by simp
  qed (simp add: c)
  have "?as \<le> space + blocks_for (?as - space) * BLOCK_SIZE"
    using blocks_for_bounds(1) [of "?as - space"] by linarith
  moreover have "blocks_for (?as - space) * BLOCK_SIZE \<le> a * BLOCK_SIZE" if "\<not> a < need"
    using that unfolding need_def by (intro mult_le_mono1) simp
  ultimately have "append_count s n sz \<le> space + a * BLOCK_SIZE" unfolding c by fastforce
  then show "fsize s n + append_count s n sz \<le> (nslots s n + a) * BLOCK_SIZE"
    using sp curb unfolding add_mult_distrib by linarith
qed

text \<open>How the C code computes the free space in the last block.\<close>

lemma space_left_eq:
  "(if z mod BLOCK_SIZE = 0 \<and> 0 < z then 0 else BLOCK_SIZE - z mod BLOCK_SIZE)
     = max (blocks_for z) 1 * BLOCK_SIZE - z"
proof -
  define q r where "q = z div BLOCK_SIZE" and "r = z mod BLOCK_SIZE"
  have z: "z = q * BLOCK_SIZE + r" "r < BLOCK_SIZE" by (simp_all add: q_def r_def)
  have "blocks_for z = (if r = 0 then q else q + 1)"
    using z by (auto simp: blocks_for_def)
  moreover have "z mod BLOCK_SIZE = r" by (simp add: r_def)
  ultimately show ?thesis using z by (cases q) auto
qed

subsection \<open>Write, append and read on an existing file\<close>

lemma allocation_step:
  fixes req :: nat
  assumes "blocks_inv s" "n < MAX_FILES"
  defines "a \<equiv> min req (min (MAX_BLOCKS_PER_FILE - nslots s n) (card (free_block_set s)))"
  shows "\<exists>s1. (if 0 < req then allocate_blocks n req s else (s, 0)) = (s1, a) \<and> grow_rel n a s s1"
proof (cases "0 < req")
  case True
  obtain s1 a' where r: "allocate_blocks n req s = (s1, a')" by fastforce
  with allocate_blocks_grow [OF assms(1,2) r] True show ?thesis by (auto simp: a_def)
next
  case False
  then show ?thesis using grow_rel_refl [OF assms(1)] by (simp add: a_def)
qed

lemma write_file_ok:
  assumes inv: "fs_inv s" and nm: "NUL \<notin> set nm" "lookup (files s) nm = Some i" "files s i = Some f"
    and wr: "writable (f_perms f)" and sz: "sz \<le> length buf"
  defines "w \<equiv> write_count s (entry_target s i) sz"
  shows "\<exists>t. write_file (cstr nm) buf sz s = Some (t, Inr w) \<and> fs_inv t
    \<and> files t = (files s)(i \<mapsto> f\<lparr>f_data := take w buf\<rparr>)
    \<and> root_directory t = root_directory s \<and> (\<forall>m. nslots s m \<le> nslots t m)"
proof -
  define n where "n = entry_target s i"
  note l = lookup_inode [OF inv nm, folded n_def]
  have bi: "blocks_inv s" using inv by (simp add: fs_inv_def)
  note zz = inode_size_bound [OF inv files_SomeD(1,2) [OF nm(3)], folded n_def]
  have "fsize s n \<le> 16384" using zz nslots_le [of s n] by simp
  then have cur: "unat ((file_size (inode_table s n) + of_nat BLOCK_SIZE - 1) div of_nat BLOCK_SIZE)
      = blocks_for (fsize s n)"
    unfolding fsize_def by (rule blocks_for_word)
  define ws cu where "ws = min sz (MAX_BLOCKS_PER_FILE * BLOCK_SIZE)" and "cu = max (blocks_for (fsize s n)) 1"
  define need where "need = blocks_for ws - cu"
  define a where "a = min need (min (MAX_BLOCKS_PER_FILE - nslots s n) (card (free_block_set s)))"
  obtain s1 where s1: "(if 0 < need then allocate_blocks n need s else (s, 0)) = (s1, a)" "grow_rel n a s s1"
    using allocation_step [OF bi l(3), of need] by (auto simp: a_def)
  have ineed: "(int (blocks_for ws) - int cu > 0) = (0 < need)" "nat (int (blocks_for ws) - int cu) = need"
    "(int a < int (blocks_for ws) - int cu) = (a < need)"
    by (auto simp: need_def)
  note fits = write_count_fits [where s = s and n = n and a = a and sz = sz, folded ws_def cu_def,
      folded need_def, OF a_def zz, folded n_def]
  have w: "w = write_count s n sz" by (simp add: w_def n_def)
  have wval: "(if 0 < need \<and> a < need then (cu + a) * BLOCK_SIZE else ws) = w"
    unfolding w fits(3) by simp
  have ns1: "nslots s1 n = nslots s n + a" and b1: "blocks_inv s1" using s1(2) by (auto simp: grow_rel_def)
  have "w \<le> nslots s1 n * BLOCK_SIZE" "w \<le> length buf"
    using fits(1,2) sz unfolding ns1 w by linarith+
  from write_loop_wrote [OF wrote_0 b1 l(3) _ this, of 0] obtain st where
    st: "write_loop n buf w 0 0 s1 = Some (s1\<lparr>storage := st\<rparr>, w)" "wrote s1 st n 0 buf w" by auto
  let ?t = "set_inode n (file_size_update (\<lambda>_. of_nat w)) (s1\<lparr>storage := st\<rparr>)"
  have "write_file (cstr nm) buf sz s = Some (?t, Inr w)"
    using wr l(1,2,5)
    by (simp only: write_file_def Let_def cur ws_def [symmetric] cu_def [symmetric] ineed
        s1(1) wval st(1) bind.bind_lunit option.case not_not check_permissions_modes simp_thms
        if_True if_False split)
  moreover have "fs_inv ?t \<and> files ?t = (files s)(i \<mapsto> f\<lparr>f_data := take w buf\<rparr>)"
    using store_file [OF inv nm(3) n_def s1(2) st(2)] fits(2) \<open>w \<le> length buf\<close> unfolding w by simp
  moreover have "nslots ?t m = nslots s1 m" for m
    by (rule nslots_cong) (simp add: bptr_def fs_simps)
  then have "root_directory ?t = root_directory s \<and> (\<forall>m. nslots s m \<le> nslots ?t m)"
    using s1(2) by (simp add: grow_rel_def fs_simps)
  ultimately show ?thesis by blast
qed

lemma set_inode_cong: "f (inode_table s n) = g (inode_table s n) \<Longrightarrow> set_inode n f s = set_inode n g s"
  by (simp add: set_inode_def)

lemma append_to_file_full:
  assumes inv: "fs_inv s" and nm: "NUL \<notin> set nm" "lookup (files s) nm = Some i" "files s i = Some f"
    and wr: "writable (f_perms f)" and full: "MAX_BLOCKS_PER_FILE * BLOCK_SIZE \<le> length (f_data f)"
  shows "append_to_file (cstr nm) buf sz s = Some (s, Inl AtMaxSize)"
proof -
  have "unat (file_size (inode_table s (entry_target s i))) = length (f_data f)"
    using files_SomeD(4) [OF nm(3)] by (simp add: content_def fsize_def)
  with wr full lookup_inode [OF inv nm] show ?thesis
    by (simp only: append_to_file_def Let_def bind.bind_lunit option.case not_not
        check_permissions_modes simp_thms if_True if_False split)
qed

lemma append_to_file_ok:
  assumes inv: "fs_inv s" and nm: "NUL \<notin> set nm" "lookup (files s) nm = Some i" "files s i = Some f"
    and wr: "writable (f_perms f)" and sz: "sz \<le> length buf"
    and room: "length (f_data f) < MAX_BLOCKS_PER_FILE * BLOCK_SIZE"
  defines "w \<equiv> append_count s (entry_target s i) sz"
  shows "\<exists>t. append_to_file (cstr nm) buf sz s = Some (t, Inr w) \<and> fs_inv t
    \<and> files t = (files s)(i \<mapsto> f\<lparr>f_data := f_data f @ take w buf\<rparr>)"
proof -
  define n where "n = entry_target s i"
  note l = lookup_inode [OF inv nm, folded n_def]
  have bi: "blocks_inv s" using inv by (simp add: fs_inv_def)
  note zz = inode_size_bound [OF inv files_SomeD(1,2) [OF nm(3)], folded n_def]
  define z where "z = fsize s n"
  have zl: "length (f_data f) = z" "unat (file_size (inode_table s n)) = z"
    using files_SomeD(4) [OF nm(3)] by (simp_all add: content_def n_def z_def fsize_def)
  define as space where "as = min sz (MAX_BLOCKS_PER_FILE * BLOCK_SIZE - z)"
    and "space = max (blocks_for z) 1 * BLOCK_SIZE - z"
  have over: "(if as > space then as - space else 0) = as - space" by simp
  define need where "need = blocks_for (as - space)"
  define a where "a = min need (min (MAX_BLOCKS_PER_FILE - nslots s n) (card (free_block_set s)))"
  obtain s1 where s1: "(if 0 < need then allocate_blocks n need s else (s, 0)) = (s1, a)" "grow_rel n a s s1"
    using allocation_step [OF bi l(3), of need] by (auto simp: a_def)
  note fits = append_count_fits [where s = s and n = n and a = a and sz = sz, folded z_def, folded as_def space_def,
      folded need_def, OF a_def zz [folded z_def], folded n_def]
  have w: "w = append_count s n sz" by (simp add: w_def n_def)
  have wval: "(if 0 < need \<and> a < need then space + a * BLOCK_SIZE else as) = w"
    unfolding w fits(3) by simp
  have ns1: "nslots s1 n = nslots s n + a" and b1: "blocks_inv s1" using s1(2) by (auto simp: grow_rel_def)
  have wb: "z + w \<le> nslots s1 n * BLOCK_SIZE" "w \<le> length buf"
    using fits(1,2) sz unfolding ns1 w by linarith+
  from append_loop_wrote [OF wrote_0 b1 l(3) _ this] obtain st where
    st: "append_loop n buf z w 0 s1 = Some (s1\<lparr>storage := st\<rparr>, w)" "wrote s1 st n z buf w" by auto
  let ?t = "set_inode n (\<lambda>x. x\<lparr>file_size := file_size x + of_nat w\<rparr>) (s1\<lparr>storage := st\<rparr>)"
  have "append_to_file (cstr nm) buf sz s = Some (?t, Inr w)"
    using wr l(1,2,5) room [folded not_less] unfolding zl
    by (simp only: append_to_file_def Let_def zl as_def [symmetric] space_left_eq space_def [symmetric]
        over need_def [symmetric] s1(1) wval st(1) bind.bind_lunit option.case not_not not_less not_le
        check_permissions_modes simp_thms if_True if_False split) simp
  moreover have "?t = set_inode n (file_size_update (\<lambda>_. of_nat (z + w))) (s1\<lparr>storage := st\<rparr>)"
  proof (rule set_inode_cong)
    have "file_size (inode_table s1 n) = of_nat z"
      using s1(2) zl(2) by (simp add: grow_rel_def flip: zl(2))
    then show "(inode_table (s1\<lparr>storage := st\<rparr>) n)
        \<lparr>file_size := file_size (inode_table (s1\<lparr>storage := st\<rparr>) n) + of_nat w\<rparr>
      = file_size_update (\<lambda>_. of_nat (z + w)) (inode_table (s1\<lparr>storage := st\<rparr>) n)" by simp
  qed
  moreover have "take z (f_data f) = f_data f" using zl(1) by simp
  ultimately show ?thesis
    using store_file [OF inv nm(3) n_def s1(2) st(2) _ fits(2) [folded w] wb(2)] by (simp add: z_def)
qed

lemma read_loop_ok:
  assumes "blocks_inv s" "n < MAX_FILES" "rs \<le> fsize s n" "fsize s n \<le> nslots s n * BLOCK_SIZE"
    "rs \<le> length buf" "rd \<le> rs" "length b = length buf" "b = take rd (content s n) @ drop rd buf"
  shows "read_loop s n rs rd b = Some (rs, take rs (content s n) @ drop rs buf)"
  using assms(6-8)
proof (induction "rs - rd" arbitrary: rd b rule: less_induct)
  case less
  show ?case
  proof (cases "rd = rs")
    case True
    with less.prems show ?thesis by (simp add: read_loop.simps [of s n rs])
  next
    case False
    let ?bn = "rd div BLOCK_SIZE" and ?off = "rd mod BLOCK_SIZE"
    define chunk where "chunk = min (BLOCK_SIZE - ?off) (rs - rd)"
    have bn: "?bn < nslots s n"
      using less.prems(1) False assms(3,4) by (simp add: less_mult_imp_div_less)
    have ow: "owner_inv s" using assms(1) by (auto simp: blocks_inv_def)
    have ptr: "bptr s n ?bn \<noteq> no_block" "unat (bptr s n ?bn) < BLOCK_COUNT"
      using nslots_set [OF bn] owner_range [OF ow assms(2) bn] by auto
    have "?off < BLOCK_SIZE" by simp
    then have ch: "0 < chunk" "chunk \<le> BLOCK_SIZE - ?off" "rd + chunk \<le> rs"
      using less.prems(1) False unfolding chunk_def by auto
    define bs where "bs = map (storage s (unat (bptr s n ?bn))) [?off..<?off + chunk]"
    have lc: "length (content s n) = fsize s n" by (simp add: content_def)
    have bs: "bs = take chunk (drop rd (content s n))"
    proof (rule nth_equalityI)
      show "length bs = length (take chunk (drop rd (content s n)))"
        using ch(3) assms(3) by (simp add: bs_def lc)
      fix k assume "k < length bs"
      then have k: "k < chunk" by (simp add: bs_def)
      then have r: "?off + k < BLOCK_SIZE" using ch(2) by linarith
      define q e where "q = ?bn" and "e = ?off + k"
      have "rd + k = q * BLOCK_SIZE + e"
        using div_mult_mod_eq [of rd BLOCK_SIZE] unfolding q_def e_def by linarith
      then have "(rd + k) div BLOCK_SIZE = q" "(rd + k) mod BLOCK_SIZE = e"
        using r [folded e_def] by simp_all
      then have "(rd + k) div BLOCK_SIZE = ?bn" "(rd + k) mod BLOCK_SIZE = ?off + k"
        by (simp_all add: q_def e_def)
      then show "bs ! k = take chunk (drop rd (content s n)) ! k"
        using k ch(3) assms(3) by (simp add: bs_def content_def)
    qed
    have len: "length bs = chunk" by (simp add: bs_def)
    have "copy_out b rd bs = Some (take rd b @ bs @ drop (rd + chunk) b)"
      using ch(3) assms(5) less.prems(2) by (simp add: copy_out_def len)
    moreover have "take rd b = take rd (content s n)"
      using less.prems(1,3) assms(3) by (simp add: lc)
    moreover have "drop (rd + chunk) b = drop (rd + chunk) buf"
      using less.prems(1,3) assms(3) by (simp add: lc add.commute)
    moreover have "take rd (content s n) @ bs = take (rd + chunk) (content s n)"
      by (simp add: bs take_add)
    ultimately have co: "copy_out b rd bs = Some (take (rd + chunk) (content s n) @ drop (rd + chunk) buf)"
      by (metis append_assoc)
    have "read_loop s n rs (rd + chunk) (take (rd + chunk) (content s n) @ drop (rd + chunk) buf)
        = Some (rs, take rs (content s n) @ drop rs buf)"
      using ch False less.prems(1) assms(3,5) by (intro less.hyps) (auto simp: lc)
    moreover have "read_loop s n rs rd b
        = read_loop s n rs (rd + chunk) (take (rd + chunk) (content s n) @ drop (rd + chunk) buf)"
      using less.prems(1) False ptr bn nslots_le [of s n] co
      by (simp add: read_loop.simps [of s n rs rd] bptr_def Let_def bs_def chunk_def [symmetric])
    ultimately show ?thesis by simp
  qed
qed

lemma read_file_ok:
  assumes inv: "fs_inv s" and nm: "NUL \<notin> set nm" "lookup (files s) nm = Some i" "files s i = Some f"
    and rd: "readable (f_perms f)" and sz: "sz \<le> length buf"
  defines "r \<equiv> min sz (length (f_data f))"
  shows "read_file (cstr nm) buf sz s = Some (Inr (r, take r (f_data f) @ drop r buf))"
proof -
  define n where "n = entry_target s i"
  note l = lookup_inode [OF inv nm, folded n_def]
  have bi: "blocks_inv s" using inv by (simp add: fs_inv_def)
  note zz = inode_size_bound [OF inv files_SomeD(1,2) [OF nm(3)], folded n_def]
  have c: "f_data f = content s n" and len: "unat (file_size (inode_table s n)) = length (f_data f)"
    using files_SomeD(4) [OF nm(3)] by (simp_all add: content_def n_def fsize_def)
  have r: "(if sz > length (f_data f) then length (f_data f) else sz) = r" by (simp add: r_def)
  have "fsize s n = length (f_data f)" using len by (simp add: fsize_def)
  then have "read_loop s n r 0 buf = Some (r, take r (f_data f) @ drop r buf)"
    unfolding c [symmetric]
    using read_loop_ok [OF bi l(3) _ zz(1), of r buf 0 buf] sz by (simp add: r_def c)
  with rd l(1,2,5) show ?thesis
    by (simp only: read_file_def Let_def len r bind.bind_lunit option.case not_not
        check_permissions_modes simp_thms if_True if_False split)
qed

end
