(* ===== verification/FileDir.thy ===== *)
theory FileDir
  imports FileOps
begin

text \<open>
  The operations that change the directory: \<open>chmod_file\<close>, \<open>create_file\<close>, \<open>delete_file\<close>,
  \<open>format_disk\<close> and \<open>list_files\<close>, against the abstract view.
\<close>

subsection \<open>Changing permissions\<close>

lemma chmod_file_ok:
  assumes inv: "fs_inv s" and nm: "NUL \<notin> set nm" "lookup (files s) nm = Some i" "files s i = Some f"
  shows "\<exists>t. chmod_file (cstr nm) p s = Some (t, Inr ()) \<and> fs_inv t
    \<and> files t = (files s)(i \<mapsto> f\<lparr>f_perms := p\<rparr>)"
proof -
  define n where "n = entry_target s i"
  note l = lookup_inode [OF inv nm, folded n_def]
  note i = files_SomeD [OF nm(3), folded n_def]
  let ?t = "set_inode n (permissions_update (\<lambda>_. p)) s"
  have bp: "bptr ?t m j = bptr s m j" for m j by (simp add: bptr_def fs_simps)
  have num: "inode_number (inode_table ?t m) = inode_number (inode_table s m)" for m
    by (simp add: fs_simps)
  have fz: "fsize ?t m = fsize s m" for m by (simp add: fsize_def fs_simps)
  have ns: "nslots ?t m = nslots s m" for m by (rule nslots_cong) (rule bp)
  have "blocks_inv ?t" using inv blocks_inv_cong [of ?t s] bp by (simp add: fs_inv_def fs_simps)
  moreover have "dir_inv ?t"
    using inv dir_inv_cong [of ?t s] num by (simp add: fs_inv_def fs_simps)
  moreover have "inodes_inv ?t"
    using inv unfolding fs_inv_def inodes_inv_def inode_used_def num fz ns by blast
  ultimately have inv': "fs_inv ?t" by (simp add: fs_inv_def)
  have "files ?t = (files s)(i \<mapsto> \<lparr>f_name = entry_name s i, f_data = content ?t n,
     f_perms = permissions (inode_table ?t n)\<rparr>)"
    by (rule files_frame [OF inv]) (simp_all add: fs_simps fz bp i(1,2) n_def [symmetric])
  moreover have "content ?t n = f_data f" using i(4) by (simp add: content_def fz bp fs_simps)
  moreover have "permissions (inode_table ?t n) = p" by (simp add: fs_simps)
  moreover have "\<lparr>f_name = entry_name s i, f_data = f_data f, f_perms = p\<rparr> = f\<lparr>f_perms := p\<rparr>"
    using i(3) by (intro file_view.equality) simp_all
  ultimately have "files ?t = (files s)(i \<mapsto> f\<lparr>f_perms := p\<rparr>)" by simp
  moreover have "chmod_file (cstr nm) p s = Some (?t, Inr ())" using l by (simp add: chmod_file_def)
  ultimately show ?thesis using inv' by blast
qed

subsection \<open>Deletion\<close>

lemma delete_file_ok:
  assumes inv: "fs_inv s" and nm: "NUL \<notin> set nm" "lookup (files s) nm = Some i" "files s i = Some f"
    and wr: "writable (f_perms f)"
  shows "\<exists>t. delete_file (cstr nm) s = Some (t, Inr ()) \<and> fs_inv t
    \<and> files t = (files s)(i := None)
    \<and> card (free_block_set t) = card (free_block_set s) + nslots s (entry_target s i)"
proof -
  define n where "n = entry_target s i"
  note l = lookup_inode [OF inv nm, folded n_def]
  note i = files_SomeD [OF nm(3), folded n_def]
  have bi: "blocks_inv s" and d: "dir_inv s" and io: "inodes_inv s" and nv: "names_inv s"
    using inv by (auto simp: fs_inv_def dir_inv_def)
  define r where "r = released [0..<MAX_BLOCKS_PER_FILE] n s"
  note rel = blocks_inv_released [OF bi l(3), folded r_def]
  define t where "t = set_entry i (\<lambda>x. x\<lparr>entry_inode := 0, filename := replicate MAX_FILENAME_LEN NUL\<rparr>)
    ((set_inode n (\<lambda>x. x\<lparr>inode_number := 0, file_size := 0\<rparr>) r)
      \<lparr>sb := (sb r)\<lparr>free_inodes := free_inodes (sb r) + 1\<rparr>\<rparr>)"
  have "length (filename (root_directory s i)) = MAX_FILENAME_LEN"
    using nv i(1) by (simp add: names_inv_def)
  then have run: "delete_file (cstr nm) s = Some (t, Inr ())"
    using wr l rel(1)
    by (simp add: delete_file_def Let_def t_def set_inode_fields r_def released_fields memset_eq)
  have bp: "bptr t m j = bptr r m j" for m j by (simp add: t_def bptr_def fs_simps)
  have ns: "nslots t m = (if m = n then 0 else nslots s m)" for m
    using nslots_cong [of t m r, OF bp] rel(2) [of m] by simp
  have bpo: "bptr t m j = bptr s m j" if "m \<noteq> n" for m j using that by (simp add: bp r_def fs_simps)
  have stor: "storage t = storage s" by (simp add: t_def r_def fs_simps)
  have num: "inode_number (inode_table t m) = (if m = n then 0 else inode_number (inode_table s m))"
    "permissions (inode_table t m) = permissions (inode_table s m)" for m
    by (simp_all add: t_def r_def fs_simps)
  have fz: "fsize t m = (if m = n then 0 else fsize s m)" for m
    by (simp add: t_def r_def fsize_def fs_simps)
  have ent: "root_directory t k = (if k = i then (root_directory s i)\<lparr>entry_inode := 0,
      filename := replicate MAX_FILENAME_LEN NUL\<rparr> else root_directory s k)" for k
    by (simp add: t_def r_def fs_simps)
  have used: "entry_used t k \<longleftrightarrow> k \<noteq> i \<and> entry_used s k" for k by (simp add: entry_used_def ent)
  have tgt: "entry_target t k = entry_target s k" "entry_name t k = entry_name s k" if "k \<noteq> i" for k
    using that by (simp_all add: entry_target_def entry_name_def ent)
  have iu: "inode_used t m \<longleftrightarrow> m \<noteq> n \<and> inode_used s m" for m by (simp add: inode_used_def num)
  have "blocks_inv t" using rel(3) blocks_inv_cong [of t r] bp by (simp add: t_def fs_simps)
  moreover have "inodes_inv t"
    using io unfolding inodes_inv_def iu ns fz num by (simp split: if_splits)
  moreover have "dir_inv t"
    unfolding dir_inv_def
  proof
    show "names_inv t" using nv by (auto simp: names_inv_def ent used)
    have "{k. k < MAX_FILES \<and> entry_used t k} = {k. k < MAX_FILES \<and> entry_used s k} - {i}"
      by (auto simp: used)
    moreover have "{m. m < MAX_FILES \<and> inode_used t m} = {m. m < MAX_FILES \<and> inode_used s m} - {entry_target s i}"
      by (auto simp: iu n_def)
    moreover have "bij_betw (entry_target t) ({k. k < MAX_FILES \<and> entry_used s k} - {i})
      ({m. m < MAX_FILES \<and> inode_used s m} - {entry_target s i})"
      using d i by (intro bij_betw_del) (auto simp: dir_inv_def tgt)
    ultimately show "bij_betw (entry_target t) {k. k < MAX_FILES \<and> entry_used t k} {m. m < MAX_FILES \<and> inode_used t m}"
      by simp
  qed
  ultimately have "fs_inv t" by (simp add: fs_inv_def)
  moreover have "files t = (files s)(i := None)"
  proof
    fix k show "files t k = ((files s)(i := None)) k"
    proof (cases "k \<noteq> i \<and> k < MAX_FILES \<and> entry_used s k")
      case True
      then have "entry_target s k \<noteq> n" using entry_target_inj [OF d _ _ i(1,2)] by (auto simp: n_def)
      then have "content t (entry_target s k) = content s (entry_target s k)"
        by (simp add: content_def fz bpo stor)
      with True show ?thesis by (simp add: files_def used tgt num)
    qed (auto simp: files_def used)
  qed
  moreover have "card (free_block_set t) = card (free_block_set s) + nslots s n"
  proof -
    have ow: "owner_inv s" using bi by (simp add: blocks_inv_def)
    have "free_block_set t = free_block_set r" by (simp add: free_block_set_def t_def fs_simps)
    moreover have "inj_on (\<lambda>j. unat (bptr s n j)) {..<nslots s n}"
      using owner_inj [OF ow l(3) _ l(3)] by (auto simp: inj_on_def word_unat_eq_iff)
    moreover have "free_block_set s \<inter> (\<lambda>j. unat (bptr s n j)) ` {..<nslots s n} = {}"
      using owner_range [OF ow l(3)] by (auto simp: free_block_set_def)
    ultimately show ?thesis unfolding rel(4) by (simp add: card_Un_disjoint card_image)
  qed
  ultimately show ?thesis using run unfolding n_def by blast
qed

subsection \<open>Creation\<close>

lemma used_card:
  assumes "dir_inv s"
  shows "card {i. i < MAX_FILES \<and> entry_used s i} = card {n. n < MAX_FILES \<and> inode_used s n}"
  using assms unfolding dir_inv_def by (blast intro: bij_betw_same_card)

lemma directory_not_full:
  assumes "dir_inv s" "n < MAX_FILES" "\<not> inode_used s n"
  shows "\<exists>i<MAX_FILES. \<not> entry_used s i"
proof (rule ccontr)
  assume "\<not> (\<exists>i<MAX_FILES. \<not> entry_used s i)"
  then have e: "{i. i < MAX_FILES \<and> entry_used s i} = {..<MAX_FILES}" by auto
  have "card {i. i < MAX_FILES \<and> entry_used s i} = card {n. n < MAX_FILES \<and> inode_used s n}"
    using assms(1) by (rule used_card)
  moreover have "{n. n < MAX_FILES \<and> inode_used s n} \<subset> {..<MAX_FILES}" using assms(2,3) by auto
  then have "card {n. n < MAX_FILES \<and> inode_used s n} < card {..<MAX_FILES}"
    by (intro psubset_card_mono) auto
  ultimately show False unfolding e by simp
qed

lemma dom_files: "dom (files s) = {i. i < MAX_FILES \<and> entry_used s i}"
  by (auto simp: files_def dom_def split: if_splits)

text \<open>All inodes are in use exactly when all directory slots are.\<close>

lemma inodes_full_iff:
  assumes "dir_inv s"
  shows "(\<forall>n<MAX_FILES. inode_used s n) \<longleftrightarrow> dom (files s) = {..<MAX_FILES}"
proof
  assume a: "\<forall>n<MAX_FILES. inode_used s n"
  then have e: "{n. n < MAX_FILES \<and> inode_used s n} = {..<MAX_FILES}" by auto
  have "card {i. i < MAX_FILES \<and> entry_used s i} = card {n. n < MAX_FILES \<and> inode_used s n}"
    using assms by (rule used_card)
  then have "card {i. i < MAX_FILES \<and> entry_used s i} = card {..<MAX_FILES}" unfolding e .
  moreover have "{i. i < MAX_FILES \<and> entry_used s i} \<subseteq> {..<MAX_FILES}" by auto
  ultimately show "dom (files s) = {..<MAX_FILES}" unfolding dom_files by (intro card_subset_eq) auto
next
  assume a: "dom (files s) = {..<MAX_FILES}"
  show "\<forall>n<MAX_FILES. inode_used s n"
  proof (rule ccontr)
    assume "\<not> (\<forall>n<MAX_FILES. inode_used s n)"
    then obtain n where "n < MAX_FILES" "\<not> inode_used s n" by blast
    with directory_not_full [OF assms this] a show False by (auto simp: dom_files)
  qed
qed

text \<open>A state that differs from \<open>s\<close> only in the counter of free inodes.\<close>

definition lost_inode :: "fs_state \<Rightarrow> fs_state" where
  "lost_inode s = s\<lparr>sb := (sb s)\<lparr>free_inodes := free_inodes (sb s) - 1\<rparr>\<rparr>"

lemma allocate_inode_free:
  assumes "\<exists>n<MAX_FILES. \<not> inode_used s n"
  obtains n where "n < MAX_FILES" "\<not> inode_used s n"
    "allocate_inode s = (set_inode n (inode_number_update (\<lambda>_. of_nat (n + 1))) (lost_inode s), Some n)"
proof -
  obtain n where n: "find_first (\<lambda>i. inode_number (inode_table s i) = 0) 0 MAX_FILES = Some n"
    using assms find_first_None [of "\<lambda>i. inode_number (inode_table s i) = 0" 0 MAX_FILES]
    by (auto simp: inode_used_def)
  with find_first_SomeD [OF n] that [of n] show ?thesis
    by (simp add: allocate_inode_def set_inode_def inode_used_def lost_inode_def)
qed

lemma create_file_no_inode:
  assumes "\<forall>n<MAX_FILES. inode_used s n"
  shows "create_file nm s = Some (s, Inl NoFreeInode)"
proof -
  have "find_first (\<lambda>i. inode_number (inode_table s i) = 0) 0 MAX_FILES = None"
    using assms by (simp add: find_first_None inode_used_def)
  then show ?thesis by (simp add: create_file_def allocate_inode_def)
qed

lemma create_file_no_block:
  assumes "\<exists>n<MAX_FILES. \<not> inode_used s n" "free_block_set s = {}"
  shows "create_file nm s = Some (lost_inode s, Inl NoFreeBlock)"
proof -
  from allocate_inode_free [OF assms(1)] obtain n where n: "n < MAX_FILES" "\<not> inode_used s n"
    and a: "allocate_inode s = (set_inode n (inode_number_update (\<lambda>_. of_nat (n + 1))) (lost_inode s), Some n)" .
  let ?s1 = "set_inode n (inode_number_update (\<lambda>_. of_nat (n + 1))) (lost_inode s)"
  have "free_block_set ?s1 = {}"
    using assms(2) by (simp add: free_block_set_def fs_simps lost_inode_def)
  then have "allocate_block ?s1 = (?s1, None)" using allocate_block_None_iff by blast
  moreover have "set_inode n (inode_number_update (\<lambda>_. 0)) ?s1 = lost_inode s"
  proof -
    have "inode_number (inode_table s n) = 0" using n(2) by (simp add: inode_used_def)
    then have "(inode_table s n)\<lparr>inode_number := 0\<rparr> = inode_table s n" by simp
    then show ?thesis by (simp add: set_inode_def lost_inode_def)
  qed
  ultimately show ?thesis by (simp add: create_file_def a)
qed

lemma create_file_ok:
  assumes inv: "fs_inv s" and nm: "NUL \<notin> set nm" "length nm < MAX_FILENAME_LEN"
    and free: "\<exists>n<MAX_FILES. \<not> inode_used s n" "free_block_set s \<noteq> {}"
  shows "\<exists>t i n. create_file (cstr nm) s = Some (t, Inr n) \<and> fs_inv t
    \<and> find_first (\<lambda>i. files s i = None) 0 MAX_FILES = Some i
    \<and> files t = (files s)(i \<mapsto> \<lparr>f_name = nm, f_data = [], f_perms = 7\<rparr>)
    \<and> nslots t (entry_target t i) = 1 \<and> card (free_block_set t) + 1 = card (free_block_set s)"
proof -
  have bi: "blocks_inv s" and d: "dir_inv s" and io: "inodes_inv s" and nv: "names_inv s"
    using inv by (auto simp: fs_inv_def dir_inv_def)
  from allocate_inode_free [OF free(1)] obtain n where n: "n < MAX_FILES" "\<not> inode_used s n"
    and ai: "allocate_inode s = (set_inode n (inode_number_update (\<lambda>_. of_nat (n + 1))) (lost_inode s), Some n)" .
  let ?s1 = "set_inode n (inode_number_update (\<lambda>_. of_nat (n + 1))) (lost_inode s)"
  have f1: "free_block_set ?s1 = free_block_set s" by (simp add: free_block_set_def fs_simps lost_inode_def)
  obtain s2 r where ab: "allocate_block ?s1 = (s2, r)" by fastforce
  with free(2) f1 allocate_block_None_iff [of ?s1 s2] obtain b where r: "r = Some b" by (cases r) auto
  note b = allocate_block_SomeD [OF ab [unfolded r], unfolded f1]
  define s3 where "s3 = set_inode n (\<lambda>x. x\<lparr>file_size := 0,
                          file_blocks := (file_blocks x)(0 := of_nat b), permissions := 7\<rparr>) s2"
  have ent3: "root_directory s3 = root_directory s"
    by (simp add: s3_def b(2) fs_simps lost_inode_def)
  from directory_not_full [OF d n] obtain i where
    i: "find_first (\<lambda>i. entry_inode (root_directory s i) = 0) 0 MAX_FILES = Some i"
    using find_first_None [of "\<lambda>i. entry_inode (root_directory s i) = 0" 0 MAX_FILES]
    by (auto simp: entry_used_def)
  have ilt: "i < MAX_FILES" "\<not> entry_used s i" using find_first_SomeD [OF i] by (auto simp: entry_used_def)
  define fname where "fname = nm @ replicate (MAX_FILENAME_LEN - length nm) NUL"
  define t where "t = set_entry i (\<lambda>x. x\<lparr>filename := fname, entry_inode := of_nat (n + 1)\<rparr>) s3"
  have fl: "length (filename (root_directory s i)) = MAX_FILENAME_LEN" using nv ilt by (simp add: names_inv_def)
  have sc: "strncpy (filename (root_directory s i)) (cstr nm) MAX_FILENAME_LEN = Some fname"
    using strncpy_short [OF nm, of "filename (root_directory s i)" "[]"] fl by (simp add: fname_def cstr_def)
  have run: "create_file (cstr nm) s = Some (t, Inr n)"
    by (simp only: sc create_file_def ai ab r s3_def [symmetric] ent3 i t_def Let_def
        split option.case bind.bind_lunit)
  have n1: "(of_nat (n + 1) :: u32) \<noteq> 0" "unat ((of_nat (n + 1) :: u32) - 1) = n"
    using n(1) unat_small [of "n + 1"] unat_small [of n] by (auto simp: unat_eq_0 [symmetric])
  let ?u = "take_slot n 0 b s"
  have ns0: "nslots s n = 0" using io n by (simp add: inodes_inv_def)
  have bp: "bptr t m j = bptr ?u m j" for m j
    by (simp add: t_def s3_def b(2) bptr_def take_slot_def fs_simps lost_inode_def)
  have u: "blocks_inv ?u" using blocks_inv_take_slot(1) [OF bi n(1) ns0 _ b(1)] by simp
  have bb: "b < BLOCK_COUNT" using b(1) by (simp add: free_block_set_def)
  have ns: "nslots t m = (if m = n then 1 else nslots s m)" for m
    using nslots_take_slot [OF ns0 _ bb _ n(1), of m] bi nslots_cong [of t m ?u, OF bp]
    by (simp add: blocks_inv_def)
  have bpo: "bptr t m j = bptr s m j" if "m \<noteq> n" for m j using that by (simp add: bp fs_simps)
  have stor: "storage t = storage s" by (simp add: t_def s3_def b(2) fs_simps lost_inode_def)
  have num: "inode_number (inode_table t m) = (if m = n then of_nat (n + 1) else inode_number (inode_table s m))"
    "permissions (inode_table t m) = (if m = n then 7 else permissions (inode_table s m))" for m
    by (simp_all add: t_def s3_def b(2) fs_simps lost_inode_def)
  have fz: "fsize t m = (if m = n then 0 else fsize s m)" for m
    by (simp add: t_def s3_def b(2) fsize_def fs_simps lost_inode_def)
  have ent: "root_directory t k = (if k = i then (root_directory s i)\<lparr>filename := fname,
      entry_inode := of_nat (n + 1)\<rparr> else root_directory s k)" for k
    by (simp add: t_def fs_simps ent3)
  have used: "entry_used t k \<longleftrightarrow> k = i \<or> entry_used s k" for k
    using n1 by (simp add: entry_used_def ent)
  have tgt: "entry_target t k = (if k = i then n else entry_target s k)"
    "entry_name t k = (if k = i then nm else entry_name s k)" for k
  proof -
    show "entry_target t k = (if k = i then n else entry_target s k)"
      using n1(2) by (simp add: entry_target_def ent)
    obtain c where "MAX_FILENAME_LEN - length nm = Suc c" using nm(2) by (metis Suc_diff_Suc)
    then have "fname = nm @ NUL # replicate c NUL" by (simp add: fname_def)
    then show "entry_name t k = (if k = i then nm else entry_name s k)"
      using string_at_append [of nm "[]" 0 "replicate c NUL"] nm(1) by (simp add: entry_name_def ent)
  qed
  have iu: "inode_used t m \<longleftrightarrow> m = n \<or> inode_used s m" for m
    using n1(1) by (simp add: inode_used_def num)
  have "blocks_inv t" using u blocks_inv_cong [of t ?u] bp
    by (simp add: t_def s3_def b(2) fs_simps lost_inode_def take_slot_def)
  moreover have "inodes_inv t"
    using io unfolding inodes_inv_def iu ns fz num by simp
  moreover have "dir_inv t"
    unfolding dir_inv_def
  proof
    show "names_inv t" using nv nm(2) by (auto simp: names_inv_def ent used fname_def)
    have "{k. k < MAX_FILES \<and> entry_used t k} = insert i {k. k < MAX_FILES \<and> entry_used s k}"
      using ilt(1) by (auto simp: used)
    moreover have "{m. m < MAX_FILES \<and> inode_used t m} = insert n {m. m < MAX_FILES \<and> inode_used s m}"
      using n(1) by (auto simp: iu)
    moreover have "bij_betw (entry_target t) (insert i {k. k < MAX_FILES \<and> entry_used s k})
      (insert n {m. m < MAX_FILES \<and> inode_used s m})"
      using d ilt n by (intro bij_betw_add [of "entry_target s"]) (auto simp: dir_inv_def tgt)
    ultimately show "bij_betw (entry_target t) {k. k < MAX_FILES \<and> entry_used t k} {m. m < MAX_FILES \<and> inode_used t m}"
      by simp
  qed
  ultimately have "fs_inv t" by (simp add: fs_inv_def)
  moreover have "files t = (files s)(i \<mapsto> \<lparr>f_name = nm, f_data = [], f_perms = 7\<rparr>)"
  proof
    fix k show "files t k = ((files s)(i \<mapsto> \<lparr>f_name = nm, f_data = [], f_perms = 7\<rparr>)) k"
    proof (cases "k \<noteq> i \<and> k < MAX_FILES \<and> entry_used s k")
      case True
      then have "entry_target s k \<noteq> n" using entry_facts(2) [OF d, of k] n by auto
      then have "content t (entry_target s k) = content s (entry_target s k)"
        by (simp add: content_def fz bpo stor)
      with True \<open>entry_target s k \<noteq> n\<close> show ?thesis by (simp add: files_def used tgt num)
    qed (use ilt in \<open>auto simp: files_def used tgt num content_def fz\<close>)
  qed
  moreover have "find_first (\<lambda>i. files s i = None) 0 MAX_FILES = Some i"
    using i by (simp add: files_def entry_used_def cong: find_first_cong)
  moreover have "nslots t (entry_target t i) = 1" by (simp add: ns tgt)
  moreover have "free_block_set t = free_block_set ?u"
    by (simp add: free_block_set_def t_def s3_def b(2) fs_simps lost_inode_def take_slot_def)
  then have "free_block_set t = free_block_set s - {b}"
    using blocks_inv_take_slot(2) [OF bi n(1) ns0 _ b(1)] by simp
  then have "card (free_block_set t) + 1 = card (free_block_set s)"
    using b(1) by (metis Suc_eq_plus1 card_Suc_Diff1 finite_free_block_set)
  ultimately show ?thesis using run by blast
qed

end
