(* ===== verification/FileStore.thy ===== *)
theory FileStore
  imports FileDir
begin

text \<open>
  The properties of the file system: formatting establishes the invariant, each operation
  behaves as its specification says on every branch, and every state reached from a
  formatted disk satisfies the invariant and lets every operation finish. The locale
  \<open>named_store\<close> is the interface of a store of named values; the file system with complete
  writes is an instance of it.
\<close>

subsection \<open>Formatting\<close>

definition disk_shape :: "fs_state \<Rightarrow> bool" where
  "disk_shape s \<longleftrightarrow> length (volume_name (sb s)) = 16
     \<and> (\<forall>i<MAX_FILES. length (filename (root_directory s i)) = MAX_FILENAME_LEN)"

lemma format_disk_run:
  assumes "length (volume_name (sb s)) = 16"
  obtains t where "format_disk s = Some t" "block_bitmap t = (\<lambda>b. if b < BLOCK_COUNT then 0 else block_bitmap s b)"
    "\<And>i. i < MAX_FILES \<Longrightarrow> inode_number (inode_table t i) = 0
       \<and> (\<forall>j<MAX_BLOCKS_PER_FILE. bptr t i j = no_block)"
    "\<And>i. i < MAX_FILES \<Longrightarrow> entry_inode (root_directory t i) = 0
       \<and> filename (root_directory t i) = filename (root_directory s i)"
    "free_blocks (sb t) = of_nat BLOCK_COUNT" "length (volume_name (sb t)) = 16"
proof -
  have "cstr ''ApnaFS'' = ''ApnaFS'' @ NUL # []" by (simp add: cstr_def)
  then have "strncpy (volume_name (sb s)) (cstr ''ApnaFS'') 16
      = Some (''ApnaFS'' @ replicate (16 - length ''ApnaFS'') NUL @ drop 16 (volume_name (sb s)))"
    using assms by (simp only:) (rule strncpy_short; simp)
  note name = this
  note arrays = fold_array_const
    fold_array_update [where g = "\<lambda>_ x. x\<lparr>inode_number := 0, file_size := 0,
      file_blocks := (\<lambda>j. if j < MAX_BLOCKS_PER_FILE then no_block else file_blocks x j)\<rparr>"]
    fold_array_update [where g = "\<lambda>_ x. x\<lparr>entry_inode := 0\<rparr>"]
  show ?thesis
    by (rule that, simp only: format_disk_def name arrays bind.bind_lunit)
      (simp_all add: bptr_def assms)
qed

lemma format_disk_inv:
  assumes "disk_shape s"
  shows "\<exists>t. format_disk s = Some t \<and> fs_inv t \<and> files t = Map.empty \<and> free_block_set t = {..<BLOCK_COUNT}
    \<and> disk_shape t"
proof -
  from format_disk_run [of s] assms obtain t where t: "format_disk s = Some t"
    "block_bitmap t = (\<lambda>b. if b < BLOCK_COUNT then 0 else block_bitmap s b)"
    "\<And>i. i < MAX_FILES \<Longrightarrow> inode_number (inode_table t i) = 0 \<and> (\<forall>j<MAX_BLOCKS_PER_FILE. bptr t i j = no_block)"
    "\<And>i. i < MAX_FILES \<Longrightarrow> entry_inode (root_directory t i) = 0
       \<and> filename (root_directory t i) = filename (root_directory s i)"
    "free_blocks (sb t) = of_nat BLOCK_COUNT" "length (volume_name (sb t)) = 16"
    by (auto simp: disk_shape_def)
  have fr: "free_block_set t = {..<BLOCK_COUNT}" by (auto simp: free_block_set_def t(2))
  have ns: "nslots t n = 0" if "n < MAX_FILES" for n
    using t(3) [OF that] by (intro nslotsI) auto
  have "blocks_inv t"
    using t(3) ns by (auto simp: blocks_inv_def slots_inv_def owner_inv_def t(2,5) fr)
  moreover have un: "\<not> inode_used t n" if "n < MAX_FILES" for n using t(3) that by (simp add: inode_used_def)
  then have "inodes_inv t" using ns by (simp add: inodes_inv_def)
  moreover have ue: "\<not> entry_used t n" if "n < MAX_FILES" for n using t(4) that by (simp add: entry_used_def)
  have "{i. i < MAX_FILES \<and> entry_used t i} = {}" "{n. n < MAX_FILES \<and> inode_used t n} = {}"
    using ue un by auto
  then have "dir_inv t" using t(4) assms ue
    unfolding dir_inv_def by (simp only:) (simp add: names_inv_def disk_shape_def bij_betw_def)
  moreover have "files t = Map.empty" using ue by (auto simp: files_def)
  moreover have "disk_shape t" using t(4,6) assms by (simp add: disk_shape_def)
  ultimately show ?thesis using t(1) fr by (auto simp: fs_inv_def)
qed

subsection \<open>The counter of free inodes is no part of the view\<close>

lemma lost_inode_inv: "fs_inv (lost_inode s) = fs_inv s" "files (lost_inode s) = files s"
proof -
  have bp: "bptr (lost_inode s) n j = bptr s n j" for n j by (simp add: bptr_def lost_inode_def)
  have ns: "nslots (lost_inode s) n = nslots s n" for n by (rule nslots_cong) (rule bp)
  have fz: "fsize (lost_inode s) n = fsize s n" for n by (simp add: fsize_def lost_inode_def)
  have iu: "inode_used (lost_inode s) n = inode_used s n" for n by (simp add: inode_used_def lost_inode_def)
  have "blocks_inv (lost_inode s) = blocks_inv s"
    using bp by (rule blocks_inv_cong) (simp_all add: lost_inode_def)
  moreover have "dir_inv (lost_inode s) = dir_inv s"
    by (rule dir_inv_cong) (simp_all add: lost_inode_def)
  moreover have "inodes_inv (lost_inode s) = inodes_inv s"
    by (simp add: inodes_inv_def ns fz iu) (simp add: lost_inode_def)
  ultimately show "fs_inv (lost_inode s) = fs_inv s" by (simp add: fs_inv_def)
  have "content (lost_inode s) n = content s n" for n by (simp add: content_def fz bp) (simp add: lost_inode_def)
  then show "files (lost_inode s) = files s"
    by (auto simp: files_def entry_used_def entry_name_def entry_target_def lost_inode_def fun_eq_iff)
qed

subsection \<open>Listing\<close>

lemma list_loop_names:
  assumes "names_inv s" "\<forall>i\<in>set is. i < MAX_FILES"
  shows "list_loop s is = Some (map f_name (List.map_filter (files s) is))"
  using assms(2)
proof (induction "is")
  case Nil
  then show ?case by (simp add: List.map_filter_def)
next
  case (Cons i "is")
  then show ?case
    using assms(1)
    by (simp add: List.map_filter_def files_def entry_used_def names_inv_def name_of_entry_def entry_name_def)
qed

subsection \<open>All branches of an operation\<close>

text \<open>The file that a name selects.\<close>

definition the_file :: "fs_state \<Rightarrow> string \<Rightarrow> file_view option" where
  "the_file s nm = Option.bind (lookup (files s) nm) (files s)"

lemma the_file_cases:
  obtains "lookup (files s) nm = None" "the_file s nm = None"
  | i f where "lookup (files s) nm = Some i" "files s i = Some f" "the_file s nm = Some f" "f_name f = nm"
  using lookup_SomeD [of "files s" nm] by (cases "lookup (files s) nm") (auto simp: the_file_def)

lemma write_file_cases:
  assumes "fs_inv s" "NUL \<notin> set nm" "sz \<le> length buf"
  shows "\<exists>t r. write_file (cstr nm) buf sz s = Some (t, r) \<and> fs_inv t \<and>
    (case the_file s nm of
       None \<Rightarrow> r = Inl FileNotFound \<and> t = s
     | Some f \<Rightarrow>
         if writable (f_perms f)
         then (\<exists>i w. lookup (files s) nm = Some i \<and> w = write_count s (entry_target s i) sz \<and> r = Inr w
                \<and> files t = (files s)(i \<mapsto> f\<lparr>f_data := take w buf\<rparr>))
         else r = Inl PermissionDenied \<and> t = s)"
proof (cases rule: the_file_cases [of s nm])
  case 1
  then show ?thesis using assms find_entry_missing [OF assms(1,2)] by (simp add: write_file_def)
next
  case (2 i f)
  note l = lookup_inode [OF assms(1,2) 2(1,2)]
  show ?thesis
  proof (cases "writable (f_perms f)")
    case True
    from write_file_ok [OF assms(1,2) 2(1,2) True assms(3)] 2 True show ?thesis by auto
  next
    case False
    then show ?thesis using 2 l assms(1) by (simp add: write_file_def)
  qed
qed

lemma append_to_file_cases:
  assumes "fs_inv s" "NUL \<notin> set nm" "sz \<le> length buf"
  shows "\<exists>t r. append_to_file (cstr nm) buf sz s = Some (t, r) \<and> fs_inv t \<and>
    (case the_file s nm of
       None \<Rightarrow> r = Inl FileNotFound \<and> t = s
     | Some f \<Rightarrow>
         if \<not> writable (f_perms f) then r = Inl PermissionDenied \<and> t = s
         else if MAX_BLOCKS_PER_FILE * BLOCK_SIZE \<le> length (f_data f) then r = Inl AtMaxSize \<and> t = s
         else (\<exists>i w. lookup (files s) nm = Some i \<and> w = append_count s (entry_target s i) sz \<and> r = Inr w
                \<and> files t = (files s)(i \<mapsto> f\<lparr>f_data := f_data f @ take w buf\<rparr>)))"
proof (cases rule: the_file_cases [of s nm])
  case 1
  then show ?thesis using assms find_entry_missing [OF assms(1,2)] by (simp add: append_to_file_def)
next
  case (2 i f)
  note l = lookup_inode [OF assms(1,2) 2(1,2)]
  consider "\<not> writable (f_perms f)"
    | "writable (f_perms f)" "MAX_BLOCKS_PER_FILE * BLOCK_SIZE \<le> length (f_data f)"
    | "writable (f_perms f)" "length (f_data f) < MAX_BLOCKS_PER_FILE * BLOCK_SIZE" by linarith
  then show ?thesis
  proof cases
    case 1
    then show ?thesis using 2 l assms(1) by (simp add: append_to_file_def)
  next
    case a: 2
    from append_to_file_full [OF assms(1,2) 2(1,2) a] 2 a assms(1) show ?thesis by simp
  next
    case 3
    from append_to_file_ok [OF assms(1,2) 2(1,2) 3(1) assms(3) 3(2)] 2 3 show ?thesis by auto
  qed
qed

lemma delete_file_cases:
  assumes "fs_inv s" "NUL \<notin> set nm"
  shows "\<exists>t r. delete_file (cstr nm) s = Some (t, r) \<and> fs_inv t \<and>
    (case the_file s nm of
       None \<Rightarrow> r = Inl FileNotFound \<and> t = s
     | Some f \<Rightarrow>
         if writable (f_perms f)
         then (\<exists>i. lookup (files s) nm = Some i \<and> r = Inr () \<and> files t = (files s)(i := None)
                \<and> card (free_block_set t) = card (free_block_set s) + nslots s (entry_target s i))
         else r = Inl PermissionDenied \<and> t = s)"
proof (cases rule: the_file_cases [of s nm])
  case 1
  then show ?thesis using assms find_entry_missing [OF assms(1,2)] by (simp add: delete_file_def)
next
  case (2 i f)
  note l = lookup_inode [OF assms(1,2) 2(1,2)]
  show ?thesis
  proof (cases "writable (f_perms f)")
    case True
    from delete_file_ok [OF assms(1,2) 2(1,2) True] 2 True show ?thesis by auto
  next
    case False
    then show ?thesis using 2 l assms(1) by (simp add: delete_file_def)
  qed
qed

lemma chmod_file_cases:
  assumes "fs_inv s" "NUL \<notin> set nm"
  shows "\<exists>t r. chmod_file (cstr nm) p s = Some (t, r) \<and> fs_inv t \<and>
    (case the_file s nm of
       None \<Rightarrow> r = Inl FileNotFound \<and> t = s
     | Some f \<Rightarrow> (\<exists>i. lookup (files s) nm = Some i \<and> r = Inr () \<and> files t = (files s)(i \<mapsto> f\<lparr>f_perms := p\<rparr>)))"
proof (cases rule: the_file_cases [of s nm])
  case 1
  then show ?thesis using assms find_entry_missing [OF assms(1,2)] by (simp add: chmod_file_def)
next
  case (2 i f)
  from chmod_file_ok [OF assms(1,2) 2(1,2)] 2 show ?thesis by auto
qed

lemma create_file_cases:
  assumes "fs_inv s" "NUL \<notin> set nm" "length nm < MAX_FILENAME_LEN"
  shows "\<exists>t r. create_file (cstr nm) s = Some (t, r) \<and> fs_inv t \<and>
    (if dom (files s) = {..<MAX_FILES} then r = Inl NoFreeInode \<and> t = s
     else if free_block_set s = {} then r = Inl NoFreeBlock \<and> t = lost_inode s
     else (\<exists>i n. r = Inr n \<and> find_first (\<lambda>i. files s i = None) 0 MAX_FILES = Some i
            \<and> files t = (files s)(i \<mapsto> \<lparr>f_name = nm, f_data = [], f_perms = 7\<rparr>)
            \<and> nslots t (entry_target t i) = 1 \<and> card (free_block_set t) + 1 = card (free_block_set s)))"
proof -
  have d: "dir_inv s" using assms(1) by (simp add: fs_inv_def)
  consider "\<forall>n<MAX_FILES. inode_used s n" | "\<exists>n<MAX_FILES. \<not> inode_used s n" "free_block_set s = {}"
    | "\<exists>n<MAX_FILES. \<not> inode_used s n" "free_block_set s \<noteq> {}" by blast
  then show ?thesis
  proof cases
    case 1
    with create_file_no_inode [OF 1] assms(1) inodes_full_iff [OF d] show ?thesis by simp
  next
    case 2
    then have "dom (files s) \<noteq> {..<MAX_FILES}" using inodes_full_iff [OF d] by auto
    with create_file_no_block [OF 2] assms(1) 2 lost_inode_inv show ?thesis by simp
  next
    case 3
    then have nd: "dom (files s) \<noteq> {..<MAX_FILES}" using inodes_full_iff [OF d] by auto
    from create_file_ok [OF assms 3] obtain t i n where c: "create_file (cstr nm) s = Some (t, Inr n)" "fs_inv t"
      "find_first (\<lambda>i. files s i = None) 0 MAX_FILES = Some i"
      "files t = (files s)(i \<mapsto> \<lparr>f_name = nm, f_data = [], f_perms = 7\<rparr>)"
      "nslots t (entry_target t i) = 1" "card (free_block_set t) + 1 = card (free_block_set s)" by blast
    show ?thesis
      by (rule exI [of _ t], rule exI [of _ "Inr n"], simp only: c if_not_P [OF nd] if_not_P [OF 3(2)])
        (use c in blast)
  qed
qed

lemma read_file_cases:
  assumes "fs_inv s" "NUL \<notin> set nm" "sz \<le> length buf"
  shows "read_file (cstr nm) buf sz s = Some
    (case the_file s nm of
       None \<Rightarrow> Inl FileNotFound
     | Some f \<Rightarrow>
         if readable (f_perms f)
         then (let r = min sz (length (f_data f)) in Inr (r, take r (f_data f) @ drop r buf))
         else Inl PermissionDenied)"
proof (cases rule: the_file_cases [of s nm])
  case 1
  then show ?thesis using find_entry_missing [OF assms(1,2)] by (simp add: read_file_def)
next
  case (2 i f)
  note l = lookup_inode [OF assms(1,2) 2(1,2)]
  show ?thesis
  proof (cases "readable (f_perms f)")
    case True
    from read_file_ok [OF assms(1,2) 2(1,2) True assms(3)] 2 True show ?thesis by (simp add: Let_def)
  next
    case False
    then show ?thesis using 2 l by (simp add: read_file_def)
  qed
qed

subsection \<open>Runs of operations\<close>

datatype fs_op =
    Create string
  | Write string "char list" nat
  | Append string "char list" nat
  | Delete string
  | Chmod string u16

text \<open>What a caller must respect: terminated names that fit, and a size within the buffer.\<close>

fun op_ok :: "fs_op \<Rightarrow> bool" where
  "op_ok (Create nm) = (NUL \<notin> set nm \<and> length nm < MAX_FILENAME_LEN)"
| "op_ok (Write nm buf sz) = (NUL \<notin> set nm \<and> sz \<le> length buf)"
| "op_ok (Append nm buf sz) = (NUL \<notin> set nm \<and> sz \<le> length buf)"
| "op_ok (Delete nm) = (NUL \<notin> set nm)"
| "op_ok (Chmod nm p) = (NUL \<notin> set nm)"

fun exec_op :: "fs_op \<Rightarrow> fs_state \<Rightarrow> fs_state option" where
  "exec_op (Create nm) s = map_option fst (create_file (cstr nm) s)"
| "exec_op (Write nm buf sz) s = map_option fst (write_file (cstr nm) buf sz s)"
| "exec_op (Append nm buf sz) s = map_option fst (append_to_file (cstr nm) buf sz s)"
| "exec_op (Delete nm) s = map_option fst (delete_file (cstr nm) s)"
| "exec_op (Chmod nm p) s = map_option fst (chmod_file (cstr nm) p s)"

inductive fs_reachable :: "fs_state \<Rightarrow> bool" where
  formatted: "disk_shape s0 \<Longrightarrow> create_file_system s0 = Some s \<Longrightarrow> fs_reachable s"
| stepped: "fs_reachable s \<Longrightarrow> op_ok op \<Longrightarrow> exec_op op s = Some t \<Longrightarrow> fs_reachable t"

lemma exec_op_total:
  assumes "fs_inv s" "op_ok op"
  shows "\<exists>t. exec_op op s = Some t \<and> fs_inv t"
proof (cases op)
  case (Create nm)
  with create_file_cases [of s nm] assms show ?thesis by auto
next
  case (Write nm buf sz)
  with write_file_cases [of s nm sz buf] assms show ?thesis by auto
next
  case (Append nm buf sz)
  with append_to_file_cases [of s nm sz buf] assms show ?thesis by auto
next
  case (Delete nm)
  with delete_file_cases [of s nm] assms show ?thesis by auto
next
  case (Chmod nm p)
  with chmod_file_cases [of s nm p] assms show ?thesis by auto
qed

lemma reachable_inv: "fs_reachable s \<Longrightarrow> fs_inv s"
proof (induction rule: fs_reachable.induct)
  case (formatted s0 s)
  with format_disk_inv [of s0] show ?case by (auto simp: create_file_system_def)
next
  case (stepped s op t)
  with exec_op_total [of s op] show ?case by auto
qed

subsection \<open>The interface of a store of named values\<close>

locale named_store =
  fixes inv :: "'s \<Rightarrow> bool" and val :: "'s \<Rightarrow> 'k \<Rightarrow> 'v option"
    and new :: "'k \<Rightarrow> 's \<Rightarrow> 's option" and put :: "'k \<Rightarrow> 'v \<Rightarrow> 's \<Rightarrow> 's option"
    and del :: "'k \<Rightarrow> 's \<Rightarrow> 's option" and fetch :: "'k \<Rightarrow> 's \<Rightarrow> 'v option" and init :: 'v
  assumes new_law: "inv s \<Longrightarrow> new k s = Some t \<Longrightarrow> inv t \<and> val t = (val s)(k \<mapsto> init)"
    and put_law: "inv s \<Longrightarrow> put k v s = Some t \<Longrightarrow> inv t \<and> val t = (val s)(k \<mapsto> v)"
    and del_law: "inv s \<Longrightarrow> del k s = Some t \<Longrightarrow> inv t \<and> val t = (val s)(k := None)"
    and fetch_law: "inv s \<Longrightarrow> val s k = Some v \<Longrightarrow> fetch k s = Some v"
begin

lemma fetch_put: "inv s \<Longrightarrow> put k v s = Some t \<Longrightarrow> fetch k t = Some v"
  using put_law [of s k v t] fetch_law [of t k v] by simp

lemma fetch_put_other:
  "inv s \<Longrightarrow> put k v s = Some t \<Longrightarrow> k' \<noteq> k \<Longrightarrow> val s k' = Some u \<Longrightarrow> fetch k' t = Some u"
  using put_law [of s k v t] fetch_law [of t k' u] by simp

lemma puts_last:
  "inv s \<Longrightarrow> fold (\<lambda>(k, v) r. Option.bind r (put k v)) kvs (Some s) = Some t \<Longrightarrow>
     inv t \<and> val t = val s ++ map_of (rev kvs)"
proof (induction kvs arbitrary: t rule: rev_induct)
  case (snoc kv kvs)
  obtain k v where kv: "kv = (k, v)" by fastforce
  let ?r = "fold (\<lambda>(k, v) r. Option.bind r (put k v)) kvs (Some s)"
  from snoc.prems(2) kv obtain u where u: "?r = Some u" "put k v u = Some t"
    by (cases ?r) auto
  with snoc.IH [OF snoc.prems(1)] put_law [of u k v t] show ?case
    by (auto simp: kv fun_eq_iff map_add_def)
qed simp

lemma new_put_del:
  assumes "inv s" "val s k = None" "new k s = Some t" "put k v t = Some u" "del k u = Some w"
  shows "val w = val s"
  using new_law [OF assms(1,3)] put_law [of t k v u] del_law [of u k w] assms by auto

end

subsection \<open>The file system as a store\<close>

text \<open>Views in which no two files have the same name; \<open>create_file\<close> does not see to that itself.\<close>

definition names_distinct :: "(nat \<Rightarrow> file_view option) \<Rightarrow> bool" where
  "names_distinct fs \<longleftrightarrow> (\<forall>i j f g. fs i = Some f \<and> fs j = Some g \<and> f_name f = f_name g \<longrightarrow> i = j)"

lemma the_file_iff:
  assumes "names_distinct (files s)"
  shows "the_file s nm = Some f \<longleftrightarrow> (\<exists>i. files s i = Some f \<and> f_name f = nm)"
proof
  assume "the_file s nm = Some f"
  then show "\<exists>i. files s i = Some f \<and> f_name f = nm" by (cases rule: the_file_cases [of s nm]) auto
next
  assume "\<exists>i. files s i = Some f \<and> f_name f = nm"
  then obtain i where i: "files s i = Some f" "f_name f = nm" by blast
  then have "i < MAX_FILES" using files_SomeD(1) by blast
  with i have "lookup (files s) nm \<noteq> None" unfolding lookup_def find_first_None by blast
  then obtain j g where j: "lookup (files s) nm = Some j" "files s j = Some g" "f_name g = nm"
    using lookup_SomeD [of "files s" nm] by blast
  with assms i have "j = i" by (auto simp: names_distinct_def)
  with j i show "the_file s nm = Some f" by (simp add: the_file_def)
qed

lemma the_file_None_iff:
  assumes "names_distinct (files s)"
  shows "the_file s nm = None \<longleftrightarrow> (\<forall>i f. files s i = Some f \<longrightarrow> f_name f \<noteq> nm)"
  using the_file_iff [OF assms, of nm] by (metis option.exhaust option.distinct(1))

lemma names_distinctI:
  "(\<And>i j f g. fs i = Some f \<Longrightarrow> fs j = Some g \<Longrightarrow> f_name f = f_name g \<Longrightarrow> i = j) \<Longrightarrow> names_distinct fs"
  unfolding names_distinct_def by blast

lemma names_distinctD:
  "names_distinct fs \<Longrightarrow> fs i = Some f \<Longrightarrow> fs j = Some g \<Longrightarrow> f_name f = f_name g \<Longrightarrow> i = j"
  unfolding names_distinct_def by blast

text \<open>One slot changes: the name that it has afterwards, if any, is no other file's.\<close>

lemma the_file_update:
  assumes d: "names_distinct (files s)" and t: "files t = (files s)(i := x)"
    and x: "\<forall>g j h. x = Some g \<and> files s j = Some h \<and> f_name h = f_name g \<longrightarrow> j = i"
  shows "names_distinct (files t)"
    and "the_file t k = Some g \<longleftrightarrow> (x = Some g \<and> f_name g = k) \<or> (\<exists>j. j \<noteq> i \<and> files s j = Some g \<and> f_name g = k)"
proof -
  show dt: "names_distinct (files t)"
  proof (rule names_distinctI)
    fix a b f g assume *: "files t a = Some f" "files t b = Some g" "f_name f = f_name g"
    show "a = b"
    proof (cases "a = i"; cases "b = i")
      assume "a = i" "b \<noteq> i"
      with * x show ?thesis by (simp add: t)
    next
      assume "a \<noteq> i" "b = i"
      with * x [THEN spec, of g] show ?thesis by (simp add: t)
    next
      assume "a \<noteq> i" "b \<noteq> i"
      with * names_distinctD [OF d, of a f b g] show ?thesis by (simp add: t)
    qed simp
  qed
  show "the_file t k = Some g \<longleftrightarrow> (x = Some g \<and> f_name g = k) \<or> (\<exists>j. j \<noteq> i \<and> files s j = Some g \<and> f_name g = k)"
    unfolding the_file_iff [OF dt] t by (metis fun_upd_other fun_upd_same)
qed

lemma option_ext: "(\<And>g. x = Some g \<longleftrightarrow> y = Some g) \<Longrightarrow> x = y"
  by (cases x; cases y) auto

lemma the_file_replaced:
  assumes d: "names_distinct (files s)" and i: "files s i = Some f" "f_name f = nm" "f_name f' = nm"
    and t: "files t = (files s)(i \<mapsto> f')"
  shows "names_distinct (files t)" "the_file t = (the_file s)(nm \<mapsto> f')"
proof -
  have at: "j = i" if "files s j = Some g" "f_name g = nm" for j g
    using names_distinctD [OF d that(1) i(1)] i(2) that(2) by simp
  have x: "\<forall>g j h. Some f' = Some g \<and> files s j = Some h \<and> f_name h = f_name g \<longrightarrow> j = i"
    using at i(3) by auto
  note u = the_file_update [OF d t x]
  show "names_distinct (files t)" by (rule u(1))
  show "the_file t = (the_file s)(nm \<mapsto> f')"
  proof (rule ext, rule option_ext)
    fix k g
    show "the_file t k = Some g \<longleftrightarrow> ((the_file s)(nm \<mapsto> f')) k = Some g"
    proof (cases "k = nm")
      case True
      have "\<not> (\<exists>j. j \<noteq> i \<and> files s j = Some g \<and> f_name g = nm)" using at by blast
      with True u(2) [of k g] i(3) show ?thesis by auto
    next
      case False
      have "(\<exists>j. j \<noteq> i \<and> files s j = Some g \<and> f_name g = k) \<longleftrightarrow> the_file s k = Some g"
        unfolding the_file_iff [OF d] using i False by (metis option.inject)
      with False i(3) u(2) [of k g] show ?thesis by auto
    qed
  qed
qed

lemma the_file_removed:
  assumes d: "names_distinct (files s)" and i: "files s i = Some f" "f_name f = nm"
    and t: "files t = (files s)(i := None)"
  shows "names_distinct (files t)" "the_file t = (the_file s)(nm := None)"
proof -
  have at: "j = i" if "files s j = Some g" "f_name g = nm" for j g
    using names_distinctD [OF d that(1) i(1)] i(2) that(2) by simp
  have "\<forall>g j h. None = Some g \<and> files s j = Some h \<and> f_name h = f_name g \<longrightarrow> j = i" by simp
  note u = the_file_update [OF d t this]
  show "names_distinct (files t)" by (rule u(1))
  show "the_file t = (the_file s)(nm := None)"
  proof (rule ext, rule option_ext)
    fix k g
    show "the_file t k = Some g \<longleftrightarrow> ((the_file s)(nm := None)) k = Some g"
    proof (cases "k = nm")
      case True
      have "\<not> (\<exists>j. j \<noteq> i \<and> files s j = Some g \<and> f_name g = nm)" using at by blast
      with True u(2) [of k g] show ?thesis by auto
    next
      case False
      have "(\<exists>j. j \<noteq> i \<and> files s j = Some g \<and> f_name g = k) \<longleftrightarrow> the_file s k = Some g"
        unfolding the_file_iff [OF d] using i False by (metis option.inject)
      with False u(2) [of k g] show ?thesis by auto
    qed
  qed
qed

lemma the_file_added:
  assumes d: "names_distinct (files s)" and i: "files s i = None" "f_name f = nm" "the_file s nm = None"
    and t: "files t = (files s)(i \<mapsto> f)"
  shows "names_distinct (files t)" "the_file t = (the_file s)(nm \<mapsto> f)"
proof -
  have no: "f_name g \<noteq> nm" if "files s j = Some g" for j g
    using the_file_None_iff [OF d] i(3) that by blast
  have x: "\<forall>g j h. Some f = Some g \<and> files s j = Some h \<and> f_name h = f_name g \<longrightarrow> j = i"
    using no i(2) by auto
  note u = the_file_update [OF d t x]
  show "names_distinct (files t)" by (rule u(1))
  show "the_file t = (the_file s)(nm \<mapsto> f)"
  proof (rule ext, rule option_ext)
    fix k g
    show "the_file t k = Some g \<longleftrightarrow> ((the_file s)(nm \<mapsto> f)) k = Some g"
    proof (cases "k = nm")
      case True
      have "\<not> (\<exists>j. j \<noteq> i \<and> files s j = Some g \<and> f_name g = nm)" using no by blast
      with True u(2) [of k g] i(2) show ?thesis by auto
    next
      case False
      have "(\<exists>j. j \<noteq> i \<and> files s j = Some g \<and> f_name g = k) \<longleftrightarrow> the_file s k = Some g"
        unfolding the_file_iff [OF d] using i(1) by (metis option.distinct(1))
      with False i(2) u(2) [of k g] show ?thesis by auto
    qed
  qed
qed

definition store_inv :: "fs_state \<Rightarrow> bool" where
  "store_inv s \<longleftrightarrow> fs_inv s \<and> names_distinct (files s)
     \<and> (\<forall>i f. files s i = Some f \<longrightarrow> readable (f_perms f))"

definition store_val :: "fs_state \<Rightarrow> string \<Rightarrow> char list option" where
  "store_val s nm = map_option f_data (the_file s nm)"

text \<open>The operations of a caller that looks before it creates and that wants all or nothing.\<close>

definition store_new :: "string \<Rightarrow> fs_state \<Rightarrow> fs_state option" where
  "store_new nm s =
     (if NUL \<notin> set nm \<and> length nm < MAX_FILENAME_LEN \<and> find_entry s (cstr nm) 0 = Some None
      then (case create_file (cstr nm) s of Some (t, Inr n) \<Rightarrow> Some t | _ \<Rightarrow> None) else None)"

definition store_put :: "string \<Rightarrow> char list \<Rightarrow> fs_state \<Rightarrow> fs_state option" where
  "store_put nm d s =
     (if NUL \<notin> set nm
      then (case write_file (cstr nm) d (length d) s of
              Some (t, Inr w) \<Rightarrow> if w = length d then Some t else None
            | _ \<Rightarrow> None)
      else None)"

definition store_del :: "string \<Rightarrow> fs_state \<Rightarrow> fs_state option" where
  "store_del nm s =
     (if NUL \<notin> set nm
      then (case delete_file (cstr nm) s of Some (t, Inr u) \<Rightarrow> Some t | _ \<Rightarrow> None) else None)"

definition store_fetch :: "string \<Rightarrow> fs_state \<Rightarrow> char list option" where
  "store_fetch nm s =
     (let sz = MAX_BLOCKS_PER_FILE * BLOCK_SIZE in
      case read_file (cstr nm) (replicate sz NUL) sz s of
        Some (Inr (n, b)) \<Rightarrow> Some (take n b) | _ \<Rightarrow> None)"

text \<open>The laws of the store, one operation at a time.\<close>

lemma store_new_law:
  assumes "store_inv s" "store_new nm s = Some t"
  shows "store_inv t \<and> store_val t = (store_val s)(nm \<mapsto> [])"
proof -
  have inv: "fs_inv s" and d: "names_distinct (files s)" and rd: "\<forall>i f. files s i = Some f \<longrightarrow> readable (f_perms f)"
    using assms(1) by (auto simp: store_inv_def)
  from assms(2) have nm: "NUL \<notin> set nm" "length nm < MAX_FILENAME_LEN" "find_entry s (cstr nm) 0 = Some None"
    and "\<exists>n. create_file (cstr nm) s = Some (t, Inr n)"
    by (auto simp: store_new_def split: if_splits option.splits prod.splits sum.splits)
  then obtain n where c: "create_file (cstr nm) s = Some (t, Inr n)" by blast
  have no: "the_file s nm = None"
    using nm inv find_entry_lookup [of s nm] by (simp add: fs_inv_def dir_inv_def the_file_def)
  from create_file_cases [OF inv nm(1,2)] c obtain i where inv': "fs_inv t"
    and i: "find_first (\<lambda>i. files s i = None) 0 MAX_FILES = Some i"
      "files t = (files s)(i \<mapsto> \<lparr>f_name = nm, f_data = [], f_perms = 7\<rparr>)"
    by (auto split: if_splits)
  have free: "files s i = None" using find_first_SomeD [OF i(1)] by blast
  note u = the_file_added [OF d free _ no i(2), simplified]
  have "readable 7" by (simp add: readable_def)
  then have "store_inv t" using inv' u(1) rd by (auto simp: store_inv_def i(2))
  moreover have "store_val t = (store_val s)(nm \<mapsto> [])" by (auto simp: store_val_def u(2))
  ultimately show ?thesis by blast
qed

lemma store_put_law:
  assumes "store_inv s" "store_put nm d s = Some t"
  shows "store_inv t \<and> store_val t = (store_val s)(nm \<mapsto> d)"
proof -
  have inv: "fs_inv s" and dn: "names_distinct (files s)" and rd: "\<forall>i f. files s i = Some f \<longrightarrow> readable (f_perms f)"
    using assms(1) by (auto simp: store_inv_def)
  from assms(2) have nm: "NUL \<notin> set nm" and w: "write_file (cstr nm) d (length d) s = Some (t, Inr (length d))"
    by (auto simp: store_put_def split: if_splits option.splits prod.splits sum.splits)
  note wc = write_file_cases [OF inv nm order_refl, of d, unfolded w]
  show ?thesis
  proof (cases rule: the_file_cases [of s nm])
    case 1
    with wc show ?thesis by simp
  next
    case (2 i f)
    with wc have inv': "fs_inv t" and t: "files t = (files s)(i \<mapsto> f\<lparr>f_data := d\<rparr>)"
      by (auto split: if_splits)
    note u = the_file_replaced [OF dn 2(2,4) _ t, simplified, OF 2(4)]
    have "store_inv t" using inv' u(1) rd 2(2) by (auto simp: store_inv_def t)
    moreover have "store_val t = (store_val s)(nm \<mapsto> d)" by (auto simp: store_val_def u(2))
    ultimately show ?thesis by blast
  qed
qed

lemma store_del_law:
  assumes "store_inv s" "store_del nm s = Some t"
  shows "store_inv t \<and> store_val t = (store_val s)(nm := None)"
proof -
  have inv: "fs_inv s" and dn: "names_distinct (files s)" and rd: "\<forall>i f. files s i = Some f \<longrightarrow> readable (f_perms f)"
    using assms(1) by (auto simp: store_inv_def)
  from assms(2) have nm: "NUL \<notin> set nm" and w: "delete_file (cstr nm) s = Some (t, Inr ())"
    by (auto simp: store_del_def split: if_splits option.splits prod.splits sum.splits)
  note wc = delete_file_cases [OF inv nm, unfolded w]
  show ?thesis
  proof (cases rule: the_file_cases [of s nm])
    case 1
    with wc show ?thesis by simp
  next
    case (2 i f)
    with wc have inv': "fs_inv t" and t: "files t = (files s)(i := None)"
      by (auto split: if_splits)
    note u = the_file_removed [OF dn 2(2,4) t]
    have "store_inv t" using inv' u(1) rd 2(2) by (auto simp: store_inv_def t split: if_splits)
    moreover have "store_val t = (store_val s)(nm := None)" by (auto simp: store_val_def u(2))
    ultimately show ?thesis by blast
  qed
qed

lemma file_size_bound: "fs_inv s \<Longrightarrow> files s i = Some f \<Longrightarrow> length (f_data f) \<le> MAX_BLOCKS_PER_FILE * BLOCK_SIZE"
  using inode_size_bound(1) [of s i] files_SomeD [of s i f] nslots_le [of s "entry_target s i"]
  by (simp add: content_def)

lemma entry_name_clean: "NUL \<notin> set (entry_name s i)"
  by (auto simp: entry_name_def string_at_def dest: set_takeWhileD)

lemma store_fetch_law:
  assumes "store_inv s" "store_val s nm = Some d"
  shows "store_fetch nm s = Some d"
proof -
  have inv: "fs_inv s" and rd: "\<forall>i f. files s i = Some f \<longrightarrow> readable (f_perms f)"
    using assms(1) by (auto simp: store_inv_def)
  let ?sz = "MAX_BLOCKS_PER_FILE * BLOCK_SIZE"
  obtain i f where f: "files s i = Some f" "the_file s nm = Some f" "f_name f = nm" "f_data f = d"
    using assms(2) by (cases rule: the_file_cases [of s nm]) (auto simp: store_val_def)
  then have nm: "NUL \<notin> set nm" using files_SomeD(3) [OF f(1)] entry_name_clean [of s i] by simp
  have len: "length d \<le> ?sz" using file_size_bound [OF inv f(1)] f(4) by simp
  have "read_file (cstr nm) (replicate ?sz NUL) ?sz s = Some (Inr (length d, take (length d) d @ drop (length d) (replicate ?sz NUL)))"
    using read_file_cases [OF inv nm, of ?sz "replicate ?sz NUL"] f rd len
    by (simp add: Let_def min_absorb2)
  then show ?thesis using len by (simp add: store_fetch_def)
qed

interpretation fs_store: named_store store_inv store_val store_new store_put store_del store_fetch "[]"
  by unfold_locales (rule store_new_law store_put_law store_del_law store_fetch_law; assumption)+

end
