(* ===== verification/FileProps.thy ===== *)
theory FileProps
  imports FileStore
begin

text \<open>
  The properties of the file system, each at the top level and with an example: a blank
  disk is formatted, a file is created and used.
\<close>

subsection \<open>An example disk\<close>

definition blank_disk :: fs_state where
  "blank_disk = \<lparr>
     sb = \<lparr>inode_count = 0, block_count = 0, free_inodes = 0, free_blocks = 0, magic = 0,
           volume_name = replicate 16 NUL\<rparr>,
     inode_table = (\<lambda>_. \<lparr>inode_number = 0, file_size = 0, file_blocks = (\<lambda>_. 0), permissions = 0\<rparr>),
     root_directory = (\<lambda>_. \<lparr>filename = replicate MAX_FILENAME_LEN NUL, entry_inode = 0\<rparr>),
     storage = (\<lambda>_ _. NUL), block_bitmap = (\<lambda>_. 0)\<rparr>"

lemma blank_disk_shape: "disk_shape blank_disk"
  by (simp add: disk_shape_def blank_disk_def)

lemma example_formatted:
  obtains s where "create_file_system blank_disk = Some s" "fs_inv s" "files s = Map.empty"
    "card (free_block_set s) = BLOCK_COUNT" "fs_reachable s"
proof -
  from format_disk_inv [OF blank_disk_shape] obtain s where
    s: "format_disk blank_disk = Some s" "fs_inv s" "files s = Map.empty" "free_block_set s = {..<BLOCK_COUNT}" by blast
  then have "create_file_system blank_disk = Some s" by (simp add: create_file_system_def)
  with s that formatted [OF blank_disk_shape] show ?thesis by simp
qed

abbreviation empty_file :: "string \<Rightarrow> file_view" where
  "empty_file nm \<equiv> \<lparr>f_name = nm, f_data = [], f_perms = 7\<rparr>"

lemma perms_7: "readable 7" "writable 7"
  by (simp_all add: readable_def writable_def)

lemma example_created:
  obtains s t n where "create_file_system blank_disk = Some s" "create_file (cstr ''a'') s = Some (t, Inr n)"
    "fs_inv t" "files t = [0 \<mapsto> empty_file ''a'']" "the_file t ''a'' = Some (empty_file ''a'')"
    "lookup (files t) ''a'' = Some 0" "nslots t (entry_target t 0) = 1" "card (free_block_set t) = 1023"
proof -
  obtain s where s: "create_file_system blank_disk = Some s" "fs_inv s" "files s = Map.empty"
    "card (free_block_set s) = BLOCK_COUNT" "fs_reachable s" by (rule example_formatted)
  have "dom (files s) \<noteq> {..<MAX_FILES}" "free_block_set s \<noteq> {}" using s(3,4) lessThan_empty_iff [of MAX_FILES] by force+
  moreover have "find_first (\<lambda>i. files s i = None) 0 MAX_FILES = Some 0"
    by (simp add: s(3) find_first.simps)
  ultimately obtain t n where t: "create_file (cstr ''a'') s = Some (t, Inr n)" "fs_inv t"
    "files t = [0 \<mapsto> empty_file ''a'']" "nslots t (entry_target t 0) = 1"
    "card (free_block_set t) + 1 = card (free_block_set s)"
    using create_file_cases [OF s(2), of "''a''"] s(3) by auto
  have "lookup (files t) ''a'' = Some 0" by (simp add: t(3) lookup_def find_first.simps)
  moreover from this have "the_file t ''a'' = Some (empty_file ''a'')" by (simp add: the_file_def t(3))
  ultimately show ?thesis using that s(1,4) t by simp
qed

subsection \<open>Formatting and reachable states\<close>

text \<open>Formatting: \<open>format_disk\<close> turns any disk of the right shape into one that satisfies
  the invariant, has no file and has every block free.\<close>

theorem format_disk_correct:
  assumes "disk_shape s"
  shows "\<exists>t. format_disk s = Some t \<and> fs_inv t \<and> files t = Map.empty
    \<and> free_block_set t = {..<BLOCK_COUNT} \<and> disk_shape t"
  by (rule format_disk_inv [OF assms])

theorem format_disk_correct_witness:
  "\<exists>t. format_disk blank_disk = Some t \<and> fs_inv t \<and> files t = Map.empty
    \<and> free_block_set t = {..<BLOCK_COUNT} \<and> disk_shape t"
  by (rule format_disk_correct [OF blank_disk_shape])

text \<open>C1 (the file system stays consistent): after any run of the operations from a formatted
  disk, failing ones included, the invariant holds (no block is shared, lost or marked by
  mistake, the free counter is right, the directory is a bijection onto the used inodes, no
  file is longer than its blocks), and every further operation finishes without leaving an
  array.\<close>

theorem reachable_consistent:
  assumes "fs_reachable s" "op_ok op"
  shows "fs_inv s \<and> (\<exists>t. exec_op op s = Some t \<and> fs_reachable t)"
  using reachable_inv [OF assms(1)] exec_op_total [of s op] stepped [OF assms] assms(2) by blast

theorem reachable_consistent_witness:
  "\<exists>s. create_file_system blank_disk = Some s \<and> fs_inv s
    \<and> (\<exists>t. exec_op (Append ''a'' ''xyz'' 3) s = Some t \<and> fs_reachable t)"
proof -
  obtain s where s: "create_file_system blank_disk = Some s" "fs_reachable s"
    by (rule example_formatted)
  from reachable_consistent [OF s(2), of "Append ''a'' ''xyz'' 3"] s(1) show ?thesis by simp
qed

subsection \<open>One operation at a time\<close>

text \<open>C22 (creation): a new file takes the first free directory slot, is empty and has all
  permissions; nothing else changes. With all 256 inodes in use or with no free block the
  creation is refused, and the files stay as they are.\<close>

theorem create_file_correct:
  assumes "fs_inv s" "NUL \<notin> set nm" "length nm < MAX_FILENAME_LEN"
  shows "\<exists>t r. create_file (cstr nm) s = Some (t, r) \<and> fs_inv t \<and>
    (if dom (files s) = {..<MAX_FILES} then r = Inl NoFreeInode \<and> t = s
     else if free_block_set s = {} then r = Inl NoFreeBlock \<and> files t = files s
     else (\<exists>i n. r = Inr n \<and> find_first (\<lambda>i. files s i = None) 0 MAX_FILES = Some i
            \<and> files t = (files s)(i \<mapsto> \<lparr>f_name = nm, f_data = [], f_perms = 7\<rparr>)
            \<and> nslots t (entry_target t i) = 1 \<and> card (free_block_set t) + 1 = card (free_block_set s)))"
  using create_file_cases [OF assms]
proof (elim exE conjE, intro exI conjI)
  fix t r
  assume "if dom (files s) = {..<MAX_FILES} then r = Inl NoFreeInode \<and> t = s
     else if free_block_set s = {} then r = Inl NoFreeBlock \<and> t = lost_inode s
     else (\<exists>i n. r = Inr n \<and> find_first (\<lambda>i. files s i = None) 0 MAX_FILES = Some i
            \<and> files t = (files s)(i \<mapsto> \<lparr>f_name = nm, f_data = [], f_perms = 7\<rparr>)
            \<and> nslots t (entry_target t i) = 1 \<and> card (free_block_set t) + 1 = card (free_block_set s))"
  moreover have "files t = files s" if "t = lost_inode s" using that lost_inode_inv(2) by simp
  ultimately show "if dom (files s) = {..<MAX_FILES} then r = Inl NoFreeInode \<and> t = s
     else if free_block_set s = {} then r = Inl NoFreeBlock \<and> files t = files s
     else (\<exists>i n. r = Inr n \<and> find_first (\<lambda>i. files s i = None) 0 MAX_FILES = Some i
            \<and> files t = (files s)(i \<mapsto> \<lparr>f_name = nm, f_data = [], f_perms = 7\<rparr>)
            \<and> nslots t (entry_target t i) = 1 \<and> card (free_block_set t) + 1 = card (free_block_set s))"
    by presburger
qed assumption+

theorem create_file_correct_witness:
  "\<exists>s t n. create_file_system blank_disk = Some s \<and> create_file (cstr ''a'') s = Some (t, Inr n)
    \<and> files t = [0 \<mapsto> empty_file ''a'']"
proof -
  obtain s where s: "create_file_system blank_disk = Some s" "fs_inv s" "files s = Map.empty"
    "card (free_block_set s) = BLOCK_COUNT" "fs_reachable s" by (rule example_formatted)
  have no: "dom (files s) \<noteq> {..<MAX_FILES}" "free_block_set s \<noteq> {}"
    using s(3,4) lessThan_empty_iff [of MAX_FILES] by force+
  have "find_first (\<lambda>i. files s i = None) 0 MAX_FILES = Some 0"
    by (simp add: s(3) find_first.simps)
  with create_file_correct [OF s(2), of "''a''"] no s(1,3) show ?thesis by auto
qed

text \<open>C9 (writing): a write stores the first \<open>write_count\<close> bytes of the buffer as the new
  contents of the file that the name selects and changes no other file; without the file or
  without the permission it fails and changes nothing.\<close>

theorem write_file_correct:
  assumes "fs_inv s" "NUL \<notin> set nm" "sz \<le> length buf"
  shows "\<exists>t r. write_file (cstr nm) buf sz s = Some (t, r) \<and> fs_inv t \<and>
    (case the_file s nm of
       None \<Rightarrow> r = Inl FileNotFound \<and> t = s
     | Some f \<Rightarrow>
         if writable (f_perms f)
         then (\<exists>i w. lookup (files s) nm = Some i \<and> w = write_count s (entry_target s i) sz \<and> r = Inr w
                \<and> files t = (files s)(i \<mapsto> f\<lparr>f_data := take w buf\<rparr>))
         else r = Inl PermissionDenied \<and> t = s)"
  by (rule write_file_cases [OF assms])

theorem write_file_correct_witness:
  "\<exists>t u. files t = [0 \<mapsto> empty_file ''a''] \<and> write_file (cstr ''a'') ''hello'' 5 t = Some (u, Inr 5)
    \<and> files u = [0 \<mapsto> (empty_file ''a'')\<lparr>f_data := ''hello''\<rparr>]"
proof -
  obtain s t n where t: "create_file_system blank_disk = Some s" "create_file (cstr ''a'') s = Some (t, Inr n)"
    "fs_inv t" "files t = [0 \<mapsto> empty_file ''a'']" "the_file t ''a'' = Some (empty_file ''a'')"
    "lookup (files t) ''a'' = Some 0" by (rule example_created)
  have "write_count t (entry_target t 0) 5 = 5" by (simp add: write_count_def Let_def blocks_for_def)
  with write_file_correct [OF t(3), of "''a''" 5 "''hello''"] t(4-6) perms_7 have "\<exists>u. write_file (cstr ''a'') ''hello'' 5 t = Some (u, Inr 5)
    \<and> files u = [0 \<mapsto> (empty_file ''a'')\<lparr>f_data := ''hello''\<rparr>]"
    by auto
  with t(4) show ?thesis by blast
qed

text \<open>C20 (appending): an append extends the contents by the first \<open>append_count\<close> bytes of the
  buffer and changes no other file; it fails without the file, without the permission and on
  a file of the maximal size, and then changes nothing.\<close>

theorem append_to_file_correct:
  assumes "fs_inv s" "NUL \<notin> set nm" "sz \<le> length buf"
  shows "\<exists>t r. append_to_file (cstr nm) buf sz s = Some (t, r) \<and> fs_inv t \<and>
    (case the_file s nm of
       None \<Rightarrow> r = Inl FileNotFound \<and> t = s
     | Some f \<Rightarrow>
         if \<not> writable (f_perms f) then r = Inl PermissionDenied \<and> t = s
         else if MAX_BLOCKS_PER_FILE * BLOCK_SIZE \<le> length (f_data f) then r = Inl AtMaxSize \<and> t = s
         else (\<exists>i w. lookup (files s) nm = Some i \<and> w = append_count s (entry_target s i) sz \<and> r = Inr w
                \<and> files t = (files s)(i \<mapsto> f\<lparr>f_data := f_data f @ take w buf\<rparr>)))"
  by (rule append_to_file_cases [OF assms])

theorem append_to_file_correct_witness:
  "\<exists>t u. files t = [0 \<mapsto> empty_file ''a''] \<and> append_to_file (cstr ''a'') ''hello'' 5 t = Some (u, Inr 5)
    \<and> files u = [0 \<mapsto> (empty_file ''a'')\<lparr>f_data := ''hello''\<rparr>]"
proof -
  obtain s t n where t: "create_file_system blank_disk = Some s" "create_file (cstr ''a'') s = Some (t, Inr n)"
    "fs_inv t" "files t = [0 \<mapsto> empty_file ''a'']" "the_file t ''a'' = Some (empty_file ''a'')"
    "lookup (files t) ''a'' = Some 0" by (rule example_created)
  have "fsize t (entry_target t 0) = length (f_data (empty_file ''a''))"
    using files_SomeD(4) [of t 0 "empty_file ''a''"] t(4) by (simp add: content_def)
  then have "append_count t (entry_target t 0) 5 = 5" by (simp add: append_count_def Let_def blocks_for_def)
  with append_to_file_correct [OF t(3), of "''a''" 5 "''hello''"] t(4-6) perms_7 have "\<exists>u. append_to_file (cstr ''a'') ''hello'' 5 t = Some (u, Inr 5)
    \<and> files u = [0 \<mapsto> (empty_file ''a'')\<lparr>f_data := ''hello''\<rparr>]"
    by auto
  with t(4) show ?thesis by blast
qed

text \<open>C21 (reading): a read copies the first bytes of the contents, as many as asked for and
  present, to the front of the buffer and leaves the rest of it alone; it fails without the
  file or without the permission.\<close>

theorem read_file_correct:
  assumes "fs_inv s" "NUL \<notin> set nm" "sz \<le> length buf"
  shows "read_file (cstr nm) buf sz s = Some
    (case the_file s nm of
       None \<Rightarrow> Inl FileNotFound
     | Some f \<Rightarrow>
         if readable (f_perms f)
         then (let r = min sz (length (f_data f)) in Inr (r, take r (f_data f) @ drop r buf))
         else Inl PermissionDenied)"
  by (rule read_file_cases [OF assms])

theorem read_file_correct_witness:
  "\<exists>t. files t = [0 \<mapsto> empty_file ''a''] \<and> read_file (cstr ''a'') ''??'' 2 t = Some (Inr (0, ''??''))
    \<and> read_file (cstr ''b'') ''??'' 2 t = Some (Inl FileNotFound)"
proof -
  obtain s t n where t: "create_file_system blank_disk = Some s" "create_file (cstr ''a'') s = Some (t, Inr n)"
    "fs_inv t" "files t = [0 \<mapsto> empty_file ''a'']" "the_file t ''a'' = Some (empty_file ''a'')"
    "lookup (files t) ''a'' = Some 0" by (rule example_created)
  have "the_file t ''b'' = None"
    by (cases rule: the_file_cases [of t "''b''"]) (auto simp: t(4) split: if_splits)
  with read_file_correct [OF t(3), of "''a''" 2 "''??''"] read_file_correct [OF t(3), of "''b''" 2 "''??''"]
    t(5) perms_7 have "read_file (cstr ''a'') ''??'' 2 t = Some (Inr (0, ''??''))
      \<and> read_file (cstr ''b'') ''??'' 2 t = Some (Inl FileNotFound)" by simp
  with t(4) show ?thesis by blast
qed

text \<open>C23 (deletion): a deletion removes exactly the file that the name selects and returns all
  its blocks; without the file or the permission it changes nothing.\<close>

theorem delete_file_correct:
  assumes "fs_inv s" "NUL \<notin> set nm"
  shows "\<exists>t r. delete_file (cstr nm) s = Some (t, r) \<and> fs_inv t \<and>
    (case the_file s nm of
       None \<Rightarrow> r = Inl FileNotFound \<and> t = s
     | Some f \<Rightarrow>
         if writable (f_perms f)
         then (\<exists>i. lookup (files s) nm = Some i \<and> r = Inr () \<and> files t = (files s)(i := None)
                \<and> card (free_block_set t) = card (free_block_set s) + nslots s (entry_target s i))
         else r = Inl PermissionDenied \<and> t = s)"
  by (rule delete_file_cases [OF assms])

theorem delete_file_correct_witness:
  "\<exists>t u. files t = [0 \<mapsto> empty_file ''a''] \<and> delete_file (cstr ''a'') t = Some (u, Inr ()) \<and> files u = Map.empty"
proof -
  obtain s t n where t: "create_file_system blank_disk = Some s" "create_file (cstr ''a'') s = Some (t, Inr n)"
    "fs_inv t" "files t = [0 \<mapsto> empty_file ''a'']" "the_file t ''a'' = Some (empty_file ''a'')"
    "lookup (files t) ''a'' = Some 0" by (rule example_created)
  from delete_file_correct [OF t(3), of "''a''"] t(4-6) perms_7 have "\<exists>u. delete_file (cstr ''a'') t = Some (u, Inr ()) \<and> files u = Map.empty"
    by auto
  with t(4) show ?thesis by blast
qed

text \<open>Permissions and listing: a change of permissions affects that one field of that one
  file, and the listing prints the names of the files in the order of their slots.\<close>

theorem chmod_list_correct:
  assumes "fs_inv s" "NUL \<notin> set nm"
  shows "(\<exists>t r. chmod_file (cstr nm) p s = Some (t, r) \<and> fs_inv t \<and>
      (case the_file s nm of
         None \<Rightarrow> r = Inl FileNotFound \<and> t = s
       | Some f \<Rightarrow> (\<exists>i. lookup (files s) nm = Some i \<and> r = Inr () \<and> files t = (files s)(i \<mapsto> f\<lparr>f_perms := p\<rparr>))))
    \<and> list_files s = Some (map f_name (List.map_filter (files s) [0..<MAX_FILES]))"
proof
  show "list_files s = Some (map f_name (List.map_filter (files s) [0..<MAX_FILES]))"
    unfolding list_files_def
    by (rule list_loop_names) (use assms(1) in \<open>auto simp: fs_inv_def dir_inv_def\<close>)
qed (rule chmod_file_cases [OF assms])

theorem chmod_list_correct_witness:
  "\<exists>t u. files t = [0 \<mapsto> empty_file ''a''] \<and> list_files t = Some [''a'']
    \<and> chmod_file (cstr ''a'') 4 t = Some (u, Inr ()) \<and> files u = [0 \<mapsto> (empty_file ''a'')\<lparr>f_perms := 4\<rparr>]"
proof -
  obtain s t n where t: "create_file_system blank_disk = Some s" "create_file (cstr ''a'') s = Some (t, Inr n)"
    "fs_inv t" "files t = [0 \<mapsto> empty_file ''a'']" "the_file t ''a'' = Some (empty_file ''a'')"
    "lookup (files t) ''a'' = Some 0" by (rule example_created)
  have "[0..<MAX_FILES] = 0 # [1..<MAX_FILES]" by (simp add: upt_rec)
  moreover have "List.map_filter (files t) [1..<MAX_FILES] = []"
    by (simp add: List.map_filter_def t(4) filter_empty_conv)
  ultimately have "map f_name (List.map_filter (files t) [0..<MAX_FILES]) = [''a'']"
    by (simp add: List.map_filter_def t(4))
  moreover note chmod_list_correct [OF t(3), of "''a''" 4]
  ultimately have "list_files t = Some [''a''] \<and> (\<exists>u. chmod_file (cstr ''a'') 4 t = Some (u, Inr ())
      \<and> files u = [0 \<mapsto> (empty_file ''a'')\<lparr>f_perms := 4\<rparr>])"
    using t(5,6) by (auto simp: t(4))
  with t(4) show ?thesis by blast
qed

subsection \<open>Sessions\<close>

text \<open>C24 (a session of writes): after any sequence of complete writes to files of distinct
  names, reading a name gives what was written to it last, and what it held before if it was
  not written.\<close>

theorem writes_then_read:
  assumes "store_inv s" "fold (\<lambda>(nm, d) r. Option.bind r (store_put nm d)) kvs (Some s) = Some t"
    and "map_of (rev kvs) nm = Some d \<or> nm \<notin> fst ` set kvs \<and> store_val s nm = Some d"
  shows "store_fetch nm t = Some d"
proof -
  have t: "store_inv t" "store_val t = store_val s ++ map_of (rev kvs)"
    using fs_store.puts_last [OF assms(1,2)] by auto
  have "store_val t nm = Some d"
    using assms(3) map_of_eq_None_iff [of "rev kvs" nm]
    by (cases "map_of (rev kvs) nm") (auto simp: t(2) map_add_def)
  then show ?thesis by (rule fs_store.fetch_law [OF t(1)])
qed

text \<open>A complete write of at most one block to a writable file always succeeds.\<close>

lemma store_put_small:
  assumes inv: "store_inv s" and f: "the_file s nm = Some f" "writable (f_perms f)" and len: "length d \<le> BLOCK_SIZE"
  shows "\<exists>t. store_put nm d s = Some t \<and> the_file t nm = Some (f\<lparr>f_data := d\<rparr>)"
proof -
  have fi: "fs_inv s" and dn: "names_distinct (files s)" using inv by (auto simp: store_inv_def)
  obtain i where i: "lookup (files s) nm = Some i" "files s i = Some f" "f_name f = nm"
    using f(1) by (cases rule: the_file_cases [of s nm]) auto
  have nm: "NUL \<notin> set nm" using files_SomeD(3) [OF i(2)] i(3) entry_name_clean [of s i] by simp
  have "blocks_for (length d) \<le> 1" using blocks_for_le [of "length d" 1] len by simp
  then have "write_count s (entry_target s i) (length d) = length d"
    using len by (simp add: write_count_def Let_def min_absorb1)
  with write_file_ok [OF fi nm i(1,2) f(2) order_refl, of d] obtain t where
    t: "write_file (cstr nm) d (length d) s = Some (t, Inr (length d))" "fs_inv t"
      "files t = (files s)(i \<mapsto> f\<lparr>f_data := d\<rparr>)" by auto
  then have "store_put nm d s = Some t" using nm by (simp add: store_put_def)
  moreover have "the_file t nm = Some (f\<lparr>f_data := d\<rparr>)"
    using the_file_replaced(2) [OF dn i(2,3) _ t(3)] i(3) by simp
  ultimately show ?thesis by blast
qed

lemma example_store:
  obtains t where "store_inv t" "files t = [0 \<mapsto> empty_file ''a'']" "the_file t ''a'' = Some (empty_file ''a'')"
proof -
  obtain s t n where t: "create_file_system blank_disk = Some s" "create_file (cstr ''a'') s = Some (t, Inr n)"
    "fs_inv t" "files t = [0 \<mapsto> empty_file ''a'']" "the_file t ''a'' = Some (empty_file ''a'')"
    "lookup (files t) ''a'' = Some 0" by (rule example_created)
  then have "store_inv t" using perms_7 by (auto simp: store_inv_def names_distinct_def split: if_splits)
  with that t show ?thesis by blast
qed

theorem writes_then_read_witness:
  "\<exists>s t. files s = [0 \<mapsto> empty_file ''a'']
    \<and> fold (\<lambda>(nm, d) r. Option.bind r (store_put nm d)) [(''a'', ''one''), (''a'', ''two'')] (Some s) = Some t
    \<and> store_fetch ''a'' t = Some ''two''"
proof -
  obtain s where s: "store_inv s" "files s = [0 \<mapsto> empty_file ''a'']"
    "the_file s ''a'' = Some (empty_file ''a'')" by (rule example_store)
  from store_put_small [OF s(1,3), of "''one''"] perms_7 obtain u where
    u: "store_put ''a'' ''one'' s = Some u" "the_file u ''a'' = Some ((empty_file ''a'')\<lparr>f_data := ''one''\<rparr>)"
    by auto
  have "store_inv u" using store_put_law [OF s(1) u(1)] by simp
  from store_put_small [OF this u(2), of "''two''"] perms_7 obtain t where
    "store_put ''a'' ''two'' u = Some t" by auto
  with u(1) have r: "fold (\<lambda>(nm, d) r. Option.bind r (store_put nm d)) [(''a'', ''one''), (''a'', ''two'')] (Some s) = Some t"
    by simp
  from writes_then_read [OF s(1) this, of "''a''" "''two''"] r s(2) show ?thesis by auto
qed

subsection \<open>Where the code does less than it could\<close>

text \<open>A file that has shrunk cannot grow again: \<open>write_file\<close> computes how many blocks a
  file has from its size. Once a file that owns all its four blocks has been overwritten with
  at most one block of data, every longer write stores 4096 bytes only, although the blocks
  for the rest are there.\<close>

theorem shrunk_file_truncates:
  assumes "fs_inv s" "NUL \<notin> set nm" "lookup (files s) nm = Some i" "files s i = Some f" "writable (f_perms f)"
    and "nslots s (entry_target s i) = MAX_BLOCKS_PER_FILE" "length (f_data f) \<le> BLOCK_SIZE"
    and "BLOCK_SIZE < sz" "sz \<le> length buf"
  shows "\<exists>t. write_file (cstr nm) buf sz s = Some (t, Inr BLOCK_SIZE)"
proof -
  let ?n = "entry_target s i"
  have "fsize s ?n \<le> BLOCK_SIZE" using assms(7) files_SomeD(4) [OF assms(4)] by (simp add: content_def)
  then have cur: "max (blocks_for (fsize s ?n)) 1 = 1" using blocks_for_le [of "fsize s ?n" 1] by simp
  have "1 < blocks_for (min sz (MAX_BLOCKS_PER_FILE * BLOCK_SIZE))"
    using blocks_for_bounds(1) [of "min sz (MAX_BLOCKS_PER_FILE * BLOCK_SIZE)"] assms(8)
    by (cases "blocks_for (min sz (MAX_BLOCKS_PER_FILE * BLOCK_SIZE)) \<le> 1") (auto simp: le_Suc_eq)
  then have "write_count s ?n sz = BLOCK_SIZE"
    by (simp only: write_count_def Let_def cur assms(6)) simp
  with write_file_ok [OF assms(1-5,9)] show ?thesis by auto
qed

theorem shrunk_file_truncates_witness:
  "\<exists>s t u v. files s = [0 \<mapsto> empty_file ''a'']
    \<and> write_file (cstr ''a'') (replicate 16384 CHR ''x'') 16384 s = Some (t, Inr 16384)
    \<and> write_file (cstr ''a'') ''y'' 1 t = Some (u, Inr 1)
    \<and> write_file (cstr ''a'') (replicate 16384 CHR ''z'') 16384 u = Some (v, Inr 4096)"
proof -
  obtain s0 s n where s: "create_file_system blank_disk = Some s0" "create_file (cstr ''a'') s0 = Some (s, Inr n)"
    "fs_inv s" "files s = [0 \<mapsto> empty_file ''a'']" "the_file s ''a'' = Some (empty_file ''a'')"
    "lookup (files s) ''a'' = Some 0" "nslots s (entry_target s 0) = 1" "card (free_block_set s) = 1023"
    by (rule example_created)
  let ?x = "replicate 16384 CHR ''x''" and ?z = "replicate 16384 CHR ''z''"
  have lk: "lookup [0 \<mapsto> g] ''a'' = Some 0" if "f_name g = ''a''" for g
    using that by (simp add: lookup_def find_first.simps)
  have fz: "fsize s (entry_target s 0) = length (f_data (empty_file ''a''))"
    using files_SomeD(4) [of s 0 "empty_file ''a''"] s(4) by (simp add: content_def)
  have "write_count s (entry_target s 0) 16384 = 16384"
    using fz s(7,8) by (simp add: write_count_def Let_def blocks_for_def)
  with write_file_ok [OF s(3) _ s(6), of "empty_file ''a''" 16384 ?x] s(4) perms_7 obtain t where
    t: "write_file (cstr ''a'') ?x 16384 s = Some (t, Inr 16384)" "fs_inv t"
      "files t = [0 \<mapsto> (empty_file ''a'')\<lparr>f_data := ?x\<rparr>]" by (auto simp: min_def)
  have ft: "files t 0 = Some ((empty_file ''a'')\<lparr>f_data := ?x\<rparr>)" using t(3) by simp
  have "fsize t (entry_target t 0) = 16384"
    using arg_cong [OF files_SomeD(4) [OF ft], of length] by (simp add: content_def)
  then have n4: "nslots t (entry_target t 0) = 4"
    using inode_size_bound(1) [OF t(2) files_SomeD(1,2) [OF ft]] nslots_le [of t "entry_target t 0"] by simp
  have "write_count t (entry_target t 0) 1 = 1" by (simp add: write_count_def Let_def blocks_for_def)
  with write_file_ok [OF t(2) _ lk [of "(empty_file ''a'')\<lparr>f_data := ?x\<rparr>", folded t(3)] ft, of 1 "''y''"] perms_7
  obtain u where u: "write_file (cstr ''a'') ''y'' 1 t = Some (u, Inr 1)" "fs_inv u"
      "files u = [0 \<mapsto> (empty_file ''a'')\<lparr>f_data := ''y''\<rparr>]"
      "root_directory u = root_directory t" "\<forall>m. nslots t m \<le> nslots u m" by (auto simp: t(3))
  have fu: "files u 0 = Some ((empty_file ''a'')\<lparr>f_data := ''y''\<rparr>)" using u(3) by simp
  have "entry_target u 0 = entry_target t 0" by (simp add: entry_target_def u(4))
  then have "nslots u (entry_target u 0) = MAX_BLOCKS_PER_FILE"
    using n4 spec [OF u(5), of "entry_target t 0"] nslots_le [of u "entry_target u 0"] by simp
  from shrunk_file_truncates [OF u(2) _ lk [of "(empty_file ''a'')\<lparr>f_data := ''y''\<rparr>", folded u(3)] fu _ this,
      of 16384 ?z] perms_7 obtain v where
    "write_file (cstr ''a'') ?z 16384 u = Some (v, Inr 4096)" by auto
  with s(4) t(1) u(1) show ?thesis by blast
qed

text \<open>Two files of one name: \<open>create_file\<close> does not look for the name first. Creating a
  name that exists succeeds while there is room, and then two slots hold that name.\<close>

theorem create_makes_duplicates:
  assumes "fs_inv s" "NUL \<notin> set nm" "length nm < MAX_FILENAME_LEN" "the_file s nm = Some f"
    and "dom (files s) \<noteq> {..<MAX_FILES}" "free_block_set s \<noteq> {}"
  shows "\<exists>t n. create_file (cstr nm) s = Some (t, Inr n) \<and> \<not> names_distinct (files t)"
proof -
  obtain j where j: "files s j = Some f" "f_name f = nm"
    using assms(4) by (cases rule: the_file_cases [of s nm]) auto
  from create_file_cases [OF assms(1-3)] assms(5,6) obtain t n i where
    t: "create_file (cstr nm) s = Some (t, Inr n)" "find_first (\<lambda>i. files s i = None) 0 MAX_FILES = Some i"
      "files t = (files s)(i \<mapsto> empty_file nm)" by auto
  have "files s i = None" using find_first_SomeD [OF t(2)] by blast
  then have "i \<noteq> j" using j by auto
  then have "files t i = Some (empty_file nm)" "files t j = Some f" by (simp_all add: t(3) j)
  with j \<open>i \<noteq> j\<close> have "\<not> names_distinct (files t)"
    using names_distinctD [of "files t" i "empty_file nm" j f] by auto
  with t(1) show ?thesis by blast
qed

theorem create_makes_duplicates_witness:
  "\<exists>s t n. files s = [0 \<mapsto> empty_file ''a''] \<and> create_file (cstr ''a'') s = Some (t, Inr n)
    \<and> \<not> names_distinct (files t)"
proof -
  obtain s0 s n where s: "create_file_system blank_disk = Some s0" "create_file (cstr ''a'') s0 = Some (s, Inr n)"
    "fs_inv s" "files s = [0 \<mapsto> empty_file ''a'']" "the_file s ''a'' = Some (empty_file ''a'')"
    "lookup (files s) ''a'' = Some 0" "nslots s (entry_target s 0) = 1" "card (free_block_set s) = 1023"
    by (rule example_created)
  have "1 \<in> {..<MAX_FILES}" "1 \<notin> dom (files s)" by (simp_all add: s(4))
  then have "dom (files s) \<noteq> {..<MAX_FILES}" by blast
  moreover have "free_block_set s \<noteq> {}" using s(8) by force
  ultimately show ?thesis using create_makes_duplicates [OF s(3) _ _ s(5)] s(4) by force
qed

text \<open>A failed creation loses an inode from the count: when no block is free, \<open>create_file\<close>
  gives the inode back but not its place in \<open>free_inodes\<close>, so each failure lowers the count
  by one although as many inodes are free as before.\<close>

theorem failed_create_miscounts:
  assumes "n < MAX_FILES" "\<not> inode_used s n" "free_block_set s = {}"
  shows "\<exists>t. create_file nm s = Some (t, Inl NoFreeBlock)
    \<and> free_inodes (sb t) = free_inodes (sb s) - 1 \<and> inode_used t = inode_used s"
proof -
  have "create_file nm s = Some (lost_inode s, Inl NoFreeBlock)"
    using assms by (intro create_file_no_block) auto
  then show ?thesis by (auto simp: lost_inode_def inode_used_def)
qed

theorem failed_create_miscounts_witness:
  "\<exists>t. create_file (cstr ''a'') (blank_disk\<lparr>block_bitmap := (\<lambda>_. 1),
       sb := (sb blank_disk)\<lparr>free_inodes := 256\<rparr>\<rparr>) = Some (t, Inl NoFreeBlock) \<and> free_inodes (sb t) = 255"
  using failed_create_miscounts [of 0 "blank_disk\<lparr>block_bitmap := (\<lambda>_. 1),
       sb := (sb blank_disk)\<lparr>free_inodes := 256\<rparr>\<rparr>" "cstr ''a''"]
  by (auto simp: inode_used_def free_block_set_def blank_disk_def)

end
