(* ===== verification/ProcQueue.thy ===== *)
theory ProcQueue
  imports Prelude "HOL-Library.Multiset"
begin

text \<open>
  Process control blocks and the ready queues of \<^verbatim>\<open>process/process.h\<close> and
  \<^verbatim>\<open>process/process.c\<close>: a singly linked list through the field \<open>next\<close>, kept in the order of
  a key of the process.

  The heap of control blocks is a total map from addresses (offsets in the arena) to
  records; a pointer is \<open>None\<close> for NULL. The embedded tree node of the CFS queue is not a
  field here. A walk along \<open>next\<close> need not end (the list may be cyclic), so it is
  a partial function: a result \<open>None\<close> is a call that does not return.
\<close>

subsection \<open>Data\<close>

abbreviation STATE_READY :: u32 where "STATE_READY \<equiv> 0"
abbreviation STATE_RUNNING :: u32 where "STATE_RUNNING \<equiv> 1"
abbreviation STATE_BLOCKED :: u32 where "STATE_BLOCKED \<equiv> 2"
abbreviation STATE_NEW :: u32 where "STATE_NEW \<equiv> 3"
abbreviation STATE_EXIT :: u32 where "STATE_EXIT \<equiv> 4"
abbreviation STATE_ZOMBIE :: u32 where "STATE_ZOMBIE \<equiv> 5"

record PCB =
  pid :: u32
  state :: u32
  user_stack_ptr :: addr
  cr3 :: u32
  priority :: int
  deadline :: int
  time_to_run :: int
  next_ready :: ptr
  next_in_table :: ptr
  parent :: ptr
  exit_status :: int
  is_new_child :: bool
  weight :: "64 word"
  vruntime :: "64 word"
  user_stack_base :: addr
  kernel_stack_base :: ptr
  kernel_stack_ptr :: ptr

type_synonym pcb_heap = "addr \<Rightarrow> PCB"

definition set_pcb :: "addr \<Rightarrow> (PCB \<Rightarrow> PCB) \<Rightarrow> pcb_heap \<Rightarrow> pcb_heap" where
  "set_pcb a f h = h(a := f (h a))"

record ProcessQueue =
  front :: ptr
  rear :: ptr

subsection \<open>Operations\<close>

definition initialize_queue :: ProcessQueue where
  "initialize_queue = \<lparr>front = None, rear = None\<rparr>"

definition is_queue_empty :: "ProcessQueue \<Rightarrow> bool" where
  "is_queue_empty q \<longleftrightarrow> front q = None"

text \<open>
  The three \<open>enqueue\<close> functions are one text with three fields for the key: the loop that
  looks for the last block whose successor may not stay before the new one, and the body.
\<close>

partial_function (option) walk :: "(PCB \<Rightarrow> int) \<Rightarrow> pcb_heap \<Rightarrow> int \<Rightarrow> addr \<Rightarrow> addr option" where
  "walk key h k current =
     (case next_ready (h current) of
        None \<Rightarrow> Some current
      | Some n \<Rightarrow> if key (h n) \<le> k then walk key h k n else Some current)"

definition enqueue_by ::
  "(PCB \<Rightarrow> int) \<Rightarrow> ProcessQueue \<Rightarrow> addr \<Rightarrow> pcb_heap \<Rightarrow> (ProcessQueue \<times> pcb_heap) option" where
  "enqueue_by key q p h0 =
     (let h = set_pcb p (next_ready_update (\<lambda>_. None)) h0 in
      case front q of
        None \<Rightarrow> Some (\<lparr>front = Some p, rear = Some p\<rparr>, h)
      | Some f \<Rightarrow>
          if key (h p) < key (h f)
          then Some (q\<lparr>front := Some p\<rparr>, set_pcb p (next_ready_update (\<lambda>_. Some f)) h)
          else do {
            c \<leftarrow> walk key h (key (h p)) f;
            let h1 = set_pcb p (next_ready_update (\<lambda>_. next_ready (h c))) h;
            let h2 = set_pcb c (next_ready_update (\<lambda>_. Some p)) h1;
            Some (if next_ready (h2 p) = None then q\<lparr>rear := Some p\<rparr> else q, h2)
          })"

definition enqueue_process :: "ProcessQueue \<Rightarrow> addr \<Rightarrow> pcb_heap \<Rightarrow> (ProcessQueue \<times> pcb_heap) option" where
  "enqueue_process = enqueue_by priority"

definition enqueue_process_edf :: "ProcessQueue \<Rightarrow> addr \<Rightarrow> pcb_heap \<Rightarrow> (ProcessQueue \<times> pcb_heap) option" where
  "enqueue_process_edf = enqueue_by deadline"

definition enqueue_process_sjf :: "ProcessQueue \<Rightarrow> addr \<Rightarrow> pcb_heap \<Rightarrow> (ProcessQueue \<times> pcb_heap) option" where
  "enqueue_process_sjf = enqueue_by time_to_run"

definition dequeue_process :: "ProcessQueue \<Rightarrow> pcb_heap \<Rightarrow> ptr \<times> ProcessQueue \<times> pcb_heap" where
  "dequeue_process q h =
     (case front q of
        None \<Rightarrow> (None, q, h)
      | Some p \<Rightarrow>
          (let q1 = q\<lparr>front := next_ready (h p)\<rparr>;
               q2 = (if front q1 = None then q1\<lparr>rear := None\<rparr> else q1) in
           (Some p, q2, set_pcb p (next_ready_update (\<lambda>_. None)) h)))"

subsection \<open>Queues as lists\<close>

fun chain :: "(addr \<Rightarrow> ptr) \<Rightarrow> ptr \<Rightarrow> addr list \<Rightarrow> bool" where
  "chain nx x [] = (x = None)"
| "chain nx x (a # as) = (x = Some a \<and> chain nx (nx a) as)"

definition queue_list :: "ProcessQueue \<Rightarrow> pcb_heap \<Rightarrow> addr list \<Rightarrow> bool" where
  "queue_list q h ps \<longleftrightarrow> chain (\<lambda>a. next_ready (h a)) (front q) ps \<and> distinct ps
     \<and> rear q = (if ps = [] then None else Some (last ps))"

text \<open>Where a process goes: behind the leading processes whose key is not larger.\<close>

definition place :: "('a \<Rightarrow> int) \<Rightarrow> 'a \<Rightarrow> 'a list \<Rightarrow> 'a list" where
  "place f p ps = takeWhile (\<lambda>a. f a \<le> f p) ps @ p # dropWhile (\<lambda>a. f a \<le> f p) ps"

text \<open>Two heaps that differ only in \<open>next\<close> fields, and only of the blocks in \<open>A\<close>.\<close>

definition same_but_next :: "addr set \<Rightarrow> pcb_heap \<Rightarrow> pcb_heap \<Rightarrow> bool" where
  "same_but_next A h h' \<longleftrightarrow>
     (\<forall>a. (h' a)\<lparr>next_ready := None\<rparr> = (h a)\<lparr>next_ready := None\<rparr>) \<and> (\<forall>a. a \<notin> A \<longrightarrow> h' a = h a)"

lemma chain_cong: "(\<And>a. a \<in> set as \<Longrightarrow> nx a = nx' a) \<Longrightarrow> chain nx x as = chain nx' x as"
  by (induction as arbitrary: x) auto

lemma chain_append: "chain nx x (as @ b # bs) \<Longrightarrow> chain nx (Some b) (b # bs)"
  by (induction as arbitrary: x) auto

lemma chain_next: "chain nx x (as @ a # b # bs) \<Longrightarrow> nx a = Some b"
  by (induction as arbitrary: x) auto

lemma chain_last: "chain nx x (as @ [a]) \<Longrightarrow> nx a = None"
  by (induction as arbitrary: x) auto

text \<open>Splicing a block behind a member of a list.\<close>

lemma chain_splice:
  assumes "chain nx x (as @ c # bs)" "p \<notin> set (as @ c # bs)" "distinct (as @ c # bs)"
  shows "chain (nx(p := nx c, c := Some p)) x (as @ c # p # bs)"
  using assms
proof (induction as arbitrary: x)
  case Nil
  let ?nx = "nx(p := nx c, c := Some p)"
  have "chain nx (nx c) bs" "x = Some c" "p \<noteq> c" using Nil by simp_all
  moreover have "chain ?nx (nx c) bs \<longleftrightarrow> chain nx (nx c) bs"
    by (rule chain_cong) (use Nil in auto)
  moreover have "?nx c = Some p" "?nx p = nx c" using Nil by simp_all
  ultimately show ?case by (simp only: append_Nil chain.simps simp_thms)
next
  case (Cons a as)
  then show ?case by auto
qed

lemma chain_unique: "chain nx x as \<Longrightarrow> chain nx x bs \<Longrightarrow> as = bs"
  by (induction as arbitrary: x bs) (case_tac bs; auto)+

subsection \<open>What the operations do to the list\<close>

lemma set_pcb_apply: "set_pcb a f h b = (if b = a then f (h a) else h b)"
  by (simp add: set_pcb_def)

lemma place_set: "set (place f p ps) = insert p (set ps)"
proof -
  have "set ps = set (takeWhile (\<lambda>a. f a \<le> f p) ps) \<union> set (dropWhile (\<lambda>a. f a \<le> f p) ps)"
    by (metis set_append takeWhile_dropWhile_id)
  then show ?thesis by (auto simp: place_def)
qed

lemma place_cong: "(\<And>a. a \<in> insert p (set ps) \<Longrightarrow> f a = g a) \<Longrightarrow> place f p ps = place g p ps"
proof -
  assume eq: "\<And>a. a \<in> insert p (set ps) \<Longrightarrow> f a = g a"
  then have "takeWhile (\<lambda>a. f a \<le> f p) ps = takeWhile (\<lambda>a. g a \<le> g p) ps"
    "dropWhile (\<lambda>a. f a \<le> f p) ps = dropWhile (\<lambda>a. g a \<le> g p) ps"
    by (auto intro: takeWhile_cong dropWhile_cong)
  then show ?thesis by (simp add: place_def)
qed

lemma place_distinct: "distinct ps \<Longrightarrow> p \<notin> set ps \<Longrightarrow> distinct (place f p ps)"
proof -
  assume d: "distinct ps" "p \<notin> set ps"
  have "distinct (takeWhile (\<lambda>a. f a \<le> f p) ps @ dropWhile (\<lambda>a. f a \<le> f p) ps)" using d(1) by simp
  moreover have "p \<notin> set (takeWhile (\<lambda>a. f a \<le> f p) ps @ dropWhile (\<lambda>a. f a \<le> f p) ps)" using d(2) by simp
  ultimately show ?thesis by (auto simp: place_def simp del: takeWhile_dropWhile_id)
qed

lemma walk_chain:
  "chain (\<lambda>a. next_ready (h a)) (next_ready (h c)) bs \<Longrightarrow>
     walk key h k c = Some (last (c # takeWhile (\<lambda>a. key (h a) \<le> k) bs))"
proof (induction bs arbitrary: c)
  case Nil
  then show ?case by (simp add: walk.simps [of key h k c])
next
  case (Cons b bs)
  then have "next_ready (h c) = Some b" "chain (\<lambda>a. next_ready (h a)) (next_ready (h b)) bs" by simp_all
  with Cons.IH [of b] show ?case by (simp add: walk.simps [of key h k c])
qed

text \<open>A key does not depend on the link.\<close>

definition link_free :: "(PCB \<Rightarrow> int) \<Rightarrow> bool" where
  "link_free key \<longleftrightarrow> (\<forall>b x. key (b\<lparr>next_ready := x\<rparr>) = key b)"

lemma link_free_keys: "link_free priority" "link_free deadline" "link_free time_to_run"
  by (simp_all add: link_free_def)

lemma enqueue_by_list:
  assumes key: "link_free key" and q: "queue_list q h ps" and p: "p \<notin> set ps"
  shows "\<exists>q' h'. enqueue_by key q p h = Some (q', h')
    \<and> queue_list q' h' (place (\<lambda>a. key (h a)) p ps) \<and> same_but_next (insert p (set ps)) h h'"
proof -
  let ?h = "set_pcb p (next_ready_update (\<lambda>_. None)) h"
  let ?P = "\<lambda>a. key (h a) \<le> key (h p)"
  have kh: "key (?h a) = key (h a)" for a using key by (simp add: link_free_def set_pcb_apply)
  have ch: "chain (\<lambda>a. next_ready (h a)) (front q) ps" and d: "distinct ps"
    and rear: "rear q = (if ps = [] then None else Some (last ps))" using q by (auto simp: queue_list_def)
  have ch1: "chain (\<lambda>a. next_ready (?h a)) (front q) ps"
    by (rule iffD1 [OF chain_cong ch]) (use p in \<open>auto simp: set_pcb_apply\<close>)
  show ?thesis
  proof (cases ps)
    case Nil
    then have "front q = None" using ch by simp
    then have "enqueue_by key q p h = Some (\<lparr>front = Some p, rear = Some p\<rparr>, ?h)" by (simp add: enqueue_by_def Let_def)
    then show ?thesis
      by (auto simp: Nil queue_list_def place_def same_but_next_def set_pcb_apply)
  next
    case (Cons f rest)
    then have fr: "front q = Some f" using ch by simp
    have fp: "f \<noteq> p" using Cons p by auto
    show ?thesis
    proof (cases "key (h p) < key (h f)")
      case True
      let ?h' = "set_pcb p (next_ready_update (\<lambda>_. Some f)) ?h"
      have "enqueue_by key q p h = Some (q\<lparr>front := Some p\<rparr>, ?h')"
        using True by (simp add: enqueue_by_def Let_def fr kh)
      moreover have "place (\<lambda>a. key (h a)) p ps = p # ps" using True by (simp add: place_def Cons)
      moreover have "chain (\<lambda>a. next_ready (?h' a)) (Some f) ps"
        by (rule iffD1 [OF chain_cong ch [unfolded fr]]) (use p in \<open>auto simp: set_pcb_apply\<close>)
      then have "queue_list (q\<lparr>front := Some p\<rparr>) ?h' (p # ps)"
        using d p rear by (simp add: queue_list_def set_pcb_apply Cons)
      moreover have "same_but_next (insert p (set ps)) h ?h'" by (simp add: same_but_next_def set_pcb_apply)
      ultimately show ?thesis by metis
    next
      case False
      define ts ds where "ts = takeWhile ?P rest" and "ds = dropWhile ?P rest"
      define as c where "as = butlast (f # ts)" and "c = last (f # ts)"
      have fts: "f # ts = as @ [c]" by (simp add: as_def c_def)
      have "rest = ts @ ds" by (simp add: ts_def ds_def)
      then have ps: "ps = as @ c # ds" using fts Cons by (metis append_Cons append_Nil append_assoc)
      have pl: "place (\<lambda>a. key (h a)) p ps = as @ c # p # ds"
      proof -
        have "takeWhile ?P ps = f # ts" "dropWhile ?P ps = ds"
          using False by (simp_all add: Cons ts_def ds_def)
        then show ?thesis using fts by (simp add: place_def)
      qed
      have "walk key ?h (key (?h p)) f = Some c"
      proof -
        have "chain (\<lambda>a. next_ready (?h a)) (next_ready (?h f)) rest" using ch1 by (simp add: Cons)
        from walk_chain [OF this, of key "key (?h p)"] show ?thesis by (simp add: kh c_def ts_def)
      qed
      moreover have pc: "p \<noteq> c" using p ps by auto
      let ?h1 = "set_pcb p (next_ready_update (\<lambda>_. next_ready (?h c))) ?h"
      let ?h2 = "set_pcb c (next_ready_update (\<lambda>_. Some p)) ?h1"
      have hp: "next_ready (?h2 p) = next_ready (h c)" using pc by (simp add: set_pcb_apply)
      ultimately have run: "enqueue_by key q p h =
          Some (if next_ready (h c) = None then q\<lparr>rear := Some p\<rparr> else q, ?h2)" (is "_ = Some (?q, _)")
        using False by (simp add: enqueue_by_def Let_def fr kh)
      have nx: "(\<lambda>a. next_ready (?h2 a)) = (\<lambda>a. next_ready (?h a))(p := next_ready (?h c), c := Some p)"
        using pc by (auto simp: set_pcb_apply fun_eq_iff)
      have "chain (\<lambda>a. next_ready (?h2 a)) (front q) (as @ c # p # ds)"
        unfolding nx by (rule chain_splice) (use ch1 p d ps in auto)
      moreover have "distinct (as @ c # p # ds)" using d p by (auto simp: ps)
      moreover have "rear ?q = Some (last (as @ c # p # ds))"
      proof (cases ds)
        case Nil
        then have "next_ready (h c) = None" using ch chain_last [of "\<lambda>a. next_ready (h a)" "front q" as c] by (simp add: ps)
        then show ?thesis by (simp add: Nil)
      next
        case (Cons b bs)
        then have "next_ready (h c) = Some b" using ch chain_next [of "\<lambda>a. next_ready (h a)" "front q" as c b bs] by (simp add: ps)
        then show ?thesis using rear by (simp add: Cons ps)
      qed
      ultimately have "queue_list ?q ?h2 (as @ c # p # ds)" by (simp add: queue_list_def)
      moreover have "same_but_next (insert p (set ps)) h ?h2"
        by (auto simp: same_but_next_def set_pcb_apply ps)
      ultimately show ?thesis using run pl by metis
    qed
  qed
qed

lemma dequeue_list:
  "queue_list q h [] \<Longrightarrow> dequeue_process q h = (None, q, h)"
  "queue_list q h (p # ps) \<Longrightarrow> \<exists>q' h'. dequeue_process q h = (Some p, q', h')
     \<and> queue_list q' h' ps \<and> same_but_next {p} h h' \<and> next_ready (h' p) = None"
proof -
  show "queue_list q h [] \<Longrightarrow> dequeue_process q h = (None, q, h)"
    by (simp add: queue_list_def dequeue_process_def)
next
  assume q: "queue_list q h (p # ps)"
  let ?h = "set_pcb p (next_ready_update (\<lambda>_. None)) h"
  have ch: "chain (\<lambda>a. next_ready (h a)) (next_ready (h p)) ps" and p: "p \<notin> set ps" "distinct ps"
    and f: "front q = Some p" "rear q = Some (last (p # ps))"
    using q by (auto simp: queue_list_def)
  let ?q1 = "q\<lparr>front := next_ready (h p)\<rparr>"
  let ?q2 = "if front ?q1 = None then ?q1\<lparr>rear := None\<rparr> else ?q1"
  have "dequeue_process q h = (Some p, ?q2, ?h)" by (simp add: dequeue_process_def f(1) Let_def)
  moreover have "chain (\<lambda>a. next_ready (?h a)) (next_ready (h p)) ps"
    by (rule iffD1 [OF chain_cong ch]) (use p in \<open>auto simp: set_pcb_apply\<close>)
  then have "queue_list ?q2 ?h ps"
    using p f ch by (cases ps) (auto simp: queue_list_def)
  moreover have "same_but_next {p} h ?h" "next_ready (?h p) = None"
    by (auto simp: same_but_next_def set_pcb_apply)
  ultimately show "\<exists>q' h'. dequeue_process q h = (Some p, q', h')
     \<and> queue_list q' h' ps \<and> same_but_next {p} h h' \<and> next_ready (h' p) = None" by blast
qed

subsection \<open>The interface of an ordered queue\<close>

text \<open>Runs of insertions and removals.\<close>

primrec fill :: "('a \<Rightarrow> 's \<Rightarrow> 's option) \<Rightarrow> 'a list \<Rightarrow> 's \<Rightarrow> 's option" where
  "fill enq [] s = Some s"
| "fill enq (x # xs) s = Option.bind (enq x s) (fill enq xs)"

primrec drain :: "('s \<Rightarrow> 'a option \<times> 's) \<Rightarrow> nat \<Rightarrow> 's \<Rightarrow> 'a list" where
  "drain deq 0 s = []"
| "drain deq (Suc n) s = (case deq s of (None, t) \<Rightarrow> [] | (Some x, t) \<Rightarrow> x # drain deq n t)"

text \<open>
  \<open>holds s xs\<close>: the state \<open>s\<close> represents the list \<open>xs\<close>. Keys belong to the state. The client
  facts: order is kept, a served element has a least key, elements of equal keys are served
  in the order of their arrival, so that filling and draining is a stable sort.
\<close>

locale ordered_queue =
  fixes holds :: "'s \<Rightarrow> 'a list \<Rightarrow> bool" and key :: "'s \<Rightarrow> 'a \<Rightarrow> int"
    and enq :: "'a \<Rightarrow> 's \<Rightarrow> 's option" and deq :: "'s \<Rightarrow> 'a option \<times> 's"
  assumes enq_law: "holds s xs \<Longrightarrow> x \<notin> set xs \<Longrightarrow>
      \<exists>t. enq x s = Some t \<and> holds t (place (key s) x xs) \<and> key t = key s"
    and deq_empty: "holds s [] \<Longrightarrow> deq s = (None, s)"
    and deq_law: "holds s (x # xs) \<Longrightarrow> \<exists>t. deq s = (Some x, t) \<and> holds t xs \<and> key t = key s"
begin

definition ordered :: "'s \<Rightarrow> 'a list \<Rightarrow> bool" where
  "ordered s xs \<longleftrightarrow> holds s xs \<and> sorted (map (key s) xs)"

lemma place_sorted: "sorted (map f xs) \<Longrightarrow> sorted (map f (place f x xs))"
proof (induction xs)
  case (Cons y ys)
  then show ?case
    using place_set [of f x ys] by (cases "f y \<le> f x") (auto simp: place_def)
qed (simp add: place_def)

lemma enq_ordered:
  "ordered s xs \<Longrightarrow> x \<notin> set xs \<Longrightarrow> \<exists>t. enq x s = Some t \<and> ordered t (place (key s) x xs) \<and> key t = key s"
  using enq_law [of s xs x] place_sorted [of "key s" xs x] unfolding ordered_def by metis

lemma deq_ordered:
  "ordered s (x # xs) \<Longrightarrow> \<exists>t. deq s = (Some x, t) \<and> ordered t xs \<and> (\<forall>y\<in>set xs. key s x \<le> key s y)"
  using deq_law [of s x xs] unfolding ordered_def by auto

lemma place_filter:
  "sorted (map f xs) \<Longrightarrow> filter (\<lambda>y. f y = k) (place f x xs) = filter (\<lambda>y. f y = k) xs @ (if f x = k then [x] else [])"
proof (induction xs)
  case (Cons y ys)
  show ?case
  proof (cases "f y \<le> f x")
    case True
    with Cons show ?thesis by (auto simp: place_def)
  next
    case False
    with Cons.prems have "\<forall>z\<in>set (y # ys). f x < f z" by auto
    then have "filter (\<lambda>z. f z = f x) (y # ys) = []" by (auto simp: filter_empty_conv)
    with False show ?thesis by (auto simp: place_def)
  qed
qed (simp add: place_def)

lemma place_mset: "mset (place f x xs) = add_mset x (mset xs)"
  unfolding place_def mset_append mset.simps
  by (metis add_mset_add_single mset_append takeWhile_dropWhile_id union_mset_add_mset_right)

lemma fill_ordered:
  assumes "ordered s xs" "distinct (xs @ ys)"
  shows "\<exists>t zs. fill enq ys s = Some t \<and> ordered t zs \<and> key t = key s \<and> mset zs = mset xs + mset ys
    \<and> (\<forall>k. filter (\<lambda>y. key s y = k) zs = filter (\<lambda>y. key s y = k) (xs @ ys))"
  using assms
proof (induction ys arbitrary: s xs)
  case Nil
  then show ?case by auto
next
  case (Cons y ys)
  then obtain t where t: "enq y s = Some t" "ordered t (place (key s) y xs)" "key t = key s"
    using enq_ordered [of s xs y] by auto
  have "distinct (place (key s) y xs @ ys)"
    using Cons.prems(2) place_set [of "key s" y xs] place_distinct [of xs y "key s"] by auto
  from Cons.IH [OF t(2) this] obtain u zs where u: "fill enq ys t = Some u" "ordered u zs" "key u = key t"
    "mset zs = mset (place (key s) y xs) + mset ys"
    "\<forall>k. filter (\<lambda>z. key t z = k) zs = filter (\<lambda>z. key t z = k) (place (key s) y xs @ ys)" by blast
  have "sorted (map (key s) xs)" using Cons.prems(1) by (simp add: ordered_def)
  then have "filter (\<lambda>z. key s z = k) (place (key s) y xs @ ys) = filter (\<lambda>z. key s z = k) (xs @ y # ys)" for k
    by (simp add: place_filter)
  with t u show ?case by (auto simp: place_mset)
qed

text \<open>Filling an empty queue sorts stably by the key.\<close>

lemma fill_sorts:
  assumes "holds s []" "distinct xs"
  shows "\<exists>t. fill enq xs s = Some t \<and> holds t (sort_key (key s) xs) \<and> key t = key s"
proof -
  have "ordered s []" using assms(1) by (simp add: ordered_def)
  with fill_ordered [of s "[]" xs] assms(2) obtain t zs where t: "fill enq xs s = Some t" "ordered t zs"
    "key t = key s" "mset zs = mset xs" "\<forall>k. filter (\<lambda>y. key s y = k) zs = filter (\<lambda>y. key s y = k) xs" by auto
  have "sort_key (key s) xs = zs"
  proof (rule properties_for_sort_key)
    show "mset zs = mset xs" by (rule t)
    show "sorted (map (key s) zs)" using t(2,3) by (simp add: ordered_def)
    fix k assume "k \<in> set zs"
    have "filter (\<lambda>x. key s k = key s x) ys = filter (\<lambda>y. key s y = key s k) ys" for ys
      by (rule filter_cong) auto
    then show "filter (\<lambda>x. key s k = key s x) zs = filter (\<lambda>x. key s k = key s x) xs" using t(5) by simp
  qed
  with t show ?thesis by (auto simp: ordered_def)
qed

lemma drain_all: "holds s xs \<Longrightarrow> drain deq (length xs) s = xs"
proof (induction xs arbitrary: s)
  case (Cons x xs)
  with deq_law [OF Cons.prems] show ?case by auto
qed simp

end

subsection \<open>The three queues are instances\<close>

definition queue_holds :: "ProcessQueue \<times> pcb_heap \<Rightarrow> addr list \<Rightarrow> bool" where
  "queue_holds s ps \<longleftrightarrow> queue_list (fst s) (snd s) ps"

definition queue_key :: "(PCB \<Rightarrow> int) \<Rightarrow> ProcessQueue \<times> pcb_heap \<Rightarrow> addr \<Rightarrow> int" where
  "queue_key key s a = key (snd s a)"

definition queue_deq :: "ProcessQueue \<times> pcb_heap \<Rightarrow> ptr \<times> ProcessQueue \<times> pcb_heap" where
  "queue_deq s = dequeue_process (fst s) (snd s)"

lemma same_but_next_key: "link_free key \<Longrightarrow> same_but_next A h h' \<Longrightarrow> key (h' a) = key (h a)"
  unfolding link_free_def same_but_next_def by metis

lemma queue_laws:
  assumes "link_free key"
  shows "ordered_queue queue_holds (queue_key key) (\<lambda>p s. enqueue_by key (fst s) p (snd s)) queue_deq"
proof
  fix s xs x assume "queue_holds s xs" "x \<notin> set xs"
  then obtain q' h' where *: "enqueue_by key (fst s) x (snd s) = Some (q', h')"
    "queue_list q' h' (place (\<lambda>a. key (snd s a)) x xs)" "same_but_next (insert x (set xs)) (snd s) h'"
    using enqueue_by_list [OF assms, of "fst s" "snd s" xs x] by (auto simp: queue_holds_def)
  have "queue_key key (q', h') = queue_key key s"
    using same_but_next_key [OF assms *(3)] by (simp add: queue_key_def fun_eq_iff)
  with * show "\<exists>t. enqueue_by key (fst s) x (snd s) = Some t \<and> queue_holds t (place (queue_key key s) x xs)
      \<and> queue_key key t = queue_key key s"
    by (auto simp: queue_holds_def queue_key_def [abs_def])
next
  fix s x xs assume "queue_holds s (x # xs)"
  then obtain q' h' where *: "dequeue_process (fst s) (snd s) = (Some x, q', h')" "queue_list q' h' xs"
    "same_but_next {x} (snd s) h'"
    using dequeue_list(2) [of "fst s" "snd s" x xs] by (auto simp: queue_holds_def)
  have "queue_key key (q', h') = queue_key key s"
    using same_but_next_key [OF assms *(3)] by (simp add: queue_key_def fun_eq_iff)
  with * show "\<exists>t. queue_deq s = (Some x, t) \<and> queue_holds t xs \<and> queue_key key t = queue_key key s"
    by (auto simp: queue_holds_def queue_deq_def)
qed (simp add: queue_holds_def queue_deq_def dequeue_list(1))

interpretation prio_queue: ordered_queue queue_holds "queue_key priority"
  "\<lambda>p s. enqueue_by priority (fst s) p (snd s)" queue_deq
  by (rule queue_laws) (rule link_free_keys)

interpretation edf_queue: ordered_queue queue_holds "queue_key deadline"
  "\<lambda>p s. enqueue_by deadline (fst s) p (snd s)" queue_deq
  by (rule queue_laws) (rule link_free_keys)

interpretation sjf_queue: ordered_queue queue_holds "queue_key time_to_run"
  "\<lambda>p s. enqueue_by time_to_run (fst s) p (snd s)" queue_deq
  by (rule queue_laws) (rule link_free_keys)

subsection \<open>Properties\<close>

text \<open>Insertion: On a well-formed queue that does not contain the process, each of the three
  \<open>enqueue\<close> functions returns and puts the process behind all leading processes whose key
  is not larger; the queue stays well formed and no field but \<open>next\<close> of a queued process
  changes.\<close>

theorem enqueue_places:
  assumes "queue_list q h ps" "p \<notin> set ps"
  shows "\<forall>(key, enqueue) \<in> {(priority, enqueue_process), (deadline, enqueue_process_edf), (time_to_run, enqueue_process_sjf)}.
    \<exists>q' h'. enqueue q p h = Some (q', h') \<and> queue_list q' h' (place (\<lambda>a. key (h a)) p ps)
      \<and> same_but_next (insert p (set ps)) h h'"
  using enqueue_by_list [OF link_free_keys(1) assms] enqueue_by_list [OF link_free_keys(2) assms]
    enqueue_by_list [OF link_free_keys(3) assms]
  by (simp add: enqueue_process_def enqueue_process_edf_def enqueue_process_sjf_def)

definition example_pcb :: PCB where
  "example_pcb = \<lparr>pid = 0, state = STATE_READY, user_stack_ptr = 0, cr3 = 0, priority = 0, deadline = 0,
     time_to_run = 0, next_ready = None, next_in_table = None, parent = None, exit_status = 0,
     is_new_child = False, weight = 0, vruntime = 0, user_stack_base = 0, kernel_stack_base = None,
     kernel_stack_ptr = None\<rparr>"

text \<open>Four processes at the addresses 0 to 3 with the priorities 2, 1, 2 and 1.\<close>

definition example_heap :: pcb_heap where
  "example_heap = (\<lambda>a. example_pcb\<lparr>priority := if even a then 2 else 1\<rparr>)"

lemma example_empty: "queue_list initialize_queue example_heap []"
  by (simp add: queue_list_def initialize_queue_def)

theorem enqueue_places_witness:
  "\<exists>q h. enqueue_process initialize_queue 3 example_heap = Some (q, h) \<and> queue_list q h [3]"
  using enqueue_places [OF example_empty, of 3] by (auto simp: place_def)

text \<open>C26 (dispatch order). Entering processes one by one into an empty ready queue and serving all
  of them yields the stable sort by priority: smaller numbers first, equal numbers in the
  order of entry.\<close>

theorem priority_queue_stable_sort:
  assumes "distinct ps" "queue_list q h []"
  shows "\<exists>s. fill (\<lambda>p s. enqueue_process (fst s) p (snd s)) ps (q, h) = Some s
    \<and> drain queue_deq (length ps) s = sort_key (\<lambda>a. priority (h a)) ps"
proof -
  have "queue_holds (q, h) []" using assms(2) by (simp add: queue_holds_def)
  from prio_queue.fill_sorts [OF this assms(1)] obtain s where
    s: "fill (\<lambda>p s. enqueue_process (fst s) p (snd s)) ps (q, h) = Some s"
      "queue_holds s (sort_key (\<lambda>a. priority (h a)) ps)"
    by (auto simp: enqueue_process_def queue_key_def [abs_def])
  from prio_queue.drain_all [OF s(2)] s(1) show ?thesis by auto
qed

theorem priority_queue_stable_sort_witness:
  "\<exists>s. fill (\<lambda>p s. enqueue_process (fst s) p (snd s)) [0, 1, 2, 3] (initialize_queue, example_heap) = Some s
    \<and> drain queue_deq 4 s = [1, 3, 0, 2]"
proof -
  have "sort_key (\<lambda>a. priority (example_heap a)) [0, 1, 2, 3] = [1, 3, 0, 2]"
    by (simp add: example_heap_def)
  moreover have "distinct [0, 1, 2, 3 :: nat]" "length [0, 1, 2, 3 :: nat] = 4" by simp_all
  ultimately show ?thesis using priority_queue_stable_sort [OF _ example_empty, of "[0, 1, 2, 3]"] by metis
qed

text \<open>Removal: \<open>dequeue_process\<close> returns NULL on an empty queue and otherwise the first
  process, with its link cleared; in an ordered queue no other process has a smaller
  priority, and the rest stays ordered.\<close>

theorem dequeue_takes_minimum:
  assumes "queue_list q h ps" "sorted (map (\<lambda>a. priority (h a)) ps)"
  shows "case ps of
      [] \<Rightarrow> dequeue_process q h = (None, q, h)
    | p # rest \<Rightarrow> \<exists>q' h'. dequeue_process q h = (Some p, q', h') \<and> queue_list q' h' rest
        \<and> next_ready (h' p) = None \<and> same_but_next {p} h h' \<and> (\<forall>a\<in>set rest. priority (h p) \<le> priority (h a))"
proof (cases ps)
  case Nil
  then show ?thesis using dequeue_list(1) [of q h] assms(1) by simp
next
  case (Cons p rest)
  then have "\<forall>a\<in>set rest. priority (h p) \<le> priority (h a)" using assms(2) by auto
  with Cons dequeue_list(2) [of q h p rest] assms(1) show ?thesis by simp blast
qed

theorem dequeue_takes_minimum_witness:
  "\<exists>q h q' h'. enqueue_process initialize_queue 3 example_heap = Some (q, h)
    \<and> dequeue_process q h = (Some 3, q', h') \<and> queue_list q' h' []"
proof -
  obtain q h where q: "enqueue_process initialize_queue 3 example_heap = Some (q, h)" "queue_list q h [3]"
    using enqueue_by_list [OF link_free_keys(1) example_empty, of 3] by (auto simp: place_def enqueue_process_def)
  from dequeue_takes_minimum [OF q(2)] q(1) show ?thesis by auto
qed

end
