(* ===== verification/Process.thy ===== *)
theory Process
  imports Memory ProcQueue "HOL-Library.Monad_Syntax"
begin

text \<open>
  Process management and system calls: \<^verbatim>\<open>process/process.c\<close> and \<^verbatim>\<open>process/syscall.c\<close>.

  The state of the kernel is the arena of \<open>Memory\<close>, a heap of process control blocks, the
  global variables and the registers that the inline assembly touches. A control block is
  addressed by the pointer that \<open>kmalloc\<close> returned; its fields are kept apart from the bytes
  of the arena, and a block that is allocated again has the fields that were left in it.
  Stacks are bytes of the arena. Registers hold 32-bit words; a stack pointer is an offset.

  A function is undefined (\<open>None\<close>) when it follows a NULL pointer, leaves the arena or walks
  a list for ever. A call that does not come back to its caller because another process
  continues, or because the command line takes over, is a value of \<open>outcome\<close>.

  What the compiler chooses is a parameter: \<open>frame\<close> is the distance from the stack pointer at
  the call of \<open>schedule\<close> to the one that \<open>schedule\<close> stores, and \<open>ret\<close> is the return address that a
  call pushes. The functions keep frame pointers: a call pushes the return address, then
  the old \<open>ebp\<close>, and then sets \<open>ebp\<close> to the stack pointer (\<open>enter\<close>). Other words that a
  function stores below its frame are not modelled.
\<close>

subsection \<open>State\<close>

record kernel =
  arena :: mem_state
  pcbs :: pcb_heap
  current_process :: ptr
  ready_queue :: ProcessQueue
  process_table_head :: ptr
  next_pid :: u32
  esp :: addr
  ebp :: u32
  eip :: u32
  eax :: u32

datatype 'r outcome =
    Returned 'r kernel
  | Switched kernel
  | Idle kernel

definition upd_pcb :: "addr \<Rightarrow> (PCB \<Rightarrow> PCB) \<Rightarrow> kernel \<Rightarrow> kernel" where
  "upd_pcb a f k = k\<lparr>pcbs := set_pcb a f (pcbs k)\<rparr>"

definition enqueue_ready :: "addr \<Rightarrow> kernel \<Rightarrow> kernel option" where
  "enqueue_ready p k = do {
     (q, h) \<leftarrow> enqueue_process (ready_queue k) p (pcbs k);
     Some (k\<lparr>ready_queue := q, pcbs := h\<rparr>)
   }"

text \<open>
  \<open>memory_init\<close> on the whole state of the kernel: the arena is cleared, and with it every control block that it
  will hold, so that all pointers in it are NULL.
\<close>

definition zero_PCB :: PCB where
  "zero_PCB = \<lparr>pid = 0, state = 0, user_stack_ptr = 0, cr3 = 0, priority = 0, deadline = 0, time_to_run = 0,
     next_ready = None, next_in_table = None, parent = None, exit_status = 0, is_new_child = False, weight = 0, vruntime = 0,
     user_stack_base = 0, kernel_stack_base = None, kernel_stack_ptr = None\<rparr>"

definition clear_memory :: "kernel \<Rightarrow> kernel" where
  "clear_memory k = k\<lparr>arena := memory_init (arena k), pcbs := (\<lambda>_. zero_PCB)\<rparr>"

text \<open>A word of the stack; undefined outside the arena.\<close>

definition read_word :: "addr \<Rightarrow> kernel \<Rightarrow> u32 option" where
  "read_word a k =
     (if a + 4 \<le> KERNEL_MEMORY_SIZE then Some (load32 a (kernel_memory (arena k))) else None)"

definition write_word :: "addr \<Rightarrow> u32 \<Rightarrow> kernel \<Rightarrow> kernel option" where
  "write_word a w k =
     (if a + 4 \<le> KERNEL_MEMORY_SIZE
      then Some (k\<lparr>arena := (arena k)\<lparr>kernel_memory := store32 a w (kernel_memory (arena k))\<rparr>\<rparr>)
      else None)"

definition push :: "u32 \<Rightarrow> kernel \<Rightarrow> kernel option" where
  "push w k = (if 4 \<le> esp k then write_word (esp k - 4) w (k\<lparr>esp := esp k - 4\<rparr>) else None)"

text \<open>A call with the standard prologue.\<close>

definition enter :: "u32 \<Rightarrow> kernel \<Rightarrow> kernel option" where
  "enter ret k = do {
     k1 \<leftarrow> push ret k;
     k2 \<leftarrow> push (ebp k1) k1;
     Some (k2\<lparr>ebp := of_nat (esp k2)\<rparr>)
   }"

text \<open>The epilogue \<^verbatim>\<open>popl %ebp; ret\<close> with the stack pointer set first.\<close>

definition resume :: "addr \<Rightarrow> kernel \<Rightarrow> kernel option" where
  "resume sp k = do {
     b \<leftarrow> read_word sp k;
     r \<leftarrow> read_word (sp + 4) k;
     Some (k\<lparr>ebp := b, eip := r, esp := sp + 8\<rparr>)
   }"

subsection \<open>\<^verbatim>\<open>process.c\<close>\<close>

definition get_new_pid :: "kernel \<Rightarrow> u32 \<times> kernel" where
  "get_new_pid k = (next_pid k, k\<lparr>next_pid := next_pid k + 1\<rparr>)"

definition init_process_management :: "kernel \<Rightarrow> kernel" where
  "init_process_management k = k\<lparr>ready_queue := initialize_queue\<rparr>"

text \<open>The size of the C structure on i386.\<close>

definition sizeof_PCB :: u32 where "sizeof_PCB = 92"

abbreviation STACK_SIZE :: nat where "STACK_SIZE \<equiv> 4096"

definition allocate_kernel_stack :: "addr \<Rightarrow> kernel \<Rightarrow> kernel" where
  "allocate_kernel_stack p k =
     (let (m, b) = kmalloc (of_nat STACK_SIZE) (arena k) in
      upd_pcb p (\<lambda>x. x\<lparr>kernel_stack_base := b, kernel_stack_ptr := map_option (\<lambda>a. a + STACK_SIZE) b\<rparr>)
        (k\<lparr>arena := m\<rparr>))"

text \<open>
  \<open>schedule\<close>: a running current process goes back to the queue (\<open>put_back\<close>), the first of the
  queue becomes current, and its context is loaded. With an empty queue the command line
  is entered for good.
\<close>

definition put_back :: "kernel \<Rightarrow> kernel option" where
  "put_back k =
     (case current_process k of
        None \<Rightarrow> Some k
      | Some c \<Rightarrow>
          if state (pcbs k c) = STATE_RUNNING
          then enqueue_ready c (upd_pcb c (state_update (\<lambda>_. STATE_READY)) k)
          else Some k)"

definition schedule :: "nat \<Rightarrow> kernel \<Rightarrow> unit outcome option" where
  "schedule frame k = do {
     k1 \<leftarrow> put_back k;
     let (next_process, q, h) = dequeue_process (ready_queue k1) (pcbs k1);
     let k2 = k1\<lparr>ready_queue := q, pcbs := h\<rparr>;
     case next_process of
       None \<Rightarrow> Some (Idle k2)
     | Some p \<Rightarrow> do {
         let k3 = upd_pcb p (state_update (\<lambda>_. STATE_RUNNING)) k2;
         let k4 = (case current_process k3 of
                     None \<Rightarrow> k3
                   | Some c \<Rightarrow> upd_pcb c (kernel_stack_ptr_update (\<lambda>_. Some (esp k3 - frame))) k3);
         if is_new_child (pcbs k4 p)
         then do {
           k5 \<leftarrow> resume (user_stack_ptr (pcbs k4 p))
                  ((upd_pcb p (is_new_child_update (\<lambda>_. False)) k4)\<lparr>current_process := Some p, eax := 0\<rparr>);
           Some (Switched k5)
         }
         else do {
           k5 \<leftarrow> resume (user_stack_ptr (pcbs k4 p)) (k4\<lparr>current_process := Some p\<rparr>);
           Some (Switched k5)
         }
       }
   }"

definition create_process ::
  "u32 \<Rightarrow> u32 \<Rightarrow> int \<Rightarrow> int \<Rightarrow> int \<Rightarrow> kernel \<Rightarrow> (ptr \<times> kernel) option" where
  "create_process pd entry_point prio dl ttr k =
     (case kmalloc sizeof_PCB (arena k) of
        (m1, None) \<Rightarrow> Some (None, k\<lparr>arena := m1\<rparr>)
      | (m1, Some p) \<Rightarrow>
          (case kmalloc 4096 m1 of
             (m2, None) \<Rightarrow> Some (None, k\<lparr>arena := m2\<rparr>)
           | (m2, Some base) \<Rightarrow> do {
               let top = base + STACK_SIZE;
               let k1 = upd_pcb p (\<lambda>x. x\<lparr>pid := pd, state := STATE_NEW, priority := prio, deadline := dl,
                          time_to_run := ttr, user_stack_base := top - 4 * 1024\<rparr>) (k\<lparr>arena := m2\<rparr>);
               k2 \<leftarrow> write_word (top - 4) entry_point k1;
               k3 \<leftarrow> write_word (top - 8) 0 k2;
               let k4 = upd_pcb p (\<lambda>x. x\<lparr>user_stack_ptr := top - 8, cr3 := 0, next_ready := None\<rparr>) k3;
               let k5 = allocate_kernel_stack p k4;
               let k6 = upd_pcb p (next_in_table_update (\<lambda>_. process_table_head k5)) k5;
               let k7 = k6\<lparr>process_table_head := Some p\<rparr>;
               k8 \<leftarrow> enqueue_ready p (upd_pcb p (state_update (\<lambda>_. STATE_READY)) k7);
               Some (Some p, k8)
             }))"

subsection \<open>\<^verbatim>\<open>syscall.c\<close>\<close>

text \<open>
  The search of \<open>find_zombie_child\<close>, with the predecessor in the table. It reads the field
  \<open>pid\<close> behind the \<open>parent\<close> pointer of every process that it passes.
\<close>

partial_function (option) zombie_walk :: "pcb_heap \<Rightarrow> u32 \<Rightarrow> ptr \<Rightarrow> ptr \<Rightarrow> (ptr \<times> ptr) option" where
  "zombie_walk h ppid prev current =
     (if current = None then Some (prev, None)
      else do {
        q \<leftarrow> parent (h (the current));
        if pid (h q) = ppid \<and> state (h (the current)) = STATE_ZOMBIE then Some (prev, current)
        else zombie_walk h ppid current (next_in_table (h (the current)))
      })"

definition find_zombie_child :: "addr \<Rightarrow> kernel \<Rightarrow> (ptr \<times> kernel) option" where
  "find_zombie_child par k = do {
     (prev, z) \<leftarrow> zombie_walk (pcbs k) (pid (pcbs k par)) None (process_table_head k);
     case z of
       None \<Rightarrow> Some (None, k)
     | Some c \<Rightarrow>
         Some (Some c, case prev of
            None \<Rightarrow> k\<lparr>process_table_head := next_in_table (pcbs k c)\<rparr>
          | Some b \<Rightarrow> upd_pcb b (next_in_table_update (\<lambda>_. next_in_table (pcbs k c))) k)
   }"

text \<open>\<open>fork_syscall\<close> from the copy of the stack on, and as a whole.\<close>

definition fork_child :: "addr \<Rightarrow> addr \<Rightarrow> addr \<Rightarrow> kernel \<Rightarrow> (int \<times> kernel) option" where
  "fork_child par child base k = do {
     let stack_offset = (of_nat (user_stack_ptr (pcbs k par)) - of_nat (user_stack_base (pcbs k par)) :: u32);
     m \<leftarrow> copy_memory base (user_stack_base (pcbs k par)) 4096 (arena k);
     let k1 = upd_pcb child (user_stack_ptr_update (\<lambda>_. unat (of_nat base + stack_offset))) (k\<lparr>arena := m\<rparr>);
     let parent_cr3 = cr3 (pcbs k1 par);
     let (m2, c) = (if parent_cr3 \<noteq> 0 then kmalloc 4096 (arena k1) else (arena k1, None));
     let k2 = k1\<lparr>arena := m2\<rparr>;
     if parent_cr3 \<noteq> 0 \<and> c = None
     then Some (-1, upd_pcb child (cr3_update (\<lambda>_. 0)) k2)
     else do {
       k3 \<leftarrow> (case c of
                None \<Rightarrow> Some k2
              | Some a \<Rightarrow> do {
                  m3 \<leftarrow> copy_page_tables (unat parent_cr3) a m2;
                  Some (upd_pcb child (cr3_update (\<lambda>_. of_nat a)) (k2\<lparr>arena := m3\<rparr>))
                });
       let k4 = allocate_kernel_stack child k3;
       let k5 = upd_pcb child (\<lambda>x. x\<lparr>state := STATE_READY, is_new_child := True,
                  next_in_table := process_table_head k4\<rparr>) k4;
       k6 \<leftarrow> enqueue_ready child (k5\<lparr>process_table_head := Some child\<rparr>);
       Some (sint (pid (pcbs k6 child)), k6)
     }
   }"

definition fork_syscall :: "u32 \<Rightarrow> kernel \<Rightarrow> (int \<times> kernel) option" where
  "fork_syscall ret k0 = do {
     k \<leftarrow> enter ret k0;
     case current_process k of
       None \<Rightarrow> Some (-1, k)
     | Some par \<Rightarrow> do {
         let k1 = upd_pcb par (user_stack_ptr_update (\<lambda>_. unat (ebp k))) k;
         case kmalloc sizeof_PCB (arena k1) of
           (m1, None) \<Rightarrow> Some (-1, k1\<lparr>arena := m1\<rparr>)
         | (m1, Some child) \<Rightarrow> do {
             let (new_pid, k2) = get_new_pid (k1\<lparr>arena := m1\<rparr>);
             let k3 = upd_pcb child (\<lambda>x. x\<lparr>pid := new_pid, parent := Some par,
                        priority := priority (pcbs k2 par)\<rparr>) k2;
             case kmalloc 4096 (arena k3) of
               (m2, None) \<Rightarrow> Some (-1, k3\<lparr>arena := m2\<rparr>)
             | (m2, Some base) \<Rightarrow> fork_child par child base (k3\<lparr>arena := m2\<rparr>)
           }
       }
   }"

definition yield_syscall :: "u32 \<Rightarrow> nat \<Rightarrow> kernel \<Rightarrow> unit outcome option" where
  "yield_syscall ret frame k0 = do {
     k \<leftarrow> enter ret k0;
     case current_process k of
       None \<Rightarrow> Some (Returned () k)
     | Some p \<Rightarrow> do {
         let k1 = upd_pcb p (user_stack_ptr_update (\<lambda>_. unat (ebp k))) k;
         sp \<leftarrow> kernel_stack_ptr (pcbs k1 p);
         schedule frame (k1\<lparr>esp := sp\<rparr>)
       }
   }"

definition exit_syscall :: "int \<Rightarrow> nat \<Rightarrow> kernel \<Rightarrow> unit outcome option" where
  "exit_syscall status frame k =
     (case current_process k of
        None \<Rightarrow> Some (Returned () k)
      | Some p \<Rightarrow> do {
          let k1 = upd_pcb p (\<lambda>x. x\<lparr>exit_status := status, state := STATE_ZOMBIE\<rparr>) k;
          k2 \<leftarrow> (case parent (pcbs k1 p) of
                   None \<Rightarrow> Some k1
                 | Some q \<Rightarrow>
                     if state (pcbs k1 q) = STATE_BLOCKED
                     then enqueue_ready q (upd_pcb q (state_update (\<lambda>_. STATE_READY)) k1)
                     else Some k1);
          schedule frame k2
        })"

text \<open>
  \<open>wait_syscall\<close> up to the point where the caller has been blocked, and from there on after
  it has been resumed. The result holds the value that is stored through \<open>status\<close>, when
  that pointer is not NULL (\<open>want\<close>). \<open>locals\<close> is the room that the frame of \<open>wait_syscall\<close>
  takes and \<open>back\<close> the address in it to which \<open>yield_syscall\<close> returns.
\<close>

definition reap :: "bool \<Rightarrow> addr \<Rightarrow> kernel \<Rightarrow> (int \<times> int option) outcome option" where
  "reap want z k = do {
     m \<leftarrow> kfree (Some z) (arena k);
     Some (Returned (sint (pid (pcbs k z)), if want then Some (exit_status (pcbs k z)) else None)
             (k\<lparr>arena := m\<rparr>))
   }"

definition wait_resumed :: "addr \<Rightarrow> bool \<Rightarrow> kernel \<Rightarrow> (int \<times> int option) outcome option" where
  "wait_resumed par want k = do {
     (z, k1) \<leftarrow> find_zombie_child par k;
     case z of
       Some c \<Rightarrow> reap want c k1
     | None \<Rightarrow> Some (Returned (-1, None) k1)
   }"

definition wait_syscall ::
  "u32 \<Rightarrow> nat \<Rightarrow> u32 \<Rightarrow> nat \<Rightarrow> bool \<Rightarrow> kernel \<Rightarrow> (int \<times> int option) outcome option" where
  "wait_syscall ret locals back frame want k0 = do {
     k \<leftarrow> enter ret k0;
     case current_process k of
       None \<Rightarrow> Some (Returned (-1, None) k)
     | Some par \<Rightarrow> do {
         (z, k1) \<leftarrow> find_zombie_child par k;
         case z of
           Some c \<Rightarrow> reap want c k1
         | None \<Rightarrow> do {
             let k2 = upd_pcb par (state_update (\<lambda>_. STATE_BLOCKED)) k1;
             r \<leftarrow> yield_syscall back frame (k2\<lparr>esp := esp k2 - locals\<rparr>);
             (case r of
                Returned u k3 \<Rightarrow> wait_resumed par want k3
              | Switched k3 \<Rightarrow> Some (Switched k3)
              | Idle k3 \<Rightarrow> Some (Idle k3))
           }
       }
   }"

end
