(* ===== verification/KernelInv.thy ===== *)
theory KernelInv
  imports Process
begin

text \<open>
  The invariant of the process table and the ready queue, and what each kernel function
  does to it. \<open>kernel_inv k tbl rq\<close>: the table of \<open>k\<close> is the list \<open>tbl\<close>, its ready queue the
  list \<open>rq\<close> in the order of priority; the queue holds exactly the READY processes of the
  table; at most the current process is RUNNING; no two live control blocks share memory
  with a later allocation, since each heads an allocated page.
\<close>

subsection \<open>Blocks of the arena\<close>

definition pcb_block :: "mem_state \<Rightarrow> addr \<Rightarrow> bool" where
  "pcb_block m a \<longleftrightarrow> (\<exists>s<NUM_PAGES. a = s * PAGE_SIZE + sizeof_block \<and> page_table m s = 1)"

lemma fold_mark:
  "fold (\<lambda>j t. t(g j := c)) xs t = (\<lambda>p. if p \<in> g ` set xs then c else t p)"
  by (induction xs arbitrary: t) (auto simp: fun_eq_iff)

lemma kmalloc_block:
  assumes "kmalloc r m = (m', Some a)"
  shows "pcb_block m' a" "\<not> pcb_block m a" "pcb_block m b \<Longrightarrow> pcb_block m' b"
proof -
  from kmalloc_SomeD [OF assms] obtain s w where s: "a = s * PAGE_SIZE + sizeof_block" "s < NUM_PAGES"
    "0 < pages_for r" "w + pages_for r \<le> NUM_PAGES"
    and free: "\<And>j. j < pages_for r \<Longrightarrow> page_table m ((s + j) mod NUM_PAGES) = 0"
    and pt: "page_table m' = mark_pages s (pages_for r) (page_table m)" by metis
  have at: "page_table m' p = (if p \<in> (\<lambda>j. (s + j) mod NUM_PAGES) ` set [1..<pages_for r] then 2
      else if p = s then 1 else page_table m p)" for p
    by (simp add: pt mark_pages_def fold_mark)
  have "(s + j) mod NUM_PAGES \<noteq> s" if "1 \<le> j" "j < pages_for r" for j
  proof (cases "s + j < NUM_PAGES")
    case False
    then have "(s + j) mod NUM_PAGES = s + j - NUM_PAGES"
      using that s(2,4) by (simp add: le_mod_geq)
    with that s(4) False show ?thesis by linarith
  qed (use that in simp)
  then have "s \<notin> (\<lambda>j. (s + j) mod NUM_PAGES) ` set [1..<pages_for r]"
    by (metis (no_types, lifting) atLeastLessThan_iff imageE set_upt)
  then have "page_table m' s = 1" by (simp add: at)
  then show "pcb_block m' a" using s(1,2) by (auto simp: pcb_block_def)
  have "page_table m s = 0" using free [of 0] s(2,3) by simp
  then show "\<not> pcb_block m a" by (auto simp: pcb_block_def s(1))
  assume "pcb_block m b"
  then obtain t where t: "t < NUM_PAGES" "b = t * PAGE_SIZE + sizeof_block" "page_table m t = 1"
    by (auto simp: pcb_block_def)
  have "t \<notin> (\<lambda>j. (s + j) mod NUM_PAGES) ` set [1..<pages_for r]"
    using free t(3) by auto
  then have "page_table m' t = 1" using t(3) by (simp add: at)
  with t show "pcb_block m' b" by (auto simp: pcb_block_def)
qed

lemma kmalloc_keeps_blocks: "kmalloc r m = (m', x) \<Longrightarrow> pcb_block m b \<Longrightarrow> pcb_block m' b"
  using kmalloc_block(3) [of r m m'] kmalloc_None [of r m m'] by (cases x) auto

text \<open>An allocation writes into free pages only, and marks the pages of the new block.\<close>

lemma other_page:
  fixes b s :: nat
  assumes "b div PAGE_SIZE \<noteq> s"
  shows "b < s * PAGE_SIZE \<or> s * PAGE_SIZE + 8 \<le> b"
proof (cases "b div PAGE_SIZE < s")
  case True
  then show ?thesis by (simp add: div_less_iff_less_mult)
next
  case False
  then have "s + 1 \<le> b div PAGE_SIZE" using assms by linarith
  then have "(s + 1) * PAGE_SIZE \<le> b div PAGE_SIZE * PAGE_SIZE" by (rule mult_le_mono1)
  also have "\<dots> \<le> b" by simp
  finally show ?thesis by simp
qed

lemma kmalloc_keeps_bytes:
  assumes "kmalloc r m = (m', x)" "page_table m (b div PAGE_SIZE) \<noteq> 0"
  shows "kernel_memory m' b = kernel_memory m b" "page_table m' (b div PAGE_SIZE) \<noteq> 0"
proof -
  have "kernel_memory m' b = kernel_memory m b \<and> page_table m' (b div PAGE_SIZE) \<noteq> 0"
  proof (cases x)
    case None
    then show ?thesis using assms kmalloc_None by metis
  next
    case (Some a)
    from kmalloc_SomeD [OF assms(1) [unfolded Some]] obtain s where s: "s < NUM_PAGES" "0 < pages_for r"
      and free: "\<And>j. j < pages_for r \<Longrightarrow> page_table m ((s + j) mod NUM_PAGES) = 0"
      and pt: "page_table m' = mark_pages s (pages_for r) (page_table m)"
      and km: "kernel_memory m' = (store32 (s * PAGE_SIZE) r (kernel_memory m))(s * PAGE_SIZE + 4 := 0)" by metis
    have "page_table m s = 0" using free [of 0] s by simp
    then have "b div PAGE_SIZE \<noteq> s" using assms(2) by auto
    then have "b < s * PAGE_SIZE \<or> s * PAGE_SIZE + 8 \<le> b" by (rule other_page)
    then have "kernel_memory m' b = kernel_memory m b" by (auto simp: km byte_simps)
    moreover have "b div PAGE_SIZE \<notin> (\<lambda>j. (s + j) mod NUM_PAGES) ` set [1..<pages_for r]"
      using free assms(2) by auto
    then have "page_table m' (b div PAGE_SIZE) \<noteq> 0"
      using assms(2) \<open>b div PAGE_SIZE \<noteq> s\<close> by (auto simp: pt mark_pages_def fold_mark)
    ultimately show ?thesis by blast
  qed
  then show "kernel_memory m' b = kernel_memory m b" "page_table m' (b div PAGE_SIZE) \<noteq> 0" by auto
qed

lemma kmalloc_keeps_word:
  assumes "kmalloc r m = (m', x)" "page_table m q \<noteq> 0" "q * PAGE_SIZE \<le> a" "a + 4 \<le> q * PAGE_SIZE + PAGE_SIZE"
  shows "load32 a (kernel_memory m') = load32 a (kernel_memory m)"
proof (rule load32_cong)
  fix i :: nat assume "i < 4"
  then have "(a + i) div PAGE_SIZE = q" using assms(3,4) by (intro div_nat_eqI) auto
  with kmalloc_keeps_bytes(1) [OF assms(1), of "a + i"] assms(2)
  show "kernel_memory m' (a + i) = kernel_memory m (a + i)" by simp
qed

text \<open>A stack block: its second page is in use from then on.\<close>

lemma kmalloc_stack:
  assumes "kmalloc 4096 m = (m', Some base)" "base + 4096 \<le> KERNEL_MEMORY_SIZE"
  obtains t where "base = t * PAGE_SIZE + sizeof_block" "t + 1 < NUM_PAGES"
    "page_table m' t \<noteq> 0" "page_table m' (t + 1) \<noteq> 0"
    "page_table m t = 0" "page_table m (t + 1) = 0"
proof -
  from kmalloc_SomeD [OF assms(1)] obtain s where s: "base = s * PAGE_SIZE + sizeof_block" "s < NUM_PAGES"
    and free: "\<And>j. j < pages_for 4096 \<Longrightarrow> page_table m ((s + j) mod NUM_PAGES) = 0"
    and pt: "page_table m' = mark_pages s (pages_for 4096) (page_table m)" by metis
  have s1: "s + 1 < NUM_PAGES" using assms(2) s(1) by (simp add: sizeof_block_def)
  have "page_table m' s = 1" "page_table m' (s + 1) = 2"
    using s1 by (simp_all add: pt pages_for_values mark_pages_eq)
  moreover have "page_table m s = 0" "page_table m (s + 1) = 0"
    using free [of 0] free [of 1] s1 by (simp_all add: pages_for_values)
  ultimately show ?thesis using that [of s] s(1) s1 by simp
qed

lemma kfree_keeps_blocks:
  assumes "pcb_block m z"
  shows "\<exists>m'. kfree (Some z) m = Some m' \<and> (\<forall>b. pcb_block m b \<and> b \<noteq> z \<longrightarrow> pcb_block m' b)"
proof -
  from assms obtain s where s: "s < NUM_PAGES" "z = s * PAGE_SIZE + sizeof_block" "page_table m s = 1"
    by (auto simp: pcb_block_def)
  let ?m' = "m\<lparr>kernel_memory := (kernel_memory m)(s * PAGE_SIZE + 4 := 1),
    page_table := clear_tail ((page_table m)(s := 0)) (s + 1)\<rparr>"
  have "kfree (Some z) m = Some ?m'" using s by (simp add: kfree_def Let_def)
  moreover have "pcb_block ?m' b" if b: "pcb_block m b" "b \<noteq> z" for b
  proof -
    from b obtain t where t: "t < NUM_PAGES" "b = t * PAGE_SIZE + sizeof_block" "page_table m t = 1" "t \<noteq> s"
      using s(2) by (auto simp: pcb_block_def)
    let ?pt = "(page_table m)(s := 0)"
    have "?pt p = 2" if "s + 1 \<le> p" "p < s + 1 + tail_len ?pt (s + 1)" for p
      using tail_len_iff [of "s + 1" ?pt "tail_len ?pt (s + 1)"] s(1) that by simp
    then have "\<not> (s + 1 \<le> t \<and> t < s + 1 + tail_len ?pt (s + 1))" using t(3,4) by auto
    then have "clear_tail ?pt (s + 1) t = 1" using t(3,4) by (auto simp: clear_tail_eq)
    with t show ?thesis by (auto simp: pcb_block_def)
  qed
  ultimately show ?thesis by blast
qed

subsection \<open>The invariant\<close>

definition kernel_inv :: "kernel \<Rightarrow> addr list \<Rightarrow> addr list \<Rightarrow> bool" where
  "kernel_inv k tbl rq \<longleftrightarrow>
     chain (\<lambda>a. next_in_table (pcbs k a)) (process_table_head k) tbl \<and> distinct tbl
   \<and> queue_list (ready_queue k) (pcbs k) rq \<and> sorted (map (\<lambda>a. priority (pcbs k a)) rq)
   \<and> set rq = {a \<in> set tbl. state (pcbs k a) = STATE_READY}
   \<and> (\<forall>a\<in>set tbl. pcb_block (arena k) a \<and> (state (pcbs k a) = STATE_RUNNING \<longrightarrow> current_process k = Some a))
   \<and> (\<forall>c. current_process k = Some c \<longrightarrow> c \<in> set tbl)
   \<and> (\<forall>a. a \<notin> set tbl \<longrightarrow> state (pcbs k a) \<noteq> STATE_BLOCKED)"

lemma kernel_invD:
  assumes "kernel_inv k tbl rq"
  shows "chain (\<lambda>a. next_in_table (pcbs k a)) (process_table_head k) tbl" "distinct tbl"
    "queue_list (ready_queue k) (pcbs k) rq" "sorted (map (\<lambda>a. priority (pcbs k a)) rq)"
    "set rq = {a \<in> set tbl. state (pcbs k a) = STATE_READY}"
    "a \<in> set tbl \<Longrightarrow> pcb_block (arena k) a"
    "a \<in> set tbl \<Longrightarrow> state (pcbs k a) = STATE_RUNNING \<Longrightarrow> current_process k = Some a"
    "current_process k = Some c \<Longrightarrow> c \<in> set tbl"
    "a \<notin> set tbl \<Longrightarrow> state (pcbs k a) \<noteq> STATE_BLOCKED"
  using assms unfolding kernel_inv_def by blast+

lemma kernel_invI:
  assumes "chain (\<lambda>a. next_in_table (pcbs k a)) (process_table_head k) tbl" "distinct tbl"
    "queue_list (ready_queue k) (pcbs k) rq" "sorted (map (\<lambda>a. priority (pcbs k a)) rq)"
    "set rq = {a \<in> set tbl. state (pcbs k a) = STATE_READY}"
    "\<And>a. a \<in> set tbl \<Longrightarrow> pcb_block (arena k) a"
    "\<And>a. a \<in> set tbl \<Longrightarrow> state (pcbs k a) = STATE_RUNNING \<Longrightarrow> current_process k = Some a"
    "\<And>c. current_process k = Some c \<Longrightarrow> c \<in> set tbl"
    "\<And>a. a \<notin> set tbl \<Longrightarrow> state (pcbs k a) \<noteq> STATE_BLOCKED"
  shows "kernel_inv k tbl rq"
  unfolding kernel_inv_def using assms by blast

text \<open>Only links, priority and state of the processes of the table matter.\<close>

lemma kernel_inv_frame:
  assumes inv: "kernel_inv k tbl rq"
    and same: "process_table_head k' = process_table_head k" "ready_queue k' = ready_queue k"
      "current_process k' = current_process k"
    and fields: "\<And>a. a \<in> set tbl \<Longrightarrow> next_in_table (pcbs k' a) = next_in_table (pcbs k a)
        \<and> next_ready (pcbs k' a) = next_ready (pcbs k a) \<and> priority (pcbs k' a) = priority (pcbs k a)
        \<and> state (pcbs k' a) = state (pcbs k a)"
    and blocks: "\<And>a. pcb_block (arena k) a \<Longrightarrow> pcb_block (arena k') a"
    and out: "\<And>a. a \<notin> set tbl \<Longrightarrow> state (pcbs k' a) \<noteq> STATE_BLOCKED"
  shows "kernel_inv k' tbl rq"
proof -
  note i = kernel_invD [OF inv]
  have sub: "set rq \<subseteq> set tbl" using i(5) by auto
  have "chain (\<lambda>a. next_in_table (pcbs k' a)) (process_table_head k') tbl"
    using iffD1 [OF chain_cong i(1)] fields same by simp
  moreover have "queue_list (ready_queue k') (pcbs k') rq"
  proof -
    have "chain (\<lambda>a. next_ready (pcbs k' a)) (front (ready_queue k)) rq
        \<longleftrightarrow> chain (\<lambda>a. next_ready (pcbs k a)) (front (ready_queue k)) rq"
      by (rule chain_cong) (use fields sub in blast)
    then show ?thesis using i(3) same by (simp add: queue_list_def)
  qed
  moreover have "map (\<lambda>a. priority (pcbs k' a)) rq = map (\<lambda>a. priority (pcbs k a)) rq"
    using fields sub by auto
  moreover have "{a \<in> set tbl. state (pcbs k' a) = STATE_READY} = {a \<in> set tbl. state (pcbs k a) = STATE_READY}"
    using fields by auto
  ultimately show ?thesis
    unfolding kernel_inv_def using i(2,4,5,6,7,8) fields same(3) blocks out by metis
qed

text \<open>What \<open>enqueue_ready\<close> does on a well-formed queue.\<close>

lemma enqueue_ready_list:
  assumes "queue_list (ready_queue k) (pcbs k) rq" "p \<notin> set rq"
  shows "\<exists>q h. enqueue_ready p k = Some (k\<lparr>ready_queue := q, pcbs := h\<rparr>)
    \<and> queue_list q h (place (\<lambda>a. priority (pcbs k a)) p rq) \<and> same_but_next (insert p (set rq)) (pcbs k) h"
proof -
  from enqueue_by_list [OF link_free_keys(1) assms] obtain q h where
    e: "enqueue_by priority (ready_queue k) p (pcbs k) = Some (q, h)"
    and r: "queue_list q h (place (\<lambda>a. priority (pcbs k a)) p rq)" "same_but_next (insert p (set rq)) (pcbs k) h" by blast
  from e have "enqueue_ready p k = Some (k\<lparr>ready_queue := q, pcbs := h\<rparr>)"
    by (simp add: enqueue_ready_def enqueue_process_def)
  with r show ?thesis by blast
qed

lemma same_but_nextD:
  assumes "same_but_next A h h'"
  shows "state (h' a) = state (h a)" "priority (h' a) = priority (h a)"
    "next_in_table (h' a) = next_in_table (h a)" "pid (h' a) = pid (h a)" "parent (h' a) = parent (h a)"
    "user_stack_ptr (h' a) = user_stack_ptr (h a)" "is_new_child (h' a) = is_new_child (h a)"
    "kernel_stack_ptr (h' a) = kernel_stack_ptr (h a)" "exit_status (h' a) = exit_status (h a)"
    "user_stack_base (h' a) = user_stack_base (h a)"
    "a \<notin> A \<Longrightarrow> h' a = h a"
proof -
  have eq: "(h' a)\<lparr>next_ready := None\<rparr> = (h a)\<lparr>next_ready := None\<rparr>" using assms by (simp add: same_but_next_def)
  show "state (h' a) = state (h a)" using arg_cong [OF eq, of state] by simp
  show "priority (h' a) = priority (h a)" using arg_cong [OF eq, of priority] by simp
  show "next_in_table (h' a) = next_in_table (h a)" using arg_cong [OF eq, of next_in_table] by simp
  show "pid (h' a) = pid (h a)" using arg_cong [OF eq, of pid] by simp
  show "parent (h' a) = parent (h a)" using arg_cong [OF eq, of parent] by simp
  show "user_stack_ptr (h' a) = user_stack_ptr (h a)" using arg_cong [OF eq, of user_stack_ptr] by simp
  show "is_new_child (h' a) = is_new_child (h a)" using arg_cong [OF eq, of is_new_child] by simp
  show "kernel_stack_ptr (h' a) = kernel_stack_ptr (h a)" using arg_cong [OF eq, of kernel_stack_ptr] by simp
  show "exit_status (h' a) = exit_status (h a)" using arg_cong [OF eq, of exit_status] by simp
  show "user_stack_base (h' a) = user_stack_base (h a)" using arg_cong [OF eq, of user_stack_base] by simp
  show "a \<notin> A \<Longrightarrow> h' a = h a" using assms by (simp add: same_but_next_def)
qed

lemma upd_pcb_fields [simp]:
  "pcbs (upd_pcb a f k) b = (if b = a then f (pcbs k a) else pcbs k b)"
  "arena (upd_pcb a f k) = arena k" "current_process (upd_pcb a f k) = current_process k"
  "ready_queue (upd_pcb a f k) = ready_queue k" "process_table_head (upd_pcb a f k) = process_table_head k"
  "next_pid (upd_pcb a f k) = next_pid k" "esp (upd_pcb a f k) = esp k" "ebp (upd_pcb a f k) = ebp k"
  "eip (upd_pcb a f k) = eip k" "eax (upd_pcb a f k) = eax k"
  by (simp_all add: upd_pcb_def set_pcb_def)

text \<open>A process of the table that is not ready becomes ready.\<close>

lemma make_ready:
  assumes inv: "kernel_inv k tbl rq" and c: "c \<in> set tbl" "state (pcbs k c) \<noteq> STATE_READY"
  shows "\<exists>q h. enqueue_ready c (upd_pcb c (state_update (\<lambda>_. STATE_READY)) k) = Some (k\<lparr>ready_queue := q, pcbs := h\<rparr>)
    \<and> kernel_inv (k\<lparr>ready_queue := q, pcbs := h\<rparr>) tbl (place (\<lambda>a. priority (pcbs k a)) c rq)
    \<and> same_but_next (insert c (set rq)) (pcbs (upd_pcb c (state_update (\<lambda>_. STATE_READY)) k)) h"
proof -
  note i = kernel_invD [OF inv]
  let ?k = "upd_pcb c (state_update (\<lambda>_. STATE_READY)) k"
  have crq: "c \<notin> set rq" using i(5) c(2) by simp
  have "chain (\<lambda>a. next_ready (pcbs ?k a)) (front (ready_queue k)) rq
      \<longleftrightarrow> chain (\<lambda>a. next_ready (pcbs k a)) (front (ready_queue k)) rq"
    by (rule chain_cong) simp
  then have ql: "queue_list (ready_queue ?k) (pcbs ?k) rq" using i(3) by (simp add: queue_list_def)
  have pr: "(\<lambda>a. priority (pcbs ?k a)) = (\<lambda>a. priority (pcbs k a))" by auto
  from enqueue_ready_list [OF ql crq, unfolded pr] obtain q h where
    e: "enqueue_ready c ?k = Some (?k\<lparr>ready_queue := q, pcbs := h\<rparr>)"
    and q: "queue_list q h (place (\<lambda>a. priority (pcbs k a)) c rq)"
    and s: "same_but_next (insert c (set rq)) (pcbs ?k) h" by blast
  let ?k' = "k\<lparr>ready_queue := q, pcbs := h\<rparr>"
  have k': "?k\<lparr>ready_queue := q, pcbs := h\<rparr> = ?k'" by (simp add: upd_pcb_def)
  note f = same_but_nextD [OF s]
  have st: "state (h a) = (if a = c then STATE_READY else state (pcbs k a))" for a by (simp add: f(1))
  have hp: "priority (h a) = priority (pcbs k a)" for a by (simp add: f(2))
  have "kernel_inv ?k' tbl (place (\<lambda>a. priority (pcbs k a)) c rq)"
  proof (rule kernel_invI)
    have "chain (\<lambda>a. next_in_table (h a)) (process_table_head k) tbl
        \<longleftrightarrow> chain (\<lambda>a. next_in_table (pcbs k a)) (process_table_head k) tbl"
      by (rule chain_cong) (simp add: f(3))
    with i(1) show "chain (\<lambda>a. next_in_table (pcbs ?k' a)) (process_table_head ?k') tbl" by simp
    show "distinct tbl" by (rule i(2))
    show "queue_list (ready_queue ?k') (pcbs ?k') (place (\<lambda>a. priority (pcbs k a)) c rq)" using q by simp
    show "sorted (map (\<lambda>a. priority (pcbs ?k' a)) (place (\<lambda>a. priority (pcbs k a)) c rq))"
      using prio_queue.place_sorted [OF i(4), of c] by (simp add: hp)
    show "set (place (\<lambda>a. priority (pcbs k a)) c rq) = {a \<in> set tbl. state (pcbs ?k' a) = STATE_READY}"
      using i(5) c(1) by (auto simp: place_set st)
    show "pcb_block (arena ?k') a" if "a \<in> set tbl" for a using i(6) that by simp
    show "current_process ?k' = Some a" if "a \<in> set tbl" "state (pcbs ?k' a) = STATE_RUNNING" for a
      using i(7) [of a] that by (simp add: st split: if_splits)
    show "d \<in> set tbl" if "current_process ?k' = Some d" for d using i(8) that by simp
    show "state (pcbs ?k' a) \<noteq> STATE_BLOCKED" if "a \<notin> set tbl" for a using i(9) [of a] that c(1) by (auto simp: st)
  qed
  with e s show ?thesis unfolding k' by blast
qed

text \<open>A new block becomes the head of the table and is queued.\<close>

lemma queue_list_cong:
  "queue_list q h ps \<Longrightarrow> (\<And>a. a \<in> set ps \<Longrightarrow> next_ready (h' a) = next_ready (h a)) \<Longrightarrow> queue_list q h' ps"
  using chain_cong [of ps "\<lambda>a. next_ready (h' a)" "\<lambda>a. next_ready (h a)" "front q"]
  by (simp add: queue_list_def)

lemma add_ready:
  assumes inv: "kernel_inv k tbl rq" and p: "p \<notin> set tbl" "pcb_block (arena k) p"
    and f: "next_in_table (pcbs k p) = process_table_head k" "state (pcbs k p) = STATE_READY"
  shows "\<exists>q h. enqueue_ready p (k\<lparr>process_table_head := Some p\<rparr>)
        = Some (k\<lparr>process_table_head := Some p, ready_queue := q, pcbs := h\<rparr>)
    \<and> kernel_inv (k\<lparr>process_table_head := Some p, ready_queue := q, pcbs := h\<rparr>) (p # tbl)
        (place (\<lambda>a. priority (pcbs k a)) p rq)
    \<and> same_but_next (insert p (set rq)) (pcbs k) h"
proof -
  note i = kernel_invD [OF inv]
  let ?k = "k\<lparr>process_table_head := Some p\<rparr>"
  have prq: "p \<notin> set rq" using i(5) p(1) by simp
  have "queue_list (ready_queue ?k) (pcbs ?k) rq" using i(3) by simp
  from enqueue_ready_list [OF this prq] obtain q h where
    e: "enqueue_ready p ?k = Some (?k\<lparr>ready_queue := q, pcbs := h\<rparr>)"
    and q: "queue_list q h (place (\<lambda>a. priority (pcbs k a)) p rq)"
    and s: "same_but_next (insert p (set rq)) (pcbs k) h" by auto
  let ?k' = "?k\<lparr>ready_queue := q, pcbs := h\<rparr>"
  note n = same_but_nextD [OF s]
  have "kernel_inv ?k' (p # tbl) (place (\<lambda>a. priority (pcbs k a)) p rq)"
  proof (rule kernel_invI)
    have "chain (\<lambda>a. next_in_table (h a)) (process_table_head k) tbl
        \<longleftrightarrow> chain (\<lambda>a. next_in_table (pcbs k a)) (process_table_head k) tbl"
      by (rule chain_cong) (simp add: n(3))
    with i(1) show "chain (\<lambda>a. next_in_table (pcbs ?k' a)) (process_table_head ?k') (p # tbl)"
      by (simp add: n(3) f(1))
    show "distinct (p # tbl)" using i(2) p(1) by simp
    show "queue_list (ready_queue ?k') (pcbs ?k') (place (\<lambda>a. priority (pcbs k a)) p rq)" using q by simp
    show "sorted (map (\<lambda>a. priority (pcbs ?k' a)) (place (\<lambda>a. priority (pcbs k a)) p rq))"
      using prio_queue.place_sorted [OF i(4), of p] by (simp add: n(2))
    show "set (place (\<lambda>a. priority (pcbs k a)) p rq) = {a \<in> set (p # tbl). state (pcbs ?k' a) = STATE_READY}"
      using i(5) f(2) by (auto simp: place_set n(1))
    show "pcb_block (arena ?k') a" if "a \<in> set (p # tbl)" for a using i(6) p(2) that by auto
    show "current_process ?k' = Some a" if "a \<in> set (p # tbl)" "state (pcbs ?k' a) = STATE_RUNNING" for a
      using i(7) [of a] that f(2) by (auto simp: n(1))
    show "d \<in> set (p # tbl)" if "current_process ?k' = Some d" for d using i(8) that by simp
    show "state (pcbs ?k' a) \<noteq> STATE_BLOCKED" if "a \<notin> set (p # tbl)" for a
      using i(9) [of a] that by (auto simp: n(1))
  qed
  with e s show ?thesis by blast
qed

end
