(* ===== verification/KernelSched.thy ===== *)
theory KernelSched
  imports KernelInv
begin

text \<open>
  What \<open>schedule\<close>, process creation and the system calls do to the process table, the ready
  queue and the contexts: each function on every branch, and that each keeps the invariant.
\<close>

subsection \<open>The scheduler\<close>

lemma resume_frame:
  assumes "resume sp k = Some k'"
  shows "arena k' = arena k" "pcbs k' = pcbs k" "current_process k' = current_process k"
    "ready_queue k' = ready_queue k" "process_table_head k' = process_table_head k" "next_pid k' = next_pid k"
    "eax k' = eax k" "esp k' = sp + 8" "ebp k' = load32 sp (kernel_memory (arena k))"
    "eip k' = load32 (sp + 4) (kernel_memory (arena k))"
  using assms by (auto simp: resume_def read_word_def bind_eq_Some_conv split: if_splits)

text \<open>The queue that \<open>schedule\<close> takes its choice from.\<close>

definition requeued :: "kernel \<Rightarrow> addr list \<Rightarrow> addr list" where
  "requeued k rq =
     (case current_process k of
        Some c \<Rightarrow> if state (pcbs k c) = STATE_RUNNING then place (\<lambda>a. priority (pcbs k a)) c rq else rq
      | None \<Rightarrow> rq)"

definition same_context :: "kernel \<Rightarrow> kernel \<Rightarrow> bool" where
  "same_context k k' \<longleftrightarrow>
     (\<exists>q h. k' = k\<lparr>ready_queue := q, pcbs := h\<rparr>)
   \<and> (\<forall>a. user_stack_ptr (pcbs k' a) = user_stack_ptr (pcbs k a) \<and> is_new_child (pcbs k' a) = is_new_child (pcbs k a)
        \<and> priority (pcbs k' a) = priority (pcbs k a) \<and> kernel_stack_ptr (pcbs k' a) = kernel_stack_ptr (pcbs k a)
        \<and> pid (pcbs k' a) = pid (pcbs k a))"

lemma same_contextI:
  assumes "same_but_next A (pcbs (upd_pcb c (state_update f) k)) h"
  shows "same_context k (k\<lparr>ready_queue := q, pcbs := h\<rparr>)"
  unfolding same_context_def
proof (intro conjI allI)
  note n = same_but_nextD [OF assms]
  show "\<exists>q' h'. k\<lparr>ready_queue := q, pcbs := h\<rparr> = k\<lparr>ready_queue := q', pcbs := h'\<rparr>" by blast
qed (simp_all add: same_but_nextD [OF assms])

lemma same_context_refl: "same_context k k"
  unfolding same_context_def by (metis kernel.surjective kernel.update_convs(2,4))

text \<open>
  The first half of \<open>schedule\<close>: afterwards no process is RUNNING and the current one waits
  behind its equals, if it was running.
\<close>

lemma put_back_inv:
  assumes inv: "kernel_inv k tbl rq"
  shows "\<exists>k1. put_back k = Some k1 \<and> kernel_inv k1 tbl (requeued k rq)
    \<and> (\<forall>a\<in>set tbl. state (pcbs k1 a) \<noteq> STATE_RUNNING) \<and> same_context k k1"
proof (cases "\<exists>c. current_process k = Some c \<and> state (pcbs k c) = STATE_RUNNING")
  case True
  then obtain c where c: "current_process k = Some c" "state (pcbs k c) = STATE_RUNNING" by blast
  have "c \<in> set tbl" "state (pcbs k c) \<noteq> STATE_READY" using kernel_invD(8) [OF inv c(1)] c(2) by auto
  from make_ready [OF inv this] obtain q h where
    e: "enqueue_ready c (upd_pcb c (state_update (\<lambda>_. STATE_READY)) k) = Some (k\<lparr>ready_queue := q, pcbs := h\<rparr>)"
    and i: "kernel_inv (k\<lparr>ready_queue := q, pcbs := h\<rparr>) tbl (place (\<lambda>a. priority (pcbs k a)) c rq)"
    and s: "same_but_next (insert c (set rq)) (pcbs (upd_pcb c (state_update (\<lambda>_. STATE_READY)) k)) h" by blast
  note n = same_but_nextD [OF s]
  let ?k1 = "k\<lparr>ready_queue := q, pcbs := h\<rparr>"
  have none: "state (pcbs ?k1 a) \<noteq> STATE_RUNNING" if "a \<in> set tbl" for a
  proof (cases "a = c")
    case False
    with kernel_invD(7) [OF inv that] c(1) have "state (pcbs k a) \<noteq> STATE_RUNNING" by auto
    with False show ?thesis by (simp add: n(1))
  qed (simp add: n(1))
  have "requeued k rq = place (\<lambda>a. priority (pcbs k a)) c rq" using c by (simp add: requeued_def)
  moreover have "put_back k = Some ?k1"
    using c by (simp only: put_back_def option.case if_True simp_thms e)
  ultimately show ?thesis using i none same_contextI [OF s] by auto
next
  case False
  have "state (pcbs k a) \<noteq> STATE_RUNNING" if "a \<in> set tbl" for a
    using kernel_invD(7) [OF inv that] False by metis
  moreover have "requeued k rq = rq" using False by (auto simp: requeued_def split: option.splits)
  moreover have "put_back k = Some k" using False by (auto simp: put_back_def split: option.splits)
  ultimately show ?thesis using inv same_context_refl by auto
qed

text \<open>The second half: the first process of the queue becomes the current one.\<close>

lemma dispatch_inv:
  assumes inv: "kernel_inv k tbl (p # rest)" and none: "\<forall>a\<in>set tbl. state (pcbs k a) \<noteq> STATE_RUNNING"
    and q: "queue_list q h rest" "same_but_next {p} (pcbs k) h"
    and k': "process_table_head k' = process_table_head k" "ready_queue k' = q" "current_process k' = Some p"
      "arena k' = arena k"
    and f: "\<And>a. next_in_table (pcbs k' a) = next_in_table (h a) \<and> next_ready (pcbs k' a) = next_ready (h a)
        \<and> priority (pcbs k' a) = priority (h a) \<and> state (pcbs k' a) = (if a = p then STATE_RUNNING else state (h a))"
  shows "kernel_inv k' tbl rest"
proof -
  note i = kernel_invD [OF inv] and n = same_but_nextD [OF q(2)]
  have "distinct (p # rest)" using i(3) by (simp add: queue_list_def)
  then have pr: "p \<notin> set rest" by simp
  have pt: "p \<in> set tbl" "set rest \<subseteq> set tbl" using i(5) by auto
  have st: "state (pcbs k' a) = (if a = p then STATE_RUNNING else state (pcbs k a))" for a by (simp add: f n(1))
  show ?thesis
  proof (rule kernel_invI)
    have "chain (\<lambda>a. next_in_table (pcbs k' a)) (process_table_head k) tbl
        \<longleftrightarrow> chain (\<lambda>a. next_in_table (pcbs k a)) (process_table_head k) tbl"
      by (rule chain_cong) (simp add: f n(3))
    with i(1) show "chain (\<lambda>a. next_in_table (pcbs k' a)) (process_table_head k') tbl" by (simp add: k')
    show "queue_list (ready_queue k') (pcbs k') rest"
      using queue_list_cong [OF q(1), of "pcbs k'"] f by (simp add: k')
    show "sorted (map (\<lambda>a. priority (pcbs k' a)) rest)" using i(4) by (simp add: f n(2))
    show "set rest = {a \<in> set tbl. state (pcbs k' a) = STATE_READY}"
    proof -
      have "{a \<in> set tbl. state (pcbs k' a) = STATE_READY} = {a \<in> set tbl. state (pcbs k a) = STATE_READY} - {p}"
        by (auto simp: st)
      also have "\<dots> = set (p # rest) - {p}" using i(5) by simp
      also have "\<dots> = set rest" using pr by auto
      finally show ?thesis by simp
    qed
    show "current_process k' = Some a" if "a \<in> set tbl" "state (pcbs k' a) = STATE_RUNNING" for a
      using none that by (auto simp: st k' split: if_splits)
    show "d \<in> set tbl" if "current_process k' = Some d" for d using pt that by (simp add: k')
    show "state (pcbs k' a) \<noteq> STATE_BLOCKED" if "a \<notin> set tbl" for a
      using i(9) [OF that] by (simp add: st)
  qed (use i(2,6) k' in auto)
qed

lemma schedule_idle:
  assumes inv: "kernel_inv k tbl rq" and e: "requeued k rq = []"
  shows "schedule frame k = Some (Idle k)"
proof -
  from put_back_inv [OF inv] obtain k1 where k1: "put_back k = Some k1" "kernel_inv k1 tbl []"
    by (auto simp: e)
  have "\<not> (\<exists>c. current_process k = Some c \<and> state (pcbs k c) = STATE_RUNNING)"
    using e by (auto simp: requeued_def place_def)
  then have "put_back k = Some k" by (auto simp: put_back_def split: option.splits)
  with k1 have "queue_list (ready_queue k) (pcbs k) []" using kernel_invD(3) by auto
  from dequeue_list(1) [OF this] \<open>put_back k = Some k\<close> show ?thesis
    by (simp add: schedule_def)
qed

text \<open>The process that is chosen, with the registers it continues with.\<close>

definition runs :: "kernel \<Rightarrow> addr \<Rightarrow> kernel \<Rightarrow> bool" where
  "runs k p k' \<longleftrightarrow>
     current_process k' = Some p \<and> state (pcbs k' p) = STATE_RUNNING \<and> \<not> is_new_child (pcbs k' p)
   \<and> esp k' = user_stack_ptr (pcbs k p) + 8
   \<and> ebp k' = load32 (user_stack_ptr (pcbs k p)) (kernel_memory (arena k))
   \<and> eip k' = load32 (user_stack_ptr (pcbs k p) + 4) (kernel_memory (arena k))
   \<and> eax k' = (if is_new_child (pcbs k p) then 0 else eax k)
   \<and> arena k' = arena k \<and> process_table_head k' = process_table_head k \<and> next_pid k' = next_pid k
   \<and> (\<forall>a. user_stack_ptr (pcbs k' a) = user_stack_ptr (pcbs k a) \<and> priority (pcbs k' a) = priority (pcbs k a)
        \<and> pid (pcbs k' a) = pid (pcbs k a))"

lemma schedule_dispatch:
  assumes inv: "kernel_inv k tbl rq" and r: "requeued k rq = p # rest"
  shows "if user_stack_ptr (pcbs k p) + 8 \<le> KERNEL_MEMORY_SIZE
    then \<exists>k'. schedule frame k = Some (Switched k') \<and> kernel_inv k' tbl rest \<and> runs k p k'
    else schedule frame k = None"
proof -
  from put_back_inv [OF inv] obtain k1 where k1: "put_back k = Some k1" "kernel_inv k1 tbl (p # rest)"
    and none: "\<forall>a\<in>set tbl. state (pcbs k1 a) \<noteq> STATE_RUNNING" and sc: "same_context k k1" by (auto simp: r)
  from dequeue_list(2) [OF kernel_invD(3) [OF k1(2)]] obtain q h where
    d: "dequeue_process (ready_queue k1) (pcbs k1) = (Some p, q, h)" "queue_list q h rest"
      "same_but_next {p} (pcbs k1) h" by blast
  obtain q1 h1 where k1eq: "k1 = k\<lparr>ready_queue := q1, pcbs := h1\<rparr>" using sc unfolding same_context_def by blast
  have fr: "arena k1 = arena k" "current_process k1 = current_process k" "process_table_head k1 = process_table_head k"
    "next_pid k1 = next_pid k" "esp k1 = esp k" "eax k1 = eax k" by (simp_all add: k1eq)
  note n = same_but_nextD [OF d(3)]
  define k3 where "k3 = upd_pcb p (state_update (\<lambda>_. STATE_RUNNING)) (k1\<lparr>ready_queue := q, pcbs := h\<rparr>)"
  define k4 where "k4 = (case current_process k3 of
                     None \<Rightarrow> k3
                   | Some c \<Rightarrow> upd_pcb c (kernel_stack_ptr_update (\<lambda>_. Some (esp k3 - frame))) k3)"
  define k5 where "k5 = (if is_new_child (pcbs k4 p)
     then (upd_pcb p (is_new_child_update (\<lambda>_. False)) k4)\<lparr>current_process := Some p, eax := 0\<rparr>
     else k4\<lparr>current_process := Some p\<rparr>)"
  have k4f: "arena k4 = arena k1" "process_table_head k4 = process_table_head k1" "next_pid k4 = next_pid k1"
    "ready_queue k4 = q" "eax k4 = eax k1" by (auto simp: k4_def k3_def split: option.splits)
  have pf: "next_in_table (pcbs k4 a) = next_in_table (h a) \<and> next_ready (pcbs k4 a) = next_ready (h a)
        \<and> priority (pcbs k4 a) = priority (h a) \<and> state (pcbs k4 a) = (if a = p then STATE_RUNNING else state (h a))
        \<and> user_stack_ptr (pcbs k4 a) = user_stack_ptr (h a) \<and> is_new_child (pcbs k4 a) = is_new_child (h a)
        \<and> pid (pcbs k4 a) = pid (h a)" for a
    by (auto simp: k4_def k3_def split: option.splits)
  have usp: "user_stack_ptr (pcbs k4 a) = user_stack_ptr (pcbs k a)" "priority (pcbs k4 a) = priority (pcbs k a)"
    "is_new_child (pcbs k4 a) = is_new_child (pcbs k a)" "pid (pcbs k4 a) = pid (pcbs k a)" for a
    using sc by (simp_all add: pf n same_context_def)
  have run: "schedule frame k = Option.bind (resume (user_stack_ptr (pcbs k4 p)) k5) (\<lambda>x. Some (Switched x))"
    by (simp only: schedule_def k1(1) d(1) Let_def split option.case bind.bind_lunit k3_def [symmetric]
        k4_def [symmetric] k5_def) (cases "is_new_child (pcbs k4 p)"; simp only: if_True if_False)
  have k5f: "arena k5 = arena k" "process_table_head k5 = process_table_head k1" "ready_queue k5 = q"
    "current_process k5 = Some p" "next_pid k5 = next_pid k" "eax k5 = (if is_new_child (pcbs k p) then 0 else eax k)"
    by (simp_all add: k5_def k4f fr usp)
  have pf5: "next_in_table (pcbs k5 a) = next_in_table (h a) \<and> next_ready (pcbs k5 a) = next_ready (h a)
        \<and> priority (pcbs k5 a) = priority (h a) \<and> state (pcbs k5 a) = (if a = p then STATE_RUNNING else state (h a))" for a
    by (simp add: k5_def pf)
  have k5p: "\<not> is_new_child (pcbs k5 p)" "user_stack_ptr (pcbs k5 a) = user_stack_ptr (pcbs k a)"
    "priority (pcbs k5 a) = priority (pcbs k a)" "pid (pcbs k5 a) = pid (pcbs k a)" for a
    by (simp_all add: k5_def usp)
  show ?thesis
  proof (cases "user_stack_ptr (pcbs k p) + 8 \<le> KERNEL_MEMORY_SIZE")
    case True
    then obtain k' where k': "resume (user_stack_ptr (pcbs k p)) k5 = Some k'"
      by (simp add: resume_def read_word_def)
    note f = resume_frame [OF k']
    have "kernel_inv k' tbl rest"
      by (rule dispatch_inv [OF k1(2) none d(2,3)]) (use f k5f fr pf5 in simp_all)
    moreover have "runs k p k'"
      unfolding runs_def using f k5f k5p pf5 [of p] fr(3) by simp
    moreover have "schedule frame k = Some (Switched k')" using run usp k' by simp
    ultimately show ?thesis using True by auto
  next
    case False
    then have "resume (user_stack_ptr (pcbs k p)) k5 = None"
      by (auto simp: resume_def read_word_def bind_eq_None_conv)
    with False run usp show ?thesis by simp
  qed
qed

lemma schedule_inv:
  assumes "kernel_inv k tbl rq"
  shows "schedule frame k = Some (Switched k') \<Longrightarrow> \<exists>rq'. kernel_inv k' tbl rq'"
    "schedule frame k = Some (Idle k') \<Longrightarrow> k' = k \<and> rq = []"
    "schedule frame k \<noteq> Some (Returned u k')"
proof -
  have e: "schedule frame k = Some (Idle k)" "rq = []" if "requeued k rq = []"
    using schedule_idle [OF assms that] that by (auto simp: requeued_def place_def split: option.splits if_splits)
  have d: "(\<exists>k'. schedule frame k = Some (Switched k') \<and> kernel_inv k' tbl rest) \<or> schedule frame k = None"
    if "requeued k rq = p # rest" for p rest
    using schedule_dispatch [OF assms that, of frame] by (auto split: if_splits)
  show "schedule frame k = Some (Switched k') \<Longrightarrow> \<exists>rq'. kernel_inv k' tbl rq'"
    "schedule frame k = Some (Idle k') \<Longrightarrow> k' = k \<and> rq = []"
    "schedule frame k \<noteq> Some (Returned u k')"
    using e d by (cases "requeued k rq"; fastforce)+
qed

end
