(* ===== verification/KernelCalls.thy ===== *)
theory KernelCalls
  imports KernelSched
begin

text \<open>
  Process creation and the system calls: what each leaves in the table, the queue, the
  stacks and the registers, and that each keeps the invariant.
\<close>

subsection \<open>Small frames\<close>

lemma write_word_frame:
  assumes "write_word a w k = Some k'"
  shows "k' = k\<lparr>arena := (arena k)\<lparr>kernel_memory := store32 a w (kernel_memory (arena k))\<rparr>\<rparr>" "a + 4 \<le> KERNEL_MEMORY_SIZE"
  using assms by (auto simp: write_word_def split: if_splits)

lemma kernel_inv_arena:
  assumes "kernel_inv k tbl rq" "page_table m = page_table (arena k) \<or> kmalloc r (arena k) = (m, x)"
  shows "kernel_inv (k\<lparr>arena := m\<rparr>) tbl rq"
proof (rule kernel_inv_frame [OF assms(1)])
  fix a assume "pcb_block (arena k) a"
  with assms(2) kmalloc_keeps_blocks [of r "arena k" m x a] show "pcb_block (arena (k\<lparr>arena := m\<rparr>)) a"
    by (auto simp: pcb_block_def)
qed (use kernel_invD(9) [OF assms(1)] in auto)

text \<open>Fields that play no part in the invariant.\<close>

lemma kernel_inv_upd:
  assumes inv: "kernel_inv k tbl rq"
    and f: "\<And>x. next_in_table (f x) = next_in_table x \<and> next_ready (f x) = next_ready x \<and> priority (f x) = priority x
        \<and> state (f x) = state x"
  shows "kernel_inv (upd_pcb a f k) tbl rq"
  by (rule kernel_inv_frame [OF inv]) (use kernel_invD(9) [OF inv] in \<open>auto simp: f\<close>)

text \<open>A block that is not in the table may change at will, if it does not become BLOCKED.\<close>

lemma kernel_inv_out:
  assumes inv: "kernel_inv k tbl rq" and a: "a \<notin> set tbl" "state (f (pcbs k a)) \<noteq> STATE_BLOCKED"
  shows "kernel_inv (upd_pcb a f k) tbl rq"
  by (rule kernel_inv_frame [OF inv]) (use a kernel_invD(9) [OF inv] in auto)

lemma kernel_inv_regs:
  "kernel_inv (k\<lparr>esp := a\<rparr>) tbl rq = kernel_inv k tbl rq" "kernel_inv (k\<lparr>ebp := b\<rparr>) tbl rq = kernel_inv k tbl rq"
  "kernel_inv (k\<lparr>next_pid := n\<rparr>) tbl rq = kernel_inv k tbl rq"
  "kernel_inv (k\<lparr>eip := b\<rparr>) tbl rq = kernel_inv k tbl rq" "kernel_inv (k\<lparr>eax := b\<rparr>) tbl rq = kernel_inv k tbl rq"
  by (simp_all add: kernel_inv_def)

lemma write_word_inv: "kernel_inv k tbl rq \<Longrightarrow> write_word a w k = Some k' \<Longrightarrow> kernel_inv k' tbl rq"
  using write_word_frame(1) [of a w k k'] kernel_inv_arena
    [of k tbl rq "(arena k)\<lparr>kernel_memory := store32 a w (kernel_memory (arena k))\<rparr>"] by simp

text \<open>\<open>enter\<close> pushes two words and sets the frame pointer.\<close>

lemma enter_frame:
  assumes "enter ret k = Some k'"
  shows "8 \<le> esp k" "esp k \<le> KERNEL_MEMORY_SIZE" "esp k' = esp k - 8" "ebp k' = of_nat (esp k - 8)"
    "pcbs k' = pcbs k" "current_process k' = current_process k" "ready_queue k' = ready_queue k"
    "process_table_head k' = process_table_head k" "next_pid k' = next_pid k"
    "page_table (arena k') = page_table (arena k)" "last_page_index (arena k') = last_page_index (arena k)"
    "kernel_memory (arena k') = store32 (esp k - 8) (ebp k) (store32 (esp k - 4) ret (kernel_memory (arena k)))"
  using assms by (auto simp: enter_def push_def write_word_def bind_eq_Some_conv split: if_splits)

lemma enter_inv:
  assumes "kernel_inv k tbl rq" "enter ret k = Some k'"
  shows "kernel_inv k' tbl rq"
  by (rule kernel_inv_frame [OF assms(1)])
    (use enter_frame [OF assms(2)] kernel_invD(9) [OF assms(1)] in \<open>auto simp: pcb_block_def\<close>)

lemma allocate_kernel_stack_fields:
  "\<exists>m b. kmalloc 4096 (arena k) = (m, b) \<and> arena (allocate_kernel_stack p k) = m
    \<and> pcbs (allocate_kernel_stack p k) = set_pcb p (\<lambda>x. x\<lparr>kernel_stack_base := b,
        kernel_stack_ptr := map_option (\<lambda>a. a + STACK_SIZE) b\<rparr>) (pcbs k)"
  "current_process (allocate_kernel_stack p k) = current_process k"
  "ready_queue (allocate_kernel_stack p k) = ready_queue k"
  "process_table_head (allocate_kernel_stack p k) = process_table_head k"
  "next_pid (allocate_kernel_stack p k) = next_pid k" "esp (allocate_kernel_stack p k) = esp k"
  "ebp (allocate_kernel_stack p k) = ebp k" "eip (allocate_kernel_stack p k) = eip k"
  "eax (allocate_kernel_stack p k) = eax k"
  by (auto simp: allocate_kernel_stack_def upd_pcb_def split: prod.split)

lemma allocate_kernel_stack_inv:
  assumes "kernel_inv k tbl rq"
  shows "kernel_inv (allocate_kernel_stack p k) tbl rq"
proof -
  obtain m b where m: "kmalloc 4096 (arena k) = (m, b)" by fastforce
  then have "kernel_inv (k\<lparr>arena := m\<rparr>) tbl rq" using kernel_inv_arena [OF assms] by blast
  from kernel_inv_upd [OF this] show ?thesis by (simp add: allocate_kernel_stack_def m)
qed

lemma allocate_kernel_stack_blocks:
  "pcb_block (arena k) a \<Longrightarrow> pcb_block (arena (allocate_kernel_stack p k)) a"
  using allocate_kernel_stack_fields(1) [of k p] kmalloc_keeps_blocks by metis

subsection \<open>Creating a process\<close>

text \<open>What a successful creation leaves: the new block, its fields and its initial stack.\<close>

definition fresh_process :: "addr \<Rightarrow> u32 \<Rightarrow> u32 \<Rightarrow> int \<Rightarrow> int \<Rightarrow> int \<Rightarrow> kernel \<Rightarrow> bool" where
  "fresh_process p pd entry_point prio dl ttr k \<longleftrightarrow>
     (let b = pcbs k p in
      pid b = pd \<and> state b = STATE_READY \<and> priority b = prio \<and> deadline b = dl \<and> time_to_run b = ttr
    \<and> user_stack_ptr b = user_stack_base b + 4088 \<and> user_stack_ptr b + 8 \<le> KERNEL_MEMORY_SIZE
    \<and> load32 (user_stack_ptr b) (kernel_memory (arena k)) = 0
    \<and> load32 (user_stack_ptr b + 4) (kernel_memory (arena k)) = entry_point)"

lemma create_process_Some:
  assumes inv: "kernel_inv k tbl rq"
    and run: "create_process pd entry_point prio dl ttr k = Some (Some p, k')"
  shows "p \<notin> set tbl" "kernel_inv k' (p # tbl) (place (\<lambda>a. priority (pcbs k' a)) p rq)"
    "fresh_process p pd entry_point prio dl ttr k'" "current_process k' = current_process k"
    "a \<noteq> p \<Longrightarrow> (pcbs k' a)\<lparr>next_ready := None\<rparr> = (pcbs k a)\<lparr>next_ready := None\<rparr>"
proof -
  from run obtain m1 m2 base k2 k3 where
    m1: "kmalloc sizeof_PCB (arena k) = (m1, Some p)" and m2: "kmalloc 4096 m1 = (m2, Some base)"
    and k2: "write_word (4092 + base) entry_point (upd_pcb p (\<lambda>x. x\<lparr>pid := pd, state := STATE_NEW, priority := prio, deadline := dl,
                          time_to_run := ttr, user_stack_base := base\<rparr>) (k\<lparr>arena := m2\<rparr>)) = Some k2"
    and k3: "write_word (4088 + base) 0 k2 = Some k3"
    and rest: "(do {
               let k4 = upd_pcb p (\<lambda>x. x\<lparr>user_stack_ptr := 4088 + base, cr3 := 0, next_ready := None\<rparr>) k3;
               let k5 = allocate_kernel_stack p k4;
               let k6 = upd_pcb p (next_in_table_update (\<lambda>_. process_table_head k5)) k5;
               let k7 = k6\<lparr>process_table_head := Some p\<rparr>;
               k8 \<leftarrow> enqueue_ready p (upd_pcb p (state_update (\<lambda>_. STATE_READY)) k7);
               Some (Some p, k8)
             }) = Some (Some p, k')"
    by (auto simp: create_process_def Let_def bind_eq_Some_conv split: prod.splits option.splits)
  define k1 where "k1 = upd_pcb p (\<lambda>x. x\<lparr>pid := pd, state := STATE_NEW, priority := prio, deadline := dl,
                          time_to_run := ttr, user_stack_base := base\<rparr>) (k\<lparr>arena := m2\<rparr>)"
  define k4 where "k4 = upd_pcb p (\<lambda>x. x\<lparr>user_stack_ptr := 4088 + base, cr3 := 0, next_ready := None\<rparr>) k3"
  define k5 where "k5 = allocate_kernel_stack p k4"
  define k6 where "k6 = upd_pcb p (\<lambda>x. x\<lparr>next_in_table := process_table_head k5, state := STATE_READY\<rparr>) k5"
  note w2 = write_word_frame [OF k2 [folded k1_def]] and w3 = write_word_frame [OF k3]
  have p: "p \<notin> set tbl" using kmalloc_block(2) [OF m1] kernel_invD(6) [OF inv] by blast
  then show "p \<notin> set tbl" .
  have "kernel_inv (k\<lparr>arena := m1\<rparr>) tbl rq" using kernel_inv_arena [OF inv] m1 by blast
  from kernel_inv_arena [OF this, of m2 4096 "Some base"] m2 have "kernel_inv (k\<lparr>arena := m2\<rparr>) tbl rq" by simp
  from kernel_inv_out [OF this p] have "kernel_inv k1 tbl rq" by (simp add: k1_def)
  from write_word_inv [OF write_word_inv [OF this k2 [folded k1_def]] k3] have "kernel_inv k3 tbl rq" .
  moreover have st3: "state (pcbs k3 p) = STATE_NEW" by (simp add: w3 w2 k1_def)
  ultimately have "kernel_inv k4 tbl rq" unfolding k4_def by (intro kernel_inv_out [OF _ p]) simp_all
  from allocate_kernel_stack_inv [OF this] have "kernel_inv k5 tbl rq" by (simp add: k5_def)
  from kernel_inv_out [OF this p] have inv6: "kernel_inv k6 tbl rq" by (simp add: k6_def)
  have blk: "pcb_block (arena k6) p"
  proof -
    have "pcb_block m2 p" using kmalloc_block(1) [OF m1] kmalloc_keeps_blocks [OF m2] by blast
    then have "pcb_block (arena k4) p" by (simp add: k4_def w3 w2 k1_def pcb_block_def)
    from allocate_kernel_stack_blocks [OF this] show ?thesis by (simp add: k6_def k5_def)
  qed
  have head: "next_in_table (pcbs k6 p) = process_table_head k6" "state (pcbs k6 p) = STATE_READY"
    by (simp_all add: k6_def)
  from add_ready [OF inv6 p blk head] obtain q h where
    e: "enqueue_ready p (k6\<lparr>process_table_head := Some p\<rparr>) = Some (k6\<lparr>process_table_head := Some p, ready_queue := q, pcbs := h\<rparr>)"
    and i: "kernel_inv (k6\<lparr>process_table_head := Some p, ready_queue := q, pcbs := h\<rparr>) (p # tbl) (place (\<lambda>a. priority (pcbs k6 a)) p rq)"
    and s: "same_but_next (insert p (set rq)) (pcbs k6) h" by blast
  have eq: "upd_pcb p (state_update (\<lambda>_. STATE_READY))
      ((upd_pcb p (next_in_table_update (\<lambda>_. process_table_head k5)) k5)\<lparr>process_table_head := Some p\<rparr>)
      = k6\<lparr>process_table_head := Some p\<rparr>"
    by (simp add: k6_def upd_pcb_def set_pcb_def)
  from rest have k': "k' = k6\<lparr>process_table_head := Some p, ready_queue := q, pcbs := h\<rparr>"
    by (simp add: Let_def k4_def [symmetric] k5_def [symmetric] eq e)
  note n = same_but_nextD [OF s]
  have "(\<lambda>a. priority (pcbs k6 a)) = (\<lambda>a. priority (pcbs k' a))" by (simp add: k' n)
  with i show "kernel_inv k' (p # tbl) (place (\<lambda>a. priority (pcbs k' a)) p rq)" by (simp add: k')
  obtain m5 b where m5: "kmalloc 4096 (arena k4) = (m5, b)" "arena k5 = m5"
    "pcbs k5 = set_pcb p (\<lambda>x. x\<lparr>kernel_stack_base := b, kernel_stack_ptr := map_option (\<lambda>a. a + STACK_SIZE) b\<rparr>) (pcbs k4)"
    using allocate_kernel_stack_fields(1) [of k4 p] unfolding k5_def by blast
  show "current_process k' = current_process k"
    by (simp add: k' k6_def k5_def allocate_kernel_stack_fields k4_def w3 w2 k1_def)
  have other: "pcbs k6 a = pcbs k a" if "a \<noteq> p" for a
    using that by (simp add: k6_def m5(3) set_pcb_def k4_def w3 w2 k1_def)
  show "(pcbs k' a)\<lparr>next_ready := None\<rparr> = (pcbs k a)\<lparr>next_ready := None\<rparr>" if "a \<noteq> p"
    using s other [OF that] by (simp add: same_but_next_def k')
  have k6p: "pcbs k6 p = (pcbs k p)\<lparr>pid := pd, state := STATE_READY, priority := prio, deadline := dl,
      time_to_run := ttr, user_stack_base := base, user_stack_ptr := 4088 + base, cr3 := 0, next_ready := None,
      kernel_stack_base := b, kernel_stack_ptr := map_option (\<lambda>a. a + STACK_SIZE) b, next_in_table := process_table_head k5\<rparr>"
    by (simp add: k6_def m5(3) set_pcb_def k4_def w3 w2 k1_def)
  have hp: "h p = (pcbs k6 p)\<lparr>next_ready := next_ready (h p)\<rparr>"
    using s unfolding same_but_next_def by (metis PCB.surjective PCB.update_convs(8))
  have bound: "base + 4096 \<le> KERNEL_MEMORY_SIZE" using w2(2) by simp
  from kmalloc_stack [OF m2 bound] obtain t where t: "base = t * PAGE_SIZE + sizeof_block"
    "page_table m2 (t + 1) \<noteq> 0" by metis
  have mem4: "kernel_memory (arena k4) = store32 (4088 + base) 0 (store32 (4092 + base) entry_point (kernel_memory m2))"
    "page_table (arena k4) = page_table m2"
    by (simp_all add: k4_def w3 w2 k1_def)
  have keep: "load32 a (kernel_memory (arena k')) = load32 a (kernel_memory (arena k4))"
    if "a = 4088 + base \<or> a = 4092 + base" for a
  proof -
    have "load32 a (kernel_memory m5) = load32 a (kernel_memory (arena k4))"
      by (rule kmalloc_keeps_word [OF m5(1), of "t + 1"]) (use that t mem4(2) in \<open>auto simp: sizeof_block_def\<close>)
    then show ?thesis by (simp add: k' k6_def m5(2))
  qed
  have "load32 (4088 + base) (kernel_memory (arena k')) = 0" using keep [of "4088 + base"] by (simp add: mem4 byte_simps)
  moreover have "load32 (4092 + base) (kernel_memory (arena k')) = entry_point"
    using keep [of "4092 + base"] by (simp add: mem4 byte_simps)
  moreover have "pcbs k' p = (pcbs k6 p)\<lparr>next_ready := next_ready (h p)\<rparr>" using hp by (simp add: k')
  ultimately show "fresh_process p pd entry_point prio dl ttr k'"
    using bound by (simp add: fresh_process_def Let_def k6p add.assoc)
qed

lemma create_process_None:
  assumes inv: "kernel_inv k tbl rq" and run: "create_process pd entry_point prio dl ttr k = Some (None, k')"
  shows "kernel_inv k' tbl rq" "pcbs k' = pcbs k" "current_process k' = current_process k"
proof -
  from run obtain m where k': "k' = k\<lparr>arena := m\<rparr>"
    and m: "kmalloc sizeof_PCB (arena k) = (m, None) \<or> (\<exists>m1 p. kmalloc sizeof_PCB (arena k) = (m1, Some p) \<and> kmalloc 4096 m1 = (m, None))"
    by (auto simp: create_process_def Let_def bind_eq_Some_conv split: prod.splits option.splits)
  from m have "kernel_inv (k\<lparr>arena := m\<rparr>) tbl rq"
  proof
    assume "\<exists>m1 p. kmalloc sizeof_PCB (arena k) = (m1, Some p) \<and> kmalloc 4096 m1 = (m, None)"
    then obtain m1 p where *: "kmalloc sizeof_PCB (arena k) = (m1, Some p)" "kmalloc 4096 m1 = (m, None)" by blast
    have "kernel_inv (k\<lparr>arena := m1\<rparr>) tbl rq" using kernel_inv_arena [OF inv] *(1) by blast
    from kernel_inv_arena [OF this, of m 4096 None] *(2) show ?thesis by simp
  qed (use kernel_inv_arena [OF inv] in blast)
  with k' show "kernel_inv k' tbl rq" "pcbs k' = pcbs k" "current_process k' = current_process k" by simp_all
qed

end
