(* ===== verification/KernelFork.thy ===== *)
theory KernelFork
  imports KernelCalls
begin

text \<open>\<open>fork_syscall\<close>: the child, its copy of the stack, and the invariant.\<close>

lemma copy_memory_table: "copy_memory d s n m = Some m' \<Longrightarrow> page_table m' = page_table m"
  by (auto simp: copy_memory_def split: if_splits)

text \<open>How a call of \<open>fork_syscall\<close> by a process can go.\<close>

lemma fork_cases:
  assumes run: "fork_syscall ret k0 = Some (r, k')" and cur: "current_process k0 = Some par"
  obtains (no_pcb) k k1 m1 where "enter ret k0 = Some k" "k1 = upd_pcb par (user_stack_ptr_update (\<lambda>_. unat (ebp k))) k"
      "kmalloc sizeof_PCB (arena k) = (m1, None)" "r = -1" "k' = k1\<lparr>arena := m1\<rparr>"
  | (no_stack) k k1 m1 child k3 m2 where "enter ret k0 = Some k" "k1 = upd_pcb par (user_stack_ptr_update (\<lambda>_. unat (ebp k))) k"
      "kmalloc sizeof_PCB (arena k) = (m1, Some child)"
      "k3 = upd_pcb child (\<lambda>x. x\<lparr>pid := next_pid k, parent := Some par, priority := priority (pcbs k1 par)\<rparr>)
         (k1\<lparr>arena := m1, next_pid := next_pid k + 1\<rparr>)"
      "kmalloc 4096 m1 = (m2, None)" "r = -1" "k' = k3\<lparr>arena := m2\<rparr>"
  | (blocks) k k1 m1 child k3 m2 base where "enter ret k0 = Some k" "k1 = upd_pcb par (user_stack_ptr_update (\<lambda>_. unat (ebp k))) k"
      "kmalloc sizeof_PCB (arena k) = (m1, Some child)"
      "k3 = upd_pcb child (\<lambda>x. x\<lparr>pid := next_pid k, parent := Some par, priority := priority (pcbs k1 par)\<rparr>)
         (k1\<lparr>arena := m1, next_pid := next_pid k + 1\<rparr>)"
      "kmalloc 4096 m1 = (m2, Some base)" "fork_child par child base (k3\<lparr>arena := m2\<rparr>) = Some (r, k')"
proof -
  from run obtain k where k: "enter ret k0 = Some k" by (auto simp: fork_syscall_def bind_eq_Some_conv)
  have cur': "current_process k = Some par" using enter_frame(6) [OF k] cur by simp
  define k1 where "k1 = upd_pcb par (user_stack_ptr_update (\<lambda>_. unat (ebp k))) k"
  have k1f: "arena k1 = arena k" "next_pid k1 = next_pid k" by (simp_all add: k1_def)
  obtain m1 c where m1: "kmalloc sizeof_PCB (arena k) = (m1, c)" by fastforce
  show ?thesis
  proof (cases c)
    case None
    have "r = -1 \<and> k' = k1\<lparr>arena := m1\<rparr>"
      using run by (simp add: fork_syscall_def k cur' Let_def k1_def [symmetric] k1f m1 None)
    with no_pcb [OF k k1_def] m1 None show ?thesis by blast
  next
    case (Some child)
    define k3 where "k3 = upd_pcb child (\<lambda>x. x\<lparr>pid := next_pid k, parent := Some par, priority := priority (pcbs k1 par)\<rparr>)
         (k1\<lparr>arena := m1, next_pid := next_pid k + 1\<rparr>)"
    have k3a: "arena k3 = m1" by (simp add: k3_def)
    obtain m2 b where m2: "kmalloc 4096 m1 = (m2, b)" by fastforce
    have run3: "(case b of None \<Rightarrow> Some (-1, k3\<lparr>arena := m2\<rparr>)
        | Some base \<Rightarrow> fork_child par child base (k3\<lparr>arena := m2\<rparr>)) = Some (r, k')"
    proof -
      have g: "get_new_pid (k1\<lparr>arena := m1\<rparr>) = (next_pid k, k1\<lparr>arena := m1, next_pid := next_pid k + 1\<rparr>)"
        by (simp add: get_new_pid_def k1f)
      have pk: "pcbs (k1\<lparr>arena := m1, next_pid := next_pid k + 1\<rparr>) = pcbs k1" by simp
      have a1: "arena k1 = arena k" by (rule k1f)
      have "(case kmalloc 4096 (arena k3) of
               (m2, None) \<Rightarrow> Some (-1, k3\<lparr>arena := m2\<rparr>)
             | (m2, Some base) \<Rightarrow> fork_child par child base (k3\<lparr>arena := m2\<rparr>)) = Some (r, k')"
        using run unfolding fork_syscall_def k bind.bind_lunit cur' option.case Let_def k1_def [symmetric]
          a1 m1 Some split g pk k3_def [symmetric] .
      then show ?thesis unfolding k3a m2 split .
    qed
    show ?thesis
    proof (cases b)
      case None
      with run3 have "r = -1" "k' = k3\<lparr>arena := m2\<rparr>" by simp_all
      with no_stack [OF k k1_def m1 [unfolded Some] k3_def] m2 None show ?thesis by blast
    next
      case (Some base)
      with run3 have "fork_child par child base (k3\<lparr>arena := m2\<rparr>) = Some (r, k')" by simp
      with blocks [OF k k1_def m1 [unfolded \<open>c = Some child\<close>] k3_def] m2 Some show ?thesis by blast
    qed
  qed
qed

text \<open>What a successful \<open>fork_child\<close> has done to the child's block.\<close>

lemma fork_child_cases:
  assumes inv: "kernel_inv k tbl rq" and c: "child \<notin> set tbl" "pcb_block (arena k) child"
    and run: "fork_child par child base k = Some (r, k')"
  obtains (failed) "kernel_inv k' tbl rq" "r = -1" "cr3 (pcbs k par) \<noteq> 0" "current_process k' = current_process k"
      "\<And>a. state (pcbs k' a) = state (pcbs k a)"
  | (forked) m b off where "kernel_inv k' (child # tbl) (place (\<lambda>a. priority (pcbs k' a)) child rq)"
      "r = sint (pid (pcbs k child))" "current_process k' = current_process k" "next_pid k' = next_pid k"
      "eax k' = eax k" "ebp k' = ebp k" "esp k' = esp k"
      "off = (of_nat (user_stack_ptr (pcbs k par)) - of_nat (user_stack_base (pcbs k par)) :: u32)"
      "user_stack_ptr (pcbs k' child) = unat (of_nat base + off)" "state (pcbs k' child) = STATE_READY"
      "is_new_child (pcbs k' child)" "pid (pcbs k' child) = pid (pcbs k child)" "parent (pcbs k' child) = parent (pcbs k child)"
      "priority (pcbs k' child) = priority (pcbs k child)" "user_stack_base (pcbs k' child) = user_stack_base (pcbs k child)"
      "\<And>a. a \<noteq> child \<Longrightarrow> (pcbs k' a)\<lparr>next_ready := None\<rparr> = (pcbs k a)\<lparr>next_ready := None\<rparr>"
      "copy_memory base (user_stack_base (pcbs k par)) 4096 (arena k) = Some m"
      "cr3 (pcbs k par) = 0 \<Longrightarrow> kmalloc 4096 m = (arena k', b)"
proof -
  define off where "off = (of_nat (user_stack_ptr (pcbs k par)) - of_nat (user_stack_base (pcbs k par)) :: u32)"
  from run obtain m where m: "copy_memory base (user_stack_base (pcbs k par)) 4096 (arena k) = Some m"
    by (auto simp: fork_child_def Let_def bind_eq_Some_conv)
  define k1 where "k1 = upd_pcb child (user_stack_ptr_update (\<lambda>_. unat (of_nat base + off))) (k\<lparr>arena := m\<rparr>)"
  define pc where "pc = cr3 (pcbs k1 par)"
  obtain m2 cc where m2: "(if pc \<noteq> 0 then kmalloc 4096 (arena k1) else (arena k1, None)) = (m2, cc)" by fastforce
  define k2 where "k2 = k1\<lparr>arena := m2\<rparr>"
  have run2: "(if pc \<noteq> 0 \<and> cc = None
     then Some (-1, upd_pcb child (cr3_update (\<lambda>_. 0)) k2)
     else do {
       k3 \<leftarrow> (case cc of
                None \<Rightarrow> Some k2
              | Some a \<Rightarrow> do {
                  m3 \<leftarrow> copy_page_tables (unat pc) a m2;
                  Some (upd_pcb child (cr3_update (\<lambda>_. of_nat a)) (k2\<lparr>arena := m3\<rparr>))
                });
       let k4 = allocate_kernel_stack child k3;
       let k5 = upd_pcb child (\<lambda>x. x\<lparr>state := STATE_READY, is_new_child := True,
                  next_in_table := process_table_head k4\<rparr>) k4;
       k6 \<leftarrow> enqueue_ready child (k5\<lparr>process_table_head := Some child\<rparr>);
       Some (sint (pid (pcbs k6 child)), k6)
     }) = Some (r, k')"
    using run unfolding fork_child_def Let_def off_def [symmetric] m bind.bind_lunit k1_def [symmetric]
      pc_def [symmetric] m2 split k2_def [symmetric] .
  have pt: "page_table m = page_table (arena k)" by (rule copy_memory_table [OF m])
  have "kernel_inv (k\<lparr>arena := m\<rparr>) tbl rq" using kernel_inv_arena [OF inv] pt by blast
  from kernel_inv_upd [OF this] have inv1: "kernel_inv k1 tbl rq" by (simp add: k1_def)
  have blk1: "pcb_block (arena k1) child" using c(2) pt by (simp add: k1_def pcb_block_def)
  have m2c: "m2 = arena k1 \<or> kmalloc 4096 (arena k1) = (m2, cc)" using m2 by (auto split: if_splits)
  then have "page_table m2 = page_table (arena k1) \<or> kmalloc 4096 (arena k1) = (m2, cc)" by auto
  from kernel_inv_arena [OF inv1 this] have inv2: "kernel_inv k2 tbl rq" by (simp add: k2_def)
  have blk2: "pcb_block (arena k2) child" using m2c blk1 kmalloc_keeps_blocks by (auto simp: k2_def)
  have cur2: "current_process k2 = current_process k" by (simp add: k2_def k1_def)
  show ?thesis
  proof (cases "pc \<noteq> 0 \<and> cc = None")
    case True
    then have "r = -1" "k' = upd_pcb child (cr3_update (\<lambda>_. 0)) k2" using run2 by auto
    moreover have "kernel_inv (upd_pcb child (cr3_update (\<lambda>_. 0)) k2) tbl rq" by (rule kernel_inv_upd [OF inv2]) simp
    moreover have "cr3 (pcbs k par) = pc" by (simp add: pc_def k1_def)
    moreover have "\<And>a. state (pcbs k' a) = state (pcbs k a)" by (simp add: \<open>k' = _\<close> k2_def k1_def)
    ultimately show ?thesis using failed True cur2 by simp
  next
    case False
    from run2 obtain k3 where k3: "(case cc of None \<Rightarrow> Some k2
              | Some a \<Rightarrow> do {
                  m3 \<leftarrow> copy_page_tables (unat pc) a m2;
                  Some (upd_pcb child (cr3_update (\<lambda>_. of_nat a)) (k2\<lparr>arena := m3\<rparr>))
                }) = Some k3"
      unfolding if_not_P [OF False] by (auto simp: bind_eq_Some_conv)
    define k4 where "k4 = allocate_kernel_stack child k3"
    define k5 where "k5 = upd_pcb child (\<lambda>x. x\<lparr>state := STATE_READY, is_new_child := True,
                  next_in_table := process_table_head k4\<rparr>) k4"
    obtain k6 where k6: "enqueue_ready child (k5\<lparr>process_table_head := Some child\<rparr>) = Some k6"
      and rk: "r = sint (pid (pcbs k6 child))" "k' = k6"
      using run2 unfolding if_not_P [OF False] k3 bind.bind_lunit Let_def k4_def [symmetric] k5_def [symmetric]
      by (auto simp: bind_eq_Some_conv)
    have k3f: "kernel_inv k3 tbl rq \<and> pcb_block (arena k3) child \<and>
        (\<exists>a w. k3 = k2\<lparr>arena := a, pcbs := set_pcb child (cr3_update (\<lambda>x. w x)) (pcbs k2)\<rparr>)"
    proof (cases cc)
      case None
      then have "k3 = k2" using k3 by simp
      moreover have "k2 = k2\<lparr>arena := arena k2, pcbs := set_pcb child (cr3_update (\<lambda>x. x)) (pcbs k2)\<rparr>"
      proof -
        have "cr3_update (\<lambda>x. x) (pcbs k2 child) = pcbs k2 child" by (intro PCB.equality) simp_all
        then have "set_pcb child (cr3_update (\<lambda>x. x)) (pcbs k2) = pcbs k2" unfolding set_pcb_def by (simp only: fun_upd_triv)
        then show ?thesis by (intro kernel.equality) simp_all
      qed
      ultimately show ?thesis using inv2 blk2 by metis
    next
      case (Some a)
      then obtain m3 where m3: "copy_page_tables (unat pc) a m2 = Some m3"
        and k3e: "k3 = upd_pcb child (cr3_update (\<lambda>_. of_nat a)) (k2\<lparr>arena := m3\<rparr>)"
        using k3 by (auto simp: bind_eq_Some_conv)
      have pt3: "page_table m3 = page_table (arena k2)"
        using copy_memory_table m3 by (auto simp: copy_page_tables_def k2_def)
      then have "kernel_inv (k2\<lparr>arena := m3\<rparr>) tbl rq" using kernel_inv_arena [OF inv2] by blast
      from kernel_inv_upd [OF this] have "kernel_inv k3 tbl rq" by (simp add: k3e)
      moreover have "pcb_block (arena k3) child" using blk2 pt3 by (simp add: k3e pcb_block_def)
      moreover have "k3 = k2\<lparr>arena := m3, pcbs := set_pcb child (cr3_update (\<lambda>x. of_nat a)) (pcbs k2)\<rparr>"
        by (simp add: k3e upd_pcb_def)
      ultimately show ?thesis by blast
    qed
    then obtain a3 w where inv3: "kernel_inv k3 tbl rq" and blk3: "pcb_block (arena k3) child"
      and k3e: "k3 = k2\<lparr>arena := a3, pcbs := set_pcb child (cr3_update (\<lambda>x. w x)) (pcbs k2)\<rparr>" by blast
    have inv4: "kernel_inv k4 tbl rq" unfolding k4_def by (rule allocate_kernel_stack_inv [OF inv3])
    have blk4: "pcb_block (arena k5) child" unfolding k5_def k4_def
      using allocate_kernel_stack_blocks [OF blk3] by simp
    from kernel_inv_out [OF inv4 c(1)] have inv5: "kernel_inv k5 tbl rq" by (simp add: k5_def)
    have f5: "next_in_table (pcbs k5 child) = process_table_head k5" "state (pcbs k5 child) = STATE_READY"
      by (simp_all add: k5_def)
    from add_ready [OF inv5 c(1) blk4 f5] obtain q h where
      e: "enqueue_ready child (k5\<lparr>process_table_head := Some child\<rparr>) = Some (k5\<lparr>process_table_head := Some child, ready_queue := q, pcbs := h\<rparr>)"
      and i: "kernel_inv (k5\<lparr>process_table_head := Some child, ready_queue := q, pcbs := h\<rparr>) (child # tbl) (place (\<lambda>a. priority (pcbs k5 a)) child rq)"
      and s: "same_but_next (insert child (set rq)) (pcbs k5) h" by blast
    have k'e: "k' = k5\<lparr>process_table_head := Some child, ready_queue := q, pcbs := h\<rparr>" using k6 e rk by simp
    note n = same_but_nextD [OF s]
    obtain b where b: "kmalloc 4096 (arena k3) = (arena k4, b)"
      "pcbs k4 = set_pcb child (\<lambda>x. x\<lparr>kernel_stack_base := b, kernel_stack_ptr := map_option (\<lambda>a. a + STACK_SIZE) b\<rparr>) (pcbs k3)"
      using allocate_kernel_stack_fields(1) [of k3 child] unfolding k4_def by blast
    have p5: "pcbs k5 a = (if a = child then (pcbs k child)\<lparr>user_stack_ptr := unat (of_nat base + off),
        cr3 := w (cr3 (pcbs k child)), kernel_stack_base := b, kernel_stack_ptr := map_option (\<lambda>a. a + STACK_SIZE) b,
        state := STATE_READY, is_new_child := True, next_in_table := process_table_head k4\<rparr> else pcbs k a)" for a
      by (simp add: k5_def b(2) k3e k2_def k1_def set_pcb_def)
    have regs: "eax k5 = eax k" "ebp k5 = ebp k" "esp k5 = esp k" "next_pid k5 = next_pid k" "current_process k5 = current_process k"
      by (simp_all add: k5_def k4_def allocate_kernel_stack_fields k3e k2_def k1_def)
    have pr: "(\<lambda>a. priority (pcbs k' a)) = (\<lambda>a. priority (pcbs k5 a))" by (simp add: k'e n)
    have ar: "kmalloc 4096 m = (arena k', b)" if "pc = 0"
    proof -
      have "m2 = arena k1" "cc = None" using m2 that by auto
      then have "k3 = k2" using k3 by simp
      moreover have "arena k2 = m" using \<open>m2 = arena k1\<close> by (simp add: k2_def k1_def)
      moreover note calculation
      ultimately have "k3 = k2" "arena k2 = m" by blast+
      then show ?thesis using b(1) by (simp add: k'e k5_def)
    qed
    show ?thesis
    proof (rule forked)
      show "kernel_inv k' (child # tbl) (place (\<lambda>a. priority (pcbs k' a)) child rq)" using i unfolding pr by (simp add: k'e)
      show "r = sint (pid (pcbs k child))" by (simp add: rk(1) rk(2) [symmetric] k'e n p5)
      show "(pcbs k' a)\<lparr>next_ready := None\<rparr> = (pcbs k a)\<lparr>next_ready := None\<rparr>" if "a \<noteq> child" for a
        using s that by (simp add: same_but_next_def k'e p5)
      show "kmalloc 4096 m = (arena k', b)" if "cr3 (pcbs k par) = 0"
      proof -
        have "cr3 (pcbs k par) = pc" by (simp add: pc_def k1_def)
        with ar that show ?thesis by simp
      qed
    qed (simp_all add: k'e n p5 regs off_def m)
  qed
qed

text \<open>
  What a successful \<open>fork_syscall\<close> of \<open>par\<close> leaves behind, and how it has used the memory:
  \<open>k\<close> is the state after its prologue, \<open>base\<close> the stack of the child.
\<close>

definition forked :: "kernel \<Rightarrow> addr \<Rightarrow> addr \<Rightarrow> kernel \<Rightarrow> bool" where
  "forked k0 par child k' \<longleftrightarrow>
     pid (pcbs k' child) = next_pid k0 \<and> next_pid k' = next_pid k0 + 1 \<and> parent (pcbs k' child) = Some par
   \<and> priority (pcbs k' child) = priority (pcbs k0 par) \<and> state (pcbs k' child) = STATE_READY
   \<and> is_new_child (pcbs k' child) \<and> current_process k' = Some par \<and> eax k' = eax k0
   \<and> user_stack_base (pcbs k' child) = user_stack_base (pcbs k0 child)
   \<and> (\<forall>a. a \<noteq> child \<and> a \<noteq> par \<longrightarrow> (pcbs k' a)\<lparr>next_ready := None\<rparr> = (pcbs k0 a)\<lparr>next_ready := None\<rparr>)
   \<and> state (pcbs k' par) = state (pcbs k0 par) \<and> priority (pcbs k' par) = priority (pcbs k0 par)"

definition fork_memory :: "kernel \<Rightarrow> addr \<Rightarrow> kernel \<Rightarrow> addr \<Rightarrow> addr \<Rightarrow> kernel \<Rightarrow> bool" where
  "fork_memory k0 par k child base k' \<longleftrightarrow>
     (\<exists>m1 m2 m b. kmalloc sizeof_PCB (arena k) = (m1, Some child) \<and> kmalloc 4096 m1 = (m2, Some base)
        \<and> copy_memory base (user_stack_base (pcbs k0 par)) 4096 m2 = Some m
        \<and> user_stack_ptr (pcbs k' child) = unat (of_nat base + (ebp k - of_nat (user_stack_base (pcbs k0 par))))
        \<and> (cr3 (pcbs k0 par) = 0 \<longrightarrow> kmalloc 4096 m = (arena k', b)))"

lemma same_but_readyD:
  "x\<lparr>next_ready := None\<rparr> = y\<lparr>next_ready := None\<rparr> \<Longrightarrow>
    state x = state y \<and> priority x = priority y \<and> user_stack_base x = user_stack_base y \<and> parent x = parent y
    \<and> user_stack_ptr x = user_stack_ptr y \<and> pid x = pid y \<and> next_in_table x = next_in_table y"
  by (cases x; cases y) simp

lemma fork_outcome:
  assumes inv: "kernel_inv k0 tbl rq" and cur: "current_process k0 = Some par"
    and run: "fork_syscall ret k0 = Some (r, k')"
  shows "(r = -1 \<and> kernel_inv k' tbl rq \<and> current_process k' = Some par \<and> state (pcbs k' par) = state (pcbs k0 par)) \<or>
    (\<exists>k child base. enter ret k0 = Some k \<and> child \<notin> set tbl \<and> r = sint (pid (pcbs k' child))
       \<and> kernel_inv k' (child # tbl) (place (\<lambda>a. priority (pcbs k' a)) child rq)
       \<and> forked k0 par child k' \<and> fork_memory k0 par k child base k')"
  using run cur
proof (cases rule: fork_cases)
  case (no_pcb k k1 m1)
  have i1: "kernel_inv k1 tbl rq" unfolding no_pcb(2) by (rule kernel_inv_upd [OF enter_inv [OF inv no_pcb(1)]]) simp
  from kernel_inv_arena [OF i1, of m1 sizeof_PCB None] no_pcb show ?thesis
    using enter_frame(5,6) [OF no_pcb(1)] cur by auto
next
  case (no_stack k k1 m1 child k3 m2)
  have i1: "kernel_inv k1 tbl rq" unfolding no_stack(2) by (rule kernel_inv_upd [OF enter_inv [OF inv no_stack(1)]]) simp
  have ak: "arena k1 = arena k" by (simp add: no_stack(2))
  have c: "child \<notin> set tbl" using kmalloc_block(2) [OF no_stack(3)] kernel_invD(6) [OF i1] ak by auto
  from kernel_inv_arena [OF i1, of m1 sizeof_PCB "Some child"] no_stack(3) ak
  have "kernel_inv (k1\<lparr>arena := m1\<rparr>) tbl rq" by simp
  then have "kernel_inv (k1\<lparr>arena := m1, next_pid := next_pid k + 1\<rparr>) tbl rq" by (simp add: kernel_inv_regs)
  from kernel_inv_out [OF this c] have i3: "kernel_inv k3 tbl rq"
    using kernel_invD(9) [OF i1 c] by (simp add: no_stack(4))
  from kernel_inv_arena [OF i3, of m2 4096 None] no_stack show ?thesis
    using enter_frame(5,6) [OF no_stack(1)] cur kernel_invD(8) [OF inv cur] c by auto
next
  case (blocks k k1 m1 child k3 m2 base)
  have i1: "kernel_inv k1 tbl rq" unfolding blocks(2) by (rule kernel_inv_upd [OF enter_inv [OF inv blocks(1)]]) simp
  have ak: "arena k1 = arena k" by (simp add: blocks(2))
  have c: "child \<notin> set tbl" using kmalloc_block(2) [OF blocks(3)] kernel_invD(6) [OF i1] ak by auto
  have pc: "par \<noteq> child" using c kernel_invD(8) [OF inv cur] by auto
  from kernel_inv_arena [OF i1, of m1 sizeof_PCB "Some child"] blocks(3) ak
  have "kernel_inv (k1\<lparr>arena := m1\<rparr>) tbl rq" by simp
  then have "kernel_inv (k1\<lparr>arena := m1, next_pid := next_pid k + 1\<rparr>) tbl rq" by (simp add: kernel_inv_regs)
  from kernel_inv_out [OF this c] have i3: "kernel_inv k3 tbl rq"
    using kernel_invD(9) [OF i1 c] by (simp add: blocks(4))
  have a3: "arena k3 = m1" by (simp add: blocks(4))
  from kernel_inv_arena [OF i3, of m2 4096 "Some base"] blocks(5) a3
  have i3': "kernel_inv (k3\<lparr>arena := m2\<rparr>) tbl rq" by simp
  have blk: "pcb_block (arena (k3\<lparr>arena := m2\<rparr>)) child"
    using kmalloc_block(1) [OF blocks(3)] kmalloc_keeps_blocks [OF blocks(5)] by simp
  note e = enter_frame [OF blocks(1)]
  have cur3: "current_process (k3\<lparr>arena := m2\<rparr>) = Some par" using e(6) cur by (simp add: blocks(2,4))
  have par3: "pcbs k3 par = (pcbs k0 par)\<lparr>user_stack_ptr := unat (ebp k)\<rparr>"
    "\<And>a. a \<noteq> child \<Longrightarrow> a \<noteq> par \<Longrightarrow> pcbs k3 a = pcbs k0 a"
    "pcbs k3 child = (pcbs k0 child)\<lparr>pid := next_pid k0, parent := Some par, priority := priority (pcbs k0 par)\<rparr>"
    using pc e(5,9) by (simp_all add: blocks(2,4))
  from i3' c blk blocks(6) show ?thesis
  proof (cases rule: fork_child_cases)
    case failed
    then show ?thesis using cur3 par3(1) by simp
  next
    case (forked m b off)
    have "off = ebp k - of_nat (user_stack_base (pcbs k0 par))"
      using forked(8) par3(1) by simp
    then have "fork_memory k0 par k child base k'"
      unfolding fork_memory_def using blocks(3,5) forked(9,17,18) par3(1) by (auto simp: a3 ak)
    moreover have same: "(pcbs k' a)\<lparr>next_ready := None\<rparr> = (pcbs k3 a)\<lparr>next_ready := None\<rparr>" if "a \<noteq> child" for a
      using forked(16) [OF that] by simp
    have "KernelFork.forked k0 par child k'"
      unfolding forked_def
    proof (intro conjI allI impI)
      show "(pcbs k' a)\<lparr>next_ready := None\<rparr> = (pcbs k0 a)\<lparr>next_ready := None\<rparr>" if "a \<noteq> child \<and> a \<noteq> par" for a
        using same [of a] par3(2) [of a] that by simp
      show "state (pcbs k' par) = state (pcbs k0 par)" "priority (pcbs k' par) = priority (pcbs k0 par)"
        using same_but_readyD [OF same [OF pc]] par3(1) by simp_all
      show "next_pid k' = next_pid k0 + 1" using forked(4) e(9) by (simp add: blocks(2,4))
      show "eax k' = eax k0" using forked(5) blocks(1) by (auto simp: blocks(2,4) enter_def push_def write_word_def bind_eq_Some_conv split: if_splits)
    qed (use forked(3,10-15) cur3 par3 in simp_all)
    ultimately show ?thesis using blocks(1) c forked(1,2,12) by (intro disjI2) auto
  qed
qed

lemma fork_inv:
  assumes "kernel_inv k0 tbl rq" "current_process k0 = Some par" "fork_syscall ret k0 = Some (r, k')"
  shows "\<exists>tbl' rq'. kernel_inv k' tbl' rq'" "current_process k' = Some par"
  using fork_outcome [OF assms] by (auto simp: forked_def)

end
