(* ===== verification/KernelWait.thy ===== *)
theory KernelWait
  imports KernelFork
begin

text \<open>
  \<open>yield_syscall\<close>, \<open>exit_syscall\<close> and \<open>wait_syscall\<close>: the invariant, and which child a wait finds.
\<close>

subsection \<open>Yielding and leaving\<close>

lemma yield_inv:
  assumes inv: "kernel_inv k0 tbl rq" and run: "yield_syscall ret frame k0 = Some r"
  shows "(\<exists>k'. r = Switched k' \<and> (\<exists>rq'. kernel_inv k' tbl rq')) \<or> (\<exists>k'. r = Idle k' \<and> kernel_inv k' tbl [])
    \<or> (current_process k0 = None \<and> (\<exists>k'. r = Returned () k' \<and> kernel_inv k' tbl rq))"
proof -
  from run obtain k where k: "enter ret k0 = Some k" by (auto simp: yield_syscall_def bind_eq_Some_conv)
  note i = enter_inv [OF inv k]
  show ?thesis
  proof (cases "current_process k")
    case None
    with run k enter_frame(6) [OF k] i show ?thesis by (auto simp: yield_syscall_def)
  next
    case (Some p)
    let ?k1 = "upd_pcb p (user_stack_ptr_update (\<lambda>_. unat (ebp k))) k"
    from run Some k obtain sp where r: "schedule frame (?k1\<lparr>esp := sp\<rparr>) = Some r"
      by (auto simp: yield_syscall_def Let_def bind_eq_Some_conv)
    have "kernel_inv ?k1 tbl rq" by (rule kernel_inv_upd [OF i]) simp
    then have i2: "kernel_inv (?k1\<lparr>esp := sp\<rparr>) tbl rq" by (simp add: kernel_inv_regs)
    show ?thesis
    proof (cases r)
      case (Returned u k')
      with schedule_inv(3) [OF i2] r show ?thesis by blast
    next
      case (Switched k')
      with schedule_inv(1) [OF i2] r show ?thesis by blast
    next
      case (Idle k')
      with schedule_inv(2) [OF i2] r i2 show ?thesis by blast
    qed
  qed
qed

text \<open>A process of the table may leave the RUNNING state for one that is not READY.\<close>

lemma kernel_inv_stop:
  assumes inv: "kernel_inv k tbl rq" and p: "p \<in> set tbl" "state (pcbs k p) \<noteq> STATE_READY"
    and f: "\<And>x. next_in_table (f x) = next_in_table x \<and> next_ready (f x) = next_ready x \<and> priority (f x) = priority x"
    and s: "state (f (pcbs k p)) \<noteq> STATE_READY" "state (f (pcbs k p)) \<noteq> STATE_RUNNING"
  shows "kernel_inv (upd_pcb p f k) tbl rq"
proof (rule kernel_invI)
  note i = kernel_invD [OF inv]
  have sub: "p \<notin> set rq" using i(5) p by simp
  let ?k = "upd_pcb p f k"
  have "chain (\<lambda>a. next_in_table (pcbs ?k a)) (process_table_head k) tbl
      \<longleftrightarrow> chain (\<lambda>a. next_in_table (pcbs k a)) (process_table_head k) tbl"
    by (rule chain_cong) (simp add: f)
  with i(1) show "chain (\<lambda>a. next_in_table (pcbs ?k a)) (process_table_head ?k) tbl" by simp
  show "distinct tbl" by (rule i(2))
  show "queue_list (ready_queue ?k) (pcbs ?k) rq"
    using queue_list_cong [OF i(3), of "pcbs ?k"] by (simp add: f)
  have "map (\<lambda>a. priority (pcbs ?k a)) rq = map (\<lambda>a. priority (pcbs k a)) rq" by (simp add: f)
  show "sorted (map (\<lambda>a. priority (pcbs ?k a)) rq)" unfolding \<open>map _ rq = map _ rq\<close> by (rule i(4))
  show "set rq = {a \<in> set tbl. state (pcbs ?k a) = STATE_READY}" using i(5) p s by auto
  show "pcb_block (arena ?k) a" if "a \<in> set tbl" for a using i(6) that by simp
  show "current_process ?k = Some a" if "a \<in> set tbl" "state (pcbs ?k a) = STATE_RUNNING" for a
    using i(7) [of a] that s by (auto split: if_splits)
  show "c \<in> set tbl" if "current_process ?k = Some c" for c using i(8) that by simp
  show "state (pcbs ?k a) \<noteq> STATE_BLOCKED" if "a \<notin> set tbl" for a using i(9) [of a] that p(1) by auto
qed

lemma exit_inv:
  assumes inv: "kernel_inv k tbl rq" and cur: "current_process k = Some p" "state (pcbs k p) = STATE_RUNNING"
    and run: "exit_syscall st frame k = Some r"
  shows "(\<exists>k'. r = Switched k' \<and> (\<exists>rq'. kernel_inv k' tbl rq')) \<or> (\<exists>k'. r = Idle k' \<and> kernel_inv k' tbl [])"
proof -
  let ?k1 = "upd_pcb p (\<lambda>x. x\<lparr>exit_status := st, state := STATE_ZOMBIE\<rparr>) k"
  have p: "p \<in> set tbl" using kernel_invD(8) [OF inv cur(1)] .
  have i1: "kernel_inv ?k1 tbl rq" by (rule kernel_inv_stop [OF inv p]) (simp_all add: cur(2))
  from run cur(1) obtain k2 where
    k2: "(case parent (pcbs ?k1 p) of
                   None \<Rightarrow> Some ?k1
                 | Some q \<Rightarrow>
                     if state (pcbs ?k1 q) = STATE_BLOCKED
                     then enqueue_ready q (upd_pcb q (state_update (\<lambda>_. STATE_READY)) ?k1)
                     else Some ?k1) = Some k2" and r: "schedule frame k2 = Some r"
    by (auto simp: exit_syscall_def Let_def bind_eq_Some_conv)
  have "\<exists>rq2. kernel_inv k2 tbl rq2"
  proof (cases "\<exists>q. parent (pcbs ?k1 p) = Some q \<and> state (pcbs ?k1 q) = STATE_BLOCKED")
    case True
    then obtain q where q: "parent (pcbs ?k1 p) = Some q" "state (pcbs ?k1 q) = STATE_BLOCKED" by blast
    have qt: "q \<in> set tbl" using kernel_invD(9) [OF i1, of q] q(2) by blast
    have "state (pcbs ?k1 q) \<noteq> STATE_READY" using q(2) by simp
    from make_ready [OF i1 qt this] obtain qq h where
      "enqueue_ready q (upd_pcb q (state_update (\<lambda>_. STATE_READY)) ?k1) = Some (?k1\<lparr>ready_queue := qq, pcbs := h\<rparr>)"
      "kernel_inv (?k1\<lparr>ready_queue := qq, pcbs := h\<rparr>) tbl (place (\<lambda>a. priority (pcbs ?k1 a)) q rq)" by blast
    moreover have "enqueue_ready q (upd_pcb q (state_update (\<lambda>_. STATE_READY)) ?k1) = Some k2"
      using k2 unfolding q(1) option.case if_P [OF q(2)] .
    ultimately show ?thesis by auto
  next
    case False
    then have "k2 = ?k1" using k2 by (auto split: option.splits if_splits simp del: upd_pcb_fields(1))
    with i1 show ?thesis by blast
  qed
  then obtain rq2 where i2: "kernel_inv k2 tbl rq2" by blast
  show ?thesis
  proof (cases r)
    case (Returned u k')
    with schedule_inv(3) [OF i2] r show ?thesis by blast
  next
    case (Switched k')
    with schedule_inv(1) [OF i2] r show ?thesis by blast
  next
    case (Idle k')
    with schedule_inv(2) [OF i2] r i2 show ?thesis by blast
  qed
qed

subsection \<open>The search for a zombie child\<close>

definition zombie_child :: "pcb_heap \<Rightarrow> u32 \<Rightarrow> addr \<Rightarrow> bool" where
  "zombie_child h ppid a \<longleftrightarrow> state (h a) = STATE_ZOMBIE \<and> (\<exists>q. parent (h a) = Some q \<and> pid (h q) = ppid)"

definition passed :: "pcb_heap \<Rightarrow> u32 \<Rightarrow> addr \<Rightarrow> bool" where
  "passed h ppid a \<longleftrightarrow> parent (h a) \<noteq> None \<and> \<not> zombie_child h ppid a"

text \<open>The walk finds the first zombie child, unless it meets a process without parent before.\<close>

lemma zombie_walk_spec:
  assumes "chain (\<lambda>a. next_in_table (h a)) cur tbl"
  shows "zombie_walk h ppid prev cur =
    (case dropWhile (passed h ppid) tbl of
       [] \<Rightarrow> Some (if tbl = [] then prev else Some (last tbl), None)
     | c # bs \<Rightarrow>
         if parent (h c) = None then None
         else (let as = takeWhile (passed h ppid) tbl in
               Some (if as = [] then prev else Some (last as), Some c)))"
  using assms
proof (induction tbl arbitrary: prev cur)
  case Nil
  then show ?case by (simp add: zombie_walk.simps)
next
  case (Cons a tbl)
  then have cur: "cur = Some a" and ch: "chain (\<lambda>a. next_in_table (h a)) (next_in_table (h a)) tbl" by simp_all
  show ?case
  proof (cases "parent (h a)")
    case None
    then show ?thesis by (simp add: zombie_walk.simps [of h ppid prev "Some a"] cur passed_def)
  next
    case (Some q)
    show ?thesis
    proof (cases "pid (h q) = ppid \<and> state (h a) = STATE_ZOMBIE")
      case True
      then have "\<not> passed h ppid a" using Some by (simp add: passed_def zombie_child_def)
      with True show ?thesis using Some by (simp add: zombie_walk.simps [of h ppid prev "Some a"] cur)
    next
      case False
      then have p: "passed h ppid a" using Some by (auto simp: passed_def zombie_child_def)
      have "zombie_walk h ppid prev cur = zombie_walk h ppid (Some a) (next_in_table (h a))"
        using False Some by (auto simp: zombie_walk.simps [of h ppid prev "Some a"] cur)
      then show ?thesis unfolding Cons.IH [OF ch, of "Some a"] using p by (cases "dropWhile (passed h ppid) tbl") (simp_all add: Let_def del: dropWhile_eq_Nil_conv)
    qed
  qed
qed

lemma chain_unlink:
  "chain nx x (as @ c # bs) \<Longrightarrow> distinct (as @ c # bs) \<Longrightarrow> as \<noteq> [] \<Longrightarrow> chain (nx(last as := nx c)) x (as @ bs)"
proof (induction as arbitrary: x)
  case (Cons a as)
  show ?case
  proof (cases "as = []")
    case True
    with Cons.prems have "chain nx (nx c) bs" "x = Some a" "a \<notin> set bs" by auto
    moreover have "chain (nx(a := nx c)) (nx c) bs \<longleftrightarrow> chain nx (nx c) bs"
      by (rule chain_cong) (use \<open>a \<notin> set bs\<close> in auto)
    ultimately have "chain (nx(a := nx c)) (Some a) (a # bs)" by (simp only: chain.simps fun_upd_same)
    then show ?thesis using True \<open>x = Some a\<close> by (simp only: append_Cons append_Nil last.simps if_True refl)
  next
    case False
    then have "last as \<noteq> a" using Cons.prems(2) by (metis append_is_Nil_conv distinct.simps(2) last_in_set append_Cons Un_iff set_append)
    with Cons False show ?thesis by auto
  qed
qed simp

text \<open>Unlinking a zombie that is not current keeps the invariant.\<close>

lemma find_zombie_child_inv:
  assumes inv: "kernel_inv k tbl rq" and cur: "current_process k = Some par" "state (pcbs k par) \<noteq> STATE_ZOMBIE"
    and run: "find_zombie_child par k = Some (z, k')"
  shows "case z of
      None \<Rightarrow> k' = k \<and> (\<forall>a\<in>set tbl. \<not> zombie_child (pcbs k) (pid (pcbs k par)) a)
    | Some c \<Rightarrow> c \<in> set tbl \<and> zombie_child (pcbs k) (pid (pcbs k par)) c \<and> c \<noteq> par
        \<and> (\<exists>as bs. tbl = as @ c # bs \<and> kernel_inv k' (as @ bs) rq
             \<and> (\<forall>a\<in>set as. \<not> zombie_child (pcbs k) (pid (pcbs k par)) a))
        \<and> arena k' = arena k \<and> current_process k' = current_process k
        \<and> (\<forall>a. (pcbs k' a)\<lparr>next_in_table := None\<rparr> = (pcbs k a)\<lparr>next_in_table := None\<rparr>)"
proof -
  note i = kernel_invD [OF inv]
  let ?P = "passed (pcbs k) (pid (pcbs k par))"
  note w = zombie_walk_spec [OF i(1), of "pid (pcbs k par)" None]
  from run obtain pv z1 where zw1: "zombie_walk (pcbs k) (pid (pcbs k par)) None (process_table_head k) = Some (pv, z1)"
    and k1: "(case z1 of
       None \<Rightarrow> Some (None, k)
     | Some c \<Rightarrow>
         Some (Some c, case pv of
            None \<Rightarrow> k\<lparr>process_table_head := next_in_table (pcbs k c)\<rparr>
          | Some b \<Rightarrow> upd_pcb b (next_in_table_update (\<lambda>_. next_in_table (pcbs k c))) k)) = Some (z, k')"
    by (auto simp: find_zombie_child_def bind_eq_Some_conv simp del: upd_pcb_fields)
  from k1 have "z1 = z" by (auto split: option.splits)
  note zw = zw1 [unfolded this] and k' = k1 [unfolded this]
  show ?thesis
  proof (cases "dropWhile ?P tbl")
    case Nil
    then have "z = None" using w zw by (simp del: dropWhile_eq_Nil_conv split: if_splits)
    moreover have "\<forall>a\<in>set tbl. ?P a" using Nil dropWhile_eq_Nil_conv [of ?P tbl] by blast
    ultimately show ?thesis using k' by (auto simp: passed_def)
  next
    case (Cons c bs)
    define as where "as = takeWhile ?P tbl"
    have c: "\<not> ?P c" using Cons by (metis hd_dropWhile list.sel(1) list.distinct(1))
    have tbl: "tbl = as @ c # bs" unfolding as_def Cons [symmetric] by simp
    have zc: "z = Some c" "pv = (if as = [] then None else Some (last as))" "parent (pcbs k c) \<noteq> None"
      using w zw Cons by (auto simp: Let_def as_def split: if_splits)
    with c have zomb: "zombie_child (pcbs k) (pid (pcbs k par)) c" by (auto simp: passed_def)
    then have cz: "state (pcbs k c) = STATE_ZOMBIE" by (simp add: zombie_child_def)
    then have cp: "c \<noteq> par" using cur(2) by auto
    have asP: "\<forall>a\<in>set as. \<not> zombie_child (pcbs k) (pid (pcbs k par)) a"
      using set_takeWhileD [of _ ?P tbl] by (auto simp: as_def passed_def)
    have d: "distinct (as @ c # bs)" using i(2) tbl by simp
    have keq: "k' = (if as = [] then k\<lparr>process_table_head := next_in_table (pcbs k c)\<rparr>
        else upd_pcb (last as) (next_in_table_update (\<lambda>_. next_in_table (pcbs k c))) k)"
      using k' zc by auto
    have fld: "next_ready (pcbs k' a) = next_ready (pcbs k a)" "priority (pcbs k' a) = priority (pcbs k a)"
      "state (pcbs k' a) = state (pcbs k a)" for a by (simp_all add: keq)
    have "kernel_inv k' (as @ bs) rq"
    proof (rule kernel_invI)
      show "chain (\<lambda>a. next_in_table (pcbs k' a)) (process_table_head k') (as @ bs)"
      proof (cases "as = []")
        case True
        then show ?thesis using i(1) tbl by (simp add: keq)
      next
        case False
        have "(\<lambda>a. next_in_table (pcbs k' a)) = (\<lambda>a. next_in_table (pcbs k a))(last as := next_in_table (pcbs k c))"
          using False by (simp add: keq fun_eq_iff)
        with chain_unlink [OF i(1) [unfolded tbl] d False] False show ?thesis by (simp add: keq)
      qed
      show "distinct (as @ bs)" using d by auto
      show "queue_list (ready_queue k') (pcbs k') rq"
      proof -
        have "ready_queue k' = ready_queue k" by (simp add: keq)
        with queue_list_cong [OF i(3), of "pcbs k'"] fld show ?thesis by simp
      qed
      show "sorted (map (\<lambda>a. priority (pcbs k' a)) rq)" using i(4) by (simp add: fld)
      show "set rq = {a \<in> set (as @ bs). state (pcbs k' a) = STATE_READY}"
        using i(5) cz by (auto simp: tbl fld)
      show "pcb_block (arena k') a" if "a \<in> set (as @ bs)" for a using i(6) [of a] that by (auto simp: tbl keq)
      show "current_process k' = Some a" if "a \<in> set (as @ bs)" "state (pcbs k' a) = STATE_RUNNING" for a
      proof -
        have "current_process k' = current_process k" by (simp add: keq)
        with i(7) [of a] that show ?thesis by (auto simp: tbl fld(3))
      qed
      show "e \<in> set (as @ bs)" if "current_process k' = Some e" for e
        using i(8) [of e] that cur(1) cp by (auto simp: tbl keq split: if_splits)
      show "state (pcbs k' a) \<noteq> STATE_BLOCKED" if "a \<notin> set (as @ bs)" for a
        using i(9) [of a] that cz by (cases "a = c") (auto simp: tbl fld)
    qed
    moreover have "arena k' = arena k" "current_process k' = current_process k"
      "\<forall>a. (pcbs k' a)\<lparr>next_in_table := None\<rparr> = (pcbs k a)\<lparr>next_in_table := None\<rparr>" by (simp_all add: keq)
    ultimately show ?thesis using zc(1) zomb cp asP tbl by auto
  qed
qed

subsection \<open>Waiting\<close>

lemma reap_inv:
  assumes inv: "kernel_inv k tbl rq" and z: "pcb_block (arena k) z" "z \<notin> set tbl"
  shows "\<exists>m. kfree (Some z) (arena k) = Some m \<and> kernel_inv (k\<lparr>arena := m\<rparr>) tbl rq
    \<and> reap want z k = Some (Returned (sint (pid (pcbs k z)), if want then Some (exit_status (pcbs k z)) else None)
        (k\<lparr>arena := m\<rparr>))"
proof -
  from kfree_keeps_blocks [OF z(1)] obtain m where
    m: "kfree (Some z) (arena k) = Some m" "\<forall>b. pcb_block (arena k) b \<and> b \<noteq> z \<longrightarrow> pcb_block m b" by blast
  note i = kernel_invD [OF inv]
  have "kernel_inv (k\<lparr>arena := m\<rparr>) tbl rq"
  proof (rule kernel_invI)
    show "pcb_block (arena (k\<lparr>arena := m\<rparr>)) a" if "a \<in> set tbl" for a
      using i(6) [OF that] m(2) z(2) that by auto
    show "current_process (k\<lparr>arena := m\<rparr>) = Some a"
      if "a \<in> set tbl" "state (pcbs (k\<lparr>arena := m\<rparr>) a) = STATE_RUNNING" for a using i(7) [of a] that by simp
    show "c \<in> set tbl" if "current_process (k\<lparr>arena := m\<rparr>) = Some c" for c using i(8) [of c] that by simp
    show "state (pcbs (k\<lparr>arena := m\<rparr>) a) \<noteq> STATE_BLOCKED" if "a \<notin> set tbl" for a using i(9) [of a] that by simp
  qed (use i(1-4) in simp_all, use i(5) in simp)
  with m(1) show ?thesis by (simp add: reap_def)
qed

text \<open>
  What a search for a zombie child by \<open>par\<close> comes to: none is found, or the first one of the
  table is unlinked and freed, and the rest of the table stays.
\<close>

definition no_zombie :: "kernel \<Rightarrow> addr list \<Rightarrow> addr \<Rightarrow> bool" where
  "no_zombie k tbl par \<longleftrightarrow> (\<forall>a\<in>set tbl. \<not> zombie_child (pcbs k) (pid (pcbs k par)) a)"

definition first_zombie :: "kernel \<Rightarrow> addr list \<Rightarrow> addr \<Rightarrow> addr \<Rightarrow> addr list \<Rightarrow> bool" where
  "first_zombie k tbl par c rest \<longleftrightarrow>
     (\<exists>as bs. tbl = as @ c # bs \<and> rest = as @ bs \<and> no_zombie k as par
       \<and> zombie_child (pcbs k) (pid (pcbs k par)) c)"

definition reaped :: "bool \<Rightarrow> kernel \<Rightarrow> addr \<Rightarrow> (int \<times> int option) \<Rightarrow> kernel \<Rightarrow> bool" where
  "reaped want k c v k' \<longleftrightarrow>
     v = (sint (pid (pcbs k c)), if want then Some (exit_status (pcbs k c)) else None)
   \<and> kfree (Some c) (arena k) = Some (arena k') \<and> current_process k' = current_process k
   \<and> (\<forall>a. (pcbs k' a)\<lparr>next_in_table := None\<rparr> = (pcbs k a)\<lparr>next_in_table := None\<rparr>)"

lemma same_but_tableD:
  "x\<lparr>next_in_table := None\<rparr> = y\<lparr>next_in_table := None\<rparr>
    \<Longrightarrow> pid x = pid y \<and> exit_status x = exit_status y \<and> state x = state y \<and> parent x = parent y \<and> priority x = priority y"
  by (cases x; cases y) simp

lemma found_or_not:
  assumes inv: "kernel_inv k tbl rq" and cur: "current_process k = Some par" "state (pcbs k par) = STATE_RUNNING"
    and run: "find_zombie_child par k = Some (z, k1)"
  shows "(z = None \<and> k1 = k \<and> no_zombie k tbl par) \<or>
    (\<exists>c rest v k'. z = Some c \<and> reap want c k1 = Some (Returned v k') \<and> first_zombie k tbl par c rest
       \<and> kernel_inv k' rest rq \<and> reaped want k c v k')"
proof (cases z)
  case None
  have "state (pcbs k par) \<noteq> STATE_ZOMBIE" using cur(2) by simp
  from find_zombie_child_inv [OF inv cur(1) this run] None show ?thesis by (simp add: no_zombie_def)
next
  case (Some c)
  have "state (pcbs k par) \<noteq> STATE_ZOMBIE" using cur(2) by simp
  note f = find_zombie_child_inv [OF inv cur(1) this run, unfolded Some option.case]
  from f obtain as bs where t: "tbl = as @ c # bs" and i1: "kernel_inv k1 (as @ bs) rq"
    and as: "\<forall>a\<in>set as. \<not> zombie_child (pcbs k) (pid (pcbs k par)) a" by blast
  from f have fr: "arena k1 = arena k" "current_process k1 = current_process k"
    "\<forall>a. (pcbs k1 a)\<lparr>next_in_table := None\<rparr> = (pcbs k a)\<lparr>next_in_table := None\<rparr>"
    and zc: "zombie_child (pcbs k) (pid (pcbs k par)) c" "c \<in> set tbl" by blast+
  have "pcb_block (arena k1) c" using kernel_invD(6) [OF inv zc(2)] fr(1) by simp
  moreover have "c \<notin> set (as @ bs)" using kernel_invD(2) [OF inv] t by auto
  ultimately have "\<exists>m. kfree (Some c) (arena k1) = Some m \<and> kernel_inv (k1\<lparr>arena := m\<rparr>) (as @ bs) rq
    \<and> reap want c k1 = Some (Returned (sint (pid (pcbs k1 c)), if want then Some (exit_status (pcbs k1 c)) else None)
        (k1\<lparr>arena := m\<rparr>))" by (rule reap_inv [OF i1])
  then obtain m where m: "kfree (Some c) (arena k1) = Some m" "kernel_inv (k1\<lparr>arena := m\<rparr>) (as @ bs) rq"
    "reap want c k1 = Some (Returned (sint (pid (pcbs k1 c)), if want then Some (exit_status (pcbs k1 c)) else None)
        (k1\<lparr>arena := m\<rparr>))" by blast
  have "pid (pcbs k1 c) = pid (pcbs k c)" "exit_status (pcbs k1 c) = exit_status (pcbs k c)"
    using same_but_tableD [OF fr(3) [THEN spec, of c]] by blast+
  with m(1) fr(1,2) have "reaped want k c (sint (pid (pcbs k1 c)), if want then Some (exit_status (pcbs k1 c)) else None) (k1\<lparr>arena := m\<rparr>)"
    unfolding reaped_def by (intro conjI) (use fr(3) in simp_all)
  moreover have "first_zombie k tbl par c (as @ bs)"
    using t as zc(1) by (auto simp: first_zombie_def no_zombie_def)
  ultimately show ?thesis using m(2,3) Some by blast
qed

lemma wait_resumed_inv:
  assumes inv: "kernel_inv k tbl rq" and cur: "current_process k = Some par" "state (pcbs k par) = STATE_RUNNING"
    and run: "wait_resumed par want k = Some r"
  shows "(r = Returned (-1, None) k \<and> no_zombie k tbl par) \<or>
    (\<exists>c rest v k'. r = Returned v k' \<and> first_zombie k tbl par c rest
       \<and> kernel_inv k' rest rq \<and> reaped want k c v k')"
proof -
  from run obtain z k1 where f: "find_zombie_child par k = Some (z, k1)"
    and r: "(case z of Some c \<Rightarrow> reap want c k1 | None \<Rightarrow> Some (Returned (-1, None) k1)) = Some r"
    by (auto simp: wait_resumed_def bind_eq_Some_conv)
  from found_or_not [OF inv cur f, of want] r show ?thesis by (auto split: option.splits)
qed

lemma wait_inv:
  assumes inv: "kernel_inv k0 tbl rq" and k: "enter ret k0 = Some k"
    and cur: "current_process k0 = Some par" "state (pcbs k0 par) = STATE_RUNNING"
    and run: "wait_syscall ret locals back frame want k0 = Some r"
  shows "(no_zombie k tbl par \<and> ((\<exists>k' rq'. r = Switched k' \<and> kernel_inv k' tbl rq') \<or> (\<exists>k'. r = Idle k' \<and> kernel_inv k' tbl []))) \<or>
    (\<exists>c rest v k'. r = Returned v k' \<and> first_zombie k tbl par c rest
       \<and> kernel_inv k' rest rq \<and> reaped want k c v k')"
proof -
  note i = enter_inv [OF inv k] and e = enter_frame [OF k]
  have cur': "current_process k = Some par" "state (pcbs k par) = STATE_RUNNING" using cur e by simp_all
  from run k cur'(1) obtain z k1 where f: "find_zombie_child par k = Some (z, k1)"
    and r: "(case z of
           Some c \<Rightarrow> reap want c k1
         | None \<Rightarrow> do {
             let k2 = upd_pcb par (state_update (\<lambda>_. STATE_BLOCKED)) k1;
             r \<leftarrow> yield_syscall back frame (k2\<lparr>esp := esp k2 - locals\<rparr>);
             (case r of
                Returned u k3 \<Rightarrow> wait_resumed par want k3
              | Switched k3 \<Rightarrow> Some (Switched k3)
              | Idle k3 \<Rightarrow> Some (Idle k3))
           }) = Some r"
    by (auto simp: wait_syscall_def bind_eq_Some_conv simp del: upd_pcb_fields)
  from found_or_not [OF i cur' f, of want] show ?thesis
  proof
    assume "\<exists>c rest v k'. z = Some c \<and> reap want c k1 = Some (Returned v k') \<and> first_zombie k tbl par c rest
       \<and> kernel_inv k' rest rq \<and> reaped want k c v k'"
    then obtain c rest v k' where *: "z = Some c" "reap want c k1 = Some (Returned v k')"
      "first_zombie k tbl par c rest" "kernel_inv k' rest rq" "reaped want k c v k'" by blast
    from r *(1,2) have "r = Returned v k'" by simp
    with *(3-) show ?thesis by blast
  next
    assume n: "z = None \<and> k1 = k \<and> no_zombie k tbl par"
    let ?k2 = "(upd_pcb par (state_update (\<lambda>_. STATE_BLOCKED)) k)\<lparr>esp := esp k - locals\<rparr>"
    have p: "par \<in> set tbl" "state (pcbs k par) \<noteq> STATE_READY" using kernel_invD(8) [OF i cur'(1)] cur'(2) by simp_all
    have "kernel_inv (upd_pcb par (state_update (\<lambda>_. STATE_BLOCKED)) k) tbl rq"
      by (rule kernel_inv_stop [OF i p]) simp_all
    then have i2: "kernel_inv ?k2 tbl rq" by (simp add: kernel_inv_regs)
    from r n obtain y where y: "yield_syscall back frame ?k2 = Some y"
      and ry: "(case y of
                Returned u k3 \<Rightarrow> wait_resumed par want k3
              | Switched k3 \<Rightarrow> Some (Switched k3)
              | Idle k3 \<Rightarrow> Some (Idle k3)) = Some r"
      by (auto simp: Let_def bind_eq_Some_conv)
    have "current_process ?k2 \<noteq> None" using cur'(1) by simp
    with yield_inv [OF i2 y] consider k' rq' where "y = Switched k'" "kernel_inv k' tbl rq'"
      | k' where "y = Idle k'" "kernel_inv k' tbl []" by blast
    then show ?thesis using ry n by cases auto
  qed
qed

end
