(* ===== verification/KernelStep.thy ===== *)
theory KernelStep
  imports KernelWait
begin

text \<open>
  Runs of the kernel: what the kernel, the current process and the scheduler may do, as a step
  relation, and what holds in every state that such a run reaches.
\<close>

subsection \<open>Steps\<close>

text \<open>The state in which an operation leaves the machine, however it ends.\<close>

primrec left_state :: "'r outcome \<Rightarrow> kernel" where
  "left_state (Returned v k) = k"
| "left_state (Switched k) = k"
| "left_state (Idle k) = k"

definition running :: "kernel \<Rightarrow> addr \<Rightarrow> bool" where
  "running k p \<longleftrightarrow> current_process k = Some p \<and> state (pcbs k p) = STATE_RUNNING"

text \<open>
  \<open>work\<close> stands for everything else that a process does: it may overwrite any byte of the
  arena and its registers. \<open>finish\<close> is the assignment to \<open>current_process->state\<close> with which
  the programs of the repository end.
\<close>

inductive kernel_step :: "kernel \<Rightarrow> kernel \<Rightarrow> bool" where
  new_pid: "kernel_step k (snd (get_new_pid k))"
| create: "create_process pd entry_point prio dl ttr k = Some (x, k') \<Longrightarrow> kernel_step k k'"
| dispatch: "schedule frame k = Some r \<Longrightarrow> kernel_step k (left_state r)"
| fork: "running k p \<Longrightarrow> fork_syscall ret k = Some (v, k') \<Longrightarrow> kernel_step k k'"
| wait: "running k p \<Longrightarrow> wait_syscall ret locals back frame want k = Some r \<Longrightarrow> kernel_step k (left_state r)"
| wait_woken: "running k p \<Longrightarrow> wait_resumed p want k = Some r \<Longrightarrow> kernel_step k (left_state r)"
| exit: "running k p \<Longrightarrow> exit_syscall st frame k = Some r \<Longrightarrow> kernel_step k (left_state r)"
| yield: "yield_syscall ret frame k = Some r \<Longrightarrow> kernel_step k (left_state r)"
| allocate: "kmalloc n (arena k) = (m, x) \<Longrightarrow> kernel_step k (k\<lparr>arena := m\<rparr>)"
| finish: "running k p \<Longrightarrow> kernel_step k (upd_pcb p (state_update (\<lambda>_. STATE_EXIT)) k)"
| work: "kernel_step k (k\<lparr>arena := (arena k)\<lparr>kernel_memory := b\<rparr>, esp := sp, ebp := bp, eip := ip, eax := ax\<rparr>)"

text \<open>The state after \<open>memory_init\<close> and \<open>init_process_management\<close>, with the storage zeroed by the loader.\<close>

definition booted :: "kernel \<Rightarrow> bool" where
  "booted k \<longleftrightarrow>
     ready_queue k = initialize_queue \<and> process_table_head k = None \<and> current_process k = None
   \<and> (\<forall>a. state (pcbs k a) = STATE_READY)"

lemma booted_inv: "booted k \<Longrightarrow> kernel_inv k [] []"
  by (rule kernel_invI) (simp_all add: booted_def queue_list_def initialize_queue_def)

text \<open>Every operation that was called and came to an end keeps the invariant.\<close>

lemma yield_keeps:
  assumes "kernel_inv k tbl rq" "yield_syscall ret frame k = Some r"
  shows "\<exists>tbl' rq'. kernel_inv (left_state r) tbl' rq'"
  using yield_inv [OF assms] by (cases r) (simp_all, blast+)

lemma wait_keeps:
  assumes inv: "kernel_inv k tbl rq" and p: "running k p"
    and w: "wait_syscall ret locals back frame want k = Some r"
  shows "\<exists>tbl' rq'. kernel_inv (left_state r) tbl' rq'"
proof -
  from w obtain k1 where e: "enter ret k = Some k1" by (auto simp: wait_syscall_def bind_eq_Some_conv)
  from p have "current_process k = Some p" "state (pcbs k p) = STATE_RUNNING" by (simp_all add: running_def)
  from wait_inv [OF inv e this w] consider k' rq' where "r = Switched k'" "kernel_inv k' tbl rq'"
    | k' where "r = Idle k'" "kernel_inv k' tbl []" | v k' rest where "r = Returned v k'" "kernel_inv k' rest rq"
    by blast
  then show ?thesis by cases auto
qed

lemma wait_resumed_keeps:
  assumes inv: "kernel_inv k tbl rq" and p: "running k p" and w: "wait_resumed p want k = Some r"
  shows "\<exists>tbl' rq'. kernel_inv (left_state r) tbl' rq'"
proof -
  from p have "current_process k = Some p" "state (pcbs k p) = STATE_RUNNING" by (simp_all add: running_def)
  from wait_resumed_inv [OF inv this w] consider "r = Returned (-1, None) k"
    | v k' rest where "r = Returned v k'" "kernel_inv k' rest rq" by blast
  then show ?thesis using inv by cases auto
qed

lemma exit_keeps:
  assumes inv: "kernel_inv k tbl rq" and p: "running k p" and x: "exit_syscall st frame k = Some r"
  shows "\<exists>tbl' rq'. kernel_inv (left_state r) tbl' rq'"
proof -
  from p have "current_process k = Some p" "state (pcbs k p) = STATE_RUNNING" by (simp_all add: running_def)
  from exit_inv [OF inv this x] show ?thesis by (cases r) (simp_all, blast+)
qed

lemma schedule_keeps:
  assumes inv: "kernel_inv k tbl rq" and s: "schedule frame k = Some r"
  shows "\<exists>tbl' rq'. kernel_inv (left_state r) tbl' rq'"
proof (cases r)
  case (Returned u k')
  with schedule_inv(3) [OF inv] s show ?thesis by blast
next
  case (Switched k')
  with schedule_inv(1) [OF inv] s have "\<exists>rq'. kernel_inv k' tbl rq'" by blast
  then show ?thesis unfolding Switched left_state.simps by blast
next
  case (Idle k')
  with schedule_inv(2) [OF inv] s inv show ?thesis by auto
qed

lemma create_keeps:
  assumes inv: "kernel_inv k tbl rq" and c: "create_process pd entry_point prio dl ttr k = Some (x, k')"
  shows "\<exists>tbl' rq'. kernel_inv k' tbl' rq'"
proof (cases x)
  case None
  with create_process_None(1) [OF inv] c show ?thesis by blast
next
  case (Some p)
  with create_process_Some(2) [OF inv] c show ?thesis by blast
qed

lemma step_keeps:
  assumes "kernel_step k k'" "\<exists>tbl rq. kernel_inv k tbl rq"
  shows "\<exists>tbl rq. kernel_inv k' tbl rq"
proof -
  from assms(2) obtain tbl rq where inv: "kernel_inv k tbl rq" by blast
  from assms(1) show ?thesis
  proof cases
    case new_pid
    with inv show ?thesis by (auto simp: get_new_pid_def kernel_inv_regs)
  next
    case (create pd entry_point prio dl ttr x)
    from create_keeps [OF inv this] show ?thesis .
  next
    case (dispatch frame r)
    with schedule_keeps [OF inv] show ?thesis by blast
  next
    case (fork p ret v)
    then have "current_process k = Some p" by (simp add: running_def)
    from fork_inv(1) [OF inv this fork(2)] show ?thesis .
  next
    case (wait p ret lo bk frame want r)
    with wait_keeps [OF inv] show ?thesis by blast
  next
    case (wait_woken p want r)
    with wait_resumed_keeps [OF inv] show ?thesis by blast
  next
    case (exit p st frame r)
    with exit_keeps [OF inv] show ?thesis by blast
  next
    case (yield ret frame r)
    with yield_keeps [OF inv] show ?thesis by blast
  next
    case (allocate n m x)
    with kernel_inv_arena [OF inv] show ?thesis by blast
  next
    case (finish p)
    then have p: "p \<in> set tbl" "state (pcbs k p) \<noteq> STATE_READY"
      using kernel_invD(8) [OF inv] by (simp_all add: running_def)
    have "kernel_inv k' tbl rq" unfolding finish(1) by (rule kernel_inv_stop [OF inv p]) simp_all
    then show ?thesis by blast
  next
    case (work ax ip bp sp b)
    have "kernel_inv (k\<lparr>arena := (arena k)\<lparr>kernel_memory := b\<rparr>\<rparr>) tbl rq"
      by (rule kernel_inv_arena [OF inv]) simp
    then have "kernel_inv k' tbl rq" by (simp add: work kernel_inv_regs)
    then show ?thesis by blast
  qed
qed

lemma steps_keep: "kernel_step\<^sup>*\<^sup>* k k' \<Longrightarrow> \<exists>tbl rq. kernel_inv k tbl rq \<Longrightarrow> \<exists>tbl rq. kernel_inv k' tbl rq"
  by (induction rule: rtranclp_induct) (use step_keeps in blast)+

subsection \<open>A concrete machine\<close>

text \<open>The machine at boot, with the arena cleared, and its first process.\<close>

definition boot_kernel :: kernel where
  "boot_kernel = init_process_management
     \<lparr>arena = \<lparr>kernel_memory = (\<lambda>_. 0), page_table = (\<lambda>_. 0), last_page_index = 0\<rparr>, pcbs = (\<lambda>_. example_pcb),
      current_process = None, ready_queue = \<lparr>front = None, rear = None\<rparr>, process_table_head = None, next_pid = 1,
      esp = 16384000, ebp = 0, eip = 0, eax = 0\<rparr>"

lemma booted_boot_kernel: "booted boot_kernel"
  by (simp add: booted_def boot_kernel_def init_process_management_def example_pcb_def)


text \<open>Allocation from an arena that is untouched from some page on, as after boot.\<close>

definition unused_from :: "nat \<Rightarrow> mem_state \<Rightarrow> bool" where
  "unused_from n m \<longleftrightarrow> last_page_index m = n \<and> (\<forall>p. n \<le> p \<and> p < NUM_PAGES \<longrightarrow> page_table m p = 0)"

lemma kmalloc_unused:
  assumes "unused_from n m" "0 < pages_for r" "n + pages_for r < NUM_PAGES"
  shows "\<exists>m'. kmalloc r m = (m', Some (n * PAGE_SIZE + sizeof_block)) \<and> unused_from (n + pages_for r) m'"
proof -
  have w: "free_window (page_table m) (last_page_index m) (pages_for r) 0"
    using assms by (simp add: free_window_def unused_from_def)
  have l: "last_page_index m = n" using assms(1) by (simp add: unused_from_def)
  have "mark_pages n (pages_for r) (page_table m) p = page_table m p" if "n + pages_for r \<le> p" for p
    using that assms(2,3) by (auto simp: mark_pages_eq)
  then show ?thesis using kmalloc_at [OF assms(2) w] assms l
    by (simp add: unused_from_def)
qed

lemma unused_from_bytes: "unused_from n (m\<lparr>kernel_memory := b\<rparr>) = unused_from n m"
  by (simp add: unused_from_def)

lemma create_runs:
  assumes inv: "kernel_inv k tbl rq" and u: "unused_from n (arena k)" "n + 5 < NUM_PAGES"
  shows "\<exists>k'. create_process pd entry_point prio dl ttr k = Some (Some (n * PAGE_SIZE + sizeof_block), k')
    \<and> unused_from (n + 5) (arena k')"
proof -
  let ?p = "n * PAGE_SIZE + sizeof_block" and ?base = "(n + 1) * PAGE_SIZE + sizeof_block"
  have pf: "pages_for sizeof_PCB = 1" "pages_for 4096 = 2" by (simp_all add: pages_for_def sizeof_PCB_def sizeof_block_def unat_div)
  obtain m1 where m1: "kmalloc sizeof_PCB (arena k) = (m1, Some ?p)" "unused_from (n + 1) m1"
    using kmalloc_unused [OF u(1), of sizeof_PCB] u(2) pf by auto
  obtain m2 where m2: "kmalloc 4096 m1 = (m2, Some ?base)" "unused_from (n + 3) m2"
    using kmalloc_unused [OF m1(2), of 4096] u(2) pf by (auto simp: numeral_3_eq_3)
  have bound: "?base + 4096 \<le> KERNEL_MEMORY_SIZE" using u(2) by (simp add: sizeof_block_def)
  let ?k1 = "upd_pcb ?p (\<lambda>x. x\<lparr>pid := pd, state := STATE_NEW, priority := prio, deadline := dl,
                          time_to_run := ttr, user_stack_base := ?base + STACK_SIZE - 4 * 1024\<rparr>) (k\<lparr>arena := m2\<rparr>)"
  obtain k2 where k2: "write_word (?base + STACK_SIZE - 4) entry_point ?k1 = Some k2"
    using bound by (simp add: write_word_def)
  obtain k3 where k3: "write_word (?base + STACK_SIZE - 8) 0 k2 = Some k3"
    using bound by (simp add: write_word_def)
  note w2 = write_word_frame(1) [OF k2] and w3 = write_word_frame(1) [OF k3]
  define k4 where "k4 = upd_pcb ?p (\<lambda>x. x\<lparr>user_stack_ptr := ?base + STACK_SIZE - 8, cr3 := 0, next_ready := None\<rparr>) k3"
  define k5 where "k5 = allocate_kernel_stack ?p k4"
  define k7 where "k7 = (upd_pcb ?p (next_in_table_update (\<lambda>_. process_table_head k5)) k5)\<lparr>process_table_head := Some ?p\<rparr>"
  define k8 where "k8 = upd_pcb ?p (state_update (\<lambda>_. STATE_READY)) k7"
  have p: "?p \<notin> set tbl" using kmalloc_block(2) [OF m1(1)] kernel_invD(6) [OF inv] by blast
  have prq: "?p \<notin> set rq" using p kernel_invD(5) [OF inv] by auto
  have "unused_from (n + 3) (arena k4)" using m2(2) by (simp add: k4_def w3 w2 unused_from_bytes)
  from kmalloc_unused [OF this, of 4096] u(2) obtain m5 b where
    m5: "kmalloc 4096 (arena k4) = (m5, b)" "unused_from (n + 3 + 2) m5" unfolding pf by auto
  have k5eq: "k5 = upd_pcb ?p (\<lambda>x. x\<lparr>kernel_stack_base := b, kernel_stack_ptr := map_option (\<lambda>a. a + STACK_SIZE) b\<rparr>)
      (k4\<lparr>arena := m5\<rparr>)" by (simp add: k5_def allocate_kernel_stack_def m5(1))
  have a8: "arena k8 = m5" "ready_queue k8 = ready_queue k" "\<And>a. a \<noteq> ?p \<Longrightarrow> pcbs k8 a = pcbs k a"
    by (simp_all add: k8_def k7_def k5eq k4_def w3 w2 set_pcb_def)
  have "queue_list (ready_queue k8) (pcbs k8) rq"
    unfolding a8(2) by (rule queue_list_cong [OF kernel_invD(3) [OF inv]]) (use prq in \<open>metis a8(3)\<close>)
  from enqueue_ready_list [OF this prq] obtain q h where
    e: "enqueue_ready ?p k8 = Some (k8\<lparr>ready_queue := q, pcbs := h\<rparr>)" by blast
  have "create_process pd entry_point prio dl ttr k = Some (Some ?p, k8\<lparr>ready_queue := q, pcbs := h\<rparr>)"
    by (simp only: create_process_def m1(1) m2(1) prod.case option.case Let_def k2 k3 Option.bind.bind_lunit
        k4_def [symmetric] k5_def [symmetric] k7_def [symmetric] k8_def [symmetric] e)
  moreover have "unused_from (n + 5) (arena (k8\<lparr>ready_queue := q, pcbs := h\<rparr>))" using m5(2) by (simp add: a8(1) ac_simps)
  ultimately show ?thesis by blast
qed

lemma boot_create:
  "\<exists>k. create_process pd entry_point prio dl ttr boot_kernel = Some (Some 8, k) \<and> unused_from 5 (arena k)
    \<and> kernel_inv k [8] [8] \<and> fresh_process 8 pd entry_point prio dl ttr k \<and> current_process k = None"
proof -
  note inv = booted_inv [OF booted_boot_kernel]
  have "unused_from 0 (arena boot_kernel)"
    by (simp add: boot_kernel_def init_process_management_def unused_from_def)
  from create_runs [OF inv this, of pd entry_point prio dl ttr] obtain k where
    k: "create_process pd entry_point prio dl ttr boot_kernel = Some (Some 8, k)" "unused_from 5 (arena k)"
    by (auto simp: sizeof_block_def)
  note c = create_process_Some [OF inv k(1)]
  have "kernel_inv k [8] [8]" using c(2) by (simp add: place_def)
  moreover have "current_process k = None" using c(4) by (simp add: boot_kernel_def init_process_management_def)
  ultimately show ?thesis using k c(3) by blast
qed

text \<open>The first process, dispatched.\<close>

lemma boot_dispatch:
  assumes "kernel_inv k [8] [8]" "fresh_process 8 pd entry_point prio dl ttr k" "current_process k = None"
  shows "\<exists>k'. schedule frame k = Some (Switched k') \<and> kernel_inv k' [8] [] \<and> runs k 8 k'"
proof -
  have "requeued k [8] = 8 # []" using assms(3) by (simp add: requeued_def)
  from schedule_dispatch [OF assms(1) this, of frame] show ?thesis
    using assms(2) by (simp add: fresh_process_def Let_def)
qed

subsection \<open>Every reachable state\<close>

text \<open>C2 (invariant of the kernel). In every state that a run from the booted kernel reaches, over
  any sequence of creations, forks, waits, exits, yields, dispatches, allocations and
  arbitrary work of the processes: the process table is a finite list without repetition
  whose blocks are live allocations, the ready queue holds exactly the READY processes of
  it, each once and by increasing priority number, at most one process is RUNNING and it is
  the current one, and no BLOCKED process has fallen out of the table.\<close>

theorem reachable_kernel:
  assumes "booted k0" "kernel_step\<^sup>*\<^sup>* k0 k"
  shows "\<exists>tbl rq. chain (\<lambda>a. next_in_table (pcbs k a)) (process_table_head k) tbl \<and> distinct tbl
    \<and> (\<forall>a\<in>set tbl. pcb_block (arena k) a)
    \<and> queue_list (ready_queue k) (pcbs k) rq \<and> sorted (map (\<lambda>a. priority (pcbs k a)) rq)
    \<and> set rq = {a \<in> set tbl. state (pcbs k a) = STATE_READY}
    \<and> (\<forall>a\<in>set tbl. state (pcbs k a) = STATE_RUNNING \<longrightarrow> current_process k = Some a)
    \<and> (\<forall>a. current_process k = Some a \<or> state (pcbs k a) = STATE_BLOCKED \<longrightarrow> a \<in> set tbl)"
proof -
  from steps_keep [OF assms(2)] booted_inv [OF assms(1)] obtain tbl rq where inv: "kernel_inv k tbl rq" by blast
  note i = kernel_invD [OF inv]
  have "\<forall>a. current_process k = Some a \<or> state (pcbs k a) = STATE_BLOCKED \<longrightarrow> a \<in> set tbl"
    using i(8,9) by blast
  moreover have "\<forall>a\<in>set tbl. pcb_block (arena k) a"
    "\<forall>a\<in>set tbl. state (pcbs k a) = STATE_RUNNING \<longrightarrow> current_process k = Some a" using i(6,7) by blast+
  ultimately show ?thesis by (intro exI [of _ tbl] exI [of _ rq] conjI i(1-5))
qed

theorem reachable_kernel_witness:
  "\<exists>k k' tbl. create_process 1 4660 1 2 3 boot_kernel = Some (Some 8, k) \<and> schedule 32 k = Some (Switched k')
    \<and> chain (\<lambda>a. next_in_table (pcbs k' a)) (process_table_head k') tbl \<and> 8 \<in> set tbl \<and> pcb_block (arena k') 8"
proof -
  obtain k where k: "create_process 1 4660 1 2 3 boot_kernel = Some (Some 8, k)" "kernel_inv k [8] [8]"
    "fresh_process 8 1 4660 1 2 3 k" "current_process k = None" using boot_create by blast
  obtain k' where k': "schedule 32 k = Some (Switched k')" "runs k 8 k'" using boot_dispatch [OF k(2-4)] by blast
  have "kernel_step boot_kernel k" using k(1) by (rule kernel_step.create)
  moreover have "kernel_step k k'" using kernel_step.dispatch [OF k'(1)] by simp
  ultimately have "kernel_step\<^sup>*\<^sup>* boot_kernel k'" by simp
  from reachable_kernel [OF booted_boot_kernel this] obtain tbl where
    "chain (\<lambda>a. next_in_table (pcbs k' a)) (process_table_head k') tbl" "\<forall>a\<in>set tbl. pcb_block (arena k') a"
    "current_process k' = Some 8 \<longrightarrow> 8 \<in> set tbl" by blast
  moreover have "current_process k' = Some 8" using k'(2) by (simp add: runs_def)
  ultimately show ?thesis using k(1) k'(1) by blast
qed

end
