(* ===== verification/KernelProps.thy ===== *)
theory KernelProps
  imports KernelStep
begin

text \<open>
  The properties of the scheduler and of the system calls, each over an arbitrary state that
  satisfies the invariant of \<open>KernelInv\<close>, which \<open>KernelStep\<close> shows for all reachable states.
\<close>

subsection \<open>Scheduling\<close>

text \<open>C8 (scheduling decision). \<open>schedule\<close> puts a RUNNING current process back behind its equals,
  then switches to the first process of the queue, of which none is more urgent; the switch
  loads the saved frame pointer, return address and stack pointer and clears the result
  register for a new child. It faults only if that saved stack lies outside the arena, and
  enters the command line exactly when no process can run.\<close>

theorem schedule_correct:
  assumes "kernel_inv k tbl rq"
  shows "case requeued k rq of
      [] \<Rightarrow> schedule frame k = Some (Idle k)
    | p # rest \<Rightarrow>
        (\<forall>a\<in>set rest. priority (pcbs k p) \<le> priority (pcbs k a))
      \<and> (if user_stack_ptr (pcbs k p) + 8 \<le> KERNEL_MEMORY_SIZE
         then \<exists>k'. schedule frame k = Some (Switched k') \<and> kernel_inv k' tbl rest \<and> runs k p k'
         else schedule frame k = None)"
proof (cases "requeued k rq")
  case Nil
  then show ?thesis using schedule_idle [OF assms] by simp
next
  case (Cons p rest)
  have "sorted (map (\<lambda>a. priority (pcbs k a)) (requeued k rq))"
    using kernel_invD(4) [OF assms] by (auto simp: requeued_def prio_queue.place_sorted split: option.split)
  then have "\<forall>a\<in>set rest. priority (pcbs k p) \<le> priority (pcbs k a)" by (simp add: Cons)
  with schedule_dispatch [OF assms Cons, of frame] show ?thesis by (simp add: Cons)
qed

theorem schedule_correct_witness:
  "\<exists>k k'. create_process 1 4660 1 2 3 boot_kernel = Some (Some 8, k) \<and> schedule 32 k = Some (Switched k')
    \<and> current_process k' = Some 8 \<and> eip k' = 4660 \<and> kernel_inv k' [8] []"
proof -
  obtain k where k: "create_process 1 4660 1 2 3 boot_kernel = Some (Some 8, k)" "kernel_inv k [8] [8]"
    "fresh_process 8 1 4660 1 2 3 k" "current_process k = None" using boot_create by blast
  have "requeued k [8] = [8]" using k(4) by (simp add: requeued_def)
  with schedule_correct [OF k(2), of 32] k(3) obtain k' where
    "schedule 32 k = Some (Switched k')" "kernel_inv k' [8] []" "runs k 8 k'"
    by (auto simp: fresh_process_def Let_def)
  with k(1,3) show ?thesis by (auto simp: runs_def fresh_process_def Let_def)
qed

text \<open>
  A turn: the running process works, which may change its registers and any byte of the
  arena, and then yields to another process or to itself.
\<close>

inductive turn :: "kernel \<Rightarrow> kernel \<Rightarrow> bool" where
  "yield_syscall ret frame
     (k\<lparr>arena := (arena k)\<lparr>kernel_memory := b\<rparr>, esp := sp, ebp := bp, eip := ip, eax := ax\<rparr>) = Some (Switched k')
   \<Longrightarrow> turn k k'"

lemma worked_inv:
  assumes "kernel_inv k tbl rq"
  shows "kernel_inv (k\<lparr>arena := (arena k)\<lparr>kernel_memory := b\<rparr>, esp := sp, ebp := bp, eip := ip, eax := ax\<rparr>) tbl rq"
proof -
  have "kernel_inv (k\<lparr>arena := (arena k)\<lparr>kernel_memory := b\<rparr>\<rparr>) tbl rq" by (rule kernel_inv_arena [OF assms]) simp
  then show ?thesis by (simp add: kernel_inv_regs)
qed

lemma yield_step:
  assumes inv: "kernel_inv k0 tbl rq" and c: "running k0 c"
    and q: "place (\<lambda>a. priority (pcbs k0 a)) c rq = p # rest" and e: "enter ret k0 = Some k"
    and sp: "kernel_stack_ptr (pcbs k0 c) = Some sp" and b: "p \<noteq> c \<longrightarrow> user_stack_ptr (pcbs k0 p) + 8 \<le> KERNEL_MEMORY_SIZE"
  shows "\<exists>k'. yield_syscall ret frame k0 = Some (Switched k') \<and> kernel_inv k' tbl rest \<and> running k' p
    \<and> (\<forall>a. priority (pcbs k' a) = priority (pcbs k0 a))"
proof -
  note f = enter_frame [OF e]
  let ?k1 = "upd_pcb c (user_stack_ptr_update (\<lambda>_. unat (ebp k))) k"
  have cur: "current_process k = Some c" "state (pcbs k c) = STATE_RUNNING" using c f by (simp_all add: running_def)
  have "kernel_inv ?k1 tbl rq" by (rule kernel_inv_upd [OF enter_inv [OF inv e]]) simp
  then have i: "kernel_inv (?k1\<lparr>esp := sp\<rparr>) tbl rq" by (simp add: kernel_inv_regs)
  have prio: "(\<lambda>a. priority (pcbs (?k1\<lparr>esp := sp\<rparr>) a)) = (\<lambda>a. priority (pcbs k0 a))" by (simp add: f(5) fun_eq_iff)
  have r: "requeued (?k1\<lparr>esp := sp\<rparr>) rq = p # rest"
    using q cur unfolding requeued_def prio by simp
  have "unat (ebp k) + 8 \<le> KERNEL_MEMORY_SIZE"
    unfolding f(4) unat_of_nat using f(1,2) by simp
  then have "user_stack_ptr (pcbs (?k1\<lparr>esp := sp\<rparr>) p) + 8 \<le> KERNEL_MEMORY_SIZE" using b f(5) by simp
  with schedule_dispatch [OF i r, of frame] obtain k' where
    k': "schedule frame (?k1\<lparr>esp := sp\<rparr>) = Some (Switched k')" "kernel_inv k' tbl rest"
      "runs (?k1\<lparr>esp := sp\<rparr>) p k'" by auto
  have "yield_syscall ret frame k0 = Some (Switched k')"
    using e cur sp k'(1) by (simp add: yield_syscall_def Let_def f(5))
  moreover have "\<forall>a. priority (pcbs k' a) = priority (pcbs k0 a)" "running k' p"
    using k'(3) fun_cong [OF prio] by (simp_all add: runs_def running_def)
  ultimately show ?thesis using k'(2) by blast
qed

lemma turn_step:
  assumes inv: "kernel_inv k tbl rq" and c: "running k c"
    and q: "place (\<lambda>a. priority (pcbs k a)) c rq = p # rest" and t: "turn k k'"
  shows "kernel_inv k' tbl rest \<and> running k' p \<and> (\<forall>a. priority (pcbs k' a) = priority (pcbs k a))"
  using t
proof cases
  case (1 ret frame ax ip bp sp b)
  let ?k = "k\<lparr>arena := (arena k)\<lparr>kernel_memory := b\<rparr>, esp := sp, ebp := bp, eip := ip, eax := ax\<rparr>"
  note i = worked_inv [OF inv, of ax ip bp sp b]
  have cur: "current_process ?k = Some c" "running ?k c" using c by (simp_all add: running_def)
  from 1 obtain k2 sp2 where e: "enter ret ?k = Some k2" and sp: "kernel_stack_ptr (pcbs k c) = Some sp2"
    and s: "schedule frame ((upd_pcb c (user_stack_ptr_update (\<lambda>_. unat (ebp k2))) k2)\<lparr>esp := sp2\<rparr>) = Some (Switched k')"
    using enter_frame(5,6) [of ret ?k] cur(1) by (auto simp: yield_syscall_def Let_def bind_eq_Some_conv)
  note f = enter_frame [OF e]
  have "p \<noteq> c \<longrightarrow> user_stack_ptr (pcbs ?k p) + 8 \<le> KERNEL_MEMORY_SIZE"
  proof
    assume "p \<noteq> c"
    let ?k1 = "(upd_pcb c (user_stack_ptr_update (\<lambda>_. unat (ebp k2))) k2)\<lparr>esp := sp2\<rparr>"
    have "kernel_inv (upd_pcb c (user_stack_ptr_update (\<lambda>_. unat (ebp k2))) k2) tbl rq"
      by (rule kernel_inv_upd [OF enter_inv [OF i e]]) simp
    then have i1: "kernel_inv ?k1 tbl rq" by (simp add: kernel_inv_regs)
    have prio: "(\<lambda>a. priority (pcbs ?k1 a)) = (\<lambda>a. priority (pcbs k a))" by (simp add: f(5) fun_eq_iff)
    have "current_process k2 = Some c" "state (pcbs k2 c) = STATE_RUNNING" using c f by (simp_all add: running_def)
    then have "requeued ?k1 rq = p # rest" using q unfolding requeued_def prio by simp
    from schedule_dispatch [OF i1 this, of frame] s have "user_stack_ptr (pcbs ?k1 p) + 8 \<le> KERNEL_MEMORY_SIZE"
      by (simp split: if_splits)
    with \<open>p \<noteq> c\<close> show "user_stack_ptr (pcbs ?k p) + 8 \<le> KERNEL_MEMORY_SIZE" by (simp add: f(5))
  qed
  with yield_step [OF i cur(2) _ e, of p rest sp2 frame] q sp 1 show ?thesis by auto
qed

lemma place_equals: "\<forall>a\<in>set xs. f a \<le> f c \<Longrightarrow> place f c xs = xs @ [c]"
  by (simp add: place_def)

lemma place_first: "\<forall>a\<in>set xs. f c < f a \<Longrightarrow> place f c xs = c # xs"
  by (cases xs) (auto simp: place_def)

lemma turns_rotate:
  assumes "kernel_inv k tbl rq" "running k c" "\<forall>a\<in>set rq. priority (pcbs k a) = priority (pcbs k c)"
    and "(turn ^^ n) k k'"
  shows "\<exists>p rest. rotate n (c # rq) = p # rest \<and> kernel_inv k' tbl rest \<and> running k' p
    \<and> (\<forall>a. priority (pcbs k' a) = priority (pcbs k a))"
  using assms(4)
proof (induction n arbitrary: k')
  case 0
  then show ?case using assms by auto
next
  case (Suc n)
  from Suc.prems obtain k1 where t: "(turn ^^ n) k k1" "turn k1 k'" by auto
  from Suc.IH [OF t(1)] obtain p rest where p: "rotate n (c # rq) = p # rest" "kernel_inv k1 tbl rest" "running k1 p"
    "\<forall>a. priority (pcbs k1 a) = priority (pcbs k a)" by blast
  have "set (p # rest) = set (c # rq)" using p(1) by (metis set_rotate)
  then have "\<forall>a\<in>set (p # rest). priority (pcbs k a) = priority (pcbs k c)" using assms(3) by simp
  then have "place (\<lambda>a. priority (pcbs k1 a)) p rest = rest @ [p]" by (intro place_equals) (simp add: p(4))
  moreover obtain p' rest' where n: "rest @ [p] = p' # rest'" by (cases "rest @ [p]") auto
  ultimately have "kernel_inv k' tbl rest' \<and> running k' p' \<and> (\<forall>a. priority (pcbs k' a) = priority (pcbs k1 a))"
    using turn_step [OF p(2,3) _ t(2)] by simp
  moreover have "rotate (Suc n) (c # rq) = p' # rest'" using p(1) n by (simp add: rotate_def)
  ultimately show ?case using p(4) by auto
qed

text \<open>C14 (fairness among equals). When the running process and the ready ones have the same
  priority, the processor goes round: after any number of turns, whatever the processes
  compute, the process is running whose place in the circle is that number.\<close>

theorem round_robin:
  assumes "kernel_inv k tbl rq" "running k c" "\<forall>a\<in>set rq. priority (pcbs k a) = priority (pcbs k c)"
    and "(turn ^^ n) k k'"
  shows "running k' ((c # rq) ! (n mod (length rq + 1)))"
proof -
  from turns_rotate [OF assms] obtain p rest where p: "rotate n (c # rq) = p # rest" "running k' p" by blast
  have "rotate n (c # rq) ! 0 = (c # rq) ! (n mod length (c # rq))"
    using nth_rotate [of 0 "c # rq" n] by simp
  with p show ?thesis by simp
qed

text \<open>Starvation: A process that is more urgent than all the ready ones keeps the processor for
  any number of turns: yielding does not let a less urgent process run.\<close>

theorem urgent_process_starves_others:
  assumes "kernel_inv k tbl rq" "running k c" "\<forall>a\<in>set rq. priority (pcbs k c) < priority (pcbs k a)"
    and "(turn ^^ n) k k'"
  shows "running k' c \<and> kernel_inv k' tbl rq"
proof -
  have "running k' c \<and> kernel_inv k' tbl rq \<and> (\<forall>a. priority (pcbs k' a) = priority (pcbs k a))"
    using assms(4)
  proof (induction n arbitrary: k')
    case (Suc n)
    from Suc.prems obtain k1 where t: "(turn ^^ n) k k1" "turn k1 k'" by auto
    from Suc.IH [OF t(1)] have p: "running k1 c" "kernel_inv k1 tbl rq"
      "\<forall>a. priority (pcbs k1 a) = priority (pcbs k a)" by blast+
    have "place (\<lambda>a. priority (pcbs k1 a)) c rq = c # rq" by (rule place_first) (use assms(3) p(3) in simp)
    from turn_step [OF p(2,1) this t(2)] p(3) show ?case by simp
  qed (use assms in auto)
  then show ?thesis by blast
qed

text \<open>Two processes in the table, the first one running.\<close>

definition two_processes :: "int \<Rightarrow> kernel" where
  "two_processes other = boot_kernel\<lparr>
     arena := \<lparr>kernel_memory = (\<lambda>_. 0), page_table = (\<lambda>p. if p < 2 then 1 else 0), last_page_index = 2\<rparr>,
     pcbs := (\<lambda>_. example_pcb)(
       8 := example_pcb\<lparr>state := STATE_RUNNING, priority := 1, user_stack_ptr := 100000,
              kernel_stack_ptr := Some 200000, next_in_table := Some 4104\<rparr>,
       4104 := example_pcb\<lparr>priority := other, user_stack_ptr := 300000, kernel_stack_ptr := Some 400000\<rparr>),
     ready_queue := \<lparr>front = Some 4104, rear = Some 4104\<rparr>, process_table_head := Some 8,
     current_process := Some 8\<rparr>"

lemma two_processes_inv: "kernel_inv (two_processes other) [8, 4104] [4104]" "running (two_processes other) 8"
proof -
  show "running (two_processes other) 8" by (simp add: running_def two_processes_def)
  have "pcb_block (arena (two_processes other)) 8" "pcb_block (arena (two_processes other)) 4104"
    unfolding pcb_block_def
    by (rule exI [of _ 0], simp add: two_processes_def sizeof_block_def)
      (rule exI [of _ 1], simp add: two_processes_def sizeof_block_def)
  then show "kernel_inv (two_processes other) [8, 4104] [4104]"
    by (intro kernel_invI) (auto simp: two_processes_def example_pcb_def queue_list_def split: if_splits)
qed

lemma two_processes_turn:
  "\<exists>k'. turn (two_processes other) k'"
proof -
  let ?k = "two_processes other"
  have "turn ?k k'" if "yield_syscall 0 0 ?k = Some (Switched k')" for k'
    using turn.intros [of 0 0 "eax ?k" "eip ?k" "ebp ?k" "esp ?k" "kernel_memory (arena ?k)" ?k k'] that by simp
  moreover obtain k where e: "enter 0 ?k = Some k"
    by (simp add: enter_def push_def write_word_def two_processes_def boot_kernel_def init_process_management_def)
  moreover obtain p rest where q: "place (\<lambda>a. priority (pcbs ?k a)) 8 [4104] = p # rest" "p = 8 \<or> p = 4104"
    by (cases "other \<le> 1") (auto simp: place_def two_processes_def)
  moreover have "kernel_stack_ptr (pcbs ?k 8) = Some 200000" "user_stack_ptr (pcbs ?k 4104) + 8 \<le> KERNEL_MEMORY_SIZE"
    by (simp_all add: two_processes_def)
  ultimately show ?thesis using yield_step [OF two_processes_inv q(1) e, of 200000 0] by auto
qed

theorem round_robin_witness: "\<exists>k'. turn (two_processes 1) k' \<and> running k' 4104"
proof -
  obtain k' where k': "turn (two_processes 1) k'" using two_processes_turn by blast
  have "\<forall>a\<in>set [4104]. priority (pcbs (two_processes 1) a) = priority (pcbs (two_processes 1) 8)"
    by (simp add: two_processes_def)
  from round_robin [OF two_processes_inv this, of 1] k' show ?thesis by auto
qed

theorem urgent_process_starves_others_witness: "\<exists>k'. turn (two_processes 2) k' \<and> running k' 8"
proof -
  obtain k' where k': "turn (two_processes 2) k'" using two_processes_turn by blast
  have "\<forall>a\<in>set [4104]. priority (pcbs (two_processes 2) 8) < priority (pcbs (two_processes 2) a)"
    by (simp add: two_processes_def)
  from urgent_process_starves_others [OF two_processes_inv this, of 1] k' show ?thesis by auto
qed

end
