(* ===== verification/CallProps.thy ===== *)
theory CallProps
  imports KernelProps
begin

text \<open>
  The properties of process creation, \<open>fork\<close>, \<open>exit\<close> and \<open>wait\<close>, and of their interplay.
\<close>

subsection \<open>What the scheduler leaves alone\<close>

definition same_identity :: "PCB \<Rightarrow> PCB \<Rightarrow> bool" where
  "same_identity x y \<longleftrightarrow> pid x = pid y \<and> parent x = parent y \<and> exit_status x = exit_status y
     \<and> next_in_table x = next_in_table y \<and> priority x = priority y \<and> user_stack_base x = user_stack_base y \<and> cr3 x = cr3 y
     \<and> user_stack_ptr x = user_stack_ptr y"

lemma same_identity_refl [simp]: "same_identity x x"
  by (simp add: same_identity_def)

lemma enqueue_by_keeps:
  "enqueue_by key q p h = Some (q', h') \<Longrightarrow> same_identity (h' a) (h a) \<and> state (h' a) = state (h a)"
  by (auto simp: enqueue_by_def Let_def set_pcb_def same_identity_def bind_eq_Some_conv split: option.splits if_splits)

lemma enqueue_ready_keeps:
  assumes "enqueue_ready p k = Some k'"
  shows "same_identity (pcbs k' a) (pcbs k a) \<and> state (pcbs k' a) = state (pcbs k a)"
    "current_process k' = current_process k"
  using assms by (auto simp: enqueue_ready_def enqueue_process_def bind_eq_Some_conv dest: enqueue_by_keeps)

lemma put_back_keeps:
  assumes "put_back k = Some k'"
  shows "same_identity (pcbs k' a) (pcbs k a)
    \<and> state (pcbs k' a) = (if current_process k = Some a \<and> state (pcbs k a) = STATE_RUNNING then STATE_READY else state (pcbs k a))"
    "current_process k' = current_process k"
proof -
  have "(same_identity (pcbs k' a) (pcbs k a)
    \<and> state (pcbs k' a) = (if current_process k = Some a \<and> state (pcbs k a) = STATE_RUNNING then STATE_READY else state (pcbs k a)))
    \<and> current_process k' = current_process k"
  proof (cases "\<exists>c. current_process k = Some c \<and> state (pcbs k c) = STATE_RUNNING")
    case True
    then obtain c where c: "current_process k = Some c" "state (pcbs k c) = STATE_RUNNING" by blast
    from assms c have "enqueue_ready c (upd_pcb c (state_update (\<lambda>_. STATE_READY)) k) = Some k'"
      by (simp add: put_back_def)
    note e = enqueue_ready_keeps [OF this]
    show ?thesis
    proof (cases "a = c")
      case True
      with e(1) [of a] e(2) c show ?thesis by (simp add: same_identity_def)
    next
      case False
      with e(1) [of a] e(2) c show ?thesis by simp
    qed
  next
    case False
    then have "k' = k" using assms by (auto simp: put_back_def split: option.splits if_splits)
    with False show ?thesis by auto
  qed
  then show "same_identity (pcbs k' a) (pcbs k a)
    \<and> state (pcbs k' a) = (if current_process k = Some a \<and> state (pcbs k a) = STATE_RUNNING then STATE_READY else state (pcbs k a))"
    "current_process k' = current_process k" by blast+
qed

lemma schedule_keeps_pcbs:
  assumes "schedule frame k = Some (Switched k')"
  shows "same_identity (pcbs k' a) (pcbs k a)"
    "state (pcbs k' a) = (if current_process k' = Some a then STATE_RUNNING
       else if current_process k = Some a \<and> state (pcbs k a) = STATE_RUNNING then STATE_READY else state (pcbs k a))"
    "current_process k' \<noteq> None"
proof -
  from assms obtain k1 where k1: "put_back k = Some k1" by (auto simp: schedule_def bind_eq_Some_conv)
  obtain np q h where d: "dequeue_process (ready_queue k1) (pcbs k1) = (np, q, h)" by (metis prod_cases3)
  have h: "same_identity (h a) (pcbs k1 a) \<and> state (h a) = state (pcbs k1 a)" for a
    using d by (auto simp: dequeue_process_def Let_def set_pcb_def same_identity_def split: option.splits)
  from assms k1 d obtain p where p: "np = Some p" by (cases np) (auto simp: schedule_def)
  define k4 where "k4 = (case current_process (upd_pcb p (state_update (\<lambda>_. STATE_RUNNING)) (k1\<lparr>ready_queue := q, pcbs := h\<rparr>)) of
      None \<Rightarrow> upd_pcb p (state_update (\<lambda>_. STATE_RUNNING)) (k1\<lparr>ready_queue := q, pcbs := h\<rparr>)
    | Some c \<Rightarrow> upd_pcb c (kernel_stack_ptr_update (\<lambda>_. Some (esp (upd_pcb p (state_update (\<lambda>_. STATE_RUNNING)) (k1\<lparr>ready_queue := q, pcbs := h\<rparr>)) - frame)))
        (upd_pcb p (state_update (\<lambda>_. STATE_RUNNING)) (k1\<lparr>ready_queue := q, pcbs := h\<rparr>)))"
  have k4: "same_identity (pcbs k4 a) (h a) \<and> state (pcbs k4 a) = (if a = p then STATE_RUNNING else state (h a))" for a
    by (auto simp: k4_def same_identity_def split: option.split)
  have r: "\<exists>k5. (resume (user_stack_ptr (pcbs k4 p)) ((upd_pcb p (is_new_child_update (\<lambda>_. False)) k4)\<lparr>current_process := Some p, eax := 0\<rparr>) = Some k5
      \<or> resume (user_stack_ptr (pcbs k4 p)) (k4\<lparr>current_process := Some p\<rparr>) = Some k5) \<and> k' = k5"
    using assms unfolding schedule_def k1 Option.bind.bind_lunit d prod.case p option.case Let_def k4_def [symmetric]
    by (cases "is_new_child (pcbs k4 p)") (simp_all add: k4_def [symmetric] Let_def bind_eq_Some_conv)
  have k': "current_process k' = Some p \<and> (\<forall>a. same_identity (pcbs k' a) (pcbs k4 a) \<and> state (pcbs k' a) = state (pcbs k4 a))"
    using r resume_frame(2,3) by (fastforce simp: same_identity_def)
  have tr: "same_identity x y \<Longrightarrow> same_identity y z \<Longrightarrow> same_identity x z" for x y z :: PCB
    by (simp add: same_identity_def)
  note pb = put_back_keeps [OF k1]
  show "current_process k' \<noteq> None" using k' by simp
  show "same_identity (pcbs k' a) (pcbs k a)" using k' k4 [of a] h [of a] pb(1) [of a] tr by blast
  show "state (pcbs k' a) = (if current_process k' = Some a then STATE_RUNNING
       else if current_process k = Some a \<and> state (pcbs k a) = STATE_RUNNING then STATE_READY else state (pcbs k a))"
    using k' k4 [of a] h [of a] pb(1) [of a] by (auto split: if_splits)
qed

lemma schedule_cases:
  assumes inv: "kernel_inv k tbl rq" and run: "schedule frame k = Some r"
  obtains (switched) k' rq' p where "r = Switched k'" "kernel_inv k' tbl rq'" "current_process k' = Some p"
      "state (pcbs k p) = STATE_READY \<or> current_process k = Some p \<and> state (pcbs k p) = STATE_RUNNING"
  | (idle) "r = Idle k" "rq = []"
proof (cases "requeued k rq")
  case Nil
  then have "rq = []" by (auto simp: requeued_def place_def split: option.splits if_splits)
  with schedule_idle [OF inv Nil, of frame] run idle show ?thesis by simp
next
  case (Cons p rest)
  from schedule_dispatch [OF inv this, of frame] run obtain k' where
    k': "r = Switched k'" "kernel_inv k' tbl rest" "runs k p k'" by (auto split: if_splits)
  have "p \<in> set (requeued k rq)" using Cons by simp
  then have "state (pcbs k p) = STATE_READY \<or> current_process k = Some p \<and> state (pcbs k p) = STATE_RUNNING"
    using kernel_invD(5) [OF inv] by (auto simp: requeued_def place_set split: option.splits if_splits)
  with k' switched show ?thesis by (simp add: runs_def)
qed

lemma yield_before_schedule:
  assumes inv: "kernel_inv k0 tbl rq" and cur: "current_process k0 = Some p" and run: "yield_syscall ret frame k0 = Some r"
  shows "\<exists>k1. schedule frame k1 = Some r \<and> kernel_inv k1 tbl rq \<and> current_process k1 = Some p
    \<and> (\<forall>a. state (pcbs k1 a) = state (pcbs k0 a) \<and> parent (pcbs k1 a) = parent (pcbs k0 a))"
proof -
  from run obtain k where k: "enter ret k0 = Some k" by (auto simp: yield_syscall_def bind_eq_Some_conv)
  note f = enter_frame [OF k]
  have c: "current_process k = Some p" using f(6) cur by simp
  let ?k1 = "upd_pcb p (user_stack_ptr_update (\<lambda>_. unat (ebp k))) k"
  from run k c obtain sp where r: "schedule frame (?k1\<lparr>esp := sp\<rparr>) = Some r"
    by (auto simp: yield_syscall_def Let_def bind_eq_Some_conv)
  have "kernel_inv ?k1 tbl rq" by (rule kernel_inv_upd [OF enter_inv [OF inv k]]) simp
  then have "kernel_inv (?k1\<lparr>esp := sp\<rparr>) tbl rq" by (simp add: kernel_inv_regs)
  moreover have "\<forall>a. state (pcbs (?k1\<lparr>esp := sp\<rparr>) a) = state (pcbs k0 a) \<and> parent (pcbs (?k1\<lparr>esp := sp\<rparr>) a) = parent (pcbs k0 a)"
    by (simp add: f(5))
  moreover have "current_process (?k1\<lparr>esp := sp\<rparr>) = Some p" using c by simp
  ultimately show ?thesis using r by blast
qed

subsection \<open>Creation\<close>

text \<open>A created process starts: A process that \<open>create_process\<close> has made, when the next
  scheduling decision falls on it, enters its entry point with an empty stack of 4096
  bytes, a zero frame pointer, and the given number and priority.\<close>

theorem created_process_starts:
  assumes "kernel_inv k tbl rq" "create_process pd entry_point prio dl ttr k = Some (Some p, k1)"
    and "requeued k1 (place (\<lambda>a. priority (pcbs k1 a)) p rq) = p # rest"
  shows "\<exists>k2. schedule frame k1 = Some (Switched k2) \<and> kernel_inv k2 (p # tbl) rest \<and> running k2 p
    \<and> eip k2 = entry_point \<and> ebp k2 = 0 \<and> esp k2 = user_stack_base (pcbs k2 p) + STACK_SIZE
    \<and> pid (pcbs k2 p) = pd \<and> priority (pcbs k2 p) = prio"
proof -
  note c = create_process_Some [OF assms(1,2)]
  have f: "user_stack_ptr (pcbs k1 p) + 8 \<le> KERNEL_MEMORY_SIZE"
    "user_stack_ptr (pcbs k1 p) = user_stack_base (pcbs k1 p) + 4088"
    "load32 (user_stack_ptr (pcbs k1 p)) (kernel_memory (arena k1)) = 0"
    "load32 (user_stack_ptr (pcbs k1 p) + 4) (kernel_memory (arena k1)) = entry_point"
    "pid (pcbs k1 p) = pd" "priority (pcbs k1 p) = prio"
    using c(3) unfolding fresh_process_def Let_def by blast+
  from schedule_dispatch [OF c(2) assms(3), of frame] f(1) obtain k2 where
    k2: "schedule frame k1 = Some (Switched k2)" "kernel_inv k2 (p # tbl) rest" "runs k1 p k2" by auto
  have "user_stack_base (pcbs k2 p) = user_stack_base (pcbs k1 p)"
    using schedule_keeps_pcbs(1) [OF k2(1), of p] by (simp add: same_identity_def)
  moreover have "running k2 p" "eip k2 = entry_point" "ebp k2 = 0" "esp k2 = user_stack_ptr (pcbs k1 p) + 8"
    "pid (pcbs k2 p) = pd" "priority (pcbs k2 p) = prio"
    using k2(3) f(3-6) by (simp_all add: runs_def running_def)
  ultimately have "esp k2 = user_stack_base (pcbs k2 p) + STACK_SIZE" using f(2) by simp
  with k2(1,2) \<open>running k2 p\<close> \<open>eip k2 = entry_point\<close> \<open>ebp k2 = 0\<close> \<open>pid (pcbs k2 p) = pd\<close> \<open>priority (pcbs k2 p) = prio\<close>
  show ?thesis by blast
qed

theorem created_process_starts_witness:
  "\<exists>k k2. create_process 1 4660 1 2 3 boot_kernel = Some (Some 8, k) \<and> schedule 32 k = Some (Switched k2)
    \<and> running k2 8 \<and> eip k2 = 4660 \<and> pid (pcbs k2 8) = 1"
proof -
  obtain k where k: "create_process 1 4660 1 2 3 boot_kernel = Some (Some 8, k)" "current_process k = None"
    using boot_create by blast
  have "requeued k (place (\<lambda>a. priority (pcbs k a)) 8 []) = [8]" using k(2) by (simp add: requeued_def place_def)
  from created_process_starts [OF booted_inv [OF booted_boot_kernel] k(1) this, of 32] k(1) show ?thesis by blast
qed

subsection \<open>Leaving and waiting\<close>

text \<open>What \<open>exit\<close> does before it calls the scheduler.\<close>

lemma exit_before_schedule:
  assumes inv: "kernel_inv k tbl rq" and c: "running k c"
  shows "\<exists>k2 rq2. exit_syscall st frame k = schedule frame k2 \<and> kernel_inv k2 tbl rq2 \<and> current_process k2 = Some c
    \<and> (\<forall>a. same_identity (pcbs k2 a) ((pcbs k a)\<lparr>exit_status := if a = c then st else exit_status (pcbs k a)\<rparr>)
        \<and> state (pcbs k2 a) = (if a = c then STATE_ZOMBIE
            else if parent (pcbs k c) = Some a \<and> state (pcbs k a) = STATE_BLOCKED then STATE_READY else state (pcbs k a)))"
proof -
  have cur: "current_process k = Some c" "state (pcbs k c) = STATE_RUNNING" using c by (simp_all add: running_def)
  let ?k1 = "upd_pcb c (\<lambda>x. x\<lparr>exit_status := st, state := STATE_ZOMBIE\<rparr>) k"
  have ct: "c \<in> set tbl" using kernel_invD(8) [OF inv cur(1)] .
  have i1: "kernel_inv ?k1 tbl rq" by (rule kernel_inv_stop [OF inv ct]) (simp_all add: cur(2))
  show ?thesis
  proof (cases "\<exists>q. parent (pcbs ?k1 c) = Some q \<and> state (pcbs ?k1 q) = STATE_BLOCKED")
    case True
    then obtain q where q: "parent (pcbs ?k1 c) = Some q" "state (pcbs ?k1 q) = STATE_BLOCKED" by blast
    have qt: "q \<in> set tbl" using kernel_invD(9) [OF i1, of q] q(2) by blast
    have qc: "q \<noteq> c" using q(2) by auto
    have "state (pcbs ?k1 q) \<noteq> STATE_READY" using q(2) by simp
    from make_ready [OF i1 qt this] obtain qq h where
      e: "enqueue_ready q (upd_pcb q (state_update (\<lambda>_. STATE_READY)) ?k1) = Some (?k1\<lparr>ready_queue := qq, pcbs := h\<rparr>)"
      and i2: "kernel_inv (?k1\<lparr>ready_queue := qq, pcbs := h\<rparr>) tbl (place (\<lambda>a. priority (pcbs ?k1 a)) q rq)" by blast
    define k2 where "k2 = ?k1\<lparr>ready_queue := qq, pcbs := h\<rparr>"
    note ek = enqueue_ready_keeps [OF e [folded k2_def]]
    have "exit_syscall st frame k = schedule frame k2"
      unfolding exit_syscall_def cur(1) option.case Let_def q(1) if_P [OF q(2)] e k2_def Option.bind.bind_lunit ..
    moreover have "same_identity (pcbs k2 a) ((pcbs k a)\<lparr>exit_status := if a = c then st else exit_status (pcbs k a)\<rparr>)
        \<and> state (pcbs k2 a) = (if a = c then STATE_ZOMBIE
            else if parent (pcbs k c) = Some a \<and> state (pcbs k a) = STATE_BLOCKED then STATE_READY else state (pcbs k a))" for a
      using ek(1) [of a] q qc by (cases "a = c"; cases "a = q") (simp_all add: same_identity_def)
    moreover have "current_process k2 = Some c" using ek(2) cur(1) by simp
    ultimately show ?thesis using i2 unfolding k2_def by blast
  next
    case False
    then have "(case parent (pcbs ?k1 c) of None \<Rightarrow> Some ?k1
        | Some q \<Rightarrow> if state (pcbs ?k1 q) = STATE_BLOCKED then enqueue_ready q (upd_pcb q (state_update (\<lambda>_. STATE_READY)) ?k1)
            else Some ?k1) = Some ?k1" by (auto split: option.splits simp del: upd_pcb_fields(1))
    then have "exit_syscall st frame k = schedule frame ?k1"
      unfolding exit_syscall_def cur(1) option.case Let_def by (simp only: Option.bind.bind_lunit)
    moreover have "same_identity (pcbs ?k1 a) ((pcbs k a)\<lparr>exit_status := if a = c then st else exit_status (pcbs k a)\<rparr>)
        \<and> state (pcbs ?k1 a) = (if a = c then STATE_ZOMBIE
            else if parent (pcbs k c) = Some a \<and> state (pcbs k a) = STATE_BLOCKED then STATE_READY else state (pcbs k a))" for a
      using False by (cases "a = c") (auto simp: same_identity_def)
    moreover have "current_process ?k1 = Some c" using cur(1) by simp
    ultimately show ?thesis using i1 by blast
  qed
qed

text \<open>C30 (exit). A process whose parent is blocked in \<open>wait\<close> leaves: it stays in the table as a ZOMBIE with
  its status, the parent is woken (READY, or RUNNING when it is chosen), no other process
  changes its state except the one that is dispatched, and the processor is handed on. The
  saved frames of the processes in the table have to lie in the arena.\<close>

theorem exit_wakes_parent:
  assumes "kernel_inv k tbl rq" "running k c" "parent (pcbs k c) = Some q" "state (pcbs k q) = STATE_BLOCKED"
    and "\<forall>a\<in>set tbl. user_stack_ptr (pcbs k a) + 8 \<le> KERNEL_MEMORY_SIZE"
  shows "\<exists>k' rq'. exit_syscall st frame k = Some (Switched k') \<and> kernel_inv k' tbl rq'
    \<and> state (pcbs k' c) = STATE_ZOMBIE \<and> exit_status (pcbs k' c) = st \<and> parent (pcbs k' c) = Some q
    \<and> state (pcbs k' q) = (if current_process k' = Some q then STATE_RUNNING else STATE_READY)
    \<and> (\<forall>a. a \<noteq> c \<and> a \<noteq> q \<and> current_process k' \<noteq> Some a \<longrightarrow> state (pcbs k' a) = state (pcbs k a))"
proof -
  from exit_before_schedule [OF assms(1,2)] obtain k2 rq2 where
    k2: "exit_syscall st frame k = schedule frame k2" "kernel_inv k2 tbl rq2" "current_process k2 = Some c"
    and f: "\<And>a. same_identity (pcbs k2 a) ((pcbs k a)\<lparr>exit_status := if a = c then st else exit_status (pcbs k a)\<rparr>)"
      "\<And>a. state (pcbs k2 a) = (if a = c then STATE_ZOMBIE
            else if parent (pcbs k c) = Some a \<and> state (pcbs k a) = STATE_BLOCKED then STATE_READY else state (pcbs k a))"
    by blast
  have qc: "q \<noteq> c" using assms(2,4) by (auto simp: running_def)
  have rdy: "state (pcbs k2 q) = STATE_READY" using f(2) [of q] assms(3,4) qc by simp
  moreover have "q \<in> set tbl" using kernel_invD(9) [OF assms(1), of q] assms(4) by blast
  ultimately have "rq2 \<noteq> []" using kernel_invD(5) [OF k2(2)] by auto
  then obtain p rest where rq2: "rq2 = p # rest" by (cases rq2) auto
  have "state (pcbs k2 c) = STATE_ZOMBIE" using f(2) [of c] by simp
  then have rq: "requeued k2 (p # rest) = p # rest" using k2(3) by (simp add: requeued_def)
  have p: "p \<in> set tbl" "state (pcbs k2 p) = STATE_READY" using kernel_invD(5) [OF k2(2)] rq2 by auto
  have "user_stack_ptr (pcbs k2 p) + 8 \<le> KERNEL_MEMORY_SIZE" using f(1) [of p] assms(5) p(1) by (simp add: same_identity_def)
  with schedule_dispatch [OF k2(2) [unfolded rq2] rq, of frame] obtain k' where
    k': "schedule frame k2 = Some (Switched k')" "kernel_inv k' tbl rest" "runs k2 p k'" by auto
  note s = schedule_keeps_pcbs [OF k'(1)]
  have cur: "current_process k' = Some p" using k'(3) by (simp add: runs_def)
  have "p \<noteq> c" using p(2) \<open>state (pcbs k2 c) = STATE_ZOMBIE\<close> by auto
  then have "state (pcbs k' c) = STATE_ZOMBIE" using s(2) [of c] f(2) [of c] cur by simp
  moreover have "exit_status (pcbs k' c) = st" "parent (pcbs k' c) = Some q"
    using s(1) [of c] f(1) [of c] assms(3) by (simp_all add: same_identity_def)
  moreover have "state (pcbs k' q) = (if current_process k' = Some q then STATE_RUNNING else STATE_READY)"
    using s(2) [of q] rdy by simp
  moreover have "state (pcbs k' a) = state (pcbs k a)" if "a \<noteq> c \<and> a \<noteq> q \<and> current_process k' \<noteq> Some a" for a
    using that s(2) [of a] f(2) [of a] assms(3) k2(3) by simp
  ultimately show ?thesis using k2(1) k'(1,2) by auto
qed

text \<open>A blocked parent at 4104 and its running child at 8.\<close>

definition family :: kernel where
  "family = boot_kernel\<lparr>
     arena := \<lparr>kernel_memory = (\<lambda>_. 0), page_table = (\<lambda>p. if p < 2 then 1 else 0), last_page_index = 2\<rparr>,
     pcbs := (\<lambda>_. example_pcb)(
       8 := example_pcb\<lparr>pid := 2, state := STATE_RUNNING, parent := Some 4104, next_in_table := Some 4104\<rparr>,
       4104 := example_pcb\<lparr>pid := 1, state := STATE_BLOCKED, user_stack_ptr := 300000\<rparr>),
     process_table_head := Some 8, current_process := Some 8\<rparr>"

lemma family_inv: "kernel_inv family [8, 4104] []" "running family 8"
  "parent (pcbs family 8) = Some 4104" "state (pcbs family 4104) = STATE_BLOCKED"
proof -
  show "running family 8" "parent (pcbs family 8) = Some 4104" "state (pcbs family 4104) = STATE_BLOCKED"
    by (simp_all add: running_def family_def)
  have "pcb_block (arena family) 8" "pcb_block (arena family) 4104"
    unfolding pcb_block_def
    by (rule exI [of _ 0], simp add: family_def sizeof_block_def)
      (rule exI [of _ 1], simp add: family_def sizeof_block_def)
  then show "kernel_inv family [8, 4104] []"
    by (intro kernel_invI)
      (auto simp: family_def example_pcb_def boot_kernel_def init_process_management_def initialize_queue_def
        queue_list_def split: if_splits)
qed

lemma family_exit: "\<exists>k'. exit_syscall 42 0 family = Some (Switched k') \<and> current_process k' = Some 4104"
  by (simp add: exit_syscall_def family_def boot_kernel_def init_process_management_def initialize_queue_def
      enqueue_ready_def enqueue_process_def enqueue_by_def upd_pcb_def set_pcb_def schedule_def put_back_def
      dequeue_process_def resume_def read_word_def Let_def example_pcb_def)

theorem exit_wakes_parent_witness:
  "\<exists>k'. exit_syscall 42 0 family = Some (Switched k') \<and> state (pcbs k' 8) = STATE_ZOMBIE
    \<and> exit_status (pcbs k' 8) = 42 \<and> state (pcbs k' 4104) = STATE_RUNNING"
proof -
  obtain k' where k': "exit_syscall 42 0 family = Some (Switched k')" "current_process k' = Some 4104"
    using family_exit by blast
  have "\<forall>a\<in>set [8, 4104]. user_stack_ptr (pcbs family a) + 8 \<le> KERNEL_MEMORY_SIZE" by (simp add: family_def example_pcb_def)
  from exit_wakes_parent [OF family_inv this, of 42 0] k' show ?thesis by auto
qed

text \<open>How a search for zombies goes on a table, as a function of the table.\<close>

lemma find_zombie_child_total:
  assumes inv: "kernel_inv k tbl rq" and c: "running k par"
  shows "case dropWhile (passed (pcbs k) (pid (pcbs k par))) tbl of
      [] \<Rightarrow> find_zombie_child par k = Some (None, k)
    | c # rest \<Rightarrow> if parent (pcbs k c) = None then find_zombie_child par k = None
        else \<exists>k1. find_zombie_child par k = Some (Some c, k1)"
  using zombie_walk_spec [OF kernel_invD(1) [OF inv], of "pid (pcbs k par)" None]
  by (cases "dropWhile (passed (pcbs k) (pid (pcbs k par))) tbl")
    (simp_all add: find_zombie_child_def Let_def del: dropWhile_eq_Nil_conv)

lemma first_zombie_rest: "first_zombie k tbl par c rest \<Longrightarrow> distinct tbl \<Longrightarrow> rest = remove1 c tbl"
  by (auto simp: first_zombie_def remove1_append)

text \<open>A \<open>wait\<close> that finds no zombie child leaves the caller blocked.\<close>

lemma wait_blocks:
  assumes i: "kernel_inv k tbl rq" and e: "enter ret k0 = Some k"
    and cur: "current_process k = Some par" "state (pcbs k par) = STATE_RUNNING"
    and f: "find_zombie_child par k = Some (None, k)" and w: "wait_syscall ret locals bk frame want k0 = Some r"
  shows "state (pcbs (left_state r) par) = STATE_BLOCKED
    \<and> ((\<exists>k' rq'. r = Switched k' \<and> kernel_inv k' tbl rq') \<or> (\<exists>k'. r = Idle k' \<and> kernel_inv k' tbl []))"
proof -
  let ?k2 = "(upd_pcb par (state_update (\<lambda>_. STATE_BLOCKED)) k)\<lparr>esp := esp k - locals\<rparr>"
  have p: "par \<in> set tbl" "state (pcbs k par) \<noteq> STATE_READY" using kernel_invD(8) [OF i cur(1)] cur(2) by simp_all
  have "kernel_inv (upd_pcb par (state_update (\<lambda>_. STATE_BLOCKED)) k) tbl rq"
    by (rule kernel_inv_stop [OF i p]) simp_all
  then have i2: "kernel_inv ?k2 tbl rq" by (simp add: kernel_inv_regs)
  from w obtain y where y: "yield_syscall bk frame ?k2 = Some y"
    and ry: "(case y of
              Returned u k3 \<Rightarrow> wait_resumed par want k3
            | Switched k3 \<Rightarrow> Some (Switched k3)
            | Idle k3 \<Rightarrow> Some (Idle k3)) = Some r"
    by (auto simp: wait_syscall_def e cur(1) f Let_def bind_eq_Some_conv)
  have c2: "current_process ?k2 = Some par" using cur(1) by simp
  from yield_before_schedule [OF i2 c2 y] obtain k1 where k1: "schedule frame k1 = Some y" "kernel_inv k1 tbl rq"
    "current_process k1 = Some par" "state (pcbs k1 par) = STATE_BLOCKED" by auto
  from k1(2,1) show ?thesis
  proof (cases rule: schedule_cases)
    case (switched k' rq' p)
    then have "p \<noteq> par" using k1(4) by auto
    with schedule_keeps_pcbs(2) [OF k1(1) [unfolded switched(1)], of par] switched(3) k1(4)
    have "state (pcbs k' par) = STATE_BLOCKED" by simp
    with switched ry show ?thesis by auto
  next
    case idle
    with ry k1(2,4) show ?thesis by auto
  qed
qed

text \<open>A blocked process gives the processor away when its stacks and those of the ready processes are in place.\<close>

lemma yield_returns:
  assumes inv: "kernel_inv k tbl rq" and c: "current_process k = Some par" "state (pcbs k par) = STATE_BLOCKED"
    and s: "kernel_stack_ptr (pcbs k par) = Some sp" "8 \<le> esp k" "esp k \<le> KERNEL_MEMORY_SIZE"
    and u: "\<forall>p\<in>set rq. user_stack_ptr (pcbs k p) + 8 \<le> KERNEL_MEMORY_SIZE"
  shows "\<exists>r. yield_syscall ret frame k = Some r"
proof -
  have "4 \<le> esp k" "4 \<le> esp k - 4" "esp k - 4 + 4 \<le> KERNEL_MEMORY_SIZE" "esp k - 4 - 4 + 4 \<le> KERNEL_MEMORY_SIZE"
    using s(2,3) by simp_all
  then have "\<exists>k1. enter ret k = Some k1" by (simp only: enter_def push_def write_word_def if_True) simp
  then obtain k1 where e: "enter ret k = Some k1" by blast
  note f = enter_frame [OF e]
  let ?k2 = "(upd_pcb par (user_stack_ptr_update (\<lambda>_. unat (ebp k1))) k1)\<lparr>esp := sp\<rparr>"
  have "kernel_inv (upd_pcb par (user_stack_ptr_update (\<lambda>_. unat (ebp k1))) k1) tbl rq"
    by (rule kernel_inv_upd [OF enter_inv [OF inv e]]) simp
  then have i: "kernel_inv ?k2 tbl rq" by (simp add: kernel_inv_regs)
  have cur: "current_process ?k2 = Some par" "state (pcbs ?k2 par) = STATE_BLOCKED" using c by (simp_all add: f)
  then have rq: "requeued ?k2 rq = rq" by (simp add: requeued_def)
  have "\<exists>r. schedule frame ?k2 = Some r"
  proof (cases rq)
    case Nil
    with schedule_idle [OF i, of frame] rq show ?thesis by auto
  next
    case (Cons p rest)
    have "par \<notin> set rq" unfolding kernel_invD(5) [OF inv] using c(2) by simp
    then have "p \<noteq> par" using Cons by auto
    then have "user_stack_ptr (pcbs ?k2 p) + 8 \<le> KERNEL_MEMORY_SIZE" using u Cons by (simp add: f)
    with schedule_dispatch [OF i, of p rest frame] rq Cons show ?thesis by auto
  qed
  then show ?thesis using c s(1) by (simp add: yield_syscall_def e f Let_def)
qed

lemma wait_returns:
  assumes i: "kernel_inv k tbl rq" and e: "enter ret k0 = Some k"
    and cur: "current_process k = Some par" "state (pcbs k par) = STATE_RUNNING"
    and f: "find_zombie_child par k = Some (None, k)"
    and s: "kernel_stack_ptr (pcbs k par) \<noteq> None" "locals + 8 \<le> esp k"
      "\<forall>p\<in>set rq. user_stack_ptr (pcbs k p) + 8 \<le> KERNEL_MEMORY_SIZE"
  shows "wait_syscall ret locals bk frame want k0 \<noteq> None"
proof -
  let ?k2 = "(upd_pcb par (state_update (\<lambda>_. STATE_BLOCKED)) k)\<lparr>esp := esp k - locals\<rparr>"
  have p: "par \<in> set tbl" "state (pcbs k par) \<noteq> STATE_READY" using kernel_invD(8) [OF i cur(1)] cur(2) by simp_all
  have "kernel_inv (upd_pcb par (state_update (\<lambda>_. STATE_BLOCKED)) k) tbl rq"
    by (rule kernel_inv_stop [OF i p]) simp_all
  then have i2: "kernel_inv ?k2 tbl rq" by (simp add: kernel_inv_regs)
  from s(1) obtain sp where sp: "kernel_stack_ptr (pcbs ?k2 par) = Some sp" by auto
  have m: "esp k \<le> KERNEL_MEMORY_SIZE" using enter_frame(1-3) [OF e] by simp
  have "par \<notin> set rq" using kernel_invD(5) [OF i] cur(2) by auto
  then have u: "\<forall>p\<in>set rq. user_stack_ptr (pcbs ?k2 p) + 8 \<le> KERNEL_MEMORY_SIZE" using s(3) by auto
  have "current_process ?k2 = Some par" "state (pcbs ?k2 par) = STATE_BLOCKED" "8 \<le> esp ?k2" "esp ?k2 \<le> KERNEL_MEMORY_SIZE"
    using cur(1) s(2) m by simp_all
  from yield_returns [OF i2 this(1,2) sp this(3,4) u] obtain r where y: "yield_syscall bk frame ?k2 = Some r" by blast
  have "r \<noteq> Returned v k3" for v k3
  proof
    assume "r = Returned v k3"
    from yield_before_schedule [OF i2 _ y] cur(1) obtain k1 where k1: "schedule frame k1 = Some r" "kernel_inv k1 tbl rq" by auto
    with schedule_inv(3) [OF k1(2)] \<open>r = _\<close> show False by blast
  qed
  then show ?thesis by (cases r) (auto simp: wait_syscall_def e cur(1) f Let_def y)
qed

text \<open>C29 (wait). \<open>wait\<close> on each of its branches. It looks through the table up to the first zombie child; if
  it meets a process without parent before, it reads through the NULL pointer. A zombie
  child is unlinked and freed, and its number and status are delivered. Otherwise the
  caller is left BLOCKED and the processor is handed on, with nothing taken out of the table;
  this ends whenever the caller has its kernel stack and room on the stack, and the ready
  processes have their saved frames in the arena.\<close>

theorem wait_syscall_correct:
  assumes "kernel_inv k0 tbl rq" "running k0 par" "enter ret k0 = Some k"
  shows "case dropWhile (passed (pcbs k) (pid (pcbs k par))) tbl of
      c # rest \<Rightarrow>
        if parent (pcbs k c) = None then wait_syscall ret locals bk frame want k0 = None
        else (\<exists>k' v. wait_syscall ret locals bk frame want k0 = Some (Returned v k')
          \<and> kernel_inv k' (remove1 c tbl) rq \<and> reaped want k c v k' \<and> running k' par)
    | [] \<Rightarrow>
        (kernel_stack_ptr (pcbs k par) \<noteq> None \<and> locals + 8 \<le> esp k
          \<and> (\<forall>p\<in>set rq. user_stack_ptr (pcbs k p) + 8 \<le> KERNEL_MEMORY_SIZE)
          \<longrightarrow> wait_syscall ret locals bk frame want k0 \<noteq> None)
      \<and> (\<forall>r. wait_syscall ret locals bk frame want k0 = Some r \<longrightarrow>
        state (pcbs (left_state r) par) = STATE_BLOCKED
        \<and> ((\<exists>k' rq'. r = Switched k' \<and> kernel_inv k' tbl rq') \<or> (\<exists>k'. r = Idle k' \<and> kernel_inv k' tbl [])))"
proof -
  note i = enter_inv [OF assms(1,3)] and e = enter_frame [OF assms(3)]
  have cur0: "current_process k0 = Some par" "state (pcbs k0 par) = STATE_RUNNING" using assms(2) by (simp_all add: running_def)
  have cur: "current_process k = Some par" "state (pcbs k par) = STATE_RUNNING" "running k par" using cur0 e by (simp_all add: running_def)
  note t = find_zombie_child_total [OF i cur(3)]
  show ?thesis
  proof (cases "dropWhile (passed (pcbs k) (pid (pcbs k par))) tbl")
    case (Cons c rest)
    show ?thesis
    proof (cases "parent (pcbs k c) = None")
      case True
      then have "find_zombie_child par k = None" using t Cons by simp
      then have "wait_syscall ret locals bk frame want k0 = None" by (simp add: wait_syscall_def assms(3) cur(1))
      then show ?thesis using Cons True by simp
    next
      case False
      then obtain k1 where f: "find_zombie_child par k = Some (Some c, k1)" using t Cons by auto
      from found_or_not [OF i cur(1,2) f, of want] obtain rest' v k' where
        *: "reap want c k1 = Some (Returned v k')" "first_zombie k tbl par c rest'" "kernel_inv k' rest' rq" "reaped want k c v k'"
        by auto
      have "wait_syscall ret locals bk frame want k0 = Some (Returned v k')"
        by (simp add: wait_syscall_def assms(3) cur(1) f *(1))
      moreover have "rest' = remove1 c tbl" by (rule first_zombie_rest [OF *(2) kernel_invD(2) [OF i]])
      moreover have "running k' par" using *(4) cur same_but_tableD [of "pcbs k' par" "pcbs k par"]
        by (simp add: reaped_def running_def)
      ultimately show ?thesis using Cons False *(3,4) by auto
    qed
  next
    case Nil
    then have f: "find_zombie_child par k = Some (None, k)" using t by (simp del: dropWhile_eq_Nil_conv)
    from wait_blocks [OF i assms(3) cur(1,2) f] wait_returns [OF i assms(3) cur(1,2) f] show ?thesis using Nil by (simp del: dropWhile_eq_Nil_conv)
  qed
qed


theorem wait_syscall_correct_witness:
  "\<exists>k'. enter 0 (two_processes 2) = Some k' \<and> wait_syscall 0 0 0 0 True (two_processes 2) = None"
proof -
  obtain k where e: "enter 0 (two_processes 2) = Some k"
    by (simp add: enter_def push_def write_word_def two_processes_def boot_kernel_def init_process_management_def)
  have "\<not> passed (pcbs k) (pid (pcbs k 8)) 8" "parent (pcbs k 8) = None"
    by (simp_all add: passed_def enter_frame(5) [OF e] two_processes_def example_pcb_def)
  with wait_syscall_correct [OF two_processes_inv e, of 0 0 0 True] e show ?thesis by simp
qed

text \<open>The control block of a process that has left, as \<open>exit\<close> leaves it.\<close>

definition has_left :: "addr \<Rightarrow> addr \<Rightarrow> u32 \<Rightarrow> int \<Rightarrow> addr list \<Rightarrow> kernel \<Rightarrow> bool" where
  "has_left c q n st tbl k \<longleftrightarrow>
     c \<in> set tbl \<and> state (pcbs k c) = STATE_ZOMBIE \<and> parent (pcbs k c) = Some q \<and> pid (pcbs k c) = n \<and> exit_status (pcbs k c) = st"

text \<open>
  What either half of \<open>wait\<close> gives the process \<open>q\<close> when the search finds \<open>d\<close>: the first entry of the table that
  has no parent or is a zombie child of \<open>q\<close>. \<open>e\<close> is the state in which the search starts.
\<close>

definition collects :: "bool \<Rightarrow> addr \<Rightarrow> addr list \<Rightarrow> addr list \<Rightarrow> addr \<Rightarrow> kernel \<Rightarrow> (int \<times> int option) outcome option \<Rightarrow> bool" where
  "collects want q tbl rq d e w \<longleftrightarrow>
     (if parent (pcbs e d) = None then w = None
      else \<exists>v k'. w = Some (Returned v k') \<and> reaped want e d v k' \<and> kernel_inv k' (remove1 d tbl) rq \<and> running k' q)"

lemma search_collects:
  assumes i: "kernel_inv e tbl rq" and q: "running e q" and d: "dropWhile (passed (pcbs e) (pid (pcbs e q))) tbl = d # rest"
  shows "collects want q tbl rq d e (wait_resumed q want e)"
    "enter ret k = Some e \<Longrightarrow> collects want q tbl rq d e (wait_syscall ret locals bk frame want k)"
proof -
  have cur: "current_process e = Some q" "state (pcbs e q) = STATE_RUNNING" using q by (simp_all add: running_def)
  note t = find_zombie_child_total [OF i q, unfolded d list.case]
  have "collects want q tbl rq d e (wait_resumed q want e)
    \<and> (enter ret k = Some e \<longrightarrow> collects want q tbl rq d e (wait_syscall ret locals bk frame want k))"
  proof (cases "parent (pcbs e d) = None")
    case True
    with t show ?thesis by (simp add: collects_def wait_resumed_def wait_syscall_def cur(1))
  next
    case False
    with t obtain k1 where f: "find_zombie_child q e = Some (Some d, k1)" by auto
    from found_or_not [OF i cur f, of want] obtain rest' v k' where
      r: "reap want d k1 = Some (Returned v k')" "first_zombie e tbl q d rest'" "kernel_inv k' rest' rq" "reaped want e d v k'" by auto
    have "rest' = remove1 d tbl" by (rule first_zombie_rest [OF r(2) kernel_invD(2) [OF i]])
    moreover have "running k' q" using r(4) cur same_but_tableD [of "pcbs k' q" "pcbs e q"] by (simp add: reaped_def running_def)
    ultimately have "collects want q tbl rq d e (Some (Returned v k'))" using False r by (auto simp: collects_def)
    moreover have "wait_resumed q want e = Some (Returned v k')" by (simp add: wait_resumed_def f r(1))
    moreover have "wait_syscall ret locals bk frame want k = Some (Returned v k')" if "enter ret k = Some e"
      by (simp add: wait_syscall_def that cur(1) f r(1))
    ultimately show ?thesis by simp
  qed
  then show "collects want q tbl rq d e (wait_resumed q want e)"
    "enter ret k = Some e \<Longrightarrow> collects want q tbl rq d e (wait_syscall ret locals bk frame want k)" by blast+
qed

text \<open>The search never misses a child that has left: it stops at it or before it.\<close>

lemma search_stops:
  assumes "has_left c q n st tbl e"
  obtains as d bs where "tbl = as @ d # bs" "\<forall>a\<in>set as. passed (pcbs e) (pid (pcbs e q)) a" "\<not> passed (pcbs e) (pid (pcbs e q)) d"
    "c \<in> set (d # bs)" "dropWhile (passed (pcbs e) (pid (pcbs e q))) tbl = d # bs"
proof -
  let ?P = "passed (pcbs e) (pid (pcbs e q))"
  have c: "c \<in> set tbl" "\<not> ?P c" using assms by (auto simp: has_left_def passed_def zombie_child_def)
  then have "dropWhile ?P tbl \<noteq> []" by auto
  then obtain d bs where d: "dropWhile ?P tbl = d # bs" by (cases "dropWhile ?P tbl") auto
  have t: "tbl = takeWhile ?P tbl @ d # bs" using takeWhile_dropWhile_id [of ?P tbl] by (simp add: d)
  have n: "\<not> ?P d" using hd_dropWhile [of ?P tbl] d by simp
  have a: "\<forall>a\<in>set (takeWhile ?P tbl). ?P a" by (auto dest: set_takeWhileD)
  have "c \<in> set (takeWhile ?P tbl @ d # bs)" using c(1) t by simp
  then have "c \<in> set (d # bs)" using a c(2) by auto
  from that [OF t a n this d] show ?thesis .
qed

text \<open>C17 (a zombie reaches its parent). A process \<open>c\<close> with the parent \<open>q\<close> leaves. From then on it is a ZOMBIE in the table with
  its number and status, whatever happens to the processor. In every later state in which \<open>q\<close> runs and the control block of
  \<open>c\<close> is still as \<open>exit\<close> left it, both halves of \<open>wait\<close> (the one before blocking, when the call fits on the stack,
  and the one after) stop their search at \<open>c\<close> or at an entry \<open>d\<close> in front of it. If \<open>d\<close> has no parent, the code
  reads through its NULL pointer; if \<open>d\<close> is another zombie child of \<open>q\<close>, that child is delivered; and if every entry in front
  of \<open>c\<close> has a parent and is no zombie child of \<open>q\<close>, then \<open>wait\<close> returns the number of \<open>c\<close> and the status that it passed to
  \<open>exit\<close>, takes exactly \<open>c\<close> out of the table and frees its block.\<close>

theorem exit_then_wait:
  assumes "kernel_inv k tbl rq" "running k c" "parent (pcbs k c) = Some q" "exit_syscall st frame k = Some r"
  defines "n \<equiv> pid (pcbs k c)"
  shows "(\<exists>rq1. kernel_inv (left_state r) tbl rq1) \<and> has_left c q n st tbl (left_state r)
    \<and> (\<forall>k' tbl' rq'. kernel_inv k' tbl' rq' \<and> running k' q \<and> has_left c q n st tbl' k' \<longrightarrow>
        (\<exists>as d bs. tbl' = as @ d # bs \<and> (\<forall>a\<in>set as. passed (pcbs k') (pid (pcbs k' q)) a)
          \<and> \<not> passed (pcbs k') (pid (pcbs k' q)) d \<and> (d = c \<or> c \<in> set bs)
          \<and> collects True q tbl' rq' d k' (wait_resumed q True k')
          \<and> (\<forall>ret e locals bk fr. enter ret k' = Some e \<longrightarrow>
              collects True q tbl' rq' d e (wait_syscall ret locals bk fr True k')))
      \<and> ((\<forall>a\<in>set (takeWhile (\<lambda>a. a \<noteq> c) tbl'). passed (pcbs k') (pid (pcbs k' q)) a) \<longrightarrow>
          (\<exists>k''. wait_resumed q True k' = Some (Returned (sint n, Some st) k'') \<and> kernel_inv k'' (remove1 c tbl') rq')
        \<and> (\<forall>ret locals bk fr. enter ret k' \<noteq> None \<longrightarrow>
            (\<exists>k''. wait_syscall ret locals bk fr True k' = Some (Returned (sint n, Some st) k'') \<and> kernel_inv k'' (remove1 c tbl') rq'))))"
proof -
  from exit_before_schedule [OF assms(1,2), of st frame] obtain k2 rq2 where
    k2: "exit_syscall st frame k = schedule frame k2" "kernel_inv k2 tbl rq2" "current_process k2 = Some c"
    and f: "\<And>a. same_identity (pcbs k2 a) ((pcbs k a)\<lparr>exit_status := if a = c then st else exit_status (pcbs k a)\<rparr>)"
      "state (pcbs k2 c) = STATE_ZOMBIE" by force
  have s: "schedule frame k2 = Some r" using assms(4) k2(1) by simp
  have "c \<in> set tbl" using kernel_invD(8) [OF k2(2,3)] .
  then have h2: "has_left c q n st tbl k2" using f(1) [of c] f(2) assms(3) by (simp add: has_left_def same_identity_def n_def)
  have left: "(\<exists>rq1. kernel_inv (left_state r) tbl rq1) \<and> has_left c q n st tbl (left_state r)"
    using k2(2) s
  proof (cases rule: schedule_cases)
    case (switched k' rq' p)
    then have "p \<noteq> c" using f(2) k2(3) by auto
    then show ?thesis using switched h2 schedule_keeps_pcbs(1,2) [OF s [unfolded switched(1)], of c] f(2)
      by (auto simp: has_left_def same_identity_def)
  next
    case idle
    then show ?thesis using k2(2) h2 by auto
  qed
  have later: "(\<exists>as d bs. tbl' = as @ d # bs \<and> (\<forall>a\<in>set as. passed (pcbs k') (pid (pcbs k' q)) a)
          \<and> \<not> passed (pcbs k') (pid (pcbs k' q)) d \<and> (d = c \<or> c \<in> set bs)
          \<and> ((\<forall>a\<in>set (takeWhile (\<lambda>a. a \<noteq> c) tbl'). passed (pcbs k') (pid (pcbs k' q)) a) \<longrightarrow> d = c)
          \<and> collects True q tbl' rq' d k' (wait_resumed q True k')
          \<and> (\<forall>ret e locals bk fr. enter ret k' = Some e \<longrightarrow>
              collects True q tbl' rq' d e (wait_syscall ret locals bk fr True k')))"
    if i: "kernel_inv k' tbl' rq'" and q: "running k' q" and h: "has_left c q n st tbl' k'" for k' tbl' rq'
  proof -
    let ?P = "passed (pcbs k') (pid (pcbs k' q))"
    from search_stops [OF h] obtain as d bs where
      t: "tbl' = as @ d # bs" "\<forall>a\<in>set as. ?P a" "\<not> ?P d" "c \<in> set (d # bs)" "dropWhile ?P tbl' = d # bs" .
    have "d = c" if "\<forall>a\<in>set (takeWhile (\<lambda>a. a \<noteq> c) tbl'). ?P a"
    proof (rule ccontr)
      assume "d \<noteq> c"
      moreover have "c \<notin> set as" using t(2,3,4) h by (auto simp: has_left_def passed_def zombie_child_def)
      then have "takeWhile (\<lambda>a. a \<noteq> c) (as @ d # bs) = as @ takeWhile (\<lambda>a. a \<noteq> c) (d # bs)"
        by (intro takeWhile_append2) auto
      ultimately have "d \<in> set (takeWhile (\<lambda>a. a \<noteq> c) tbl')" by (simp add: t(1))
      with that t(3) show False by blast
    qed
    moreover have "collects True q tbl' rq' d e (wait_syscall ret locals bk fr True k')" if e: "enter ret k' = Some e" for ret e locals bk fr
    proof -
      have "pcbs e = pcbs k'" by (rule enter_frame(5) [OF e])
      moreover have "running e q" using q enter_frame(5,6) [OF e] by (simp add: running_def)
      ultimately show ?thesis using search_collects(2) [OF enter_inv [OF i e] _ _ e] t(5) by simp
    qed
    ultimately show ?thesis using t search_collects(1) [OF i q t(5)] by (intro exI [of _ as] exI [of _ d] exI [of _ bs]) auto
  qed
  have deliver: "\<exists>k''. w = Some (Returned (sint n, Some st) k'') \<and> kernel_inv k'' (remove1 c tbl') rq'"
    if "collects True q tbl' rq' c e w" "pcbs e = pcbs k'" "has_left c q n st tbl' k'" for tbl' rq' e w k'
    using that by (auto simp: collects_def has_left_def reaped_def)
  show ?thesis
  proof (intro conjI allI impI left [THEN conjunct1] left [THEN conjunct2])
    fix k' tbl' rq'
    assume a: "kernel_inv k' tbl' rq' \<and> running k' q \<and> has_left c q n st tbl' k'"
    from later [of k' tbl' rq'] a show "\<exists>as d bs. tbl' = as @ d # bs \<and> (\<forall>a\<in>set as. passed (pcbs k') (pid (pcbs k' q)) a)
          \<and> \<not> passed (pcbs k') (pid (pcbs k' q)) d \<and> (d = c \<or> c \<in> set bs)
          \<and> collects True q tbl' rq' d k' (wait_resumed q True k')
          \<and> (\<forall>ret e locals bk fr. enter ret k' = Some e \<longrightarrow>
              collects True q tbl' rq' d e (wait_syscall ret locals bk fr True k'))" by blast
    assume p: "\<forall>a\<in>set (takeWhile (\<lambda>a. a \<noteq> c) tbl'). passed (pcbs k') (pid (pcbs k' q)) a"
    from later [of k' tbl' rq'] a p have w: "collects True q tbl' rq' c k' (wait_resumed q True k')"
      "\<And>ret e locals bk fr. enter ret k' = Some e \<Longrightarrow> collects True q tbl' rq' c e (wait_syscall ret locals bk fr True k')" by blast+
    show "\<exists>k''. wait_resumed q True k' = Some (Returned (sint n, Some st) k'') \<and> kernel_inv k'' (remove1 c tbl') rq'"
      using deliver [OF w(1) refl] a by blast
    show "\<exists>k''. wait_syscall ret locals bk fr True k' = Some (Returned (sint n, Some st) k'') \<and> kernel_inv k'' (remove1 c tbl') rq'"
      if e: "enter ret k' \<noteq> None" for ret locals bk fr
    proof -
      from e obtain e where "enter ret k' = Some e" by blast
      from deliver [OF w(2) [OF this] enter_frame(5) [OF this]] a show ?thesis by blast
    qed
  qed
qed

theorem exit_then_wait_witness:
  "\<exists>k' k''. exit_syscall 42 0 family = Some (Switched k') \<and> wait_resumed 4104 True k' = Some (Returned (2, Some 42) k'')"
proof -
  obtain k' where k': "exit_syscall 42 0 family = Some (Switched k')" "current_process k' = Some 4104"
    using family_exit by blast
  have n: "pid (pcbs family 8) = 2" by (simp add: family_def)
  note t = exit_then_wait [OF family_inv(1,2,3) k'(1), unfolded n left_state.simps]
  from t [THEN conjunct1] obtain rq where i: "kernel_inv k' [8, 4104] rq" by blast
  from exit_before_schedule [OF family_inv(1,2), of 42 0] obtain k2 where "exit_syscall 42 0 family = schedule 0 k2" by blast
  with k'(1) have "schedule 0 k2 = Some (Switched k')" by simp
  from schedule_keeps_pcbs(2) [OF this] k'(2) have r: "running k' 4104" by (auto simp: running_def)
  have "takeWhile (\<lambda>a. a \<noteq> 8) [8, 4104] = []" by simp
  then have p: "\<forall>a\<in>set (takeWhile (\<lambda>a. a \<noteq> 8) [8, 4104]). passed (pcbs k') (pid (pcbs k' 4104)) a" by simp
  note all = t [THEN conjunct2, THEN conjunct2, rule_format, of k' "[8, 4104]" rq]
  from all [OF conjI [OF i conjI [OF r t [THEN conjunct2, THEN conjunct1]]], THEN conjunct2, THEN mp, OF p, THEN conjunct1]
  have "\<exists>k''. wait_resumed 4104 True k' = Some (Returned (sint (2 :: u32), Some 42) k'')" by blast
  with k'(1) show ?thesis by auto
qed

text \<open>Waiting without a parent: A process that \<open>create_process\<close> has made has no parent. If it calls \<open>wait\<close> while
  none of its children has left, the search reads \<open>current->parent->pid\<close> of the process itself
  through a NULL pointer: \<open>wait\<close> never reaches the point where it would block the caller.\<close>

theorem orphan_wait_faults:
  assumes "kernel_inv k tbl rq" "running k par" "parent (pcbs k par) = None"
    and "\<forall>a\<in>set tbl. \<not> zombie_child (pcbs k) (pid (pcbs k par)) a"
  shows "wait_syscall ret locals bk frame want k = None"
proof (cases "enter ret k")
  case (Some k1)
  note e = enter_frame [OF this]
  have c: "running k1 par" "current_process k1 = Some par" using assms(2) e by (simp_all add: running_def)
  have "par \<in> set tbl" using kernel_invD(8) [OF assms(1)] assms(2) by (simp add: running_def)
  moreover have "\<not> passed (pcbs k1) (pid (pcbs k1 par)) par" using assms(3) e by (simp add: passed_def)
  ultimately obtain d rest where d: "dropWhile (passed (pcbs k1) (pid (pcbs k1 par))) tbl = d # rest"
    by (metis dropWhile_eq_Nil_conv list.exhaust)
  then have "\<not> passed (pcbs k1) (pid (pcbs k1 par)) d" "d \<in> set tbl"
    by (metis hd_dropWhile list.sel(1) list.distinct(1), metis set_dropWhileD list.set_intros(1))
  then have "parent (pcbs k1 d) = None" using assms(4) e by (simp add: passed_def)
  with find_zombie_child_total [OF enter_inv [OF assms(1) Some] c(1)] d have "find_zombie_child par k1 = None" by simp
  then show ?thesis by (simp add: wait_syscall_def Some c(2))
qed (simp add: wait_syscall_def)

theorem orphan_wait_faults_witness: "wait_syscall 0 0 0 0 True (two_processes 2) = None"
  by (rule orphan_wait_faults [OF two_processes_inv])
    (simp_all add: two_processes_def example_pcb_def zombie_child_def)

end
