(* ===== verification/ForkProps.thy ===== *)
theory ForkProps
  imports CallProps
begin

text \<open>
  The properties of \<open>fork_syscall\<close>: what the new process is, where it continues, and the
  field that the code forgets.
\<close>

subsection \<open>The stack of the child\<close>

text \<open>The running process has its frames in the 4096 bytes from \<open>user_stack_base\<close> on.\<close>

definition on_own_stack :: "kernel \<Rightarrow> addr \<Rightarrow> bool" where
  "on_own_stack k p \<longleftrightarrow>
     (\<exists>t. user_stack_base (pcbs k p) = t * PAGE_SIZE + sizeof_block
        \<and> page_table (arena k) t \<noteq> 0 \<and> page_table (arena k) (t + 1) \<noteq> 0)
   \<and> user_stack_base (pcbs k p) + 8 \<le> esp k \<and> esp k \<le> user_stack_base (pcbs k p) + STACK_SIZE"

lemma stack_page:
  fixes t i :: nat
  assumes "i < 4096"
  shows "(t * PAGE_SIZE + sizeof_block + i) div PAGE_SIZE = t \<or> (t * PAGE_SIZE + sizeof_block + i) div PAGE_SIZE = t + 1"
proof (cases "sizeof_block + i < PAGE_SIZE")
  case True
  then show ?thesis by (simp add: add.assoc)
next
  case False
  then have "(t * PAGE_SIZE + sizeof_block + i) div PAGE_SIZE = t + 1"
    using assms by (intro div_nat_eqI) (simp_all add: sizeof_block_def)
  then show ?thesis ..
qed

lemma kmalloc_keeps_stack:
  assumes "kmalloc r m = (m', x)" "page_table m t \<noteq> 0" "page_table m (t + 1) \<noteq> 0" "i < 4096"
  shows "kernel_memory m' (t * PAGE_SIZE + sizeof_block + i) = kernel_memory m (t * PAGE_SIZE + sizeof_block + i)"
  using kmalloc_keeps_bytes(1) [OF assms(1)] stack_page [OF assms(4), of t] assms(2,3) by metis

lemma kmalloc_keeps_marks:
  assumes "kmalloc r m = (m', x)" "page_table m t \<noteq> 0"
  shows "page_table m' t \<noteq> 0"
  using kmalloc_keeps_bytes(2) [OF assms(1), of "t * PAGE_SIZE"] assms(2) by simp

lemma fork_child_stack:
  assumes f: "fork_memory k0 par k child base k'" and e: "enter ret k0 = Some k"
    and s: "on_own_stack k0 par" and c: "cr3 (pcbs k0 par) = 0"
  shows "base + STACK_SIZE \<le> KERNEL_MEMORY_SIZE"
    "user_stack_ptr (pcbs k' child) = base + (esp k0 - 8 - user_stack_base (pcbs k0 par))"
    "i < 4096 \<Longrightarrow> kernel_memory (arena k') (base + i) = kernel_memory (arena k) (user_stack_base (pcbs k0 par) + i)"
proof -
  let ?S = "user_stack_base (pcbs k0 par)"
  from f c obtain m1 m2 m b where m1: "kmalloc sizeof_PCB (arena k) = (m1, Some child)"
    and m2: "kmalloc 4096 m1 = (m2, Some base)" and m: "copy_memory base ?S 4096 m2 = Some m"
    and usp: "user_stack_ptr (pcbs k' child) = unat (of_nat base + (ebp k - of_nat ?S))"
    and m': "kmalloc 4096 m = (arena k', b)" by (auto simp: fork_memory_def)
  from s obtain t where t: "?S = t * PAGE_SIZE + sizeof_block" "page_table (arena k0) t \<noteq> 0"
    "page_table (arena k0) (t + 1) \<noteq> 0" and sb: "?S + 8 \<le> esp k0" "esp k0 \<le> ?S + 4096"
    by (auto simp: on_own_stack_def)
  note fr = enter_frame [OF e]
  have bb: "base + 4096 \<le> KERNEL_MEMORY_SIZE" using m by (simp add: copy_memory_def split: if_splits)
  then show "base + STACK_SIZE \<le> KERNEL_MEMORY_SIZE" by simp
  from kmalloc_stack [OF m2 bb] obtain u where u: "base = u * PAGE_SIZE + sizeof_block"
    "page_table m2 u \<noteq> 0" "page_table m2 (u + 1) \<noteq> 0" "page_table m1 u = 0" "page_table m1 (u + 1) = 0" .
  have t0: "page_table (arena k) t \<noteq> 0" "page_table (arena k) (t + 1) \<noteq> 0" using t(2,3) fr(10) by simp_all
  have t1: "page_table m1 t \<noteq> 0" "page_table m1 (t + 1) \<noteq> 0" using kmalloc_keeps_marks [OF m1] t0 by blast+
  have "t \<noteq> u" "t \<noteq> u + 1" "t + 1 \<noteq> u" using t1 u(4,5) by auto
  then have "u + 2 \<le> t \<or> t + 2 \<le> u" by linarith
  then have "(u + 2) * PAGE_SIZE \<le> t * PAGE_SIZE \<or> (t + 2) * PAGE_SIZE \<le> u * PAGE_SIZE"
    using mult_le_mono1 by blast
  then have "base \<le> ?S \<or> ?S + 4096 \<le> base" by (auto simp: t(1) u(1))
  with m have cm: "kernel_memory m = (\<lambda>x. if base \<le> x \<and> x < base + 4096 then kernel_memory m2 (?S + (x - base)) else kernel_memory m2 x)"
    by (auto simp: copy_memory_def copy_bytes_eq split: if_splits)
  have pm: "page_table m u \<noteq> 0" "page_table m (u + 1) \<noteq> 0" using copy_memory_table [OF m] u(2,3) by simp_all
  show "kernel_memory (arena k') (base + i) = kernel_memory (arena k) (?S + i)" if i: "i < 4096"
  proof -
    have "kernel_memory (arena k') (base + i) = kernel_memory m (base + i)"
      unfolding u(1) by (rule kmalloc_keeps_stack [OF m' pm i])
    also have "\<dots> = kernel_memory m2 (?S + i)" using i by (simp add: cm)
    also have "\<dots> = kernel_memory m1 (?S + i)" unfolding t(1) by (rule kmalloc_keeps_stack [OF m2 t1 i])
    also have "\<dots> = kernel_memory (arena k) (?S + i)" unfolding t(1) by (rule kmalloc_keeps_stack [OF m1 t0 i])
    finally show ?thesis .
  qed
  have "of_nat base + (ebp k - of_nat ?S) = (of_nat (base + (esp k0 - 8 - ?S)) :: u32)"
    using sb by (simp add: fr(4) of_nat_diff)
  moreover have "base + (esp k0 - 8 - ?S) < 2 ^ 32" using bb sb by simp
  ultimately show "user_stack_ptr (pcbs k' child) = base + (esp k0 - 8 - ?S)"
    unfolding usp by (simp only: unat_of_nat) simp
qed

text \<open>The two words that the prologue of \<open>fork_syscall\<close> pushed, on the stack of the child.\<close>

lemma fork_child_context:
  assumes "fork_memory k0 par k child base k'" and e: "enter ret k0 = Some k"
    and s: "on_own_stack k0 par" and "cr3 (pcbs k0 par) = 0"
  shows "load32 (user_stack_ptr (pcbs k' child)) (kernel_memory (arena k')) = ebp k0"
    "load32 (user_stack_ptr (pcbs k' child) + 4) (kernel_memory (arena k')) = ret"
    "user_stack_ptr (pcbs k' child) + 8 \<le> KERNEL_MEMORY_SIZE"
proof -
  note f = fork_child_stack [OF assms]
  let ?S = "user_stack_base (pcbs k0 par)" and ?d = "esp k0 - 8 - user_stack_base (pcbs k0 par)"
  have b: "?S + 8 \<le> esp k0" "esp k0 \<le> ?S + 4096" using s by (simp_all add: on_own_stack_def)
  have w: "load32 (base + (?d + j)) (kernel_memory (arena k')) = load32 (esp k0 - 8 + j) (kernel_memory (arena k))"
    if "j = 0 \<or> j = 4" for j
  proof (rule load32_cong)
    fix i :: nat assume "i < 4"
    then have "?d + j + i < 4096" using b that by auto
    from f(3) [OF this] show "kernel_memory (arena k') (base + (?d + j) + i) = kernel_memory (arena k) (esp k0 - 8 + j + i)"
      using b by (simp add: add.assoc)
  qed
  have p: "8 \<le> esp k0" using enter_frame(1) [OF e] .
  have "load32 (esp k0 - 8) (kernel_memory (arena k)) = ebp k0" by (simp add: enter_frame(12) [OF e] byte_simps)
  with w [of 0] f(2) show "load32 (user_stack_ptr (pcbs k' child)) (kernel_memory (arena k')) = ebp k0" by simp
  have "esp k0 - 8 + 4 = esp k0 - 4" using p by simp
  then have "load32 (esp k0 - 8 + 4) (kernel_memory (arena k)) = ret"
    using p by (simp add: enter_frame(12) [OF e] byte_simps)
  with w [of 4] f(2) show "load32 (user_stack_ptr (pcbs k' child) + 4) (kernel_memory (arena k')) = ret"
    by (simp add: add.assoc)
  show "user_stack_ptr (pcbs k' child) + 8 \<le> KERNEL_MEMORY_SIZE" using f(1,2) b by simp
qed

subsection \<open>\<open>fork\<close> on its branches\<close>

lemma fork_child_runs:
  assumes m: "copy_memory base (user_stack_base (pcbs kk par)) 4096 (arena kk) = Some m"
    and c: "cr3 (pcbs kk par) = 0" and pc: "par \<noteq> child"
    and q: "queue_list (ready_queue kk) (pcbs kk) rq" "child \<notin> set rq"
  shows "\<exists>k'. fork_child par child base kk = Some (sint (pid (pcbs kk child)), k')"
proof -
  define off where "off = (of_nat (user_stack_ptr (pcbs kk par)) - of_nat (user_stack_base (pcbs kk par)) :: u32)"
  define k4 where "k4 = upd_pcb child (user_stack_ptr_update (\<lambda>_. unat (of_nat base + off))) (kk\<lparr>arena := m\<rparr>)"
  define ks where "ks = allocate_kernel_stack child k4"
  define k6 where "k6 = (upd_pcb child (\<lambda>x. x\<lparr>state := STATE_READY, is_new_child := True,
                  next_in_table := process_table_head ks\<rparr>) ks)\<lparr>process_table_head := Some child\<rparr>"
  have c4: "cr3 (pcbs k4 par) = 0" using c pc by (simp add: k4_def)
  have k4id: "k4\<lparr>arena := arena k4\<rparr> = k4" by simp
  obtain m5 b where al: "pcbs ks = set_pcb child (\<lambda>x. x\<lparr>kernel_stack_base := b,
        kernel_stack_ptr := map_option (\<lambda>a. a + STACK_SIZE) b\<rparr>) (pcbs k4)"
    using allocate_kernel_stack_fields(1) [of k4 child] unfolding ks_def by blast
  have nr: "next_ready (pcbs k6 a) = next_ready (pcbs kk a)" if "a \<noteq> child" for a
    using that by (simp add: k6_def al set_pcb_def k4_def)
  have pd: "pid (pcbs k6 child) = pid (pcbs kk child)"
    by (simp add: k6_def al set_pcb_def k4_def)
  have rq: "ready_queue k6 = ready_queue kk" by (simp add: k6_def ks_def allocate_kernel_stack_fields(3) k4_def)
  have "queue_list (ready_queue k6) (pcbs k6) rq"
    unfolding rq by (rule queue_list_cong [OF q(1)]) (use nr q(2) in metis)
  from enqueue_ready_list [OF this q(2)] obtain qq h where
    e: "enqueue_ready child k6 = Some (k6\<lparr>ready_queue := qq, pcbs := h\<rparr>)"
    and sm: "same_but_next (insert child (set rq)) (pcbs k6) h" by blast
  have "pid (pcbs (k6\<lparr>ready_queue := qq, pcbs := h\<rparr>) child) = pid (pcbs kk child)"
    using same_but_nextD(4) [OF sm, of child] pd by simp
  moreover have "fork_child par child base kk
      = Some (sint (pid (pcbs (k6\<lparr>ready_queue := qq, pcbs := h\<rparr>) child)), k6\<lparr>ready_queue := qq, pcbs := h\<rparr>)"
    by (simp only: fork_child_def m Option.bind.bind_lunit Let_def off_def [symmetric] k4_def [symmetric] c4
        simp_thms if_False prod.case option.case k4id ks_def [symmetric] k6_def [symmetric] e)
  ultimately show ?thesis by metis
qed

text \<open>\<open>fork\<close> succeeds while there is room, as it is shown here for the arena after boot.\<close>

lemma fork_runs:
  assumes inv: "kernel_inv k0 tbl rq" and cur: "running k0 par" and e: "enter ret k0 = Some k"
    and u: "unused_from n (arena k0)" "n + 5 < NUM_PAGES"
    and s: "user_stack_base (pcbs k0 par) + STACK_SIZE \<le> KERNEL_MEMORY_SIZE" and c: "cr3 (pcbs k0 par) = 0"
  shows "\<exists>k'. fork_syscall ret k0 = Some (sint (next_pid k0), k')"
proof -
  let ?child = "n * PAGE_SIZE + sizeof_block" and ?base = "(n + 1) * PAGE_SIZE + sizeof_block"
  note f = enter_frame [OF e]
  have cur': "current_process k = Some par" using cur f(6) by (simp add: running_def)
  have pf: "pages_for sizeof_PCB = 1" "pages_for 4096 = 2"
    by (simp_all add: pages_for_def sizeof_PCB_def sizeof_block_def unat_div)
  have uk: "unused_from n (arena k)" using u(1) f(10,11) by (simp add: unused_from_def)
  obtain m1 where m1: "kmalloc sizeof_PCB (arena k) = (m1, Some ?child)" "unused_from (n + 1) m1"
    using kmalloc_unused [OF uk, of sizeof_PCB] u(2) pf by auto
  obtain m2 where m2: "kmalloc 4096 m1 = (m2, Some ?base)" "unused_from (n + 3) m2"
    using kmalloc_unused [OF m1(2), of 4096] u(2) pf by (auto simp: numeral_3_eq_3)
  have child: "?child \<notin> set tbl" using kmalloc_block(2) [OF m1(1)] kernel_invD(6) [OF enter_inv [OF inv e]] by blast
  have pc: "par \<noteq> ?child" using child kernel_invD(8) [OF inv] cur by (auto simp: running_def)
  have prq: "?child \<notin> set rq" using child kernel_invD(5) [OF inv] by auto
  define k1 where "k1 = upd_pcb par (user_stack_ptr_update (\<lambda>_. unat (ebp k))) k"
  define k3 where "k3 = upd_pcb ?child (\<lambda>x. x\<lparr>pid := next_pid k, parent := Some par, priority := priority (pcbs k1 par)\<rparr>)
         (k1\<lparr>arena := m1, next_pid := next_pid k + 1\<rparr>)"
  have k1f: "arena k1 = arena k" "next_pid k1 = next_pid k" by (simp_all add: k1_def)
  have k3a: "arena k3 = m1" by (simp add: k3_def)
  have "fork_syscall ret k0 = fork_child par ?child ?base (k3\<lparr>arena := m2\<rparr>)"
  proof -
    have g: "get_new_pid (k1\<lparr>arena := m1\<rparr>) = (next_pid k, k1\<lparr>arena := m1, next_pid := next_pid k + 1\<rparr>)"
      by (simp add: get_new_pid_def k1f)
    have "priority (pcbs (k1\<lparr>arena := m1, next_pid := next_pid k + 1\<rparr>) par) = priority (pcbs k1 par)" by simp
    then show ?thesis
      by (simp only: fork_syscall_def e Option.bind.bind_lunit cur' option.case Let_def k1_def [symmetric] k1f m1(1) prod.case
          g k3_def [symmetric] k3a m2(1))
  qed
  moreover have "\<exists>k'. fork_child par ?child ?base (k3\<lparr>arena := m2\<rparr>) = Some (sint (next_pid k0), k')"
  proof -
    define kk where "kk = k3\<lparr>arena := m2\<rparr>"
    have kp: "pcbs kk par = (pcbs k0 par)\<lparr>user_stack_ptr := unat (ebp k)\<rparr>" "arena kk = m2"
      "\<And>a. a \<noteq> ?child \<Longrightarrow> next_ready (pcbs kk a) = next_ready (pcbs k0 a)" "pid (pcbs kk ?child) = next_pid k0"
      "ready_queue kk = ready_queue k0"
      using pc by (simp_all add: kk_def k3_def k1_def f(5,7,9))
    obtain m where m: "copy_memory ?base (user_stack_base (pcbs kk par)) 4096 m2 = Some m"
      using s u(2) by (simp add: copy_memory_def kp(1) sizeof_block_def)
    have "queue_list (ready_queue kk) (pcbs kk) rq"
      unfolding kp(5) by (rule queue_list_cong [OF kernel_invD(3) [OF inv]]) (use kp(3) prq in metis)
    moreover have "cr3 (pcbs kk par) = 0" using c kp(1) by simp
    ultimately show ?thesis using fork_child_runs [OF m [folded kp(2)] _ pc _ prq] kp(4) unfolding kk_def by simp
  qed
  ultimately show ?thesis by simp
qed

text \<open>A process at 8 with its stack at 4104, in an arena that is otherwise unused.\<close>

definition lone_process :: kernel where
  "lone_process = boot_kernel\<lparr>
     arena := \<lparr>kernel_memory = (\<lambda>_. 0), page_table = (\<lambda>p. if p < 2 then 1 else if p = 2 then 2 else 0), last_page_index = 3\<rparr>,
     pcbs := (\<lambda>_. example_pcb)(8 := example_pcb\<lparr>pid := 1, state := STATE_RUNNING, user_stack_base := 4104,
       kernel_stack_ptr := Some 200000\<rparr>),
     process_table_head := Some 8, current_process := Some 8, next_pid := 2, esp := 8000\<rparr>"

lemma lone_process_inv: "kernel_inv lone_process [8] []" "running lone_process 8" "on_own_stack lone_process 8"
proof -
  show "running lone_process 8" by (simp add: running_def lone_process_def)
  show "on_own_stack lone_process 8"
    unfolding on_own_stack_def
    by (intro conjI exI [of _ 1]) (simp_all add: lone_process_def sizeof_block_def)
  have "pcb_block (arena lone_process) 8"
    unfolding pcb_block_def by (rule exI [of _ 0]) (simp add: lone_process_def sizeof_block_def)
  then show "kernel_inv lone_process [8] []"
    by (intro kernel_invI)
      (auto simp: lone_process_def example_pcb_def boot_kernel_def init_process_management_def initialize_queue_def
        queue_list_def split: if_splits)
qed

lemma lone_process_forks: "\<exists>k'. fork_syscall 77 lone_process = Some (2, k')"
proof -
  obtain k where e: "enter 77 lone_process = Some k"
    by (simp add: enter_def push_def write_word_def lone_process_def boot_kernel_def init_process_management_def)
  have "unused_from 3 (arena lone_process)" by (simp add: unused_from_def lone_process_def)
  from fork_runs [OF lone_process_inv(1,2) e this] show ?thesis
    by (simp add: lone_process_def example_pcb_def)
qed

lemma fork_running:
  assumes "kernel_inv k0 tbl rq" "running k0 par" "fork_syscall ret k0 = Some (r, k')"
  shows "running k' par"
proof -
  have "current_process k0 = Some par" "state (pcbs k0 par) = STATE_RUNNING" using assms(2) by (simp_all add: running_def)
  from fork_outcome [OF assms(1) this(1) assms(3)] this(2) show ?thesis
    by (elim disjE exE conjE) (simp_all add: forked_def running_def)
qed

text \<open>What a call of \<open>fork\<close> that comes to its end has done.\<close>

lemma fork_result:
  assumes "kernel_inv k0 tbl rq" "running k0 par" "fork_syscall ret k0 = Some (r, k')"
  shows "running k' par \<and> (r = -1 \<and> kernel_inv k' tbl rq \<or>
    (\<exists>child. child \<notin> set tbl \<and> r = sint (next_pid k0) \<and> pid (pcbs k' child) = next_pid k0 \<and> next_pid k' = next_pid k0 + 1
       \<and> parent (pcbs k' child) = Some par \<and> priority (pcbs k' child) = priority (pcbs k0 par)
       \<and> kernel_inv k' (child # tbl) (place (\<lambda>a. priority (pcbs k' a)) child rq)))"
proof -
  have cur: "current_process k0 = Some par" "state (pcbs k0 par) = STATE_RUNNING" using assms(2) by (simp_all add: running_def)
  from fork_outcome [OF assms(1) cur(1) assms(3)] show ?thesis
  proof
    assume "r = -1 \<and> kernel_inv k' tbl rq \<and> current_process k' = Some par \<and> state (pcbs k' par) = state (pcbs k0 par)"
    then show ?thesis using cur(2) by (simp add: running_def)
  next
    assume "\<exists>k child base. enter ret k0 = Some k \<and> child \<notin> set tbl \<and> r = sint (pid (pcbs k' child))
       \<and> kernel_inv k' (child # tbl) (place (\<lambda>a. priority (pcbs k' a)) child rq)
       \<and> forked k0 par child k' \<and> fork_memory k0 par k child base k'"
    then obtain child where c: "child \<notin> set tbl" "r = sint (pid (pcbs k' child))"
      "kernel_inv k' (child # tbl) (place (\<lambda>a. priority (pcbs k' a)) child rq)" and f: "forked k0 par child k'" by blast
    have "running k' par" "r = sint (next_pid k0)" "pid (pcbs k' child) = next_pid k0" "next_pid k' = next_pid k0 + 1"
      "parent (pcbs k' child) = Some par" "priority (pcbs k' child) = priority (pcbs k0 par)"
      using f c(2) cur(2) by (simp_all add: forked_def running_def)
    with c(1,3) show ?thesis by blast
  qed
qed

text \<open>C28 (fork). \<open>fork\<close> either fails with -1 and leaves the table and the queue as they were, or puts
  one new READY process in front of the table and behind its equals in the queue, with a fresh
  number, the priority of the caller and the caller as its parent; the caller stays the
  running process and receives the number of the child. It succeeds whenever the pages behind the
  last allocation are free and the caller runs on a stack in the arena without page tables.\<close>

theorem fork_syscall_correct:
  assumes "kernel_inv k0 tbl rq" "running k0 par"
  shows "(\<forall>r k'. fork_syscall ret k0 = Some (r, k') \<longrightarrow> running k' par \<and> (r = -1 \<and> kernel_inv k' tbl rq \<or>
      (\<exists>child. child \<notin> set tbl \<and> r = sint (next_pid k0) \<and> pid (pcbs k' child) = next_pid k0 \<and> next_pid k' = next_pid k0 + 1
         \<and> parent (pcbs k' child) = Some par \<and> priority (pcbs k' child) = priority (pcbs k0 par)
         \<and> kernel_inv k' (child # tbl) (place (\<lambda>a. priority (pcbs k' a)) child rq))))
    \<and> (\<forall>n. enter ret k0 \<noteq> None \<and> unused_from n (arena k0) \<and> n + 5 < NUM_PAGES
         \<and> user_stack_base (pcbs k0 par) + STACK_SIZE \<le> KERNEL_MEMORY_SIZE \<and> cr3 (pcbs k0 par) = 0
       \<longrightarrow> (\<exists>k'. fork_syscall ret k0 = Some (sint (next_pid k0), k')))"
proof (intro conjI allI impI)
  fix n
  assume n: "enter ret k0 \<noteq> None \<and> unused_from n (arena k0) \<and> n + 5 < NUM_PAGES
         \<and> user_stack_base (pcbs k0 par) + STACK_SIZE \<le> KERNEL_MEMORY_SIZE \<and> cr3 (pcbs k0 par) = 0"
  then obtain k where "enter ret k0 = Some k" by blast
  from fork_runs [OF assms this] n show "\<exists>k'. fork_syscall ret k0 = Some (sint (next_pid k0), k')" by blast
qed (use fork_result [OF assms] in blast)+

theorem fork_syscall_correct_witness:
  "\<exists>k' child. fork_syscall 77 lone_process = Some (2, k') \<and> running k' 8
    \<and> kernel_inv k' [child, 8] [child] \<and> parent (pcbs k' child) = Some 8 \<and> pid (pcbs k' child) = 2"
proof -
  obtain k' where k': "fork_syscall 77 lone_process = Some (2, k')" using lone_process_forks by blast
  have "next_pid lone_process = 2" by (simp add: lone_process_def)
  note t = fork_syscall_correct [OF lone_process_inv(1,2), THEN conjunct1, rule_format, OF k']
  have ne: "(2::int) \<noteq> -1" by simp
  from t [THEN conjunct2] ne obtain child where
    "kernel_inv k' (child # [8]) (place (\<lambda>a. priority (pcbs k' a)) child [])"
    "parent (pcbs k' child) = Some 8" "pid (pcbs k' child) = next_pid lone_process" by blast
  with k' t [THEN conjunct1] \<open>next_pid lone_process = 2\<close> show ?thesis
    by (intro exI [of _ k'] exI [of _ child]) (simp add: place_def)
qed

lemma two_stores:
  assumes "8 \<le> a" "x < a - 8 \<or> a \<le> x"
  shows "store32 (a - 8) v (store32 (a - 4) w m) x = m x"
proof -
  have "x \<noteq> a - 8" "x \<noteq> a - 8 + 1" "x \<noteq> a - 8 + 2" "x \<noteq> a - 8 + 3"
    "x \<noteq> a - 4" "x \<noteq> a - 4 + 1" "x \<noteq> a - 4 + 2" "x \<noteq> a - 4 + 3" using assms by linarith+
  then show ?thesis by (simp only: store32_def fun_upd_apply if_False)
qed

lemma fork_stack_pointer:
  assumes f: "fork_memory k0 par k child base k'" and e: "enter ret k0 = Some k"
  shows "user_stack_ptr (pcbs k' child) = unat (of_nat base + (of_nat (esp k0 - 8) - of_nat (user_stack_base (pcbs k0 par))) :: u32)"
    "user_stack_base (pcbs k0 par) = 0 \<Longrightarrow> user_stack_ptr (pcbs k' child) = base + (esp k0 - 8)"
proof -
  note fr = enter_frame [OF e]
  have p: "user_stack_ptr (pcbs k' child) = unat (of_nat base + (ebp k - of_nat (user_stack_base (pcbs k0 par))))"
    and b: "base + 4096 \<le> KERNEL_MEMORY_SIZE" using f by (auto simp: fork_memory_def copy_memory_def split: if_splits)
  show g: "user_stack_ptr (pcbs k' child) = unat (of_nat base + (of_nat (esp k0 - 8) - of_nat (user_stack_base (pcbs k0 par))) :: u32)"
    unfolding p by (simp add: fr(4))
  assume "user_stack_base (pcbs k0 par) = 0"
  then have "user_stack_ptr (pcbs k' child) = unat (of_nat (base + (esp k0 - 8)) :: u32)" unfolding g by simp
  moreover have "base + (esp k0 - 8) < 2 ^ 32" using b fr(2) by simp
  ultimately show "user_stack_ptr (pcbs k' child) = base + (esp k0 - 8)" by (simp only: unat_of_nat) simp
qed

text \<open>
  The child as \<open>fork\<close> leaves it when the caller \<open>par\<close> had the stack pointer \<open>s\<close> and its control block the stack
  base \<open>b\<close>: a READY new process whose stack pointer lies in its block \<open>base\<close> as far behind the start of the block as
  the one of the caller behind \<open>b\<close>.
\<close>

definition new_child :: "addr \<Rightarrow> addr \<Rightarrow> addr \<Rightarrow> nat \<Rightarrow> kernel \<Rightarrow> addr \<Rightarrow> bool" where
  "new_child par base b s k child \<longleftrightarrow>
     state (pcbs k child) = STATE_READY \<and> is_new_child (pcbs k child) \<and> parent (pcbs k child) = Some par
   \<and> priority (pcbs k child) = priority (pcbs k par)
   \<and> user_stack_ptr (pcbs k child) = unat (of_nat base + (of_nat (s - 8) - of_nat b) :: u32)"

text \<open>C27 (the child returns from \<open>fork\<close> too). A \<open>fork\<close> that succeeds makes a READY new process with a block of 4096 bytes
  for its stack. Whenever it is dispatched for the first time, in whatever state this happens, it continues with the
  result 0 at the two words that its stack pointer then names (if they lie in the arena). If the caller has no page tables and
  runs on the stack that its control block names, as a process made by \<open>create_process\<close> does, then the block holds a copy of all
  4096 bytes of the caller's stack, the two words are the frame pointer and the return address of the caller's call,
  and the child, unless somebody has written to these 8 bytes in between, continues where the caller does, with the stack pointer
  at the same offset in the copy, and with the frame pointer of the caller, not moved to the copy. If the control
  block of the caller names no stack, as the one of a forked child, the child's stack pointer is set beyond its block
  as soon as the caller's own one is not among the first 4104 bytes of the arena.\<close>

theorem fork_child_resumes:
  assumes "kernel_inv k0 tbl rq" "running k0 par" "fork_syscall ret k0 = Some (r, k1)" "r \<noteq> -1"
  defines "b \<equiv> user_stack_base (pcbs k0 par)"
  defines "own \<equiv> on_own_stack k0 par \<and> cr3 (pcbs k0 par) = 0"
  shows "\<exists>child base. r = sint (pid (pcbs k1 child)) \<and> child \<notin> set tbl \<and> new_child par base b (esp k0) k1 child
    \<and> kernel_inv k1 (child # tbl) (place (\<lambda>a. priority (pcbs k1 a)) child rq)
    \<and> (own \<longrightarrow> (\<forall>i<4096. b + i < esp k0 - 8 \<or> esp k0 \<le> b + i \<longrightarrow>
        kernel_memory (arena k1) (base + i) = kernel_memory (arena k0) (b + i)))
    \<and> (\<forall>k tbl' rq' rest frame. kernel_inv k tbl' rq' \<and> requeued k rq' = child # rest \<and> is_new_child (pcbs k child)
          \<and> user_stack_ptr (pcbs k child) = user_stack_ptr (pcbs k1 child) \<longrightarrow>
        (if user_stack_ptr (pcbs k1 child) + 8 \<le> KERNEL_MEMORY_SIZE
         then \<exists>k2. schedule frame k = Some (Switched k2) \<and> running k2 child \<and> eax k2 = 0
          \<and> ebp k2 = load32 (user_stack_ptr (pcbs k1 child)) (kernel_memory (arena k))
          \<and> eip k2 = load32 (user_stack_ptr (pcbs k1 child) + 4) (kernel_memory (arena k))
          \<and> (own \<and> (\<forall>i<8. kernel_memory (arena k) (user_stack_ptr (pcbs k1 child) + i)
                = kernel_memory (arena k1) (user_stack_ptr (pcbs k1 child) + i)) \<longrightarrow>
              eip k2 = ret \<and> ebp k2 = ebp k0 \<and> esp k2 = base + (esp k0 - b))
         else \<not> own \<and> schedule frame k = None))
    \<and> (b = 0 \<and> 4104 \<le> esp k0 \<longrightarrow> base + STACK_SIZE \<le> user_stack_ptr (pcbs k1 child))"
proof -
  have cur: "current_process k0 = Some par" using assms(2) by (simp add: running_def)
  from fork_outcome [OF assms(1) cur assms(3)] assms(4) obtain k' child base where
    e: "enter ret k0 = Some k'" and c: "child \<notin> set tbl" "r = sint (pid (pcbs k1 child))"
    and i: "kernel_inv k1 (child # tbl) (place (\<lambda>a. priority (pcbs k1 a)) child rq)"
    and f: "forked k0 par child k1" and m: "fork_memory k0 par k' child base k1" by blast
  let ?u = "user_stack_ptr (pcbs k1 child)"
  note sp = fork_stack_pointer [OF m e, folded b_def]
  have st: "?u = base + (esp k0 - 8 - b)" "\<And>i. i < 4096 \<Longrightarrow> kernel_memory (arena k1) (base + i) = kernel_memory (arena k') (b + i)"
    and cx: "load32 ?u (kernel_memory (arena k1)) = ebp k0" "load32 (?u + 4) (kernel_memory (arena k1)) = ret" "?u + 8 \<le> KERNEL_MEMORY_SIZE"
    and up: "b + 8 \<le> esp k0" if own
    using that fork_child_stack(2,3) [OF m e] fork_child_context [OF m e] by (simp_all add: own_def b_def on_own_stack_def)
  have "new_child par base b (esp k0) k1 child" using f sp(1) by (simp add: new_child_def forked_def)
  moreover have "kernel_memory (arena k1) (base + j) = kernel_memory (arena k0) (b + j)"
    if o: own and j: "j < 4096" "b + j < esp k0 - 8 \<or> esp k0 \<le> b + j" for j
    unfolding st(2) [OF o j(1)] enter_frame(12) [OF e] by (rule two_stores [OF enter_frame(1) [OF e]]) (use j(2) in auto)
  moreover have "if ?u + 8 \<le> KERNEL_MEMORY_SIZE
         then \<exists>k2. schedule frame k = Some (Switched k2) \<and> running k2 child \<and> eax k2 = 0
          \<and> ebp k2 = load32 ?u (kernel_memory (arena k)) \<and> eip k2 = load32 (?u + 4) (kernel_memory (arena k))
          \<and> (own \<and> (\<forall>i<8. kernel_memory (arena k) (?u + i) = kernel_memory (arena k1) (?u + i)) \<longrightarrow>
              eip k2 = ret \<and> ebp k2 = ebp k0 \<and> esp k2 = base + (esp k0 - b))
         else \<not> own \<and> schedule frame k = None"
    if l: "kernel_inv k tbl' rq' \<and> requeued k rq' = child # rest \<and> is_new_child (pcbs k child)
          \<and> user_stack_ptr (pcbs k child) = ?u" for k tbl' rq' rest frame
  proof (cases "?u + 8 \<le> KERNEL_MEMORY_SIZE")
    case False
    then have "\<not> own" using cx(3) by blast
    with schedule_dispatch [of k tbl' rq' child rest frame] l False show ?thesis by simp
  next
    case True
    with schedule_dispatch [of k tbl' rq' child rest frame] l obtain k2 where
      k2: "schedule frame k = Some (Switched k2)" "runs k child k2" by auto
    have q: "running k2 child" "eax k2 = 0" "ebp k2 = load32 ?u (kernel_memory (arena k))"
      "eip k2 = load32 (?u + 4) (kernel_memory (arena k))" "esp k2 = ?u + 8"
      using k2(2) l unfolding runs_def running_def by simp_all
    have "eip k2 = ret \<and> ebp k2 = ebp k0 \<and> esp k2 = base + (esp k0 - b)"
      if o: own and w: "\<forall>i<8. kernel_memory (arena k) (?u + i) = kernel_memory (arena k1) (?u + i)"
    proof -
      have "load32 ?u (kernel_memory (arena k)) = load32 ?u (kernel_memory (arena k1))"
        by (rule load32_cong) (use w in simp)
      moreover have "load32 (?u + 4) (kernel_memory (arena k)) = load32 (?u + 4) (kernel_memory (arena k1))"
        by (rule load32_cong) (use w in \<open>simp add: add.assoc\<close>)
      moreover have "esp k2 = base + (esp k0 - b)" using q(5) st(1) [OF o] up [OF o] by simp
      ultimately show ?thesis using q(3,4) cx(1,2) [OF o] by simp
    qed
    with True k2(1) q(1-4) show ?thesis by auto
  qed
  moreover have "base + STACK_SIZE \<le> ?u" if "b = 0 \<and> 4104 \<le> esp k0" using sp(2) that by auto
  ultimately show ?thesis using c i by blast
qed

theorem fork_child_resumes_witness:
  "\<exists>k1 k2 child. fork_syscall 77 lone_process = Some (2, k1) \<and> schedule 0 k1 = Some (Switched k2)
    \<and> running k2 child \<and> child \<noteq> 8 \<and> eip k2 = 77 \<and> eax k2 = 0"
proof -
  obtain k1 where k1: "fork_syscall 77 lone_process = Some (2, k1)" using lone_process_forks by blast
  have c: "on_own_stack lone_process 8 \<and> cr3 (pcbs lone_process 8) = 0"
    using lone_process_inv(3) by (simp add: lone_process_def example_pcb_def)
  have ne: "(2::int) \<noteq> -1" by simp
  have r: "running k1 8" by (rule fork_running [OF lone_process_inv(1,2) k1])
  from fork_child_resumes [OF lone_process_inv(1,2) k1 ne] show ?thesis
  proof (elim exE conjE, goal_cases)
    case (1 child base)
    have n: "is_new_child (pcbs k1 child)" "priority (pcbs k1 child) = priority (pcbs k1 8)" using 1(3) by (simp_all add: new_child_def)
    have q: "requeued k1 (place (\<lambda>a. priority (pcbs k1 a)) child []) = child # [8]"
      using n(2) r by (simp add: requeued_def place_def running_def)
    note s = 1(6) [THEN spec [of _ k1], THEN spec [of _ "child # [8]"], THEN spec [of _ "place (\<lambda>a. priority (pcbs k1 a)) child []"],
      THEN spec [of _ "[8]"], THEN spec [of _ 0], THEN mp, OF conjI [OF 1(4) conjI [OF q conjI [OF n(1) refl]]]]
    have "\<exists>k2. schedule 0 k1 = Some (Switched k2) \<and> running k2 child \<and> eip k2 = 77 \<and> eax k2 = 0"
    proof (cases "user_stack_ptr (pcbs k1 child) + 8 \<le> KERNEL_MEMORY_SIZE")
      case True
      from s [unfolded if_P [OF True]] c show ?thesis by blast
    next
      case False
      from s [unfolded if_not_P [OF False]] c show ?thesis by blast
    qed
    with k1 1(2) show ?thesis by auto
  qed
qed

text \<open>A forgotten field: \<open>fork\<close> never sets \<open>user_stack_base\<close> of the child: the field keeps what the block
  held before. On a block of zeroed memory it is NULL, and then the child is not on the stack
  that its control block names, in any later state that keeps the field: its own \<open>fork\<close> will
  copy 4096 bytes from address 0 instead of its stack.\<close>

theorem fork_forgets_stack_base:
  assumes "kernel_inv k0 tbl rq" "running k0 par" "fork_syscall ret k0 = Some (r, k1)" "r \<noteq> -1"
  shows "\<exists>child. process_table_head k1 = Some child \<and> user_stack_base (pcbs k1 child) = user_stack_base (pcbs k0 child)
    \<and> (user_stack_base (pcbs k0 child) = 0 \<longrightarrow>
        (\<forall>k. user_stack_base (pcbs k child) = user_stack_base (pcbs k1 child) \<longrightarrow> \<not> on_own_stack k child))"
proof -
  have cur: "current_process k0 = Some par" using assms(2) by (simp add: running_def)
  from fork_outcome [OF assms(1) cur assms(3)] assms(4) obtain child where
    i: "kernel_inv k1 (child # tbl) (place (\<lambda>a. priority (pcbs k1 a)) child rq)" and f: "forked k0 par child k1" by blast
  have "process_table_head k1 = Some child" using kernel_invD(1) [OF i] by simp
  moreover have "user_stack_base (pcbs k1 child) = user_stack_base (pcbs k0 child)" using f by (simp add: forked_def)
  ultimately show ?thesis by (auto simp: on_own_stack_def sizeof_block_def)
qed

theorem fork_forgets_stack_base_witness:
  "\<exists>k1 child. fork_syscall 77 lone_process = Some (2, k1) \<and> process_table_head k1 = Some child \<and> \<not> on_own_stack k1 child"
proof -
  obtain k1 where k1: "fork_syscall 77 lone_process = Some (2, k1)" using lone_process_forks by blast
  have ne: "(2::int) \<noteq> -1" by simp
  from fork_forgets_stack_base [OF lone_process_inv(1,2) k1 ne] obtain child where
    c: "process_table_head k1 = Some child" "user_stack_base (pcbs k1 child) = user_stack_base (pcbs lone_process child)"
      and z: "user_stack_base (pcbs lone_process child) = 0 \<longrightarrow>
        (\<forall>k. user_stack_base (pcbs k child) = user_stack_base (pcbs k1 child) \<longrightarrow> \<not> on_own_stack k child)"
    by (elim exE conjE)
  have "child \<noteq> 8"
  proof
    assume "child = 8"
    have cur: "current_process lone_process = Some 8" using lone_process_inv(2) by (simp add: running_def)
    from fork_outcome [OF lone_process_inv(1) cur k1] ne obtain ch where
      "ch \<notin> set [8]" "kernel_inv k1 (ch # [8]) (place (\<lambda>a. priority (pcbs k1 a)) ch [])"
      by blast
    with kernel_invD(1) [OF this(2)] c(1) \<open>child = 8\<close> show False by simp
  qed
  then have "user_stack_base (pcbs lone_process child) = 0" by (simp add: lone_process_def example_pcb_def)
  with z have "\<not> on_own_stack k1 child" by simp
  with c(1) k1 show ?thesis by blast
qed

end
