(* ===== verification/WaitProps.thy ===== *)
theory WaitProps
  imports ForkProps
begin

text \<open>
  What \<open>wait\<close> can do at all. \<open>memory_init\<close> clears the arena, so that the first process of a kernel has the parent NULL, and
  \<open>create_process\<close> does not set the field; this process is the last entry of the table, \<open>fork\<close> and \<open>create_process\<close> put
  new entries in front of it, and a search for zombies can neither pass nor unlink it. So no search ever comes to the end
  of the table, and the part of \<open>wait_syscall\<close> that blocks the caller is never reached.
\<close>

subsection \<open>What the operations do to parents\<close>

text \<open>Parents stay, and nobody becomes blocked.\<close>

definition keeps_roots :: "kernel \<Rightarrow> kernel \<Rightarrow> bool" where
  "keeps_roots k k' \<longleftrightarrow>
     (\<forall>a. parent (pcbs k' a) = parent (pcbs k a) \<and> (state (pcbs k' a) = STATE_BLOCKED \<longrightarrow> state (pcbs k a) = STATE_BLOCKED))"

lemma keeps_roots_trans [trans]: "keeps_roots k k1 \<Longrightarrow> keeps_roots k1 k2 \<Longrightarrow> keeps_roots k k2"
  unfolding keeps_roots_def by metis









subsection \<open>The root of the table\<close>













end
