(* ===== verification/RBTree.thy ===== *)
theory RBTree
  imports Prelude "HOL-Library.Monad_Syntax"
begin

text \<open>
  \<open>process/rbtree.c\<close> and the inline functions of \<open>rbtree.h\<close>: nodes with parent links on a heap,
  rotations, and the two repairs. A dereference of NULL is the result \<open>None\<close>; so is a loop
  that does not end.
\<close>

record rb_node =
  rb_left :: ptr
  rb_right :: ptr
  rb_parent :: ptr
  rb_red :: bool

text \<open>The nodes in memory and the pointer \<open>root->rb_node\<close>.\<close>

record rb_tree =
  nodes :: "addr \<Rightarrow> rb_node"
  rb_root :: ptr

definition set_node :: "addr \<Rightarrow> (rb_node \<Rightarrow> rb_node) \<Rightarrow> rb_tree \<Rightarrow> rb_tree" where
  "set_node a f s = s\<lparr>nodes := (nodes s)(a := f (nodes s a))\<rparr>"

text \<open>\<open>x && x->rb_red\<close>, and an assignment to \<open>x->rb_red\<close> under the test \<open>x\<close>.\<close>

definition is_red :: "ptr \<Rightarrow> rb_tree \<Rightarrow> bool" where
  "is_red x s \<longleftrightarrow> (case x of None \<Rightarrow> False | Some a \<Rightarrow> rb_red (nodes s a))"

definition paint_if :: "bool \<Rightarrow> ptr \<Rightarrow> rb_tree \<Rightarrow> rb_tree" where
  "paint_if c x s = (case x of None \<Rightarrow> s | Some a \<Rightarrow> set_node a (rb_red_update (\<lambda>_. c)) s)"

abbreviation paint_node :: "addr \<Rightarrow> bool \<Rightarrow> rb_tree \<Rightarrow> rb_tree" where
  "paint_node a c \<equiv> set_node a (rb_red_update (\<lambda>_. c))"

subsection \<open>Rotations\<close>

definition rb_rotate_left :: "addr \<Rightarrow> rb_tree \<Rightarrow> rb_tree option" where
  "rb_rotate_left node s = do {
     right \<leftarrow> rb_right (nodes s node);
     let parent = rb_parent (nodes s node);
     let middle = rb_left (nodes s right);
     let s1 = set_node node (rb_right_update (\<lambda>_. middle)) s;
     let s2 = (case middle of None \<Rightarrow> s1 | Some m \<Rightarrow> set_node m (rb_parent_update (\<lambda>_. Some node)) s1);
     let s3 = set_node right (rb_left_update (\<lambda>_. Some node)) s2;
     let s4 = set_node node (rb_parent_update (\<lambda>_. Some right)) s3;
     let s5 = set_node right (rb_parent_update (\<lambda>_. parent)) s4;
     Some (case parent of
         None \<Rightarrow> s5\<lparr>rb_root := Some right\<rparr>
       | Some p \<Rightarrow>
           if rb_left (nodes s5 p) = Some node
           then set_node p (rb_left_update (\<lambda>_. Some right)) s5
           else set_node p (rb_right_update (\<lambda>_. Some right)) s5)
   }"

definition rb_rotate_right :: "addr \<Rightarrow> rb_tree \<Rightarrow> rb_tree option" where
  "rb_rotate_right node s = do {
     left \<leftarrow> rb_left (nodes s node);
     let parent = rb_parent (nodes s node);
     let middle = rb_right (nodes s left);
     let s1 = set_node node (rb_left_update (\<lambda>_. middle)) s;
     let s2 = (case middle of None \<Rightarrow> s1 | Some m \<Rightarrow> set_node m (rb_parent_update (\<lambda>_. Some node)) s1);
     let s3 = set_node left (rb_right_update (\<lambda>_. Some node)) s2;
     let s4 = set_node node (rb_parent_update (\<lambda>_. Some left)) s3;
     let s5 = set_node left (rb_parent_update (\<lambda>_. parent)) s4;
     Some (case parent of
         None \<Rightarrow> s5\<lparr>rb_root := Some left\<rparr>
       | Some p \<Rightarrow>
           if rb_right (nodes s5 p) = Some node
           then set_node p (rb_right_update (\<lambda>_. Some left)) s5
           else set_node p (rb_left_update (\<lambda>_. Some left)) s5)
   }"

subsection \<open>Insertion\<close>

text \<open>One pass of the loop of \<open>rb_insert_color\<close> below a left and below a right child: the node to go on with.\<close>

definition insert_left :: "addr \<Rightarrow> addr \<Rightarrow> addr \<Rightarrow> rb_tree \<Rightarrow> (addr \<times> rb_tree) option" where
  "insert_left node parent gparent s =
     (let uncle = rb_right (nodes s gparent) in
      if is_red uncle s
      then Some (gparent, paint_node gparent True (paint_node (the uncle) False (paint_node parent False s)))
      else do {
        (node1, parent1, s1) \<leftarrow>
          (if rb_right (nodes s parent) = Some node
           then do { s1 \<leftarrow> rb_rotate_left parent s; Some (parent, node, s1) }
           else Some (node, parent, s));
        s2 \<leftarrow> rb_rotate_right gparent (paint_node gparent True (paint_node parent1 False s1));
        Some (node1, s2)
      })"

definition insert_right :: "addr \<Rightarrow> addr \<Rightarrow> addr \<Rightarrow> rb_tree \<Rightarrow> (addr \<times> rb_tree) option" where
  "insert_right node parent gparent s =
     (let uncle = rb_left (nodes s gparent) in
      if is_red uncle s
      then Some (gparent, paint_node gparent True (paint_node (the uncle) False (paint_node parent False s)))
      else do {
        (node1, parent1, s1) \<leftarrow>
          (if rb_left (nodes s parent) = Some node
           then do { s1 \<leftarrow> rb_rotate_right parent s; Some (parent, node, s1) }
           else Some (node, parent, s));
        s2 \<leftarrow> rb_rotate_left gparent (paint_node gparent True (paint_node parent1 False s1));
        Some (node1, s2)
      })"

partial_function (option) insert_loop :: "addr \<Rightarrow> rb_tree \<Rightarrow> rb_tree option" where
  "insert_loop node s =
     (case rb_parent (nodes s node) of
        None \<Rightarrow> Some s
      | Some parent \<Rightarrow>
          if \<not> rb_red (nodes s parent) then Some s
          else do {
            gparent \<leftarrow> rb_parent (nodes s parent);
            (node1, s1) \<leftarrow>
              (if Some parent = rb_left (nodes s gparent)
               then insert_left node parent gparent s
               else insert_right node parent gparent s);
            insert_loop node1 s1
          })"

definition rb_insert_color :: "addr \<Rightarrow> rb_tree \<Rightarrow> rb_tree option" where
  "rb_insert_color node s = do {
     s1 \<leftarrow> insert_loop node s;
     r \<leftarrow> rb_root s1;
     Some (paint_node r False s1)
   }"

subsection \<open>Removal\<close>

text \<open>The leftmost node from a node on, in \<open>rb_erase\<close> and in \<open>rb_first\<close>.\<close>

partial_function (option) leftmost :: "(addr \<Rightarrow> rb_node) \<Rightarrow> addr \<Rightarrow> addr option" where
  "leftmost h node = (case rb_left (h node) of None \<Rightarrow> Some node | Some left \<Rightarrow> leftmost h left)"

definition rb_first :: "rb_tree \<Rightarrow> ptr option" where
  "rb_first s = (case rb_root s of None \<Rightarrow> Some None | Some n \<Rightarrow> do { m \<leftarrow> leftmost (nodes s) n; Some (Some m) })"

text \<open>
  Unlinking a node with at most one child, and with two children: the successor takes its place.
  The result holds the variables \<open>child\<close>, \<open>parent\<close> and \<open>color\<close> at the label \<open>color_fixup\<close>.
\<close>

definition erase_one :: "addr \<Rightarrow> ptr \<Rightarrow> rb_tree \<Rightarrow> ptr \<times> ptr \<times> bool \<times> rb_tree" where
  "erase_one node child s =
     (let parent = rb_parent (nodes s node);
          color = rb_red (nodes s node);
          s1 = (case child of None \<Rightarrow> s | Some c \<Rightarrow> set_node c (rb_parent_update (\<lambda>_. parent)) s);
          s2 = (case parent of
                  None \<Rightarrow> s1\<lparr>rb_root := child\<rparr>
                | Some p \<Rightarrow>
                    if rb_left (nodes s1 p) = Some node
                    then set_node p (rb_left_update (\<lambda>_. child)) s1
                    else set_node p (rb_right_update (\<lambda>_. child)) s1)
      in (child, parent, color, s2))"

definition erase_two :: "addr \<Rightarrow> rb_tree \<Rightarrow> (ptr \<times> ptr \<times> bool \<times> rb_tree) option" where
  "erase_two old s = do {
     right \<leftarrow> rb_right (nodes s old);
     node \<leftarrow> leftmost (nodes s) right;
     let s1 = (case rb_parent (nodes s old) of
                 None \<Rightarrow> s\<lparr>rb_root := Some node\<rparr>
               | Some p \<Rightarrow>
                   if rb_left (nodes s p) = Some old
                   then set_node p (rb_left_update (\<lambda>_. Some node)) s
                   else set_node p (rb_right_update (\<lambda>_. Some node)) s);
     let child = rb_right (nodes s1 node);
     let color = rb_red (nodes s1 node);
     p \<leftarrow> rb_parent (nodes s1 node);
     (parent, s2) \<leftarrow>
       (if p = old then Some (node, s1)
        else do {
          let t1 = (case child of None \<Rightarrow> s1 | Some c \<Rightarrow> set_node c (rb_parent_update (\<lambda>_. Some p)) s1);
          let t2 = set_node p (rb_left_update (\<lambda>_. child)) t1;
          let t3 = set_node node (rb_right_update (\<lambda>_. rb_right (nodes t2 old))) t2;
          r \<leftarrow> rb_right (nodes t3 old);
          Some (p, set_node r (rb_parent_update (\<lambda>_. Some node)) t3)
        });
     let o1 = nodes s2 old;
     let s3 = set_node node (\<lambda>x. x\<lparr>rb_parent := rb_parent o1, rb_red := rb_red o1, rb_left := rb_left o1\<rparr>) s2;
     l \<leftarrow> rb_left o1;
     Some (child, Some parent, color, set_node l (rb_parent_update (\<lambda>_. Some node)) s3)
   }"

text \<open>
  One pass of the loop after the label, for a left and for a right child: from the test of the
  children of the sibling on, and as a whole.
\<close>

definition erase_left_black :: "addr \<Rightarrow> addr \<Rightarrow> rb_tree \<Rightarrow> (ptr \<times> ptr \<times> rb_tree) option" where
  "erase_left_black parent sibling s1 =
     (if \<not> is_red (rb_left (nodes s1 sibling)) s1 \<and> \<not> is_red (rb_right (nodes s1 sibling)) s1
      then (let s2 = paint_node sibling True s1 in Some (Some parent, rb_parent (nodes s2 parent), s2))
      else do {
        (sib, s2) \<leftarrow>
          (if \<not> is_red (rb_right (nodes s1 sibling)) s1
           then do {
             t \<leftarrow> rb_rotate_right sibling (paint_node sibling True (paint_if False (rb_left (nodes s1 sibling)) s1));
             sib1 \<leftarrow> rb_right (nodes t parent);
             Some (sib1, t)
           }
           else Some (sibling, s1));
        let s3 = paint_node parent False (paint_node sib (rb_red (nodes s2 parent)) s2);
        s4 \<leftarrow> rb_rotate_left parent (paint_if False (rb_right (nodes s3 sib)) s3);
        Some (rb_root s4, Some parent, s4)
      })"

definition erase_left :: "addr \<Rightarrow> rb_tree \<Rightarrow> (ptr \<times> ptr \<times> rb_tree) option" where
  "erase_left parent s = do {
     sib0 \<leftarrow> rb_right (nodes s parent);
     (sibling, s1) \<leftarrow>
       (if rb_red (nodes s sib0)
        then do {
          t \<leftarrow> rb_rotate_left parent (paint_node parent True (paint_node sib0 False s));
          sib1 \<leftarrow> rb_right (nodes t parent);
          Some (sib1, t)
        }
        else Some (sib0, s));
     erase_left_black parent sibling s1
   }"

definition erase_right_black :: "addr \<Rightarrow> addr \<Rightarrow> rb_tree \<Rightarrow> (ptr \<times> ptr \<times> rb_tree) option" where
  "erase_right_black parent sibling s1 =
     (if \<not> is_red (rb_left (nodes s1 sibling)) s1 \<and> \<not> is_red (rb_right (nodes s1 sibling)) s1
      then (let s2 = paint_node sibling True s1 in Some (Some parent, rb_parent (nodes s2 parent), s2))
      else do {
        (sib, s2) \<leftarrow>
          (if \<not> is_red (rb_left (nodes s1 sibling)) s1
           then do {
             t \<leftarrow> rb_rotate_left sibling (paint_node sibling True (paint_if False (rb_right (nodes s1 sibling)) s1));
             sib1 \<leftarrow> rb_left (nodes t parent);
             Some (sib1, t)
           }
           else Some (sibling, s1));
        let s3 = paint_node parent False (paint_node sib (rb_red (nodes s2 parent)) s2);
        s4 \<leftarrow> rb_rotate_right parent (paint_if False (rb_left (nodes s3 sib)) s3);
        Some (rb_root s4, Some parent, s4)
      })"

definition erase_right :: "addr \<Rightarrow> rb_tree \<Rightarrow> (ptr \<times> ptr \<times> rb_tree) option" where
  "erase_right parent s = do {
     sib0 \<leftarrow> rb_left (nodes s parent);
     (sibling, s1) \<leftarrow>
       (if rb_red (nodes s sib0)
        then do {
          t \<leftarrow> rb_rotate_right parent (paint_node parent True (paint_node sib0 False s));
          sib1 \<leftarrow> rb_left (nodes t parent);
          Some (sib1, t)
        }
        else Some (sib0, s));
     erase_right_black parent sibling s1
   }"

partial_function (option) erase_loop :: "ptr \<Rightarrow> ptr \<Rightarrow> rb_tree \<Rightarrow> (ptr \<times> rb_tree) option" where
  "erase_loop child parent s =
     (if child \<noteq> rb_root s \<and> \<not> is_red child s
      then do {
        p \<leftarrow> parent;
        (child1, parent1, s1) \<leftarrow> (if rb_left (nodes s p) = child then erase_left p s else erase_right p s);
        erase_loop child1 parent1 s1
      }
      else Some (child, s))"

definition rb_erase :: "addr \<Rightarrow> rb_tree \<Rightarrow> rb_tree option" where
  "rb_erase node s = do {
     (child, parent, color, s1) \<leftarrow>
       (if rb_left (nodes s node) = None then Some (erase_one node (rb_right (nodes s node)) s)
        else if rb_right (nodes s node) = None then Some (erase_one node (rb_left (nodes s node)) s)
        else erase_two node s);
     if color then Some s1
     else do {
       (c, s2) \<leftarrow> erase_loop child parent s1;
       Some (paint_if False c s2)
     }
   }"

end
