(* ===== verification/RBShape.thy ===== *)
theory RBShape
  imports RBTree
begin

text \<open>
  The trees that a heap of nodes represents, paths from a node to the root, and the colour
  and height conditions on both.
\<close>

subsection \<open>Coloured trees and paths\<close>

text \<open>\<open>Bin l a c r\<close> is a node at the address \<open>a\<close>, red when \<open>c\<close>.\<close>

datatype ctree = Tip | Bin ctree addr bool ctree

primrec addrs :: "ctree \<Rightarrow> addr list" where
  "addrs Tip = []"
| "addrs (Bin l a c r) = addrs l @ a # addrs r"

primrec red :: "ctree \<Rightarrow> bool" where
  "red Tip = False"
| "red (Bin l a c r) = c"

primrec paint :: "bool \<Rightarrow> ctree \<Rightarrow> ctree" where
  "paint d Tip = Tip"
| "paint d (Bin l a c r) = Bin l a d r"

primrec black_height :: "ctree \<Rightarrow> nat" where
  "black_height Tip = 0"
| "black_height (Bin l a c r) = black_height l + (if c then 0 else 1)"

text \<open>No red node has a red child; all paths down have the same number of black nodes.\<close>

primrec no_red_red :: "ctree \<Rightarrow> bool" where
  "no_red_red Tip = True"
| "no_red_red (Bin l a c r) = ((c \<longrightarrow> \<not> red l \<and> \<not> red r) \<and> no_red_red l \<and> no_red_red r)"

primrec balanced :: "ctree \<Rightarrow> bool" where
  "balanced Tip = True"
| "balanced (Bin l a c r) = (black_height l = black_height r \<and> balanced l \<and> balanced r)"

definition rb_ok :: "nat \<Rightarrow> ctree \<Rightarrow> bool" where
  "rb_ok n t \<longleftrightarrow> no_red_red t \<and> balanced t \<and> black_height t = n"

definition red_black :: "ctree \<Rightarrow> bool" where
  "red_black t \<longleftrightarrow> no_red_red t \<and> balanced t \<and> \<not> red t"

text \<open>A step of a path upwards: the parent, its colour and its other subtree.\<close>

datatype frame = InLeft addr bool ctree | InRight ctree addr bool

primrec close :: "frame \<Rightarrow> ctree \<Rightarrow> ctree" where
  "close (InLeft a c r) t = Bin t a c r"
| "close (InRight l a c) t = Bin l a c t"

primrec frame_addr :: "frame \<Rightarrow> addr" where
  "frame_addr (InLeft a c r) = a"
| "frame_addr (InRight l a c) = a"

primrec frame_red :: "frame \<Rightarrow> bool" where
  "frame_red (InLeft a c r) = c"
| "frame_red (InRight l a c) = c"

primrec frame_tree :: "frame \<Rightarrow> ctree" where
  "frame_tree (InLeft a c r) = r"
| "frame_tree (InRight l a c) = l"

definition plug :: "frame list \<Rightarrow> ctree \<Rightarrow> ctree" where
  "plug fs t = fold close fs t"

lemma plug_simps [simp]: "plug [] t = t" "plug (f # fs) t = plug fs (close f t)"
  by (simp_all add: plug_def)

primrec before :: "frame list \<Rightarrow> addr list" where
  "before [] = []"
| "before (f # fs) = before fs @ (case f of InLeft a c r \<Rightarrow> [] | InRight l a c \<Rightarrow> addrs l @ [a])"

primrec after :: "frame list \<Rightarrow> addr list" where
  "after [] = []"
| "after (f # fs) = (case f of InLeft a c r \<Rightarrow> a # addrs r | InRight l a c \<Rightarrow> []) @ after fs"

lemma addrs_plug: "addrs (plug fs t) = before fs @ addrs t @ after fs"
  by (induction fs arbitrary: t) (auto split: frame.split)

lemma addrs_paint [simp]: "addrs (paint c t) = addrs t"
  by (cases t) auto

text \<open>
  \<open>path_ok n b fs\<close>: the path is correct for a subtree of black height \<open>n\<close>, and for one with a red
  root when \<open>b\<close>.
\<close>

fun path_ok :: "nat \<Rightarrow> bool \<Rightarrow> frame list \<Rightarrow> bool" where
  "path_ok n b [] = (\<not> b)"
| "path_ok n b (f # fs) =
     (rb_ok n (frame_tree f) \<and> (frame_red f \<longrightarrow> \<not> b \<and> \<not> red (frame_tree f))
      \<and> path_ok (if frame_red f then n else n + 1) (frame_red f) fs)"

lemma path_ok_black: "path_ok n b fs \<Longrightarrow> path_ok n False fs"
  by (cases fs) auto

lemma plug_red_black: "rb_ok n t \<Longrightarrow> path_ok n (red t) fs \<Longrightarrow> red_black (plug fs t)"
proof (induction fs arbitrary: n t)
  case Nil
  then show ?case by (simp add: rb_ok_def red_black_def)
next
  case (Cons f fs)
  have "rb_ok (if frame_red f then n else n + 1) (close f t)" "red (close f t) = frame_red f"
    using Cons.prems by (cases f; auto simp: rb_ok_def)+
  with Cons.IH [of "if frame_red f then n else n + 1" "close f t"] Cons.prems(2) show ?case by simp
qed

lemma rb_ok_Tip [simp]: "rb_ok n Tip = (n = 0)"
  by (auto simp: rb_ok_def)

lemma rb_ok_Bin: "rb_ok n (Bin l a c r) \<longleftrightarrow>
    (c \<longrightarrow> \<not> red l \<and> \<not> red r) \<and> (\<exists>m. rb_ok m l \<and> rb_ok m r \<and> n = (if c then m else m + 1))"
  by (auto simp: rb_ok_def)

subsection \<open>Height\<close>

primrec tree_height :: "ctree \<Rightarrow> nat" where
  "tree_height Tip = 0"
| "tree_height (Bin l a c r) = 1 + max (tree_height l) (tree_height r)"

lemma black_height_size: "balanced t \<Longrightarrow> 2 ^ black_height t \<le> length (addrs t) + 1"
proof (induction t)
  case (Bin l a c r)
  then have "2 ^ black_height l \<le> length (addrs l) + 1" "2 ^ black_height l \<le> length (addrs r) + 1" by auto
  then show ?case by auto
qed simp

lemma tree_height_black:
  "no_red_red t \<Longrightarrow> balanced t \<Longrightarrow> tree_height t \<le> 2 * black_height t + (if red t then 1 else 0)"
proof (induction t)
  case (Bin l a c r)
  then have "tree_height l \<le> 2 * black_height l + (if red l then 1 else 0)"
    "tree_height r \<le> 2 * black_height l + (if red r then 1 else 0)" by auto
  with Bin.prems(1) show ?case by (auto split: if_splits)
qed simp

subsection \<open>The heap\<close>

text \<open>\<open>tree_at h p x t\<close>: the pointer \<open>x\<close> leads to the tree \<open>t\<close>, whose root has the parent \<open>p\<close>.\<close>

primrec tree_at :: "(addr \<Rightarrow> rb_node) \<Rightarrow> ptr \<Rightarrow> ptr \<Rightarrow> ctree \<Rightarrow> bool" where
  "tree_at h p x Tip = (x = None)"
| "tree_at h p x (Bin l a c r) =
     (x = Some a \<and> rb_parent (h a) = p \<and> rb_red (h a) = c
      \<and> tree_at h (Some a) (rb_left (h a)) l \<and> tree_at h (Some a) (rb_right (h a)) r)"

text \<open>\<open>path_at h r p x fs\<close>: the pointer \<open>x\<close> is stored in the first node of the path, whose address
  is \<open>p\<close>, and the path ends at the root pointer \<open>r\<close>.\<close>

fun path_at :: "(addr \<Rightarrow> rb_node) \<Rightarrow> ptr \<Rightarrow> ptr \<Rightarrow> ptr \<Rightarrow> frame list \<Rightarrow> bool" where
  "path_at h r p x [] = (r = x \<and> p = None)"
| "path_at h r p x (InLeft a c t # fs) =
     (p = Some a \<and> rb_left (h a) = x \<and> rb_red (h a) = c \<and> tree_at h (Some a) (rb_right (h a)) t
      \<and> path_at h r (rb_parent (h a)) (Some a) fs)"
| "path_at h r p x (InRight t a c # fs) =
     (p = Some a \<and> rb_right (h a) = x \<and> rb_red (h a) = c \<and> tree_at h (Some a) (rb_left (h a)) t
      \<and> path_at h r (rb_parent (h a)) (Some a) fs)"

definition at :: "rb_tree \<Rightarrow> ptr \<Rightarrow> ptr \<Rightarrow> ctree \<Rightarrow> frame list \<Rightarrow> bool" where
  "at s p x t fs \<longleftrightarrow> tree_at (nodes s) p x t \<and> path_at (nodes s) (rb_root s) p x fs
     \<and> distinct (addrs (plug fs t))"

definition represents :: "rb_tree \<Rightarrow> ctree \<Rightarrow> bool" where
  "represents s t \<longleftrightarrow> tree_at (nodes s) None (rb_root s) t \<and> distinct (addrs t)"

lemma at_root: "represents s t \<longleftrightarrow> at s None (rb_root s) t []"
  by (simp add: represents_def at_def)

lemma at_left: "at s p x (Bin l a c r) fs \<longleftrightarrow>
    x = Some a \<and> rb_parent (nodes s a) = p \<and> at s (Some a) (rb_left (nodes s a)) l (InLeft a c r # fs)"
  by (auto simp: at_def)

lemma at_right: "at s p x (Bin l a c r) fs \<longleftrightarrow>
    x = Some a \<and> rb_parent (nodes s a) = p \<and> at s (Some a) (rb_right (nodes s a)) r (InRight l a c # fs)"
  by (auto simp: at_def)

lemma at_up: "at s p x t fs \<Longrightarrow> represents s (plug fs t)"
proof (induction fs arbitrary: p x t)
  case Nil
  then show ?case by (auto simp: at_def represents_def)
next
  case (Cons f fs)
  show ?case
  proof (cases f)
    case (InLeft a c r)
    with Cons.prems have "at s (rb_parent (nodes s a)) (Some a) (Bin t a c r) fs" by (auto simp: at_def)
    from Cons.IH [OF this] InLeft show ?thesis by simp
  next
    case (InRight l a c)
    with Cons.prems have "at s (rb_parent (nodes s a)) (Some a) (Bin l a c t) fs" by (auto simp: at_def)
    from Cons.IH [OF this] InRight show ?thesis by simp
  qed
qed

text \<open>Writing to a node that is not in the tree or on the path.\<close>

lemma tree_at_other [simp]: "a \<notin> set (addrs t) \<Longrightarrow> tree_at (h(a := v)) p x t = tree_at h p x t"
  by (induction t arbitrary: p x) auto

lemma path_at_other [simp]:
  "a \<notin> set (before fs) \<Longrightarrow> a \<notin> set (after fs) \<Longrightarrow> path_at (h(a := v)) r p x fs = path_at h r p x fs"
  by (induction h r p x fs rule: path_at.induct) auto

lemma nodes_set_node [simp]: "nodes (set_node a f s) = (nodes s)(a := f (nodes s a))" "rb_root (set_node a f s) = rb_root s"
  by (simp_all add: set_node_def)

lemma tree_at_None: "tree_at h p None t \<Longrightarrow> t = Tip"
  by (cases t) auto

lemma tree_at_Some: "tree_at h p (Some a) t \<Longrightarrow> \<exists>l c r. t = Bin l a c r"
  by (cases t) auto

text \<open>The pointer to the subtree, replaced in the parent or in the root.\<close>

definition redirect :: "ptr \<Rightarrow> addr \<Rightarrow> ptr \<Rightarrow> rb_tree \<Rightarrow> rb_tree" where
  "redirect p old new s =
     (case p of
        None \<Rightarrow> s\<lparr>rb_root := new\<rparr>
      | Some a \<Rightarrow>
          if rb_left (nodes s a) = Some old
          then set_node a (rb_left_update (\<lambda>_. new)) s
          else set_node a (rb_right_update (\<lambda>_. new)) s)"

lemma redirect_path:
  assumes "path_at (nodes s) (rb_root s) p (Some old) fs" "distinct (before fs @ after fs)"
    and "old \<notin> set (before fs)" "old \<notin> set (after fs)"
  shows "path_at (nodes (redirect p old new s)) (rb_root (redirect p old new s)) p new fs"
proof (cases fs)
  case Nil
  then show ?thesis using assms(1) by (simp add: redirect_def)
next
  case (Cons f gs)
  show ?thesis
  proof (cases f)
    case (InLeft a c t)
    then show ?thesis using assms Cons by (auto simp: redirect_def)
  next
    case (InRight t a c)
    then have "rb_left (nodes s a) \<noteq> Some old" using assms Cons by (cases t) auto
    then show ?thesis using assms Cons InRight by (auto simp: redirect_def)
  qed
qed

lemma redirect_frame:
  "p \<noteq> Some b \<Longrightarrow> nodes (redirect p old new s) b = nodes s b"
  "rb_root (redirect p old new s) = (if p = None then new else rb_root s)"
  "rb_parent (nodes (redirect p old new s) b) = rb_parent (nodes s b)"
  "rb_red (nodes (redirect p old new s) b) = rb_red (nodes s b)"
  by (auto simp: redirect_def split: option.split)

end
