(* ===== verification/RBRotate.thy ===== *)
theory RBRotate
  imports RBShape
begin

text \<open>
  Rotations and changes of colour, as changes of the tree that the heap represents.
\<close>

lemma path_parent:
  "path_at h r (Some q) x fs \<Longrightarrow> q \<in> set (before fs) \<or> q \<in> set (after fs)"
  by (cases fs) (auto split: frame.splits elim: path_at.elims)

text \<open>A rebuilt subtree with a new root below the same parent.\<close>

lemma redirect_at:
  assumes t: "tree_at (nodes s) p x t" and ph: "path_at (nodes s) (rb_root s) p (Some old) fs"
    and d: "distinct (addrs (plug fs t))" "old \<in> set (addrs t)"
  shows "at (redirect p old x s) p x t fs"
  unfolding at_def
proof (intro conjI)
  have dj: "distinct (before fs @ after fs)" "old \<notin> set (before fs)" "old \<notin> set (after fs)"
    using d by (auto simp: addrs_plug)
  show "path_at (nodes (redirect p old x s)) (rb_root (redirect p old x s)) p x fs"
    by (rule redirect_path [OF ph dj])
  show "tree_at (nodes (redirect p old x s)) p x t"
  proof (cases p)
    case None
    with t show ?thesis by (simp add: redirect_def)
  next
    case (Some q)
    then have "q \<notin> set (addrs t)" using path_parent [OF ph [unfolded Some]] d(1) by (auto simp: addrs_plug)
    with t Some show ?thesis by (simp add: redirect_def)
  qed
qed (rule d(1))

lemma rotate_left_at:
  assumes "at s p (Some a) (Bin l a c (Bin m b d r)) fs"
  shows "\<exists>s'. rb_rotate_left a s = Some s' \<and> at s' p (Some b) (Bin (Bin l a c m) b d r) fs"
proof -
  let ?h = "nodes s"
  from assms have t: "tree_at ?h p (Some a) (Bin l a c (Bin m b d r))" and ph: "path_at ?h (rb_root s) p (Some a) fs"
    and di: "distinct (addrs (plug fs (Bin l a c (Bin m b d r))))" by (simp_all add: at_def)
  define s2 where "s2 = (case rb_left (?h b) of None \<Rightarrow> set_node a (rb_right_update (\<lambda>_. rb_left (?h b))) s
     | Some m \<Rightarrow> set_node m (rb_parent_update (\<lambda>_. Some a)) (set_node a (rb_right_update (\<lambda>_. rb_left (?h b))) s))"
  define s5 where "s5 = set_node b (rb_parent_update (\<lambda>_. p)) (set_node a (rb_parent_update (\<lambda>_. Some b))
     (set_node b (rb_left_update (\<lambda>_. Some a)) s2))"
  have run: "rb_rotate_left a s = Some (redirect p a (Some b) s5)"
  proof -
    have f: "rb_right (nodes s a) = Some b" "rb_parent (nodes s a) = p" using t by simp_all
    show ?thesis
      by (simp only: rb_rotate_left_def f Option.bind.bind_lunit Let_def s2_def [symmetric] s5_def [symmetric] redirect_def)
  qed
  have t5: "tree_at (nodes s5) p (Some b) (Bin (Bin l a c m) b d r)"
    and ph5: "path_at (nodes s5) (rb_root s5) p (Some a) fs"
    using t ph di by (cases m; auto simp: s5_def s2_def addrs_plug)+
  from redirect_at [OF t5 ph5] di run show ?thesis by (auto simp: addrs_plug)
qed

lemma rotate_right_at:
  assumes "at s p (Some a) (Bin (Bin l b d m) a c r) fs"
  shows "\<exists>s'. rb_rotate_right a s = Some s' \<and> at s' p (Some b) (Bin l b d (Bin m a c r)) fs"
proof -
  let ?h = "nodes s"
  from assms have t: "tree_at ?h p (Some a) (Bin (Bin l b d m) a c r)" and ph: "path_at ?h (rb_root s) p (Some a) fs"
    and di: "distinct (addrs (plug fs (Bin (Bin l b d m) a c r)))" by (simp_all add: at_def)
  define s2 where "s2 = (case rb_right (?h b) of None \<Rightarrow> set_node a (rb_left_update (\<lambda>_. rb_right (?h b))) s
     | Some m \<Rightarrow> set_node m (rb_parent_update (\<lambda>_. Some a)) (set_node a (rb_left_update (\<lambda>_. rb_right (?h b))) s))"
  define s5 where "s5 = set_node b (rb_parent_update (\<lambda>_. p)) (set_node a (rb_parent_update (\<lambda>_. Some b))
     (set_node b (rb_right_update (\<lambda>_. Some a)) s2))"
  have t5: "tree_at (nodes s5) p (Some b) (Bin l b d (Bin m a c r))"
    and ph5: "path_at (nodes s5) (rb_root s5) p (Some a) fs"
    using t ph di by (cases m; auto simp: s5_def s2_def addrs_plug)+
  have side: "(rb_right (nodes s5 q) = Some a) = (rb_left (nodes s5 q) \<noteq> Some a)" if "p = Some q" for q
  proof (cases fs)
    case Nil
    with ph5 that show ?thesis by simp
  next
    case (Cons f gs)
    show ?thesis
    proof (cases f)
      case (InLeft u e v)
      then show ?thesis using ph5 that Cons di by (cases v) (auto simp: addrs_plug)
    next
      case (InRight v u e)
      then show ?thesis using ph5 that Cons di by (cases v) (auto simp: addrs_plug)
    qed
  qed
  have run: "rb_rotate_right a s = Some (redirect p a (Some b) s5)"
  proof -
    have f: "rb_left (nodes s a) = Some b" "rb_parent (nodes s a) = p" using t by simp_all
    have "rb_rotate_right a s = Some (case p of
         None \<Rightarrow> s5\<lparr>rb_root := Some b\<rparr>
       | Some p \<Rightarrow>
           if rb_right (nodes s5 p) = Some a
           then set_node p (rb_right_update (\<lambda>_. Some b)) s5
           else set_node p (rb_left_update (\<lambda>_. Some b)) s5)"
      by (simp only: rb_rotate_right_def f Option.bind.bind_lunit Let_def s2_def [symmetric] s5_def [symmetric])
    with side show ?thesis by (cases p) (simp_all add: redirect_def)
  qed
  from redirect_at [OF t5 ph5] di run show ?thesis by (auto simp: addrs_plug)
qed

subsection \<open>Colours\<close>

text \<open>Painting nodes of the subtree in view.\<close>

lemma at_paint: "at s p x (Bin l a c r) fs \<Longrightarrow> at (paint_node a d s) p x (Bin l a d r) fs"
  by (auto simp: at_def addrs_plug)

lemma at_paint_left:
  "at s p x (Bin (Bin ll b e lr) a c r) fs \<Longrightarrow> at (paint_node b d s) p x (Bin (Bin ll b d lr) a c r) fs"
  by (auto simp: at_def addrs_plug)

lemma at_paint_right:
  "at s p x (Bin l a c (Bin rl b e rr)) fs \<Longrightarrow> at (paint_node b d s) p x (Bin l a c (Bin rl b d rr)) fs"
  by (auto simp: at_def addrs_plug)

lemma at_is_red: "at s p x t fs \<Longrightarrow> is_red x s = red t"
  by (cases t) (auto simp: at_def is_red_def)

text \<open>What the fields say about the tree.\<close>

lemma at_Bin:
  assumes "at s p x (Bin l a c r) fs"
  shows "x = Some a" "rb_parent (nodes s a) = p" "rb_red (nodes s a) = c"
    "at s (Some a) (rb_left (nodes s a)) l (InLeft a c r # fs)" "at s (Some a) (rb_right (nodes s a)) r (InRight l a c # fs)"
  using assms by (auto simp: at_def)

lemma at_up_left:
  assumes "at s p x t (InLeft a c r # fs)"
  shows "p = Some a" "at s (rb_parent (nodes s a)) (Some a) (Bin t a c r) fs"
  using assms by (auto simp: at_def)

lemma at_up_right:
  assumes "at s p x t (InRight l a c # fs)"
  shows "p = Some a" "at s (rb_parent (nodes s a)) (Some a) (Bin l a c t) fs"
  using assms by (auto simp: at_def)

text \<open>Which child the subtree in view is: the other child is a different pointer, unless both are empty.\<close>

lemma at_side_left:
  assumes "at s p x t (InLeft a c r # fs)"
  shows "rb_left (nodes s a) = x"
  using assms by (auto simp: at_def)

lemma at_side_right:
  assumes "at s p x t (InRight l a c # fs)" "l \<noteq> Tip \<or> t \<noteq> Tip"
  shows "rb_left (nodes s a) \<noteq> x" "rb_right (nodes s a) = x"
proof -
  show "rb_right (nodes s a) = x" using assms(1) by (simp add: at_def)
  have "tree_at (nodes s) (Some a) (rb_left (nodes s a)) l" "tree_at (nodes s) p x t" "distinct (addrs l @ addrs t)"
    using assms(1) by (auto simp: at_def addrs_plug)
  with assms(2) show "rb_left (nodes s a) \<noteq> x" by (cases l; cases t) auto
qed

end
