(* ===== verification/RBInsert.thy ===== *)
theory RBInsert
  imports RBRotate
begin

text \<open>
  \<open>rb_insert_color\<close> repairs the tree after a red node has been linked into it.
\<close>

subsection \<open>One pass\<close>

lemma insert_left_recolour:
  assumes "at s q (Some g) (Bin (Bin pl p True pr) g False (Bin ul u True ur)) fs"
  shows "\<exists>s'. insert_left n p g s = Some (g, s')
    \<and> at s' q (Some g) (Bin (Bin pl p False pr) g True (Bin ul u False ur)) fs"
proof -
  have u: "rb_right (nodes s g) = Some u" "is_red (Some u) s" using assms by (simp_all add: at_def is_red_def)
  from at_paint [OF at_paint_right [OF at_paint_left [OF assms, of False], of False], of True] u
  show ?thesis by (simp add: insert_left_def)
qed

lemma insert_right_recolour:
  assumes "at s q (Some g) (Bin (Bin ul u True ur) g False (Bin pl p True pr)) fs"
  shows "\<exists>s'. insert_right n p g s = Some (g, s')
    \<and> at s' q (Some g) (Bin (Bin ul u False ur) g True (Bin pl p False pr)) fs"
proof -
  have u: "rb_left (nodes s g) = Some u" "is_red (Some u) s" using assms by (simp_all add: at_def is_red_def)
  from at_paint [OF at_paint_left [OF at_paint_right [OF assms, of False], of False], of True] u
  show ?thesis by (simp add: insert_right_def)
qed

lemma uncle_black:
  assumes "at s q x (Bin l g c r) fs"
  shows "is_red (rb_right (nodes s g)) s = red r" "is_red (rb_left (nodes s g)) s = red l"
  using at_is_red [OF at_Bin(5) [OF assms]] at_is_red [OF at_Bin(4) [OF assms]] by simp_all

lemma insert_left_outer:
  assumes a: "at s q (Some g) (Bin (Bin (Bin nl n True nr) p True pr) g False u) fs" and u: "\<not> red u"
  shows "\<exists>s'. insert_left n p g s = Some (n, s')
    \<and> at s' q (Some p) (Bin (Bin nl n True nr) p False (Bin pr g True u)) fs"
proof -
  have "\<not> is_red (rb_right (nodes s g)) s" using uncle_black(1) [OF a] u by simp
  moreover have "rb_right (nodes s p) \<noteq> Some n" using a by (cases pr) (auto simp: at_def addrs_plug)
  moreover from rotate_right_at [OF at_paint [OF at_paint_left [OF a, of False], of True]] obtain s' where
    "rb_rotate_right g (paint_node g True (paint_node p False s)) = Some s'"
    "at s' q (Some p) (Bin (Bin nl n True nr) p False (Bin pr g True u)) fs" by blast
  ultimately show ?thesis by (simp add: insert_left_def Let_def)
qed

lemma insert_right_outer:
  assumes a: "at s q (Some g) (Bin u g False (Bin pl p True (Bin nl n True nr))) fs" and u: "\<not> red u"
  shows "\<exists>s'. insert_right n p g s = Some (n, s')
    \<and> at s' q (Some p) (Bin (Bin u g True pl) p False (Bin nl n True nr)) fs"
proof -
  have "\<not> is_red (rb_left (nodes s g)) s" using uncle_black(2) [OF a] u by simp
  moreover have "rb_left (nodes s p) \<noteq> Some n" using a by (cases pl) (auto simp: at_def addrs_plug)
  moreover from rotate_left_at [OF at_paint [OF at_paint_right [OF a, of False], of True]] obtain s' where
    "rb_rotate_left g (paint_node g True (paint_node p False s)) = Some s'"
    "at s' q (Some p) (Bin (Bin u g True pl) p False (Bin nl n True nr)) fs" by blast
  ultimately show ?thesis by (simp add: insert_right_def Let_def)
qed

lemma insert_left_inner:
  assumes a: "at s q (Some g) (Bin (Bin pl p True (Bin nl n True nr)) g False u) fs" and u: "\<not> red u"
  shows "\<exists>s' q'. insert_left n p g s = Some (p, s')
    \<and> at s' q' (Some n) (Bin (Bin pl p True nl) n False (Bin nr g True u)) fs"
proof -
  have "\<not> is_red (rb_right (nodes s g)) s" using uncle_black(1) [OF a] u by simp
  moreover have "rb_right (nodes s p) = Some n" using a by (simp add: at_def)
  moreover have "at s (Some g) (Some p) (Bin pl p True (Bin nl n True nr)) (InLeft g False u # fs)"
    using at_Bin(4) [OF a] a by (simp add: at_def)
  from rotate_left_at [OF this] obtain s1 where s1: "rb_rotate_left p s = Some s1"
    "at s1 (Some g) (Some n) (Bin (Bin pl p True nl) n True nr) (InLeft g False u # fs)" by blast
  moreover from rotate_right_at [OF at_paint [OF at_paint_left [OF at_up_left(2) [OF s1(2)], of False], of True]] obtain s' q' where
    "rb_rotate_right g (paint_node g True (paint_node n False s1)) = Some s'"
    "at s' q' (Some n) (Bin (Bin pl p True nl) n False (Bin nr g True u)) fs" by blast
  ultimately have "insert_left n p g s = Some (p, s')" by (simp add: insert_left_def Let_def)
  with \<open>at s' q' _ _ _\<close> show ?thesis by blast
qed

lemma insert_right_inner:
  assumes a: "at s q (Some g) (Bin u g False (Bin (Bin nl n True nr) p True pr)) fs" and u: "\<not> red u"
  shows "\<exists>s' q'. insert_right n p g s = Some (p, s')
    \<and> at s' q' (Some n) (Bin (Bin u g True nl) n False (Bin nr p True pr)) fs"
proof -
  have "\<not> is_red (rb_left (nodes s g)) s" using uncle_black(2) [OF a] u by simp
  moreover have "rb_left (nodes s p) = Some n" using a by (simp add: at_def)
  moreover have "at s (Some g) (Some p) (Bin (Bin nl n True nr) p True pr) (InRight u g False # fs)"
    using at_Bin(5) [OF a] a by (simp add: at_def)
  from rotate_right_at [OF this] obtain s1 where s1: "rb_rotate_right p s = Some s1"
    "at s1 (Some g) (Some n) (Bin nl n True (Bin nr p True pr)) (InRight u g False # fs)" by blast
  moreover from rotate_left_at [OF at_paint [OF at_paint_right [OF at_up_right(2) [OF s1(2)], of False], of True]] obtain s' q' where
    "rb_rotate_left g (paint_node g True (paint_node n False s1)) = Some s'"
    "at s' q' (Some n) (Bin (Bin u g True nl) n False (Bin nr p True pr)) fs" by blast
  ultimately have "insert_right n p g s = Some (p, s')" by (simp add: insert_right_def Let_def)
  with \<open>at s' q' _ _ _\<close> show ?thesis by blast
qed

text \<open>
  One pass of the loop below a red parent \<open>f\<close> and its black parent \<open>g\<close>: either the repair is finished,
  with a node below a black parent in hand, or the same situation arises two levels up.
\<close>

definition repaired :: "nat \<Rightarrow> ctree \<Rightarrow> frame list \<Rightarrow> addr \<Rightarrow> rb_tree \<Rightarrow> bool" where
  "repaired m t fs n s \<longleftrightarrow>
     (\<exists>q x T. at s q x T fs \<and> rb_ok m T \<and> \<not> red T \<and> addrs T = addrs t
       \<and> (\<exists>p. rb_parent (nodes s n) = Some p \<and> \<not> rb_red (nodes s p)))"

definition raised :: "nat \<Rightarrow> ctree \<Rightarrow> frame list \<Rightarrow> addr \<Rightarrow> rb_tree \<Rightarrow> bool" where
  "raised m t fs n s \<longleftrightarrow>
     (\<exists>q l r. at s q (Some n) (Bin l n True r) fs \<and> rb_ok m l \<and> rb_ok m r \<and> \<not> red l \<and> \<not> red r
       \<and> addrs (Bin l n True r) = addrs t)"

lemma insert_left_step:
  assumes a: "at s q (Some g) (Bin (close f (Bin nl n True nr)) g False u) fs"
    and f: "frame_red f" "rb_ok m (frame_tree f)" "\<not> red (frame_tree f)"
    and ok: "rb_ok m nl" "rb_ok m nr" "\<not> red nl" "\<not> red nr" "rb_ok m u"
  shows "\<exists>s' n'. insert_left n (frame_addr f) g s = Some (n', s')
    \<and> (repaired (m + 1) (Bin (close f (Bin nl n True nr)) g False u) fs n' s'
       \<or> raised (m + 1) (Bin (close f (Bin nl n True nr)) g False u) fs n' s')"
proof (cases "red u")
  case True
  then obtain ul ua ur where u: "u = Bin ul ua True ur" by (cases u) auto
  obtain pl p pr where c: "close f (Bin nl n True nr) = Bin pl p True pr" "frame_addr f = p"
    using f(1) by (cases f) auto
  from insert_left_recolour [OF a [unfolded c u]] obtain s' where
    s': "insert_left n p g s = Some (g, s')" "at s' q (Some g) (Bin (Bin pl p False pr) g True (Bin ul ua False ur)) fs" by blast
  have "rb_ok (m + 1) (Bin pl p False pr)" using c(1) f ok by (cases f) (auto simp: rb_ok_Bin)
  moreover have "rb_ok (m + 1) (Bin ul ua False ur)" using ok(5) u by (auto simp: rb_ok_Bin)
  ultimately have "raised (m + 1) (Bin (close f (Bin nl n True nr)) g False u) fs g s'"
    using s'(2) unfolding raised_def by (intro exI conjI) (assumption | simp add: c u)+
  with s'(1) c(2) show ?thesis by blast
next
  case False
  show ?thesis
  proof (cases f)
    case (InLeft p e pr)
    with f(1) a have "at s q (Some g) (Bin (Bin (Bin nl n True nr) p True pr) g False u) fs" by simp
    from insert_left_outer [OF this False] obtain s' where
      s': "insert_left n p g s = Some (n, s')" "at s' q (Some p) (Bin (Bin nl n True nr) p False (Bin pr g True u)) fs" by blast
    have "rb_ok (m + 1) (Bin (Bin nl n True nr) p False (Bin pr g True u))"
      using f ok InLeft False by (auto simp: rb_ok_Bin)
    moreover have "rb_parent (nodes s' n) = Some p" "\<not> rb_red (nodes s' p)" using s'(2) by (auto simp: at_def)
    ultimately have "repaired (m + 1) (Bin (close f (Bin nl n True nr)) g False u) fs n s'"
      unfolding repaired_def using s'(2) InLeft f(1) by (intro exI conjI) (assumption | simp)+
    with s'(1) InLeft show ?thesis by auto
  next
    case (InRight pl p e)
    with f(1) a have "at s q (Some g) (Bin (Bin pl p True (Bin nl n True nr)) g False u) fs" by simp
    from insert_left_inner [OF this False] obtain s' q' where
      s': "insert_left n p g s = Some (p, s')" "at s' q' (Some n) (Bin (Bin pl p True nl) n False (Bin nr g True u)) fs" by blast
    have "rb_ok (m + 1) (Bin (Bin pl p True nl) n False (Bin nr g True u))"
      using f ok InRight False by (auto simp: rb_ok_Bin)
    moreover have "rb_parent (nodes s' p) = Some n" "\<not> rb_red (nodes s' n)" using s'(2) by (auto simp: at_def)
    ultimately have "repaired (m + 1) (Bin (close f (Bin nl n True nr)) g False u) fs p s'"
      unfolding repaired_def using s'(2) InRight f(1) by (intro exI conjI) (assumption | simp)+
    with s'(1) InRight show ?thesis by auto
  qed
qed

lemma insert_right_step:
  assumes a: "at s q (Some g) (Bin u g False (close f (Bin nl n True nr))) fs"
    and f: "frame_red f" "rb_ok m (frame_tree f)" "\<not> red (frame_tree f)"
    and ok: "rb_ok m nl" "rb_ok m nr" "\<not> red nl" "\<not> red nr" "rb_ok m u"
  shows "\<exists>s' n'. insert_right n (frame_addr f) g s = Some (n', s')
    \<and> (repaired (m + 1) (Bin u g False (close f (Bin nl n True nr))) fs n' s'
       \<or> raised (m + 1) (Bin u g False (close f (Bin nl n True nr))) fs n' s')"
proof (cases "red u")
  case True
  then obtain ul ua ur where u: "u = Bin ul ua True ur" by (cases u) auto
  obtain pl p pr where c: "close f (Bin nl n True nr) = Bin pl p True pr" "frame_addr f = p"
    using f(1) by (cases f) auto
  from insert_right_recolour [OF a [unfolded c u]] obtain s' where
    s': "insert_right n p g s = Some (g, s')" "at s' q (Some g) (Bin (Bin ul ua False ur) g True (Bin pl p False pr)) fs" by blast
  have "rb_ok (m + 1) (Bin pl p False pr)" using c(1) f ok by (cases f) (auto simp: rb_ok_Bin)
  moreover have "rb_ok (m + 1) (Bin ul ua False ur)" using ok(5) u by (auto simp: rb_ok_Bin)
  ultimately have "raised (m + 1) (Bin u g False (close f (Bin nl n True nr))) fs g s'"
    using s'(2) unfolding raised_def by (intro exI conjI) (assumption | simp add: c u)+
  with s'(1) c(2) show ?thesis by blast
next
  case False
  show ?thesis
  proof (cases f)
    case (InRight pl p e)
    with f(1) a have "at s q (Some g) (Bin u g False (Bin pl p True (Bin nl n True nr))) fs" by simp
    from insert_right_outer [OF this False] obtain s' where
      s': "insert_right n p g s = Some (n, s')" "at s' q (Some p) (Bin (Bin u g True pl) p False (Bin nl n True nr)) fs" by blast
    have "rb_ok (m + 1) (Bin (Bin u g True pl) p False (Bin nl n True nr))"
      using f ok InRight False by (auto simp: rb_ok_Bin)
    moreover have "rb_parent (nodes s' n) = Some p" "\<not> rb_red (nodes s' p)" using s'(2) by (auto simp: at_def)
    ultimately have "repaired (m + 1) (Bin u g False (close f (Bin nl n True nr))) fs n s'"
      unfolding repaired_def using s'(2) InRight f(1) by (intro exI conjI) (assumption | simp)+
    with s'(1) InRight show ?thesis by auto
  next
    case (InLeft p e pr)
    with f(1) a have "at s q (Some g) (Bin u g False (Bin (Bin nl n True nr) p True pr)) fs" by simp
    from insert_right_inner [OF this False] obtain s' q' where
      s': "insert_right n p g s = Some (p, s')" "at s' q' (Some n) (Bin (Bin u g True nl) n False (Bin nr p True pr)) fs" by blast
    have "rb_ok (m + 1) (Bin (Bin u g True nl) n False (Bin nr p True pr))"
      using f ok InLeft False by (auto simp: rb_ok_Bin)
    moreover have "rb_parent (nodes s' p) = Some n" "\<not> rb_red (nodes s' n)" using s'(2) by (auto simp: at_def)
    ultimately have "repaired (m + 1) (Bin u g False (close f (Bin nl n True nr))) fs p s'"
      unfolding repaired_def using s'(2) InLeft f(1) by (intro exI conjI) (assumption | simp)+
    with s'(1) InLeft show ?thesis by auto
  qed
qed

subsection \<open>The loop\<close>

lemma addrs_plug_cong: "addrs t = addrs t' \<Longrightarrow> addrs (plug fs t) = addrs (plug fs t')"
  by (simp add: addrs_plug)

lemma red_black_paint: "red_black t \<Longrightarrow> red_black (paint False t)"
  by (cases t) (auto simp: red_black_def)

lemma insert_loop_unfold:
  "insert_loop n s =
     (case rb_parent (nodes s n) of
        None \<Rightarrow> Some s
      | Some p \<Rightarrow>
          if \<not> rb_red (nodes s p) then Some s
          else do {
            g \<leftarrow> rb_parent (nodes s p);
            (n1, s1) \<leftarrow>
              (if Some p = rb_left (nodes s g)
               then insert_left n p g s
               else insert_right n p g s);
            insert_loop n1 s1
          })"
  by (rule insert_loop.simps)

text \<open>The pass from a red parent, on either side of the grandparent.\<close>

lemma insert_pass:
  assumes a: "at s p0 (Some n) (Bin l n True r) (f # g # hs)"
    and f: "frame_red f" "rb_ok m (frame_tree f)" "\<not> red (frame_tree f)"
    and ok: "rb_ok m l" "rb_ok m r" "\<not> red l" "\<not> red r" "rb_ok m (frame_tree g)" "\<not> frame_red g"
  shows "\<exists>s1 n1. insert_loop n s = insert_loop n1 s1
    \<and> (repaired (m + 1) (close g (close f (Bin l n True r))) hs n1 s1
       \<or> raised (m + 1) (close g (close f (Bin l n True r))) hs n1 s1)"
proof -
  let ?p = "frame_addr f" and ?g = "frame_addr g"
  have p: "rb_parent (nodes s n) = Some ?p" "rb_red (nodes s ?p)" "rb_parent (nodes s ?p) = Some ?g"
    using a f(1) by (cases f; cases g; auto simp: at_def)+
  have up: "\<exists>q. at s q (Some ?g) (close g (close f (Bin l n True r))) hs"
    using a by (cases f; cases g) (auto simp: at_def)
  show ?thesis
  proof (cases g)
    case (InLeft ga e u)
    with ok(6) have e: "e = False" by simp
    from up InLeft e obtain q where q: "at s q (Some ga) (Bin (close f (Bin l n True r)) ga False u) hs" by auto
    have "rb_left (nodes s ga) = Some ?p" using q by (cases f) (auto simp: at_def)
    moreover from insert_left_step [OF q f ok(1-4)] ok(5) InLeft obtain s1 n1 where
      s1: "insert_left n ?p ga s = Some (n1, s1)"
        "repaired (m + 1) (Bin (close f (Bin l n True r)) ga False u) hs n1 s1
         \<or> raised (m + 1) (Bin (close f (Bin l n True r)) ga False u) hs n1 s1" by auto
    ultimately have "insert_loop n s = insert_loop n1 s1"
      using p InLeft by (subst insert_loop_unfold) simp
    with s1(2) InLeft e show ?thesis by auto
  next
    case (InRight u ga e)
    with ok(6) have e: "e = False" by simp
    from up InRight e obtain q where q: "at s q (Some ga) (Bin u ga False (close f (Bin l n True r))) hs" by auto
    have "rb_left (nodes s ga) \<noteq> Some ?p"
      using q by (cases f; cases u) (auto simp: at_def addrs_plug)
    moreover from insert_right_step [OF q f ok(1-4)] ok(5) InRight obtain s1 n1 where
      s1: "insert_right n ?p ga s = Some (n1, s1)"
        "repaired (m + 1) (Bin u ga False (close f (Bin l n True r))) hs n1 s1
         \<or> raised (m + 1) (Bin u ga False (close f (Bin l n True r))) hs n1 s1" by auto
    ultimately have "insert_loop n s = insert_loop n1 s1"
      using p InRight by (subst insert_loop_unfold) simp
    with s1(2) InRight e show ?thesis by auto
  qed
qed

lemma insert_loop_correct:
  assumes "at s p0 (Some n) (Bin l n True r) fs" "rb_ok m l" "rb_ok m r" "\<not> red l" "\<not> red r" "path_ok m False fs"
  shows "\<exists>s' t. insert_loop n s = Some s' \<and> represents s' t \<and> addrs t = addrs (plug fs (Bin l n True r))
    \<and> red_black (paint False t)"
  using assms
proof (induction fs arbitrary: s p0 n l r m rule: length_induct)
  case (1 fs)
  note a = "1.prems"(1) and ok = "1.prems"(2-5) and pt = "1.prems"(6)
  show ?case
  proof (cases fs)
    case Nil
    then have "represents s (Bin l n True r)" "rb_parent (nodes s n) = None" using a at_up [OF a] by (auto simp: at_def)
    moreover have "red_black (paint False (Bin l n True r))" using ok by (auto simp: red_black_def rb_ok_def)
    moreover have "insert_loop n s = Some s" using \<open>rb_parent (nodes s n) = None\<close> by (subst insert_loop_unfold) simp
    ultimately show ?thesis using Nil by (intro exI [of _ s] exI [of _ "Bin l n True r"]) simp
  next
    case (Cons f gs)
    have f: "rb_ok m (frame_tree f)" "frame_red f \<Longrightarrow> \<not> red (frame_tree f)"
      "path_ok (if frame_red f then m else m + 1) (frame_red f) gs" using pt Cons by auto
    have pa: "rb_parent (nodes s n) = Some (frame_addr f)" "rb_red (nodes s (frame_addr f)) = frame_red f"
      using a Cons by (cases f; auto simp: at_def)+
    show ?thesis
    proof (cases "frame_red f")
      case False
      have "rb_ok m (Bin l n True r)" using ok by (auto simp: rb_ok_Bin)
      moreover have "path_ok m (red (Bin l n True r)) fs" using f False Cons by simp
      ultimately have "red_black (paint False (plug fs (Bin l n True r)))"
        using plug_red_black red_black_paint by blast
      moreover have "insert_loop n s = Some s" using pa False by (subst insert_loop_unfold) simp
      ultimately show ?thesis using at_up [OF a] by blast
    next
      case True
      with f(3) obtain g hs where gs: "gs = g # hs" by (cases gs) auto
      with f(3) True have g: "rb_ok m (frame_tree g)" "\<not> frame_red g" "path_ok (m + 1) False hs" by auto
      from insert_pass [OF a [unfolded Cons gs] True f(1) f(2) [OF True] ok g(1,2)] obtain s1 n1 where
        s1: "insert_loop n s = insert_loop n1 s1" and
        r: "repaired (m + 1) (close g (close f (Bin l n True r))) hs n1 s1
         \<or> raised (m + 1) (close g (close f (Bin l n True r))) hs n1 s1" by blast
      from r show ?thesis
      proof
        assume "repaired (m + 1) (close g (close f (Bin l n True r))) hs n1 s1"
        then obtain q x T where T: "at s1 q x T hs" "rb_ok (m + 1) T" "\<not> red T"
          "addrs T = addrs (close g (close f (Bin l n True r)))"
          "\<exists>p. rb_parent (nodes s1 n1) = Some p \<and> \<not> rb_red (nodes s1 p)" unfolding repaired_def by blast
        have "insert_loop n1 s1 = Some s1" using T(5) by (subst insert_loop_unfold) auto
        moreover have "red_black (plug hs T)" using T(2,3) g(3) by (intro plug_red_black) auto
        moreover have "addrs (plug hs T) = addrs (plug fs (Bin l n True r))"
          using addrs_plug_cong [OF T(4), of hs] Cons gs by simp
        ultimately show ?thesis using at_up [OF T(1)] s1 red_black_paint by auto
      next
        assume "raised (m + 1) (close g (close f (Bin l n True r))) hs n1 s1"
        then obtain q l' r' where T: "at s1 q (Some n1) (Bin l' n1 True r') hs" "rb_ok (m + 1) l'" "rb_ok (m + 1) r'"
          "\<not> red l'" "\<not> red r'" "addrs (Bin l' n1 True r') = addrs (close g (close f (Bin l n True r)))"
          unfolding raised_def by blast
        have "length hs < length fs" using Cons gs by simp
        with "1.IH" T(1-5) g(3) obtain s' t where t: "insert_loop n1 s1 = Some s'" "represents s' t"
          "addrs t = addrs (plug hs (Bin l' n1 True r'))" "red_black (paint False t)" by blast
        moreover have "addrs (plug hs (Bin l' n1 True r')) = addrs (plug fs (Bin l n True r))"
          using addrs_plug_cong [OF T(6), of hs] Cons gs by simp
        ultimately show ?thesis using s1 by auto
      qed
    qed
  qed
qed

text \<open>The whole function: the new node is in the tree, in the order in which it was linked.\<close>

lemma rb_insert_color_at:
  assumes "at s p (Some n) (Bin Tip n True Tip) fs" "path_ok 0 False fs"
  shows "\<exists>s' t. rb_insert_color n s = Some s' \<and> represents s' t \<and> red_black t
    \<and> addrs t = before fs @ n # after fs"
proof -
  from insert_loop_correct [OF assms(1), of 0] assms(2) obtain s1 t1 where
    s1: "insert_loop n s = Some s1" "represents s1 t1" "addrs t1 = addrs (plug fs (Bin Tip n True Tip))"
      "red_black (paint False t1)" by auto
  then obtain l a c r where t1: "t1 = Bin l a c r" by (cases t1) (auto simp: addrs_plug)
  have r: "rb_root s1 = Some a" using s1(2) t1 by (simp add: represents_def)
  have "represents (paint_node a False s1) (Bin l a False r)"
    using s1(2) at_paint [of s1 None "rb_root s1" l a c r "[]" False] unfolding at_root t1 by (simp add: r)
  moreover have "rb_insert_color n s = Some (paint_node a False s1)" by (simp add: rb_insert_color_def s1(1) r)
  ultimately show ?thesis using s1(3,4) t1 by (auto simp: addrs_plug)
qed

end
