(* ===== verification/RBErase.thy ===== *)
theory RBErase
  imports RBInsert
begin

text \<open>
  The loop of \<open>rb_erase\<close> after the label \<open>color_fixup\<close>, which repairs the tree below which one black
  node is missing.
\<close>

subsection \<open>A black sibling\<close>

lemma at_paint_right_right:
  "at s p x (Bin l a c (Bin rl b e (Bin ql z g qr))) fs
    \<Longrightarrow> at (paint_node z d s) p x (Bin l a c (Bin rl b e (Bin ql z d qr))) fs"
  by (auto simp: at_def addrs_plug)

lemma at_paint_right_left:
  "at s p x (Bin l a c (Bin (Bin ql z g qr) b e rr)) fs
    \<Longrightarrow> at (paint_node z d s) p x (Bin l a c (Bin (Bin ql z d qr) b e rr)) fs"
  by (auto simp: at_def addrs_plug)

lemma at_paint_left_left:
  "at s p x (Bin (Bin (Bin ql z g qr) b e lr) a c r) fs
    \<Longrightarrow> at (paint_node z d s) p x (Bin (Bin (Bin ql z d qr) b e lr) a c r) fs"
  by (auto simp: at_def addrs_plug)

lemma at_paint_left_right:
  "at s p x (Bin (Bin ll b e (Bin ql z g qr)) a c r) fs
    \<Longrightarrow> at (paint_node z d s) p x (Bin (Bin ll b e (Bin ql z d qr)) a c r) fs"
  by (auto simp: at_def addrs_plug)

text \<open>Both children of the sibling are black: it turns red, and the shortage moves up.\<close>

lemma erase_left_recolour:
  assumes a: "at s q (Some a) (Bin t a c (Bin sl w False sr)) fs" and n: "\<not> red sl" "\<not> red sr"
  shows "\<exists>s'. erase_left_black a w s = Some (Some a, q, s') \<and> at s' q (Some a) (Bin t a c (Bin sl w True sr)) fs"
proof -
  have "\<not> is_red (rb_left (nodes s w)) s" "\<not> is_red (rb_right (nodes s w)) s"
    using uncle_black [of s _ _ sl w False sr] at_Bin(5) [OF a] n by auto
  moreover have "rb_parent (nodes (paint_node w True s) a) = q"
    using at_Bin(2) [OF at_paint_right [OF a, of True]] .
  ultimately show ?thesis using at_paint_right [OF a, of True] by (auto simp: erase_left_black_def Let_def)
qed

lemma erase_right_recolour:
  assumes a: "at s q (Some a) (Bin (Bin sl w False sr) a c t) fs" and n: "\<not> red sl" "\<not> red sr"
  shows "\<exists>s'. erase_right_black a w s = Some (Some a, q, s') \<and> at s' q (Some a) (Bin (Bin sl w True sr) a c t) fs"
proof -
  have "\<not> is_red (rb_left (nodes s w)) s" "\<not> is_red (rb_right (nodes s w)) s"
    using uncle_black [of s _ _ sl w False sr] at_Bin(4) [OF a] n by auto
  moreover have "rb_parent (nodes (paint_node w True s) a) = q"
    using at_Bin(2) [OF at_paint_left [OF a, of True]] .
  ultimately show ?thesis using at_paint_left [OF a, of True] by (auto simp: erase_right_black_def Let_def)
qed

text \<open>The outer child of the sibling is red: one rotation ends the repair.\<close>

lemma erase_left_tail:
  assumes a: "at s q (Some a) (Bin t a c (Bin sl w d (Bin rl z True rr))) fs"
    and s3: "s3 = paint_node a False (paint_node w (rb_red (nodes s a)) s)"
  shows "\<exists>s4. rb_rotate_left a (paint_if False (rb_right (nodes s3 w)) s3) = Some s4
    \<and> at s4 q (Some w) (Bin (Bin t a False sl) w c (Bin rl z False rr)) fs"
proof -
  have "at s3 q (Some a) (Bin t a False (Bin sl w c (Bin rl z True rr))) fs"
    using at_paint [OF at_paint_right [OF a]] at_Bin(3) [OF a] by (simp add: s3)
  moreover from this have "rb_right (nodes s3 w) = Some z" by (simp add: at_def)
  ultimately have "at (paint_if False (rb_right (nodes s3 w)) s3) q (Some a) (Bin t a False (Bin sl w c (Bin rl z False rr))) fs"
    by (simp add: paint_if_def at_paint_right_right)
  from rotate_left_at [OF this] show ?thesis .
qed

lemma erase_right_tail:
  assumes a: "at s q (Some a) (Bin (Bin (Bin rl z True rr) w d sr) a c t) fs"
    and s3: "s3 = paint_node a False (paint_node w (rb_red (nodes s a)) s)"
  shows "\<exists>s4. rb_rotate_right a (paint_if False (rb_left (nodes s3 w)) s3) = Some s4
    \<and> at s4 q (Some w) (Bin (Bin rl z False rr) w c (Bin sr a False t)) fs"
proof -
  have "at s3 q (Some a) (Bin (Bin (Bin rl z True rr) w c sr) a False t) fs"
    using at_paint [OF at_paint_left [OF a]] at_Bin(3) [OF a] by (simp add: s3)
  moreover from this have "rb_left (nodes s3 w) = Some z" by (simp add: at_def)
  ultimately have "at (paint_if False (rb_left (nodes s3 w)) s3) q (Some a) (Bin (Bin (Bin rl z False rr) w c sr) a False t) fs"
    by (simp add: paint_if_def at_paint_left_left)
  from rotate_right_at [OF this] show ?thesis .
qed

lemma erase_left_single:
  assumes a: "at s q (Some a) (Bin t a c (Bin sl w d (Bin rl z True rr))) fs"
  shows "\<exists>s'. erase_left_black a w s = Some (rb_root s', Some a, s')
    \<and> at s' q (Some w) (Bin (Bin t a False sl) w c (Bin rl z False rr)) fs"
proof -
  have "is_red (rb_right (nodes s w)) s"
    using uncle_black(1) [of s _ _ sl w d "Bin rl z True rr"] at_Bin(5) [OF a] by auto
  with erase_left_tail [OF a refl] show ?thesis by (auto simp: erase_left_black_def Let_def)
qed

lemma erase_right_single:
  assumes a: "at s q (Some a) (Bin (Bin (Bin rl z True rr) w d sr) a c t) fs"
  shows "\<exists>s'. erase_right_black a w s = Some (rb_root s', Some a, s')
    \<and> at s' q (Some w) (Bin (Bin rl z False rr) w c (Bin sr a False t)) fs"
proof -
  have "is_red (rb_left (nodes s w)) s"
    using uncle_black(2) [of s _ _ "Bin rl z True rr" w d sr] at_Bin(4) [OF a] by auto
  with erase_right_tail [OF a refl] show ?thesis by (auto simp: erase_right_black_def Let_def)
qed

text \<open>Only the inner child is red: it is rotated outwards first.\<close>

lemma erase_left_double:
  assumes a: "at s q (Some a) (Bin t a c (Bin (Bin nl v True nr) w False sr)) fs" and n: "\<not> red sr"
  shows "\<exists>s' q'. erase_left_black a w s = Some (rb_root s', Some a, s')
    \<and> at s' q' (Some v) (Bin (Bin t a False nl) v c (Bin nr w False sr)) fs"
proof -
  have nr: "is_red (rb_left (nodes s w)) s" "\<not> is_red (rb_right (nodes s w)) s"
    using uncle_black [of s _ _ "Bin nl v True nr" w False sr] at_Bin(5) [OF a] n by auto
  have v: "rb_left (nodes s w) = Some v" using a by (simp add: at_def)
  let ?s1 = "paint_node w True (paint_if False (rb_left (nodes s w)) s)"
  have "at ?s1 q (Some a) (Bin t a c (Bin (Bin nl v False nr) w True sr)) fs"
    using at_paint_right [OF at_paint_right_left [OF a]] by (simp add: v paint_if_def)
  from at_Bin(5) [OF this] have "at ?s1 (Some a) (Some w) (Bin (Bin nl v False nr) w True sr) (InRight t a c # fs)"
    by (auto simp: at_def)
  from rotate_right_at [OF this] obtain s2 where s2: "rb_rotate_right w ?s1 = Some s2"
    "at s2 (Some a) (Some v) (Bin nl v False (Bin nr w True sr)) (InRight t a c # fs)" by blast
  note up = at_up_right(2) [OF s2(2)]
  have sib: "rb_right (nodes s2 a) = Some v" using up by (simp add: at_def)
  from erase_left_tail [OF up refl] obtain s4 where
    "rb_rotate_left a (paint_if False (rb_right (nodes (paint_node a False (paint_node v (rb_red (nodes s2 a)) s2)) v))
       (paint_node a False (paint_node v (rb_red (nodes s2 a)) s2))) = Some s4"
    "at s4 (rb_parent (nodes s2 a)) (Some v) (Bin (Bin t a False nl) v c (Bin nr w False sr)) fs" by blast
  with nr s2(1) sib have "erase_left_black a w s = Some (rb_root s4, Some a, s4)"
    by (simp add: erase_left_black_def Let_def)
  with \<open>at s4 _ _ _ _\<close> show ?thesis by blast
qed

lemma erase_right_double:
  assumes a: "at s q (Some a) (Bin (Bin sl w False (Bin nl v True nr)) a c t) fs" and n: "\<not> red sl"
  shows "\<exists>s' q'. erase_right_black a w s = Some (rb_root s', Some a, s')
    \<and> at s' q' (Some v) (Bin (Bin sl w False nl) v c (Bin nr a False t)) fs"
proof -
  have nr: "is_red (rb_right (nodes s w)) s" "\<not> is_red (rb_left (nodes s w)) s"
    using uncle_black [of s _ _ sl w False "Bin nl v True nr"] at_Bin(4) [OF a] n by auto
  have v: "rb_right (nodes s w) = Some v" using a by (simp add: at_def)
  let ?s1 = "paint_node w True (paint_if False (rb_right (nodes s w)) s)"
  have "at ?s1 q (Some a) (Bin (Bin sl w True (Bin nl v False nr)) a c t) fs"
    using at_paint_left [OF at_paint_left_right [OF a]] by (simp add: v paint_if_def)
  from at_Bin(4) [OF this] have "at ?s1 (Some a) (Some w) (Bin sl w True (Bin nl v False nr)) (InLeft a c t # fs)"
    by (auto simp: at_def)
  from rotate_left_at [OF this] obtain s2 where s2: "rb_rotate_left w ?s1 = Some s2"
    "at s2 (Some a) (Some v) (Bin (Bin sl w True nl) v False nr) (InLeft a c t # fs)" by blast
  note up = at_up_left(2) [OF s2(2)]
  have sib: "rb_left (nodes s2 a) = Some v" using up by (simp add: at_def)
  from erase_right_tail [OF up refl] obtain s4 where
    "rb_rotate_right a (paint_if False (rb_left (nodes (paint_node a False (paint_node v (rb_red (nodes s2 a)) s2)) v))
       (paint_node a False (paint_node v (rb_red (nodes s2 a)) s2))) = Some s4"
    "at s4 (rb_parent (nodes s2 a)) (Some v) (Bin (Bin sl w False nl) v c (Bin nr a False t)) fs" by blast
  with nr s2(1) sib have "erase_right_black a w s = Some (rb_root s4, Some a, s4)"
    by (simp add: erase_right_black_def Let_def)
  with \<open>at s4 _ _ _ _\<close> show ?thesis by blast
qed

subsection \<open>One pass\<close>

text \<open>
  \<open>short n t\<close>: the tree \<open>t\<close> of black height \<open>n\<close> stands where black height \<open>n + 1\<close> is expected; its root may be
  red below a red node. After a pass the repair is done, when the loop goes on with the root,
  or the shortage is in another tree, with a red root, or with a shorter path to the root.
\<close>

definition short :: "nat \<Rightarrow> ctree \<Rightarrow> bool" where
  "short n t \<longleftrightarrow> no_red_red (paint False t) \<and> balanced t \<and> black_height t = n"

definition pass_result :: "addr list \<Rightarrow> nat \<Rightarrow> ptr \<Rightarrow> ptr \<Rightarrow> rb_tree \<Rightarrow> bool" where
  "pass_result as k x p s \<longleftrightarrow>
     (x = rb_root s \<and> (\<exists>T. represents s T \<and> red_black T \<and> addrs T = as))
   \<or> (\<exists>m t fs. at s p x t fs \<and> short m t \<and> path_ok (m + 1) False fs \<and> addrs (plug fs t) = as
        \<and> (red t \<or> length fs < k))"

lemma pass_finished:
  assumes "at s q x T fs" "red_black (plug fs T)" "addrs (plug fs T) = as"
  shows "pass_result as k (rb_root s) p s"
  using at_up [OF assms(1)] assms(2,3) by (auto simp: pass_result_def)

lemma pass_result_mono: "pass_result as k x p s \<Longrightarrow> k \<le> k' \<Longrightarrow> pass_result as k' x p s"
  unfolding pass_result_def using less_le_trans [of _ k k'] by blast

lemma erase_left_black_pass:
  assumes a: "at s q (Some a) (Bin t a c (Bin sl w False sr)) fs" and t: "rb_ok n t" "\<not> red t"
    and sib: "rb_ok (n + 1) (Bin sl w False sr)" and pt: "path_ok (if c then n + 1 else n + 2) c fs"
  shows "\<exists>x' p' s'. erase_left_black a w s = Some (x', p', s')
    \<and> pass_result (addrs (plug fs (Bin t a c (Bin sl w False sr)))) (if c then 0 else Suc (length fs)) x' p' s'"
proof -
  let ?as = "addrs (plug fs (Bin t a c (Bin sl w False sr)))" and ?m = "if c then n + 1 else n + 2"
  have s: "rb_ok n sl" "rb_ok n sr" using sib by (auto simp: rb_ok_Bin)
  have fin: "pass_result ?as k (rb_root s') p' s'"
    if "at s' q' (Some v) T fs" "rb_ok ?m T" "red T = c" "addrs T = addrs (Bin t a c (Bin sl w False sr))" for s' q' v T p' k
    using pass_finished [OF that(1) _ addrs_plug_cong [OF that(4)]] plug_red_black [OF that(2)] pt that(3) by metis
  show ?thesis
  proof (cases "red sr")
    case True
    then obtain rl z rr where sr: "sr = Bin rl z True rr" by (cases sr) auto
    from erase_left_single [OF a [unfolded sr]] obtain s' where
      s': "erase_left_black a w s = Some (rb_root s', Some a, s')"
        "at s' q (Some w) (Bin (Bin t a False sl) w c (Bin rl z False rr)) fs" by blast
    have "rb_ok ?m (Bin (Bin t a False sl) w c (Bin rl z False rr))" using s t by (auto simp: rb_ok_Bin sr)
    from fin [OF s'(2) this] s'(1) show ?thesis by (auto simp: sr)
  next
    case nr: False
    show ?thesis
    proof (cases "red sl")
      case True
      then obtain nl v nr' where sl: "sl = Bin nl v True nr'" by (cases sl) auto
      from erase_left_double [OF a [unfolded sl] nr] obtain s' q' where
        s': "erase_left_black a w s = Some (rb_root s', Some a, s')"
          "at s' q' (Some v) (Bin (Bin t a False nl) v c (Bin nr' w False sr)) fs" by blast
      have "rb_ok ?m (Bin (Bin t a False nl) v c (Bin nr' w False sr))" using s t by (auto simp: rb_ok_Bin sl)
      from fin [OF s'(2) this] s'(1) show ?thesis by (auto simp: sl)
    next
      case False
      from erase_left_recolour [OF a False nr] obtain s' where
        s': "erase_left_black a w s = Some (Some a, q, s')" "at s' q (Some a) (Bin t a c (Bin sl w True sr)) fs" by blast
      have "short (if c then n else n + 1) (Bin t a c (Bin sl w True sr))"
        using s t nr False by (auto simp: short_def rb_ok_def)
      moreover have "path_ok ((if c then n else n + 1) + 1) False fs" using path_ok_black [OF pt] by (cases c) simp_all
      moreover have "addrs (plug fs (Bin t a c (Bin sl w True sr))) = ?as" by (simp add: addrs_plug)
      ultimately have "pass_result ?as (if c then 0 else Suc (length fs)) (Some a) q s'"
        unfolding pass_result_def using s'(2)
        by (intro disjI2 exI [of _ "if c then n else n + 1"] exI [of _ "Bin t a c (Bin sl w True sr)"] exI [of _ fs]) simp
      with s'(1) show ?thesis by blast
    qed
  qed
qed

lemma erase_right_black_pass:
  assumes a: "at s q (Some a) (Bin (Bin sl w False sr) a c t) fs" and t: "rb_ok n t" "\<not> red t"
    and sib: "rb_ok (n + 1) (Bin sl w False sr)" and pt: "path_ok (if c then n + 1 else n + 2) c fs"
  shows "\<exists>x' p' s'. erase_right_black a w s = Some (x', p', s')
    \<and> pass_result (addrs (plug fs (Bin (Bin sl w False sr) a c t))) (if c then 0 else Suc (length fs)) x' p' s'"
proof -
  let ?as = "addrs (plug fs (Bin (Bin sl w False sr) a c t))" and ?m = "if c then n + 1 else n + 2"
  have s: "rb_ok n sl" "rb_ok n sr" using sib by (auto simp: rb_ok_Bin)
  have fin: "pass_result ?as k (rb_root s') p' s'"
    if "at s' q' (Some v) T fs" "rb_ok ?m T" "red T = c" "addrs T = addrs (Bin (Bin sl w False sr) a c t)" for s' q' v T p' k
    using pass_finished [OF that(1) _ addrs_plug_cong [OF that(4)]] plug_red_black [OF that(2)] pt that(3) by metis
  show ?thesis
  proof (cases "red sl")
    case True
    then obtain rl z rr where sl: "sl = Bin rl z True rr" by (cases sl) auto
    from erase_right_single [OF a [unfolded sl]] obtain s' where
      s': "erase_right_black a w s = Some (rb_root s', Some a, s')"
        "at s' q (Some w) (Bin (Bin rl z False rr) w c (Bin sr a False t)) fs" by blast
    have "rb_ok ?m (Bin (Bin rl z False rr) w c (Bin sr a False t))" using s t by (auto simp: rb_ok_Bin sl)
    from fin [OF s'(2) this] s'(1) show ?thesis by (auto simp: sl)
  next
    case nr: False
    show ?thesis
    proof (cases "red sr")
      case True
      then obtain nl v nr' where sr: "sr = Bin nl v True nr'" by (cases sr) auto
      from erase_right_double [OF a [unfolded sr] nr] obtain s' q' where
        s': "erase_right_black a w s = Some (rb_root s', Some a, s')"
          "at s' q' (Some v) (Bin (Bin sl w False nl) v c (Bin nr' a False t)) fs" by blast
      have "rb_ok ?m (Bin (Bin sl w False nl) v c (Bin nr' a False t))" using s t by (auto simp: rb_ok_Bin sr)
      from fin [OF s'(2) this] s'(1) show ?thesis by (auto simp: sr)
    next
      case False
      from erase_right_recolour [OF a nr False] obtain s' where
        s': "erase_right_black a w s = Some (Some a, q, s')" "at s' q (Some a) (Bin (Bin sl w True sr) a c t) fs" by blast
      have "short (if c then n else n + 1) (Bin (Bin sl w True sr) a c t)"
        using s t nr False by (auto simp: short_def rb_ok_def)
      moreover have "path_ok ((if c then n else n + 1) + 1) False fs" using path_ok_black [OF pt] by (cases c) simp_all
      moreover have "addrs (plug fs (Bin (Bin sl w True sr) a c t)) = ?as" by (simp add: addrs_plug)
      ultimately have "pass_result ?as (if c then 0 else Suc (length fs)) (Some a) q s'"
        unfolding pass_result_def using s'(2)
        by (intro disjI2 exI [of _ "if c then n else n + 1"] exI [of _ "Bin (Bin sl w True sr) a c t"] exI [of _ fs]) simp
      with s'(1) show ?thesis by blast
    qed
  qed
qed

text \<open>With a red sibling, which is rotated away first.\<close>

lemma erase_left_pass:
  assumes a: "at s p x t (InLeft a c sib # fs)" and t: "rb_ok n t" "\<not> red t"
    and pt: "path_ok (n + 1) False (InLeft a c sib # fs)"
  shows "\<exists>x' p' s'. erase_left a s = Some (x', p', s')
    \<and> pass_result (addrs (plug (InLeft a c sib # fs) t)) (Suc (length fs)) x' p' s'"
proof -
  obtain q where up: "at s q (Some a) (Bin t a c sib) fs" using at_up_left(2) [OF a] by blast
  have sb: "rb_ok (n + 1) sib" "c \<longrightarrow> \<not> red sib" "path_ok (if c then n + 1 else n + 2) c fs" using pt by auto
  obtain sl w d sr where sib: "sib = Bin sl w d sr" using sb(1) by (cases sib) auto
  have w: "rb_right (nodes s a) = Some w" "rb_red (nodes s w) = d" using up by (auto simp: sib at_def)
  show ?thesis
  proof (cases d)
    case False
    with sib have sib': "sib = Bin sl w False sr" by simp
    from False w have "erase_left a s = erase_left_black a w s" by (simp add: erase_left_def)
    with erase_left_black_pass [OF up [unfolded sib'] t sb(1) [unfolded sib'] sb(3)]
    obtain x' p' s' where "erase_left a s = Some (x', p', s')"
      "pass_result (addrs (plug fs (Bin t a c sib))) (if c then 0 else Suc (length fs)) x' p' s'" by (auto simp: sib')
    moreover have "(if c then 0 else Suc (length fs)) \<le> Suc (length fs)" by simp
    ultimately show ?thesis using pass_result_mono by auto
  next
    case True
    with sb(2) sib have c: "\<not> c" by simp
    have kids: "rb_ok (n + 1) sl" "rb_ok (n + 1) sr" "\<not> red sl" "\<not> red sr" using sb(1) sib True by (auto simp: rb_ok_Bin)
    obtain tl v tr where sl: "sl = Bin tl v False tr" using kids(1,3) by (cases sl) auto
    have "at (paint_node a True (paint_node w False s)) q (Some a) (Bin t a True (Bin sl w False sr)) fs"
      by (rule at_paint [OF at_paint_right]) (use up sib in simp)
    from rotate_left_at [OF this] obtain s1 where
      s1: "rb_rotate_left a (paint_node a True (paint_node w False s)) = Some s1"
        "at s1 q (Some w) (Bin (Bin t a True sl) w False sr) fs" by blast
    have f: "at s1 (Some w) (Some a) (Bin t a True sl) (InLeft w False sr # fs)" using s1(2) by (auto simp: at_def)
    have v: "rb_right (nodes s1 a) = Some v" using f by (simp add: sl at_def)
    have e: "erase_left a s = erase_left_black a v s1" using w True s1(1) v by (simp add: erase_left_def)
    have "path_ok (if True then n + 1 else n + 2) True (InLeft w False sr # fs)" using kids sb(3) c by simp
    from erase_left_black_pass [OF f [unfolded sl] t kids(1) [unfolded sl] this] e
    obtain x' p' s' where "erase_left a s = Some (x', p', s')"
      "pass_result (addrs (plug (InLeft w False sr # fs) (Bin t a True sl))) 0 x' p' s'" by (auto simp: sl)
    moreover have "addrs (plug (InLeft w False sr # fs) (Bin t a True sl)) = addrs (plug (InLeft a c sib # fs) t)"
      by (simp add: addrs_plug sib)
    ultimately show ?thesis using pass_result_mono [of _ 0 _ _ _ "Suc (length fs)"] by auto
  qed
qed

lemma erase_right_pass:
  assumes a: "at s p x t (InRight sib a c # fs)" and t: "rb_ok n t" "\<not> red t"
    and pt: "path_ok (n + 1) False (InRight sib a c # fs)"
  shows "\<exists>x' p' s'. erase_right a s = Some (x', p', s')
    \<and> pass_result (addrs (plug (InRight sib a c # fs) t)) (Suc (length fs)) x' p' s'"
proof -
  obtain q where up: "at s q (Some a) (Bin sib a c t) fs" using at_up_right(2) [OF a] by blast
  have sb: "rb_ok (n + 1) sib" "c \<longrightarrow> \<not> red sib" "path_ok (if c then n + 1 else n + 2) c fs" using pt by auto
  obtain sl w d sr where sib: "sib = Bin sl w d sr" using sb(1) by (cases sib) auto
  have w: "rb_left (nodes s a) = Some w" "rb_red (nodes s w) = d" using up by (auto simp: sib at_def)
  show ?thesis
  proof (cases d)
    case False
    with sib have sib': "sib = Bin sl w False sr" by simp
    from False w have "erase_right a s = erase_right_black a w s" by (simp add: erase_right_def)
    with erase_right_black_pass [OF up [unfolded sib'] t sb(1) [unfolded sib'] sb(3)]
    obtain x' p' s' where "erase_right a s = Some (x', p', s')"
      "pass_result (addrs (plug fs (Bin sib a c t))) (if c then 0 else Suc (length fs)) x' p' s'" by (auto simp: sib')
    moreover have "(if c then 0 else Suc (length fs)) \<le> Suc (length fs)" by simp
    ultimately show ?thesis using pass_result_mono by auto
  next
    case True
    with sb(2) sib have c: "\<not> c" by simp
    have kids: "rb_ok (n + 1) sl" "rb_ok (n + 1) sr" "\<not> red sl" "\<not> red sr" using sb(1) sib True by (auto simp: rb_ok_Bin)
    obtain tl v tr where sr: "sr = Bin tl v False tr" using kids(2,4) by (cases sr) auto
    have "at (paint_node a True (paint_node w False s)) q (Some a) (Bin (Bin sl w False sr) a True t) fs"
      by (rule at_paint [OF at_paint_left]) (use up sib in simp)
    from rotate_right_at [OF this] obtain s1 where
      s1: "rb_rotate_right a (paint_node a True (paint_node w False s)) = Some s1"
        "at s1 q (Some w) (Bin sl w False (Bin sr a True t)) fs" by blast
    have f: "at s1 (Some w) (Some a) (Bin sr a True t) (InRight sl w False # fs)" using s1(2) by (auto simp: at_def)
    have v: "rb_left (nodes s1 a) = Some v" using f by (simp add: sr at_def)
    have e: "erase_right a s = erase_right_black a v s1" using w True s1(1) v by (simp add: erase_right_def)
    have "path_ok (if True then n + 1 else n + 2) True (InRight sl w False # fs)" using kids sb(3) c by simp
    from erase_right_black_pass [OF f [unfolded sr] t kids(2) [unfolded sr] this] e
    obtain x' p' s' where "erase_right a s = Some (x', p', s')"
      "pass_result (addrs (plug (InRight sl w False # fs) (Bin sr a True t))) 0 x' p' s'" by (auto simp: sr)
    moreover have "addrs (plug (InRight sl w False # fs) (Bin sr a True t)) = addrs (plug (InRight sib a c # fs) t)"
      by (simp add: addrs_plug sib)
    ultimately show ?thesis using pass_result_mono [of _ 0 _ _ _ "Suc (length fs)"] by auto
  qed
qed

subsection \<open>The loop\<close>

lemma erase_loop_unfold:
  "erase_loop x p s =
     (if x \<noteq> rb_root s \<and> \<not> is_red x s
      then do {
        a \<leftarrow> p;
        (x1, p1, s1) \<leftarrow> (if rb_left (nodes s a) = x then erase_left a s else erase_right a s);
        erase_loop x1 p1 s1
      }
      else Some (x, s))"
  by (rule erase_loop.simps)

text \<open>What the loop promises, with the assignment after it: \<open>if (child) child->rb_red = false\<close>.\<close>

definition loop_ends :: "addr list \<Rightarrow> ptr \<Rightarrow> ptr \<Rightarrow> rb_tree \<Rightarrow> bool" where
  "loop_ends as x p s \<longleftrightarrow>
     (\<exists>c s2 T. erase_loop x p s = Some (c, s2) \<and> represents (paint_if False c s2) T \<and> red_black T \<and> addrs T = as)"

lemma at_paint_if: "at s p x t fs \<Longrightarrow> at (paint_if False x s) p x (paint False t) fs"
  by (cases t) (auto simp: at_def paint_if_def addrs_plug)

lemma loop_ends_root:
  assumes "represents s T" "red_black T" "addrs T = as"
  shows "loop_ends as (rb_root s) p s"
proof -
  have r: "rb_root (paint_if False (rb_root s) s) = rb_root s" by (simp add: paint_if_def split: option.split)
  have "represents (paint_if False (rb_root s) s) (paint False T)"
    using at_paint_if [of s None "rb_root s" T "[]"] assms(1) by (simp add: at_root r)
  moreover have "erase_loop (rb_root s) p s = Some (rb_root s, s)" by (subst erase_loop_unfold) simp
  ultimately show ?thesis using red_black_paint [OF assms(2)] assms(3) unfolding loop_ends_def by auto
qed

lemma loop_ends_red:
  assumes a: "at s p x t fs" "red t" and sh: "short m t" "path_ok (m + 1) False fs"
  shows "loop_ends (addrs (plug fs t)) x p s"
proof -
  have "rb_ok (m + 1) (paint False t)" using sh(1) a(2) by (cases t) (auto simp: short_def rb_ok_def)
  moreover have "\<not> red (paint False t)" by (cases t) auto
  ultimately have "red_black (plug fs (paint False t))" using plug_red_black sh(2) by simp
  moreover have "represents (paint_if False x s) (plug fs (paint False t))" by (rule at_up [OF at_paint_if [OF a(1)]])
  moreover have "erase_loop x p s = Some (x, s)" using at_is_red [OF a(1)] a(2) by (subst erase_loop_unfold) simp
  ultimately show ?thesis unfolding loop_ends_def by (auto simp: addrs_plug)
qed

lemma erase_loop_correct:
  assumes "at s p x t fs" "short m t" "path_ok (m + 1) False fs"
  shows "loop_ends (addrs (plug fs t)) x p s"
  using assms
proof (induction fs arbitrary: s p x t m rule: length_induct)
  case (1 fs)
  note a = "1.prems"(1) and sh = "1.prems"(2) and pt = "1.prems"(3)
  show ?case
  proof (cases "red t")
    case True
    show ?thesis by (rule loop_ends_red [OF a True sh pt])
  next
    case nr: False
    then have t: "rb_ok m t" using sh by (cases t) (auto simp: short_def rb_ok_def)
    show ?thesis
    proof (cases fs)
      case Nil
      then have x: "x = rb_root s" using a by (simp add: at_def)
      have "red_black t" using t nr by (simp add: rb_ok_def red_black_def)
      moreover have "represents s t" using at_up [OF a] Nil by simp
      ultimately show ?thesis using loop_ends_root Nil x by simp
    next
      case (Cons f gs)
      have nx: "x \<noteq> rb_root s"
      proof
        assume e: "x = rb_root s"
        have rep: "tree_at (nodes s) None (rb_root s) (plug fs t)" using at_up [OF a] by (simp add: represents_def)
        have "addrs (plug fs t) \<noteq> []" by (cases f) (simp_all add: Cons addrs_plug)
        then obtain l b c r where pl: "plug fs t = Bin l b c r" by (cases "plug fs t") auto
        then have "rb_parent (nodes s b) = None" "x = Some b" using rep e by simp_all
        moreover have "p \<noteq> None" using a Cons by (cases f) (auto simp: at_def)
        ultimately show False using a by (cases t) (auto simp: at_def)
      qed
      have step: "\<exists>x' p' s'. erase_loop x p s = erase_loop x' p' s' \<and> pass_result (addrs (plug fs t)) (length fs) x' p' s'"
      proof (cases f)
        case (InLeft b c r)
        from erase_left_pass [OF a [unfolded Cons InLeft] t nr pt [unfolded Cons InLeft]] obtain x' p' s' where
          e: "erase_left b s = Some (x', p', s')" "pass_result (addrs (plug fs t)) (Suc (length gs)) x' p' s'"
          using Cons InLeft by auto
        have "p = Some b" "rb_left (nodes s b) = x" using a Cons InLeft by (auto simp: at_def)
        then have "erase_loop x p s = erase_loop x' p' s'"
          using nx at_is_red [OF a] nr e(1) by (subst erase_loop_unfold) simp
        with e(2) Cons show ?thesis by auto
      next
        case (InRight l b c)
        from erase_right_pass [OF a [unfolded Cons InRight] t nr pt [unfolded Cons InRight]] obtain x' p' s' where
          e: "erase_right b s = Some (x', p', s')" "pass_result (addrs (plug fs t)) (Suc (length gs)) x' p' s'"
          using Cons InRight by auto
        have "l \<noteq> Tip" using pt Cons InRight by auto
        with at_side_right(1) [OF a [unfolded Cons InRight]] have "rb_left (nodes s b) \<noteq> x" by simp
        moreover have "p = Some b" using a Cons InRight by (auto simp: at_def)
        ultimately have "erase_loop x p s = erase_loop x' p' s'"
          using nx at_is_red [OF a] nr e(1) by (subst erase_loop_unfold) simp
        with e(2) Cons show ?thesis by auto
      qed
      then obtain x' p' s' where s': "erase_loop x p s = erase_loop x' p' s'"
        "pass_result (addrs (plug fs t)) (length fs) x' p' s'" by blast
      from s'(2) have "loop_ends (addrs (plug fs t)) x' p' s'"
        unfolding pass_result_def
      proof (elim disjE exE conjE)
        fix T assume "x' = rb_root s'" "represents s' T" "red_black T" "addrs T = addrs (plug fs t)"
        then show ?thesis using loop_ends_root by simp
      next
        fix m' t' fs' assume "at s' p' x' t' fs'" "short m' t'" "path_ok (m' + 1) False fs'"
          "addrs (plug fs' t') = addrs (plug fs t)" "red t'"
        then show ?thesis using loop_ends_red by metis
      next
        fix m' t' fs' assume "at s' p' x' t' fs'" "short m' t'" "path_ok (m' + 1) False fs'"
          "addrs (plug fs' t') = addrs (plug fs t)" "length fs' < length fs"
        then show ?thesis using "1.IH" by metis
      qed
      then show ?thesis unfolding loop_ends_def s'(1) .
    qed
  qed
qed

end
