(* ===== verification/RBUnlink.thy ===== *)
theory RBUnlink
  imports RBErase
begin

text \<open>
  \<open>rb_erase\<close> as a whole: finding the successor, unlinking, and the repair.
\<close>

subsection \<open>Positions in a tree\<close>

lemma plug_red_blackD:
  "red_black (plug fs t) \<Longrightarrow> \<exists>n. rb_ok n t \<and> path_ok n (red t) fs"
proof (induction fs arbitrary: t)
  case Nil
  then show ?case by (auto simp: red_black_def rb_ok_def)
next
  case (Cons f fs)
  then obtain n where n: "rb_ok n (close f t)" "path_ok n (red (close f t)) fs" by auto
  then show ?case by (cases f) (auto simp: rb_ok_Bin split: if_splits)
qed

lemma at_member:
  "at s p x t fs \<Longrightarrow> n \<in> set (addrs t) \<Longrightarrow>
    \<exists>q l c r gs. at s q (Some n) (Bin l n c r) gs \<and> plug gs (Bin l n c r) = plug fs t"
proof (induction t arbitrary: p x fs)
  case (Bin l a c r)
  consider "n = a" | "n \<in> set (addrs l)" | "n \<in> set (addrs r)" using Bin.prems(2) by auto
  then show ?case
  proof cases
    case 1
    with Bin.prems(1) at_Bin(1) [OF Bin.prems(1)] show ?thesis by blast
  next
    case 2
    from Bin.IH(1) [OF at_Bin(4) [OF Bin.prems(1)] this] show ?thesis by simp
  next
    case 3
    from Bin.IH(2) [OF at_Bin(5) [OF Bin.prems(1)] this] show ?thesis by simp
  qed
qed simp

definition left_path :: "frame list \<Rightarrow> bool" where
  "left_path gs \<longleftrightarrow> (\<forall>f\<in>set gs. \<exists>a c r. f = InLeft a c r)"

lemma leftmost_at:
  "at s p (Some a) (Bin l a c r) fs \<Longrightarrow>
    \<exists>b d br q gs. leftmost (nodes s) a = Some b \<and> at s q (Some b) (Bin Tip b d br) (gs @ fs)
      \<and> left_path gs \<and> plug gs (Bin Tip b d br) = Bin l a c r"
proof (induction l arbitrary: p a c r fs)
  case Tip
  then have "rb_left (nodes s a) = None" by (simp add: at_def)
  then have "leftmost (nodes s) a = Some a" by (subst leftmost.simps) simp
  with Tip show ?case by (intro exI [of _ a] exI [of _ c] exI [of _ r] exI [of _ p] exI [of _ "[]"]) (simp add: left_path_def)
next
  case (Bin ll b d lr)
  have l: "at s (Some a) (Some b) (Bin ll b d lr) (InLeft a c r # fs)" "rb_left (nodes s a) = Some b"
    using Bin.prems by (auto simp: at_def)
  from Bin.IH(1) [OF l(1)] obtain b' d' br q gs where
    g: "leftmost (nodes s) b = Some b'" "at s q (Some b') (Bin Tip b' d' br) (gs @ InLeft a c r # fs)"
      "left_path gs" "plug gs (Bin Tip b' d' br) = Bin ll b d lr" by blast
  have "leftmost (nodes s) a = Some b'" using g(1) l(2) by (subst leftmost.simps) simp
  moreover have "plug (gs @ [InLeft a c r]) (Bin Tip b' d' br) = Bin (Bin ll b d lr) a c r"
    using g(4) by (simp add: plug_def)
  moreover have "left_path (gs @ [InLeft a c r])" using g(3) by (auto simp: left_path_def)
  ultimately show ?case using g(2) by (intro exI [of _ b'] exI [of _ d'] exI [of _ br] exI [of _ q] exI [of _ "gs @ [InLeft a c r]"]) simp
qed

subsection \<open>A node with at most one child\<close>

lemma tree_at_redirect [simp]:
  "(\<And>q. p = Some q \<Longrightarrow> q \<notin> set (addrs t)) \<Longrightarrow>
    tree_at (nodes (redirect p old new s)) y x t = tree_at (nodes s) y x t"
  by (cases p) (auto simp: redirect_def)

lemma tree_at_new_parent:
  assumes "tree_at (nodes s) q x t" "distinct (addrs t)"
  shows "tree_at (nodes (case x of None \<Rightarrow> s | Some c \<Rightarrow> set_node c (rb_parent_update (\<lambda>_. p)) s)) p x t"
  using assms by (cases t) auto

lemma erase_one_at:
  assumes ph: "path_at (nodes s) (rb_root s) p (Some n) fs" and t: "tree_at (nodes s) (Some n) x t"
    and f: "rb_parent (nodes s n) = p" "rb_red (nodes s n) = c"
    and d: "distinct (before fs @ n # addrs t @ after fs)"
  shows "\<exists>s'. erase_one n x s = (x, p, c, s') \<and> at s' p x t fs"
proof -
  define s1 where "s1 = (case x of None \<Rightarrow> s | Some c \<Rightarrow> set_node c (rb_parent_update (\<lambda>_. p)) s)"
  have xt: "x = Some a \<Longrightarrow> a \<in> set (addrs t)" for a using t by (cases t) auto
  have t1: "tree_at (nodes s1) p x t" unfolding s1_def by (rule tree_at_new_parent [OF t]) (use d in auto)
  have ph1: "path_at (nodes s1) (rb_root s1) p (Some n) fs"
  proof (cases x)
    case (Some a)
    then have "a \<notin> set (before fs)" "a \<notin> set (after fs)" using xt d by auto
    with ph Some show ?thesis by (simp add: s1_def)
  qed (use ph in \<open>simp add: s1_def\<close>)
  have dj: "distinct (before fs @ after fs)" "n \<notin> set (before fs)" "n \<notin> set (after fs)" using d by auto
  have "path_at (nodes (redirect p n x s1)) (rb_root (redirect p n x s1)) p x fs"
    by (rule redirect_path [OF ph1 dj])
  moreover have "tree_at (nodes (redirect p n x s1)) p x t"
  proof (subst tree_at_redirect)
    fix q assume "p = Some q"
    with ph path_parent [of "nodes s" "rb_root s" q "Some n" fs] d show "q \<notin> set (addrs t)" by auto
  qed (rule t1)
  ultimately have "at (redirect p n x s1) p x t fs" using d by (auto simp: at_def addrs_plug)
  moreover have "erase_one n x s = (x, p, c, redirect p n x s1)"
    by (simp only: erase_one_def Let_def f s1_def [symmetric] redirect_def)
  ultimately show ?thesis by blast
qed

subsection \<open>A node with two children\<close>

text \<open>The part of a path up to a node: it ends below the node \<open>q\<close> with the pointer \<open>y\<close>.\<close>

fun segment_at :: "(addr \<Rightarrow> rb_node) \<Rightarrow> ptr \<Rightarrow> ptr \<Rightarrow> frame list \<Rightarrow> ptr \<Rightarrow> ptr \<Rightarrow> bool" where
  "segment_at h p x [] q y = (p = q \<and> x = y)"
| "segment_at h p x (InLeft a c t # fs) q y =
     (p = Some a \<and> rb_left (h a) = x \<and> rb_red (h a) = c \<and> tree_at h (Some a) (rb_right (h a)) t
      \<and> segment_at h (rb_parent (h a)) (Some a) fs q y)"
| "segment_at h p x (InRight t a c # fs) q y =
     (p = Some a \<and> rb_right (h a) = x \<and> rb_red (h a) = c \<and> tree_at h (Some a) (rb_left (h a)) t
      \<and> segment_at h (rb_parent (h a)) (Some a) fs q y)"

lemma path_at_append:
  "path_at h r p x (gs @ fs) \<longleftrightarrow> (\<exists>q y. segment_at h p x gs q y \<and> path_at h r q y fs)"
proof (induction gs arbitrary: p x)
  case (Cons g gs)
  then show ?case by (cases g) auto
qed simp

lemma segment_at_other [simp]:
  "a \<notin> set (before fs) \<Longrightarrow> a \<notin> set (after fs) \<Longrightarrow> segment_at (h(a := v)) p x fs q y = segment_at h p x fs q y"
  by (induction h p x fs q y rule: segment_at.induct) auto

lemma segment_at_redirect:
  "(\<And>a. z = Some a \<Longrightarrow> a \<notin> set (before fs) \<and> a \<notin> set (after fs)) \<Longrightarrow>
    segment_at (nodes (redirect z old new s)) p x fs q y = segment_at (nodes s) p x fs q y"
  by (cases z) (auto simp: redirect_def)

text \<open>The two ends of a segment can be reconnected.\<close>

lemma segment_bottom:
  assumes "segment_at h (Some b) x (InLeft b c t # gs) q y" "distinct (before (InLeft b c t # gs) @ after (InLeft b c t # gs))"
  shows "segment_at (h(b := (h b)\<lparr>rb_left := x'\<rparr>)) (Some b) x' (InLeft b c t # gs) q y"
  using assms by auto

lemma segment_at_append:
  "segment_at h p x (gs @ fs) q y \<longleftrightarrow> (\<exists>q' y'. segment_at h p x gs q' y' \<and> segment_at h q' y' fs q y)"
proof (induction gs arbitrary: p x)
  case (Cons g gs)
  then show ?case by (cases g) auto
qed simp

lemma before_append [simp]: "before (gs @ fs) = before fs @ before gs"
  by (induction gs) auto

lemma after_append [simp]: "after (gs @ fs) = after gs @ after fs"
  by (induction gs) auto

lemma segment_top:
  assumes sg: "segment_at h p x gs q (Some a)" and ne: "gs \<noteq> []" and d: "distinct (before gs @ after gs)"
  shows "segment_at (h(a := (h a)\<lparr>rb_parent := q'\<rparr>)) p x gs q' (Some a)" "a \<in> set (before gs @ after gs)" "rb_parent (h a) = q"
proof -
  obtain hs g where gs: "gs = hs @ [g]" using ne by (cases gs rule: rev_cases) auto
  from sg obtain q1 y1 where h: "segment_at h p x hs q1 y1" "segment_at h q1 y1 [g] q (Some a)"
    unfolding gs segment_at_append by blast
  then have g: "frame_addr g = a" "rb_parent (h a) = q" by (cases g; auto)+
  show "rb_parent (h a) = q" by (rule g(2))
  show "a \<in> set (before gs @ after gs)" using g(1) by (cases g) (auto simp: gs)
  have "a \<notin> set (before hs)" "a \<notin> set (after hs)" using d g(1) by (cases g; auto simp: gs)+
  then have "segment_at (h(a := (h a)\<lparr>rb_parent := q'\<rparr>)) p x hs q1 y1" using h(1) by simp
  moreover have "segment_at (h(a := (h a)\<lparr>rb_parent := q'\<rparr>)) q1 y1 [g] q' (Some a)"
    using h(2) g(1) d by (cases g) (auto simp: gs)
  ultimately show "segment_at (h(a := (h a)\<lparr>rb_parent := q'\<rparr>)) p x gs q' (Some a)" unfolding gs segment_at_append by blast
qed

text \<open>The last steps: the successor \<open>b\<close> takes over the fields of \<open>n\<close>, and the left subtree gets its new parent.\<close>

lemma take_over:
  assumes l: "l = Bin ll la lc lr" and t: "tree_at h (Some n) (rb_left o1) l" and ph: "path_at h r p (Some b) fs"
    and o1: "rb_parent o1 = p" "rb_red o1 = c"
    and d: "distinct (before fs @ addrs l @ b # after fs)"
  shows "rb_left o1 = Some la"
    "path_at (h(b := (h b)\<lparr>rb_parent := p, rb_red := c, rb_left := rb_left o1\<rparr>,
       la := (h la)\<lparr>rb_parent := Some b\<rparr>)) r (Some b) (rb_right (h b)) (InRight l b c # fs)"
proof -
  show ll: "rb_left o1 = Some la" using t l by simp
  have la: "la \<noteq> b" "la \<notin> set (before fs)" "la \<notin> set (after fs)" "la \<notin> set (addrs ll)" "la \<notin> set (addrs lr)"
    "b \<notin> set (before fs)" "b \<notin> set (after fs)" "b \<notin> set (addrs ll)" "b \<notin> set (addrs lr)" using d l by auto
  show "path_at (h(b := (h b)\<lparr>rb_parent := p, rb_red := c, rb_left := rb_left o1\<rparr>,
       la := (h la)\<lparr>rb_parent := Some b\<rparr>)) r (Some b) (rb_right (h b)) (InRight l b c # fs)"
    using t ph la ll by (simp add: l fun_upd_twist)
qed

lemma erase_two_at:
  assumes a: "at s p (Some n) (Bin l n c r) fs" and ne: "l \<noteq> Tip" "r \<noteq> Tip"
  shows "\<exists>b d br gs x q s'. plug gs (Bin Tip b d br) = r \<and> left_path gs \<and> erase_two n s = Some (x, Some q, d, s')
    \<and> at s' (Some q) x br (gs @ InRight l b c # fs)"
proof -
  obtain rl ra rd rr where r: "r = Bin rl ra rd rr" using ne(2) by (cases r) auto
  obtain ll la lc lr where l: "l = Bin ll la lc lr" using ne(1) by (cases l) auto
  have n: "rb_parent (nodes s n) = p" "rb_red (nodes s n) = c" "rb_right (nodes s n) = Some ra" "rb_left (nodes s n) = Some la"
    using a by (auto simp: at_def r l)
  have "at s (Some n) (Some ra) (Bin rl ra rd rr) (InRight l n c # fs)" using at_Bin(5) [OF a] n(3) r by simp
  from leftmost_at [OF this] obtain b d br q0 gs where
    g: "leftmost (nodes s) ra = Some b" "at s q0 (Some b) (Bin Tip b d br) (gs @ InRight l n c # fs)"
      "left_path gs" "plug gs (Bin Tip b d br) = r" using r by auto
  have b: "rb_parent (nodes s b) = q0" "rb_red (nodes s b) = d" "tree_at (nodes s) (Some b) (rb_right (nodes s b)) br"
    and dd: "distinct (addrs (plug (gs @ InRight l n c # fs) (Bin Tip b d br)))"
    and pt: "path_at (nodes s) (rb_root s) q0 (Some b) (gs @ InRight l n c # fs)" using g(2) by (auto simp: at_def)
  from pt have sg: "segment_at (nodes s) q0 (Some b) gs (Some n) (Some ra)" and tl: "tree_at (nodes s) (Some n) (Some la) l"
    and ph: "path_at (nodes s) (rb_root s) p (Some n) fs" using n by (auto simp: path_at_append)
  have dis: "distinct (before fs @ addrs l @ n # before gs @ b # addrs br @ after gs @ after fs)"
    using dd by (simp add: addrs_plug)
  define x where "x = rb_right (nodes s b)"
  define s1 where "s1 = redirect p n (Some b) s"
  have pq: "q \<in> set (before fs) \<or> q \<in> set (after fs)" if "p = Some q" for q using path_parent ph that by blast
  have same: "nodes s1 v = nodes s v" if "v \<notin> set (before fs)" "v \<notin> set (after fs)" for v
    unfolding s1_def by (rule redirect_frame(1)) (use pq that in auto)
  have nb: "nodes s1 n = nodes s n" "nodes s1 b = nodes s b" by (rule same; use dis in auto)+
  have ph1: "path_at (nodes s1) (rb_root s1) p (Some b) fs"
    unfolding s1_def by (rule redirect_path [OF ph]) (use dis in auto)
  have sg1: "segment_at (nodes s1) q0 (Some b) gs (Some n) (Some ra)"
    unfolding s1_def by (subst segment_at_redirect) (use pq dis sg in auto)
  have tl1: "tree_at (nodes s1) (Some n) (Some la) l"
    unfolding s1_def by (subst tree_at_redirect) (use pq dis tl in auto)
  have tb1: "tree_at (nodes s1) (Some b) x br"
    unfolding s1_def x_def by (subst tree_at_redirect) (use pq dis b(3) in auto)
  show ?thesis
  proof (cases gs)
    case Nil
    let ?s' = "set_node la (rb_parent_update (\<lambda>_. Some b))
      (set_node b (\<lambda>y. y\<lparr>rb_parent := p, rb_red := c, rb_left := Some la\<rparr>) s1)"
    have q0: "q0 = Some n" "ra = b" using sg Nil by simp_all
    have run: "erase_two n s = Some (x, Some b, d, ?s')"
      using g(1) n q0 b(1,2) nb
      by (simp add: erase_two_def Let_def s1_def [symmetric] redirect_def [symmetric] x_def)
    have dt: "distinct (before fs @ addrs l @ b # after fs)" using dis Nil by auto
    have la: "la \<notin> set (addrs br)" "la \<noteq> b" using dis l by auto
    have "path_at (nodes ?s') (rb_root ?s') (Some b) x (InRight l b c # fs)"
      using take_over(2) [OF l, of "nodes s1" n "nodes s n" "rb_root s1" p b fs c] tl1 ph1 n dt nb la
      by (simp add: x_def)
    moreover have "tree_at (nodes ?s') (Some b) x br" using tb1 la dis by (simp add: fun_upd_twist)
    moreover have "distinct (addrs (plug (InRight l b c # fs) br))" using dis Nil by (auto simp: addrs_plug)
    ultimately have "at ?s' (Some b) x br (InRight l b c # fs)" by (simp only: at_def)
    with run g(3,4) Nil show ?thesis by (intro exI [of _ b] exI [of _ d] exI [of _ br] exI [of _ "[]"]) auto
  next
    case (Cons f gs')
    then obtain p0 e t0 where f: "f = InLeft p0 e t0" using g(3) by (auto simp: left_path_def)
    have gne: "gs \<noteq> []" using Cons by simp
    have dgs: "distinct (before gs @ after gs)" using dis by auto
    have q0: "q0 = Some p0" using sg Cons f by simp
    have ra: "ra \<in> set (before gs @ after gs)" "rb_parent (nodes s1 ra) = Some n"
      using segment_top(2,3) [OF sg1 gne dgs] by blast+
    have p0: "p0 \<in> set (after gs)" using Cons f by simp
    have xt: "z \<in> set (addrs br)" if "x = Some z" for z using tb1 that by (cases br) auto
    have dr: "p0 \<noteq> n" "p0 \<noteq> b" "p0 \<notin> set (addrs br)" "p0 \<notin> set (addrs l)" "p0 \<notin> set (before fs)" "p0 \<notin> set (after fs)"
      using p0 dis by auto
    have dra: "ra \<noteq> n" "ra \<noteq> b" "ra \<notin> set (addrs br)" "ra \<notin> set (addrs l)" "ra \<notin> set (before fs)" "ra \<notin> set (after fs)"
      using ra(1) dis by auto
    have db: "b \<noteq> n" "b \<notin> set (addrs br)" "b \<notin> set (addrs l)" "b \<notin> set (before fs)" "b \<notin> set (after fs)"
      "b \<notin> set (before gs)" "b \<notin> set (after gs)" using dis by auto
    have dla: "la \<noteq> b" "la \<noteq> n" "la \<notin> set (addrs br)" "la \<notin> set (before gs)" "la \<notin> set (after gs)" using dis l by auto
    define t1 where "t1 = (case x of None \<Rightarrow> s1 | Some z \<Rightarrow> set_node z (rb_parent_update (\<lambda>_. Some p0)) s1)"
    define t2 where "t2 = set_node p0 (rb_left_update (\<lambda>_. x)) t1"
    define t3 where "t3 = set_node b (rb_right_update (\<lambda>_. Some ra)) t2"
    define s2 where "s2 = set_node ra (rb_parent_update (\<lambda>_. Some b)) t3"
    let ?s' = "set_node la (rb_parent_update (\<lambda>_. Some b))
      (set_node b (\<lambda>y. y\<lparr>rb_parent := p, rb_red := c, rb_left := Some la\<rparr>) s2)"
    have t1n: "nodes t1 v = nodes s1 v" if "v \<notin> set (addrs br)" for v
      using xt that by (cases x) (auto simp: t1_def)
    have nd: "n \<notin> set (addrs br)" using dis by auto
    have n2: "nodes t2 n = nodes s n" "nodes t3 n = nodes s n" "nodes s2 n = nodes s n"
      using dr(1) dra(1) db(1) t1n [OF nd] nb(1) by (simp_all add: t2_def t3_def s2_def)
    have run: "erase_two n s = Some (x, Some p0, d, ?s')"
    proof -
      have c1: "rb_right (nodes s1 b) = x" "rb_red (nodes s1 b) = d" "rb_parent (nodes s1 b) = Some p0"
        using b(1,2) nb(2) q0 by (simp_all add: x_def)
      show ?thesis
        by (simp only: erase_two_def n Option.bind.bind_lunit g(1) Let_def redirect_def [symmetric] s1_def [symmetric] c1
            if_not_P [OF dr(1)] t1_def [symmetric] t2_def [symmetric] t3_def [symmetric] n2 s2_def [symmetric] prod.case)
    qed
    have tb: "tree_at (nodes t1) (Some p0) x br"
      unfolding t1_def by (rule tree_at_new_parent [OF tb1]) (use dis in auto)
    have br_other: "z \<notin> set (before gs)" "z \<notin> set (after gs)" "z \<notin> set (addrs l)" "z \<notin> set (before fs)" "z \<notin> set (after fs)"
      if "z \<in> set (addrs br)" for z using that dis by auto
    have st: "segment_at (nodes t1) q0 (Some b) gs (Some n) (Some ra)" "tree_at (nodes t1) (Some n) (Some la) l"
      "path_at (nodes t1) (rb_root t1) p (Some b) fs"
      using sg1 tl1 ph1 xt br_other by (cases x; simp add: t1_def)+
    have "segment_at (nodes t2) q0 x gs (Some n) (Some ra)"
      using segment_bottom [OF st(1) [unfolded q0 Cons f] dgs [unfolded Cons f], of x]
      by (simp only: t2_def nodes_set_node q0 Cons f)
    then have "segment_at (nodes t3) q0 x gs (Some n) (Some ra)" using db by (simp add: t3_def)
    from segment_top(1) [OF this gne dgs, of "Some b"] have sg2: "segment_at (nodes s2) q0 x gs (Some b) (Some ra)"
      by (simp add: s2_def)
    have rest: "tree_at (nodes s2) (Some n) (Some la) l" "path_at (nodes s2) (rb_root s2) p (Some b) fs"
      "tree_at (nodes s2) (Some p0) x br" "rb_right (nodes s2 b) = Some ra"
      using st(2,3) tb dr dra db by (simp_all add: s2_def t3_def t2_def)
    have dt: "distinct (before fs @ addrs l @ b # after fs)" using dis by auto
    have "path_at (nodes ?s') (rb_root ?s') (Some b) (Some ra) (InRight l b c # fs)"
      using take_over(2) [OF l, of "nodes s2" n "nodes s n" "rb_root s2" p b fs c] rest n dt dla by simp
    moreover have "segment_at (nodes ?s') q0 x gs (Some b) (Some ra)" using sg2 dla db by simp
    ultimately have "path_at (nodes ?s') (rb_root ?s') (Some p0) x (gs @ InRight l b c # fs)"
      unfolding path_at_append q0 [symmetric] by blast
    moreover have "tree_at (nodes ?s') (Some p0) x br" using rest(3) dla db by simp
    moreover have "distinct (addrs (plug (gs @ InRight l b c # fs) br))" using dis by (auto simp: addrs_plug)
    ultimately have "at ?s' (Some p0) x br (gs @ InRight l b c # fs)" by (simp only: at_def)
    with run g(3,4) show ?thesis by (intro exI [of _ b] exI [of _ d] exI [of _ br] exI [of _ gs]) auto
  qed
qed

subsection \<open>The whole removal\<close>

lemma path_ok_rename: "path_ok m e (gs @ InRight l n c # fs) = path_ok m e (gs @ InRight l b c # fs)"
  by (induction gs arbitrary: m e) auto

lemma left_path_before: "left_path gs \<Longrightarrow> before gs = []"
  by (induction gs) (auto simp: left_path_def)

text \<open>After the unlinking of a node with colour \<open>d\<close> whose only subtree was \<open>t\<close>, the repair ends in a correct tree.\<close>

lemma erase_finish:
  assumes a: "at s p x t fs" and t: "rb_ok m t" "d \<longrightarrow> \<not> red t" and pt: "path_ok (if d then m else m + 1) d fs"
  shows "\<exists>s' T. (if d then Some s
      else do { (c, s2) \<leftarrow> erase_loop x p s; Some (paint_if False c s2) }) = Some s'
    \<and> represents s' T \<and> red_black T \<and> addrs T = addrs (plug fs t)"
proof (cases d)
  case True
  then have "red_black (plug fs t)" using plug_red_black [OF t(1), of fs] t(2) pt path_ok_black by auto
  with at_up [OF a] True show ?thesis by auto
next
  case False
  have "short m t" using t(1) by (cases t) (auto simp: short_def rb_ok_def)
  moreover have "path_ok (m + 1) False fs" using pt False by simp
  ultimately have "loop_ends (addrs (plug fs t)) x p s" by (rule erase_loop_correct [OF a])
  with False show ?thesis unfolding loop_ends_def by auto
qed

lemma rb_erase_at:
  assumes a: "at s p (Some n) (Bin l n c r) fs" and rb: "red_black (plug fs (Bin l n c r))"
  shows "\<exists>s' T. rb_erase n s = Some s' \<and> represents s' T \<and> red_black T
    \<and> addrs T = remove1 n (addrs (plug fs (Bin l n c r)))"
proof -
  from a have n: "rb_parent (nodes s n) = p" "rb_red (nodes s n) = c" and d: "distinct (addrs (plug fs (Bin l n c r)))"
    and tl: "tree_at (nodes s) (Some n) (rb_left (nodes s n)) l" and tr: "tree_at (nodes s) (Some n) (rb_right (nodes s n)) r"
    and ph: "path_at (nodes s) (rb_root s) p (Some n) fs" by (auto simp: at_def)
  have rem: "remove1 n (addrs (plug fs (Bin l n c r))) = before fs @ addrs l @ addrs r @ after fs"
    using d by (simp add: addrs_plug remove1_append)
  show ?thesis
  proof (cases "l = Tip \<or> r = Tip")
    case True
    define x t where "x = (if l = Tip then rb_right (nodes s n) else rb_left (nodes s n))" and "t = (if l = Tip then r else l)"
    have lt: "(rb_left (nodes s n) = None) = (l = Tip)" "(rb_right (nodes s n) = None) = (r = Tip)"
      using tl tr by (cases l; simp; cases r; simp)+
    have at_t: "addrs t = addrs l @ addrs r" using True by (auto simp: t_def)
    have dt: "distinct (before fs @ n # addrs t @ after fs)" using d at_t by (auto simp: addrs_plug)
    have xt: "tree_at (nodes s) (Some n) x t" using tl tr by (simp add: x_def t_def)
    from erase_one_at [OF ph xt n dt] obtain s1 where
      s1: "erase_one n x s = (x, p, c, s1)" "at s1 p x t fs" by blast
    from plug_red_blackD [OF rb] obtain k where k: "rb_ok k (Bin l n c r)" "path_ok k c fs" by auto
    then obtain m where "rb_ok m l" "rb_ok m r" "k = (if c then m else m + 1)" "c \<longrightarrow> \<not> red l \<and> \<not> red r"
      by (auto simp: rb_ok_Bin)
    with k(2) have m: "rb_ok m t" "c \<longrightarrow> \<not> red t" "path_ok (if c then m else m + 1) c fs" by (simp_all add: t_def)
    from erase_finish [OF s1(2) m] obtain s' T where
      s': "(if c then Some s1 else do { (c', s2) \<leftarrow> erase_loop x p s1; Some (paint_if False c' s2) }) = Some s'"
        "represents s' T" "red_black T" "addrs T = addrs (plug fs t)" by blast
    have "(if rb_left (nodes s n) = None then Some (erase_one n (rb_right (nodes s n)) s)
        else if rb_right (nodes s n) = None then Some (erase_one n (rb_left (nodes s n)) s)
        else erase_two n s) = Some (x, p, c, s1)"
      using True lt s1(1) by (auto simp: x_def)
    then have "rb_erase n s = Some s'" using s'(1) by (simp add: rb_erase_def)
    moreover have "addrs T = remove1 n (addrs (plug fs (Bin l n c r)))" using s'(4) rem at_t by (simp add: addrs_plug)
    ultimately show ?thesis using s'(2,3) by blast
  next
    case False
    then have ne: "l \<noteq> Tip" "r \<noteq> Tip" by auto
    from erase_two_at [OF a ne] obtain b d br gs x q s1 where
      g: "plug gs (Bin Tip b d br) = r" "left_path gs" and e: "erase_two n s = Some (x, Some q, d, s1)"
      and a1: "at s1 (Some q) x br (gs @ InRight l b c # fs)" by blast
    have "plug fs (Bin l n c r) = plug (gs @ InRight l n c # fs) (Bin Tip b d br)"
      using g(1) by (simp add: plug_def)
    with rb plug_red_blackD [of "gs @ InRight l n c # fs" "Bin Tip b d br"]
    obtain k where k: "rb_ok k (Bin Tip b d br)" "path_ok k d (gs @ InRight l n c # fs)" by auto
    then obtain m where "rb_ok m br" "k = (if d then m else m + 1)" "d \<longrightarrow> \<not> red br" by (auto simp: rb_ok_Bin)
    with k(2) have m: "rb_ok m br" "d \<longrightarrow> \<not> red br" "path_ok (if d then m else m + 1) d (gs @ InRight l b c # fs)"
      unfolding path_ok_rename [of _ _ gs l n c fs b] by simp_all
    from erase_finish [OF a1 m] obtain s' T where
      s': "(if d then Some s1 else do { (c', s2) \<leftarrow> erase_loop x (Some q) s1; Some (paint_if False c' s2) }) = Some s'"
        "represents s' T" "red_black T" "addrs T = addrs (plug (gs @ InRight l b c # fs) br)" by blast
    have "rb_left (nodes s n) \<noteq> None" "rb_right (nodes s n) \<noteq> None" using tl tr ne by (cases l; cases r; simp)+
    then have "rb_erase n s = Some s'"
      by (simp only: rb_erase_def if_False e Option.bind.bind_lunit prod.case s'(1))
    moreover have "addrs r = b # addrs br @ after gs"
      using arg_cong [OF g(1), of addrs] left_path_before [OF g(2)] by (simp add: addrs_plug)
    then have "addrs T = remove1 n (addrs (plug fs (Bin l n c r)))"
      using s'(4) rem left_path_before [OF g(2)] by (simp add: addrs_plug)
    ultimately show ?thesis using s'(2,3) by blast
  qed
qed

end
