(* ===== verification/FairQueue.thy ===== *)
theory FairQueue
  imports ProcQueue RBUnlink
begin

text \<open>
  The queue of the completely fair scheduler in \<open>process/process.c\<close>: a red-black tree of the nodes
  embedded in the process control blocks, ordered by virtual runtime.
\<close>

subsection \<open>The operations\<close>

text \<open>\<open>&p->vr_node\<close> and back, with the offset of the field on i386.\<close>

definition vr_node :: "addr \<Rightarrow> addr" where
  "vr_node p = p + 64"

definition rb_entry :: "addr \<Rightarrow> addr" where
  "rb_entry n = n - 64"

text \<open>The places that the variable \<open>link\<close> can point to.\<close>

datatype link = RootLink | LeftLink addr | RightLink addr

primrec read_link :: "link \<Rightarrow> rb_tree \<Rightarrow> ptr" where
  "read_link RootLink t = rb_root t"
| "read_link (LeftLink a) t = rb_left (nodes t a)"
| "read_link (RightLink a) t = rb_right (nodes t a)"

primrec write_link :: "link \<Rightarrow> ptr \<Rightarrow> rb_tree \<Rightarrow> rb_tree" where
  "write_link RootLink x t = t\<lparr>rb_root := x\<rparr>"
| "write_link (LeftLink a) x t = set_node a (rb_left_update (\<lambda>_. x)) t"
| "write_link (RightLink a) x t = set_node a (rb_right_update (\<lambda>_. x)) t"

definition rb_link_node :: "addr \<Rightarrow> ptr \<Rightarrow> link \<Rightarrow> rb_tree \<Rightarrow> rb_tree" where
  "rb_link_node node par link t =
     write_link link (Some node) (set_node node (\<lambda>_. \<lparr>rb_left = None, rb_right = None, rb_parent = par, rb_red = True\<rparr>) t)"

partial_function (option) find_link ::
  "pcb_heap \<Rightarrow> rb_tree \<Rightarrow> 64 word \<Rightarrow> link \<Rightarrow> ptr \<Rightarrow> (link \<times> ptr) option" where
  "find_link h t v link par =
     (case read_link link t of
        None \<Rightarrow> Some (link, par)
      | Some x \<Rightarrow>
          if v < vruntime (h (rb_entry x))
          then find_link h t v (LeftLink x) (Some x)
          else find_link h t v (RightLink x) (Some x))"

definition cfs_enqueue :: "addr \<Rightarrow> pcb_heap \<Rightarrow> rb_tree \<Rightarrow> rb_tree option" where
  "cfs_enqueue p h t = do {
     (link, par) \<leftarrow> find_link h t (vruntime (h p)) RootLink None;
     rb_insert_color (vr_node p) (rb_link_node (vr_node p) par link t)
   }"

definition cfs_dequeue_min :: "rb_tree \<Rightarrow> (ptr \<times> rb_tree) option" where
  "cfs_dequeue_min t = do {
     n \<leftarrow> rb_first t;
     (case n of
        None \<Rightarrow> Some (None, t)
      | Some a \<Rightarrow> do { t1 \<leftarrow> rb_erase a t; Some (Some (rb_entry a), t1) })
   }"

subsection \<open>What a tree of processes holds\<close>

definition run_key :: "pcb_heap \<Rightarrow> addr \<Rightarrow> int" where
  "run_key h p = uint (vruntime (h p))"

definition fair_queue :: "rb_tree \<Rightarrow> pcb_heap \<Rightarrow> addr list \<Rightarrow> bool" where
  "fair_queue t h ps \<longleftrightarrow>
     (\<exists>T. represents t T \<and> red_black T \<and> addrs T = map vr_node ps) \<and> sorted (map (run_key h) ps)"

lemma rb_entry_vr_node [simp]: "rb_entry (vr_node p) = p"
  by (simp add: rb_entry_def vr_node_def)

lemma vr_node_inj [simp]: "vr_node p = vr_node q \<longleftrightarrow> p = q"
  by (simp add: vr_node_def)

primrec link_of :: "frame list \<Rightarrow> link" where
  "link_of [] = RootLink"
| "link_of (f # fs) = (case f of InLeft a c r \<Rightarrow> LeftLink a | InRight l a c \<Rightarrow> RightLink a)"

lemma read_link_of: "at s p x t fs \<Longrightarrow> read_link (link_of fs) s = x"
  by (cases fs) (auto simp: at_def split: frame.split)

text \<open>The descent ends at the empty place behind all entries that are not larger.\<close>

definition node_key :: "pcb_heap \<Rightarrow> addr \<Rightarrow> 64 word" where
  "node_key h n = vruntime (h (rb_entry n))"

lemma find_link_at:
  assumes "at s p x t fs" "sorted (map (node_key h) (addrs t))"
    and "\<forall>y\<in>set (before fs). node_key h y \<le> v" "\<forall>y\<in>set (after fs). v < node_key h y"
  shows "\<exists>p' fs'. find_link h s v (link_of fs) p = Some (link_of fs', p') \<and> at s p' None Tip fs'
    \<and> before fs' @ after fs' = addrs (plug fs t) \<and> plug fs' Tip = plug fs t
    \<and> (\<forall>y\<in>set (before fs'). node_key h y \<le> v) \<and> (\<forall>y\<in>set (after fs'). v < node_key h y)"
  using assms
proof (induction t arbitrary: p x fs)
  case Tip
  have x: "x = None" using Tip.prems(1) by (simp add: at_def)
  have "find_link h s v (link_of fs) p = Some (link_of fs, p)"
    using read_link_of [OF Tip.prems(1)] x by (subst find_link.simps) simp
  with Tip.prems x show ?case by (intro exI [of _ p] exI [of _ fs]) (simp add: addrs_plug)
next
  case (Bin l a c r)
  have x: "x = Some a" using at_Bin(1) [OF Bin.prems(1)] .
  note rd = read_link_of [OF Bin.prems(1), unfolded x]
  show ?case
  proof (cases "v < node_key h a")
    case True
    then have "find_link h s v (link_of fs) p = find_link h s v (link_of (InLeft a c r # fs)) (Some a)"
      using rd by (subst find_link.simps) (simp add: node_key_def)
    moreover have "\<forall>y\<in>set (after (InLeft a c r # fs)). v < node_key h y"
      using True Bin.prems(2,4) by (auto simp: sorted_append)
    ultimately show ?thesis
      using Bin.IH(1) [OF at_Bin(4) [OF Bin.prems(1)]] Bin.prems(2,3) by (simp add: sorted_append)
  next
    case False
    then have "find_link h s v (link_of fs) p = find_link h s v (link_of (InRight l a c # fs)) (Some a)"
      using rd by (subst find_link.simps) (simp add: node_key_def)
    moreover have "\<forall>y\<in>set (before (InRight l a c # fs)). node_key h y \<le> v"
      using False Bin.prems(2,3) by (auto simp: sorted_append)
    ultimately show ?thesis
      using Bin.IH(2) [OF at_Bin(5) [OF Bin.prems(1)]] Bin.prems(2,4) by (simp add: sorted_append)
  qed
qed

lemma rb_link_node_at:
  assumes a: "at s p None Tip fs" and n: "n \<notin> set (before fs @ after fs)"
  shows "at (rb_link_node n p (link_of fs) s) p (Some n) (Bin Tip n True Tip) fs"
proof (cases fs)
  case Nil
  then show ?thesis using a by (auto simp: at_def rb_link_node_def)
next
  case (Cons f gs)
  show ?thesis
  proof (cases f)
    case (InLeft b c r)
    then show ?thesis using a n Cons by (auto simp: at_def rb_link_node_def addrs_plug)
  next
    case (InRight l b c)
    then show ?thesis using a n Cons by (auto simp: at_def rb_link_node_def addrs_plug)
  qed
qed

lemma place_split:
  assumes "ps = as @ bs" "\<forall>y\<in>set as. f y \<le> f p" "\<forall>y\<in>set bs. f p < (f y :: int)"
  shows "place f p ps = as @ p # bs"
proof -
  have "takeWhile (\<lambda>a. f a \<le> f p) bs = []" "dropWhile (\<lambda>a. f a \<le> f p) bs = bs" using assms(3) by (cases bs; auto)+
  with assms(1,2) show ?thesis by (simp add: place_def)
qed

lemma map_vr_node_split:
  "xs @ ys = map vr_node ps \<Longrightarrow> \<exists>as bs. ps = as @ bs \<and> xs = map vr_node as \<and> ys = map vr_node bs"
  by (metis append_eq_map_conv)

lemma cfs_enqueue_places:
  assumes q: "fair_queue t h ps" and p: "p \<notin> set ps"
  shows "\<exists>t'. cfs_enqueue p h t = Some t' \<and> fair_queue t' h (place (run_key h) p ps)"
proof -
  from q obtain T where T: "represents t T" "red_black T" "addrs T = map vr_node ps" and so: "sorted (map (run_key h) ps)"
    by (auto simp: fair_queue_def)
  have nk: "map (node_key h) (addrs T) = map (\<lambda>p. vruntime (h p)) ps" by (simp add: T(3) node_key_def)
  have "sorted (map (node_key h) (addrs T))"
    unfolding nk using so by (simp add: sorted_map run_key_def word_le_def)
  with find_link_at [OF T(1) [unfolded at_root], of h "vruntime (h p)"] obtain p' fs where
    f: "find_link h t (vruntime (h p)) RootLink None = Some (link_of fs, p')" "at t p' None Tip fs"
      "before fs @ after fs = map vr_node ps" "plug fs Tip = T"
      "\<forall>y\<in>set (before fs). node_key h y \<le> vruntime (h p)" "\<forall>y\<in>set (after fs). vruntime (h p) < node_key h y"
    using T(3) by auto
  from map_vr_node_split [OF f(3)] obtain as bs where ps: "ps = as @ bs"
    "before fs = map vr_node as" "after fs = map vr_node bs" by blast
  have "vr_node p \<notin> set (before fs @ after fs)" using p ps by auto
  note lk = rb_link_node_at [OF f(2) this]
  have "path_ok 0 False fs" using plug_red_blackD [of fs Tip] f(4) T(2) by auto
  from rb_insert_color_at [OF lk this] obtain t' T' where
    t': "rb_insert_color (vr_node p) (rb_link_node (vr_node p) p' (link_of fs) t) = Some t'"
      "represents t' T'" "red_black T'" "addrs T' = before fs @ vr_node p # after fs" by blast
  have pl: "place (run_key h) p ps = as @ p # bs"
    by (rule place_split [OF ps(1)])
      (use f(5,6) ps(2,3) in \<open>auto simp: run_key_def node_key_def word_le_def word_less_def\<close>)
  have "sorted (map (run_key h) (as @ p # bs))"
    using prio_queue.place_sorted [OF so, of p] pl by simp
  then have "fair_queue t' h (place (run_key h) p ps)"
    unfolding fair_queue_def pl using t'(2-4) ps(2,3) by auto
  moreover have "cfs_enqueue p h t = Some t'" by (simp add: cfs_enqueue_def f(1) t'(1))
  ultimately show ?thesis by blast
qed

lemma rb_first_at:
  assumes "represents t T" "addrs T = n # ns"
  shows "rb_first t = Some (Some n)" "\<exists>q c r fs. at t q (Some n) (Bin Tip n c r) fs \<and> plug fs (Bin Tip n c r) = T"
proof -
  obtain l a c r where T: "T = Bin l a c r" using assms(2) by (cases T) auto
  have "at t None (Some a) (Bin l a c r) []" "rb_root t = Some a"
    using assms(1) T by (auto simp: at_root [of t] represents_def at_def)
  from leftmost_at [OF this(1)] obtain b d br q gs where
    b: "leftmost (nodes t) a = Some b" "at t q (Some b) (Bin Tip b d br) gs" "left_path gs" "plug gs (Bin Tip b d br) = T"
    using T by auto
  have "addrs T = b # addrs br @ after gs"
    using left_path_before [OF b(3)] arg_cong [OF b(4), of addrs] by (simp add: addrs_plug)
  then have "b = n" using assms(2) by simp
  with b show "rb_first t = Some (Some n)" "\<exists>q c r fs. at t q (Some n) (Bin Tip n c r) fs \<and> plug fs (Bin Tip n c r) = T"
    using \<open>rb_root t = Some a\<close> by (auto simp: rb_first_def)
qed

lemma cfs_dequeue_takes:
  "fair_queue t h [] \<Longrightarrow> cfs_dequeue_min t = Some (None, t)"
  "fair_queue t h (p # ps) \<Longrightarrow> \<exists>t'. cfs_dequeue_min t = Some (Some p, t') \<and> fair_queue t' h ps"
proof -
  assume "fair_queue t h []"
  then obtain T where "represents t T" "addrs T = []" by (auto simp: fair_queue_def)
  then have "rb_root t = None" by (cases T) (auto simp: represents_def)
  then show "cfs_dequeue_min t = Some (None, t)" by (simp add: cfs_dequeue_min_def rb_first_def)
next
  assume q: "fair_queue t h (p # ps)"
  then obtain T where T: "represents t T" "red_black T" "addrs T = vr_node p # map vr_node ps"
    by (auto simp: fair_queue_def)
  from rb_first_at(2) [OF T(1,3)] obtain q0 c r fs where
    a: "at t q0 (Some (vr_node p)) (Bin Tip (vr_node p) c r) fs" "plug fs (Bin Tip (vr_node p) c r) = T" by blast
  from rb_erase_at [OF a(1)] a(2) T(2) obtain t' T' where
    t': "rb_erase (vr_node p) t = Some t'" "represents t' T'" "red_black T'" "addrs T' = remove1 (vr_node p) (addrs T)" by auto
  have "fair_queue t' h ps" using t' T(3) q by (auto simp: fair_queue_def)
  moreover have "cfs_dequeue_min t = Some (Some p, t')" by (simp add: cfs_dequeue_min_def rb_first_at(1) [OF T(1,3)] t'(1))
  ultimately show "\<exists>t'. cfs_dequeue_min t = Some (Some p, t') \<and> fair_queue t' h ps" by blast
qed

subsection \<open>The fair queue is an ordered queue\<close>

text \<open>The state is the tree with the control blocks, where the keys are.\<close>

definition cfs_holds :: "rb_tree \<times> pcb_heap \<Rightarrow> addr list \<Rightarrow> bool" where
  "cfs_holds s ps \<longleftrightarrow> fair_queue (fst s) (snd s) ps"

definition cfs_key :: "rb_tree \<times> pcb_heap \<Rightarrow> addr \<Rightarrow> int" where
  "cfs_key s = run_key (snd s)"

definition cfs_enq :: "addr \<Rightarrow> rb_tree \<times> pcb_heap \<Rightarrow> (rb_tree \<times> pcb_heap) option" where
  "cfs_enq p s = map_option (\<lambda>t. (t, snd s)) (cfs_enqueue p (snd s) (fst s))"

definition cfs_deq :: "rb_tree \<times> pcb_heap \<Rightarrow> ptr \<times> rb_tree \<times> pcb_heap" where
  "cfs_deq s = (case cfs_dequeue_min (fst s) of None \<Rightarrow> (None, s) | Some (x, t) \<Rightarrow> (x, t, snd s))"

interpretation cfs_queue: ordered_queue cfs_holds cfs_key cfs_enq cfs_deq
proof
  fix s xs x assume "cfs_holds s xs" "x \<notin> set xs"
  then obtain t where "cfs_enqueue x (snd s) (fst s) = Some t" "fair_queue t (snd s) (place (run_key (snd s)) x xs)"
    using cfs_enqueue_places unfolding cfs_holds_def by blast
  then show "\<exists>t. cfs_enq x s = Some t \<and> cfs_holds t (place (cfs_key s) x xs) \<and> cfs_key t = cfs_key s"
    by (simp add: cfs_enq_def cfs_holds_def cfs_key_def)
next
  fix s assume "cfs_holds s []"
  then show "cfs_deq s = (None, s)" using cfs_dequeue_takes(1) by (simp add: cfs_deq_def cfs_holds_def)
next
  fix s x xs assume "cfs_holds s (x # xs)"
  then obtain t where "cfs_dequeue_min (fst s) = Some (Some x, t)" "fair_queue t (snd s) xs"
    using cfs_dequeue_takes(2) unfolding cfs_holds_def by blast
  then show "\<exists>t. cfs_deq s = (Some x, t) \<and> cfs_holds t xs \<and> cfs_key t = cfs_key s"
    by (simp add: cfs_deq_def cfs_holds_def cfs_key_def)
qed

lemma cfs_empty: "rb_root t = None \<Longrightarrow> cfs_holds (t, h) []"
  unfolding cfs_holds_def fair_queue_def
  by (intro conjI exI [of _ Tip]) (simp_all add: represents_def red_black_def)

text \<open>Processes with the virtual runtimes 3, 1, 2, 3, 1, ... by address, and no tree.\<close>

definition runtimes :: pcb_heap where
  "runtimes = (\<lambda>a. example_pcb\<lparr>vruntime := if a mod 300 = 0 then 3 else if a mod 300 = 100 then 1 else 2\<rparr>)"

definition no_tree :: rb_tree where
  "no_tree = \<lparr>nodes = (\<lambda>_. \<lparr>rb_left = None, rb_right = None, rb_parent = None, rb_red = False\<rparr>), rb_root = None\<rparr>"

text \<open>C13 (the fair queue sorts). Entering processes into an empty fair queue and serving the minimum until it is
  empty yields the stable sort by virtual runtime; no operation dereferences NULL or runs
  forever, whatever the runtimes.\<close>

theorem fair_queue_stable_sort:
  assumes "distinct ps" "rb_root t = None"
  shows "\<exists>s. fill cfs_enq ps (t, h) = Some s
    \<and> drain cfs_deq (length ps) s = sort_key (\<lambda>p. uint (vruntime (h p))) ps"
proof -
  have "cfs_key (t, h) = (\<lambda>p. uint (vruntime (h p)))" by (simp add: cfs_key_def run_key_def fun_eq_iff)
  with cfs_queue.fill_sorts [OF cfs_empty [OF assms(2)] assms(1), of h] obtain s where
    s: "fill cfs_enq ps (t, h) = Some s" "cfs_holds s (sort_key (\<lambda>p. uint (vruntime (h p))) ps)" by auto
  from cfs_queue.drain_all [OF s(2)] s(1) show ?thesis by auto
qed

theorem fair_queue_stable_sort_witness:
  "\<exists>s. fill cfs_enq [0, 100, 200, 300, 400] (no_tree, runtimes) = Some s
    \<and> drain cfs_deq 5 s = [100, 400, 200, 0, 300]"
proof -
  have "sort_key (\<lambda>p. uint (vruntime (runtimes p))) [0, 100, 200, 300, 400] = [100, 400, 200, 0, 300]"
    by (simp add: runtimes_def)
  moreover have "length [0, 100, 200, 300, 400 :: nat] = 5" "distinct [0, 100, 200, 300, 400 :: nat]" "rb_root no_tree = None"
    by (simp_all add: no_tree_def)
  ultimately show ?thesis using fair_queue_stable_sort [of "[0, 100, 200, 300, 400]" no_tree runtimes] by metis
qed

text \<open>C25 (insertion into the tree). \<open>cfs_enqueue\<close> on a red-black tree in order of runtime returns a red-black
  tree that holds the old processes and the new one, behind all that have run no longer.\<close>

theorem cfs_enqueue_correct:
  assumes "represents t T" "red_black T" "addrs T = map vr_node ps" "sorted (map (\<lambda>q. uint (vruntime (h q))) ps)"
    and "p \<notin> set ps"
  shows "\<exists>t' T' as bs. cfs_enqueue p h t = Some t' \<and> represents t' T' \<and> red_black T'
    \<and> addrs T' = map vr_node (as @ p # bs) \<and> ps = as @ bs
    \<and> (\<forall>q\<in>set as. vruntime (h q) \<le> vruntime (h p)) \<and> (\<forall>q\<in>set bs. vruntime (h p) < vruntime (h q))"
proof -
  have k: "run_key h = (\<lambda>q. uint (vruntime (h q)))" by (simp add: run_key_def fun_eq_iff)
  have "fair_queue t h ps" unfolding fair_queue_def k using assms(1-4) by blast
  from cfs_enqueue_places [OF this assms(5)] obtain t' T' where
    t': "cfs_enqueue p h t = Some t'" "represents t' T'" "red_black T'" "addrs T' = map vr_node (place (run_key h) p ps)"
    by (auto simp: fair_queue_def)
  let ?P = "\<lambda>q. run_key h q \<le> run_key h p"
  have "\<forall>q\<in>set (takeWhile ?P ps). vruntime (h q) \<le> vruntime (h p)"
    by (auto dest: set_takeWhileD simp: run_key_def word_le_def)
  moreover have "\<forall>q\<in>set (dropWhile ?P ps). vruntime (h p) < vruntime (h q)"
  proof (cases "dropWhile ?P ps")
    case Nil
    show ?thesis unfolding Nil by simp
  next
    case (Cons b bs)
    have "\<not> ?P b" using Cons hd_dropWhile [of ?P ps] by simp
    have "sorted (map (run_key h) (takeWhile ?P ps @ dropWhile ?P ps))" using assms(4) by (simp add: k)
    then have "sorted (map (run_key h) (b # bs))" unfolding map_append sorted_append Cons by simp
    then have "\<forall>q\<in>set (b # bs). run_key h b \<le> run_key h q" by auto
    with \<open>\<not> ?P b\<close> Cons show ?thesis by (auto simp: run_key_def word_less_def)
  qed
  ultimately show ?thesis using t' by (intro exI [of _ t'] exI [of _ T'] exI [of _ "takeWhile ?P ps"] exI [of _ "dropWhile ?P ps"])
      (simp add: place_def)
qed

theorem cfs_enqueue_correct_witness:
  "\<exists>t T. cfs_enqueue 100 runtimes no_tree = Some t \<and> represents t T \<and> red_black T \<and> addrs T = [164]"
proof -
  have "represents no_tree Tip" "red_black Tip" by (simp_all add: represents_def no_tree_def red_black_def)
  from cfs_enqueue_correct [OF this, of "[]" runtimes 100] show ?thesis by (auto simp: vr_node_def)
qed

subsection \<open>The whole tree operations\<close>

text \<open>C5 (removal from the tree). \<open>rb_erase\<close> of any node of a red-black tree ends without a NULL
  dereference in a red-black tree with exactly the other nodes, in the same order.\<close>

theorem rb_erase_correct:
  assumes "represents t T" "red_black T" "n \<in> set (addrs T)"
  shows "\<exists>t' T'. rb_erase n t = Some t' \<and> represents t' T' \<and> red_black T' \<and> addrs T' = remove1 n (addrs T)"
proof -
  from at_member [OF assms(1) [unfolded at_root] assms(3)] obtain q l c r gs where
    a: "at t q (Some n) (Bin l n c r) gs" "plug gs (Bin l n c r) = T" by auto
  from rb_erase_at [OF a(1)] a(2) assms(2) show ?thesis by auto
qed

text \<open>A tree of three nodes.\<close>

definition three_nodes :: rb_tree where
  "three_nodes = \<lparr>nodes = (\<lambda>a.
       if a = 10 then \<lparr>rb_left = Some 5, rb_right = Some 15, rb_parent = None, rb_red = False\<rparr>
       else \<lparr>rb_left = None, rb_right = None, rb_parent = Some 10, rb_red = True\<rparr>), rb_root = Some 10\<rparr>"

lemma three_nodes_tree:
  "represents three_nodes (Bin (Bin Tip 5 True Tip) 10 False (Bin Tip 15 True Tip))"
  "red_black (Bin (Bin Tip 5 True Tip) 10 False (Bin Tip 15 True Tip))"
  by (simp_all add: represents_def three_nodes_def red_black_def)

theorem rb_erase_correct_witness:
  "\<exists>t' T'. rb_erase 10 three_nodes = Some t' \<and> represents t' T' \<and> red_black T' \<and> addrs T' = [5, 15]"
  using rb_erase_correct [OF three_nodes_tree, of 10] by auto

text \<open>Minimum: \<open>rb_first\<close> finds the first node of the tree in order, and NULL in the empty tree.\<close>

theorem rb_first_correct:
  assumes "represents t T"
  shows "rb_first t = Some (case addrs T of [] \<Rightarrow> None | n # ns \<Rightarrow> Some n)"
proof (cases "addrs T")
  case Nil
  then have "rb_root t = None" using assms by (cases T) (auto simp: represents_def)
  then show ?thesis by (simp add: Nil rb_first_def)
next
  case (Cons n ns)
  with rb_first_at(1) [OF assms] show ?thesis by simp
qed

theorem rb_first_correct_witness: "rb_first three_nodes = Some (Some 5)"
  using rb_first_correct [OF three_nodes_tree(1)] by simp

subsection \<open>The cost of the descent\<close>

text \<open>The loop of \<open>cfs_enqueue\<close> with a bound on the number of its tests.\<close>

primrec find_link_within ::
  "nat \<Rightarrow> pcb_heap \<Rightarrow> rb_tree \<Rightarrow> 64 word \<Rightarrow> link \<Rightarrow> ptr \<Rightarrow> (link \<times> ptr) option" where
  "find_link_within 0 h t v link par = None"
| "find_link_within (Suc n) h t v link par =
     (case read_link link t of
        None \<Rightarrow> Some (link, par)
      | Some x \<Rightarrow>
          if v < vruntime (h (rb_entry x))
          then find_link_within n h t v (LeftLink x) (Some x)
          else find_link_within n h t v (RightLink x) (Some x))"

lemma find_link_within_at:
  "at s p x t fs \<Longrightarrow> tree_height t < n \<Longrightarrow>
    \<exists>r. find_link_within n h s v (link_of fs) p = Some r \<and> find_link h s v (link_of fs) p = Some r"
proof (induction t arbitrary: p x fs n)
  case Tip
  then obtain m where n: "n = Suc m" by (cases n) auto
  have "x = None" using Tip.prems(1) by (simp add: at_def)
  then show ?case using read_link_of [OF Tip.prems(1)] by (subst find_link.simps) (simp add: n)
next
  case (Bin l a c r)
  then obtain m where n: "n = Suc m" "tree_height l < m" "tree_height r < m" by (cases n) auto
  note rd = read_link_of [OF Bin.prems(1), unfolded at_Bin(1) [OF Bin.prems(1)]]
  from Bin.IH(1) [OF at_Bin(4) [OF Bin.prems(1)] n(2)] Bin.IH(2) [OF at_Bin(5) [OF Bin.prems(1)] n(3)]
  show ?case using rd by (subst find_link.simps) (simp add: n(1))
qed

text \<open>C39 (bound on the descent). With fewer than \<open>2 ^ k - 1\<close> processes in the fair queue, the loop of
  \<open>cfs_enqueue\<close> ends within \<open>2 * k\<close> tests.\<close>

theorem find_link_bound:
  assumes "represents t T" "red_black T" "length (addrs T) + 1 < 2 ^ k"
  shows "\<exists>r. find_link_within (2 * k) h t v RootLink None = Some r \<and> find_link h t v RootLink None = Some r"
proof -
  have "2 ^ black_height T \<le> length (addrs T) + 1"
    using black_height_size [of T] assms(2) by (simp add: red_black_def)
  from le_less_trans [OF this assms(3)] have "black_height T < k" by (rule power_less_imp_less_exp [rotated]) simp
  moreover have "tree_height T \<le> 2 * black_height T" using tree_height_black [of T] assms(2) by (simp add: red_black_def)
  ultimately have "tree_height T < 2 * k" by simp
  from find_link_within_at [OF assms(1) [unfolded at_root] this] show ?thesis by simp
qed

theorem find_link_bound_witness:
  "\<exists>r. find_link_within 6 runtimes three_nodes 7 RootLink None = Some r"
  using find_link_bound [OF three_nodes_tree, of 3 runtimes 7] by auto

end
