(* ===== verification/Descriptors.thy ===== *)
theory Descriptors
  imports Prelude
begin

text \<open>
  The descriptor tables: \<^verbatim>\<open>keyboard/gdt.c\<close>, \<^verbatim>\<open>interrupts/idt.c\<close> and \<open>irq_install\<close> of
  \<^verbatim>\<open>interrupts/interrupts.c\<close>. The packed structures are also given as the bytes that the
  processor reads; the decoding of the fields is the one of the processor manual.
\<close>

subsection \<open>The global descriptor table\<close>

record gdt_entry =
  limit_low :: u16
  gdt_base_low :: u16
  base_middle :: u8
  access :: u8
  granularity :: u8
  gdt_base_high :: u8

record gdt_ptr =
  gdt_limit :: u16
  gdt_base :: u32

definition gdt_set_gate ::
  "nat \<Rightarrow> u32 \<Rightarrow> u32 \<Rightarrow> u8 \<Rightarrow> u8 \<Rightarrow> (nat \<Rightarrow> gdt_entry) \<Rightarrow> (nat \<Rightarrow> gdt_entry) option" where
  "gdt_set_gate num base limit acc gran gdt =
     (if num < 3 then Some (gdt(num :=
        \<lparr>limit_low = ucast (limit AND 0xFFFF), gdt_base_low = ucast (base AND 0xFFFF),
         base_middle = ucast (drop_bit 16 base AND 0xFF), access = acc,
         granularity = ucast (drop_bit 16 limit AND 0x0F) OR (gran AND 0xF0),
         gdt_base_high = ucast (drop_bit 24 base AND 0xFF)\<rparr>))
      else None)"

text \<open>\<open>addr\<close> is the address of the array \<open>gdt\<close>.\<close>

definition gdt_install :: "u32 \<Rightarrow> (nat \<Rightarrow> gdt_entry) \<Rightarrow> (gdt_ptr \<times> (nat \<Rightarrow> gdt_entry)) option" where
  "gdt_install addr gdt = do {
     let gp = \<lparr>gdt_limit = 8 * 3 - 1, gdt_base = addr\<rparr>;
     g1 \<leftarrow> gdt_set_gate 0 0 0 0 0 gdt;
     g2 \<leftarrow> gdt_set_gate 1 0 0xFFFFFFFF 0x9A 0xCF g1;
     g3 \<leftarrow> gdt_set_gate 2 0 0xFFFFFFFF 0x92 0xCF g2;
     Some (gp, g3)
   }"

subsection \<open>The interrupt descriptor table\<close>

record idt_entry =
  base_low :: u16
  sel :: u16
  always0 :: u8
  flags :: u8
  base_high :: u16

record idt_ptr =
  idt_limit :: u16
  idt_base :: u32

definition idt_set_gate :: "u8 \<Rightarrow> u32 \<Rightarrow> u16 \<Rightarrow> u8 \<Rightarrow> (nat \<Rightarrow> idt_entry) \<Rightarrow> nat \<Rightarrow> idt_entry" where
  "idt_set_gate num base s f idt = idt(unat num :=
     \<lparr>base_low = ucast (base AND 0xFFFF), sel = s, always0 = 0, flags = f,
      base_high = ucast (drop_bit 16 base AND 0xFFFF)\<rparr>)"

definition idt_install :: "u32 \<Rightarrow> u32 \<Rightarrow> (nat \<Rightarrow> idt_entry) \<Rightarrow> idt_ptr \<times> (nat \<Rightarrow> idt_entry)" where
  "idt_install isr_stub addr idt =
     (\<lparr>idt_limit = 8 * 256 - 1, idt_base = addr\<rparr>,
      fold (\<lambda>i. idt_set_gate (of_nat i) isr_stub 0x08 0x8E) [0..<32] idt)"

text \<open>The sixteen calls of \<open>irq_install\<close>; \<open>irq_stub n\<close> is the address of \<open>irq<n>_stub\<close>.\<close>

definition irq_install :: "(nat \<Rightarrow> u32) \<Rightarrow> (nat \<Rightarrow> idt_entry) \<Rightarrow> nat \<Rightarrow> idt_entry" where
  "irq_install irq_stub idt =
     fold (\<lambda>n. idt_set_gate (of_nat (32 + n)) (irq_stub n) 0x08 0x8E) [0..<16] idt"

subsection \<open>What the processor reads\<close>

definition gdt_bytes :: "gdt_entry \<Rightarrow> u8 list" where
  "gdt_bytes e = [ucast (limit_low e), ucast (drop_bit 8 (limit_low e)), ucast (gdt_base_low e),
     ucast (drop_bit 8 (gdt_base_low e)), base_middle e, access e, granularity e, gdt_base_high e]"

definition idt_bytes :: "idt_entry \<Rightarrow> u8 list" where
  "idt_bytes e = [ucast (base_low e), ucast (drop_bit 8 (base_low e)), ucast (sel e), ucast (drop_bit 8 (sel e)),
     always0 e, flags e, ucast (base_high e), ucast (drop_bit 8 (base_high e))]"

definition segment_base :: "gdt_entry \<Rightarrow> u32" where
  "segment_base e = ucast (gdt_base_low e) OR push_bit 16 (ucast (base_middle e)) OR push_bit 24 (ucast (gdt_base_high e))"

definition segment_limit :: "gdt_entry \<Rightarrow> u32" where
  "segment_limit e = ucast (limit_low e) OR push_bit 16 (ucast (granularity e AND 0x0F))"

definition gate_offset :: "idt_entry \<Rightarrow> u32" where
  "gate_offset e = ucast (base_low e) OR push_bit 16 (ucast (base_high e))"

definition present :: "idt_entry \<Rightarrow> bool" where
  "present e \<longleftrightarrow> bit (flags e) 7"

lemma split_32 [byte_simps]:
  "(ucast (ucast (v AND 0xFFFF :: u32) :: u16) :: u32) OR push_bit 16 (ucast (ucast (drop_bit 16 v AND 0xFFFF) :: u16)) = v"
proof (rule bit_word_eqI)
  fix n assume "n < LENGTH(32)"
  then have "n < 16 \<or> (16 \<le> n \<and> n < 32)" by auto
  moreover have m: "(0xFFFF :: u32) = mask 16" by (simp add: mask_eq_exp_minus_1)
  ultimately show "bit ((ucast (ucast (v AND 0xFFFF :: u32) :: u16) :: u32) OR push_bit 16 (ucast (ucast (drop_bit 16 v AND 0xFFFF) :: u16))) n = bit v n"
    unfolding m by (elim disjE) (auto simp: bit_or_iff bit_push_bit_iff bit_ucast_iff bit_drop_bit_eq bit_and_iff bit_mask_iff)
qed

lemma segment_base_set [byte_simps]:
  "(ucast (ucast (v AND 0xFFFF :: u32) :: u16) :: u32) OR push_bit 16 (ucast (ucast (drop_bit 16 v AND 0xFF) :: u8))
     OR push_bit 24 (ucast (ucast (drop_bit 24 v AND 0xFF) :: u8)) = v"
proof (rule bit_word_eqI)
  fix n assume "n < LENGTH(32)"
  then have "n < 16 \<or> (16 \<le> n \<and> n < 24) \<or> (24 \<le> n \<and> n < 32)" by auto
  moreover have m: "(0xFFFF :: u32) = mask 16" "(0xFF :: u32) = mask 8" by (simp_all add: mask_eq_exp_minus_1)
  ultimately show "bit ((ucast (ucast (v AND 0xFFFF :: u32) :: u16) :: u32) OR push_bit 16 (ucast (ucast (drop_bit 16 v AND 0xFF) :: u8))
     OR push_bit 24 (ucast (ucast (drop_bit 24 v AND 0xFF) :: u8))) n = bit v n"
    unfolding m by (elim disjE) (auto simp: bit_or_iff bit_push_bit_iff bit_ucast_iff bit_drop_bit_eq bit_and_iff bit_mask_iff)
qed

lemma segment_limit_set [byte_simps]:
  "(ucast (ucast (v AND 0xFFFF :: u32) :: u16) :: u32)
     OR push_bit 16 (ucast ((ucast (drop_bit 16 v AND 0x0F) OR (g AND 0xF0) :: u8) AND 0x0F)) = take_bit 20 v"
proof (rule bit_word_eqI)
  fix n assume "n < LENGTH(32)"
  then have "n < 16 \<or> n = 16 \<or> n = 17 \<or> n = 18 \<or> n = 19 \<or> (20 \<le> n \<and> n < 32)" by auto
  moreover have m: "(0xFFFF :: u32) = mask 16" "(0x0F :: u32) = mask 4" "(0x0F :: u8) = mask 4" "(0xF0 :: u8) = push_bit 4 (mask 4)"
    by (simp_all add: mask_eq_exp_minus_1)
  ultimately show "bit ((ucast (ucast (v AND 0xFFFF :: u32) :: u16) :: u32)
     OR push_bit 16 (ucast ((ucast (drop_bit 16 v AND 0x0F) OR (g AND 0xF0) :: u8) AND 0x0F))) n = bit (take_bit 20 v) n"
    unfolding m by (elim disjE) (auto simp: bit_or_iff bit_push_bit_iff bit_ucast_iff bit_drop_bit_eq bit_and_iff bit_mask_iff bit_take_bit_iff)
qed

lemma segment_flags_set [byte_simps]:
  "(ucast (drop_bit 16 v AND 0x0F :: u32) OR (g AND 0xF0) :: u8) AND 0xF0 = g AND 0xF0"
proof (rule bit_word_eqI)
  fix n assume "n < LENGTH(8)"
  have m: "(0x0F :: u32) = mask 4" "(0xF0 :: u8) = push_bit 4 (mask 4)" by (simp_all add: mask_eq_exp_minus_1)
  show "bit ((ucast (drop_bit 16 v AND 0x0F :: u32) OR (g AND 0xF0) :: u8) AND 0xF0) n = bit (g AND 0xF0) n"
    unfolding m by (auto simp: bit_or_iff bit_push_bit_iff bit_ucast_iff bit_drop_bit_eq bit_and_iff bit_mask_iff)
qed

lemma gate_offset_set [byte_simps]: "gate_offset ((idt_set_gate num base s f idt) (unat num)) = base"
  by (simp add: gate_offset_def idt_set_gate_def split_32)

lemma fold_gates:
  "k + n \<le> 256 \<Longrightarrow> fold (\<lambda>i. idt_set_gate (of_nat (k + i)) (b i) s f) [0..<n] idt =
    (\<lambda>v. if k \<le> v \<and> v < k + n then (idt_set_gate (of_nat v) (b (v - k)) s f idt) v else idt v)"
proof (induction n)
  case (Suc n)
  have "unat (word_of_nat (k + n) :: u8) = k + n" using Suc.prems by (simp only: unat_of_nat) simp
  with Suc show ?case by (auto simp: fun_eq_iff idt_set_gate_def less_Suc_eq)
qed (auto simp: fun_eq_iff)

lemma idt_install_eq:
  "snd (idt_install stub a idt) = (\<lambda>v. if v < 32 then (idt_set_gate (of_nat v) stub 0x08 0x8E idt) v else idt v)"
  using fold_gates [of 0 32 "\<lambda>_. stub" "0x08" "0x8E" idt] by (simp add: idt_install_def del: upt_rec_numeral)

lemma irq_install_eq:
  "irq_install stub idt = (\<lambda>v. if 32 \<le> v \<and> v < 48 then (idt_set_gate (of_nat v) (stub (v - 32)) 0x08 0x8E idt) v else idt v)"
  using fold_gates [of 32 16 stub "0x08" "0x8E" idt] by (simp add: irq_install_def del: upt_rec_numeral)

lemma set_gate_fields:
  assumes "v < 256"
  shows "gate_offset ((idt_set_gate (of_nat v) b s f idt) v) = b" "sel ((idt_set_gate (of_nat v) b s f idt) v) = s"
    "flags ((idt_set_gate (of_nat v) b s f idt) v) = f" "always0 ((idt_set_gate (of_nat v) b s f idt) v) = 0"
proof -
  have v: "unat (word_of_nat v :: u8) = v" using assms by (simp add: unat_of_nat)
  show "gate_offset ((idt_set_gate (of_nat v) b s f idt) v) = b"
    using gate_offset_set [of "of_nat v" b s f idt] by (simp add: v)
  show "sel ((idt_set_gate (of_nat v) b s f idt) v) = s" "flags ((idt_set_gate (of_nat v) b s f idt) v) = f"
    "always0 ((idt_set_gate (of_nat v) b s f idt) v) = 0" by (simp_all add: idt_set_gate_def v)
qed

subsection \<open>Properties\<close>

text \<open>Segment descriptors: The processor decodes from a descriptor that \<open>gdt_set_gate\<close> has stored
  the base, the low 20 bits of the limit, the access byte and the flags that were given;
  the other descriptors stay, and an index past the table is refused.\<close>

theorem gdt_set_gate_roundtrip:
  "(case gdt_set_gate num base limit acc gran gdt of
      None \<Rightarrow> 3 \<le> num
    | Some g \<Rightarrow> num < 3 \<and> segment_base (g num) = base \<and> segment_limit (g num) = take_bit 20 limit
        \<and> access (g num) = acc \<and> granularity (g num) AND 0xF0 = gran AND 0xF0 \<and> (\<forall>i. i = num \<or> g i = gdt i))"
  by (simp add: gdt_set_gate_def segment_base_def segment_limit_def byte_simps)

lemma gdt_install_bytes:
  "\<exists>g. gdt_install a gdt = Some (\<lparr>gdt_limit = 23, gdt_base = a\<rparr>, g)
    \<and> gdt_bytes (g 0) = [0, 0, 0, 0, 0, 0, 0, 0]
    \<and> gdt_bytes (g 1) = [0xFF, 0xFF, 0, 0, 0, 0x9A, 0xCF, 0]
    \<and> gdt_bytes (g 2) = [0xFF, 0xFF, 0, 0, 0, 0x92, 0xCF, 0]"
  by (simp add: gdt_install_def gdt_set_gate_def gdt_bytes_def)

text \<open>Interrupt gates: After \<open>gdt_install\<close>, \<open>idt_install\<close> and \<open>irq_install\<close> the processor finds at the
  vectors 0 to 31 the exception stub, at 32 to 47 the stubs of the interrupt lines 0 to 15,
  all present and with the selector of the flat code segment, and the other gates as the
  loader left them; the limit of the table register covers the 256 gates.\<close>

theorem interrupt_vectors:
  "\<exists>r idt. idt_install isr_stub a idt0 = (r, idt) \<and> idt_limit r = 2047 \<and> idt_base r = a
    \<and> (\<forall>v. let e = irq_install irq_stub idt v in
        (if v < 48
         then gate_offset e = (if v < 32 then isr_stub else irq_stub (v - 32)) \<and> present e
           \<and> (\<exists>p g. gdt_install b gdt = Some (p, g) \<and> segment_base (g (unat (sel e) div 8)) = 0
               \<and> segment_limit (g (unat (sel e) div 8)) = 0xFFFFF \<and> access (g (unat (sel e) div 8)) = 0x9A)
         else e = idt0 v))"
proof -
  obtain p g where g: "gdt_install b gdt = Some (p, g)" "segment_base (g 1) = 0" "segment_limit (g 1) = 0xFFFFF"
    "access (g 1) = 0x9A"
    by (auto simp: gdt_install_def gdt_set_gate_def segment_base_def segment_limit_def)
  define idt where "idt = snd (idt_install isr_stub a idt0)"
  have e: "gate_offset (irq_install irq_stub idt v) = (if v < 32 then isr_stub else irq_stub (v - 32))
      \<and> sel (irq_install irq_stub idt v) = 8 \<and> flags (irq_install irq_stub idt v) = 0x8E" if "v < 48" for v
  proof (cases "v < 32")
    case True
    then show ?thesis using set_gate_fields [of v isr_stub 8 "0x8E" idt0] by (simp add: irq_install_eq idt_def idt_install_eq)
  next
    case False
    then show ?thesis using set_gate_fields [of v "irq_stub (v - 32)" 8 "0x8E" idt] that by (simp add: irq_install_eq)
  qed
  have o: "irq_install irq_stub idt v = idt0 v" if "\<not> v < 48" for v
    using that by (simp add: irq_install_eq idt_def idt_install_eq)
  have "idt_install isr_stub a idt0 = (\<lparr>idt_limit = 2047, idt_base = a\<rparr>, idt)" by (simp add: idt_def idt_install_def)
  moreover have "bit (0x8E :: u8) 7" by simp
  ultimately show ?thesis using e o g by (simp add: Let_def present_def)
qed

end
