(* ===== verification/Interrupts.thy ===== *)
theory Interrupts
  imports Descriptors CString
begin

text \<open>
  The dispatch of hardware interrupts (\<^verbatim>\<open>interrupts/interrupts.c\<close>), the programming of the
  interrupt controllers (\<^verbatim>\<open>interrupts/pic.c\<close>) and the serial port (\<^verbatim>\<open>serial.c\<close>).

  A write to a port is appended to a log. The values that \<open>inb\<close> reads come from the device and are
  arguments. A handler is a function on the state of its device, a parameter of the model.
\<close>

subsection \<open>Dispatch\<close>

abbreviation IDT_ENTRIES :: nat where "IDT_ENTRIES \<equiv> 256"

type_synonym 's handler = "'s \<Rightarrow> 's option"

record 's intr =
  interrupt_handlers :: "nat \<Rightarrow> 's handler option"
  port_log :: "(u16 \<times> u8) list"
  device :: 's

definition outb :: "u16 \<Rightarrow> u8 \<Rightarrow> 's intr \<Rightarrow> 's intr" where
  "outb p v m = m\<lparr>port_log := port_log m @ [(p, v)]\<rparr>"

definition register_interrupt_handler :: "u8 \<Rightarrow> 's handler \<Rightarrow> 's intr \<Rightarrow> 's intr" where
  "register_interrupt_handler n h m = m\<lparr>interrupt_handlers := (interrupt_handlers m)(unat n := Some h)\<rparr>"

definition irq_handler :: "u8 \<Rightarrow> 's intr \<Rightarrow> 's intr option" where
  "irq_handler irq m =
     (let i = unat irq + 32 in
      if i < IDT_ENTRIES
      then (case interrupt_handlers m i of
              None \<Rightarrow> Some m
            | Some h \<Rightarrow> map_option (\<lambda>d. m\<lparr>device := d\<rparr>) (h (device m)))
      else None)"

definition common_irq_handler :: "u32 \<Rightarrow> 's intr \<Rightarrow> 's intr option" where
  "common_irq_handler irq_num m = do {
     let irq = ucast (irq_num AND 0xFF);
     m1 \<leftarrow> irq_handler irq m;
     let m2 = (if irq \<ge> 8 then outb 0xA0 0x20 m1 else m1);
     Some (outb 0x20 0x20 m2)
   }"

subsection \<open>The interrupt controllers\<close>

text \<open>\<open>a1\<close> and \<open>a2\<close> are the masks that the first two reads return.\<close>

definition pic_remap :: "u8 \<Rightarrow> u8 \<Rightarrow> 's intr \<Rightarrow> 's intr" where
  "pic_remap a1 a2 m =
     (let m1 = outb 0xA0 0x11 (outb 0x20 0x11 m);
          m2 = outb 0xA0 0x28 (outb 0x21 0x20 m1);
          m3 = outb 0xA0 0x02 (outb 0x21 0x04 m2);
          m4 = outb 0xA0 0x01 (outb 0x21 0x01 m3);
          a1' = a1 AND ucast (NOT (push_bit 1 (1 :: u32)))
      in outb 0xA0 a2 (outb 0x21 a1' m4))"

text \<open>The values written to a port, in order.\<close>

definition written :: "u16 \<Rightarrow> 's intr \<Rightarrow> u8 list" where
  "written p m = map snd (filter (\<lambda>x. fst x = p) (port_log m))"

subsection \<open>The serial port\<close>

abbreviation SERIAL_PORT :: u16 where "SERIAL_PORT \<equiv> 0x3F8"

definition serial_init :: "'s intr \<Rightarrow> 's intr" where
  "serial_init m = fold (\<lambda>(p, v). outb (SERIAL_PORT + p) v)
     [(1, 0x00), (3, 0x80), (0, 0x03), (1, 0x00), (3, 0x03), (2, 0xC7), (4, 0x0B)] m"

text \<open>
  \<open>line_status\<close> holds the values that the reads of the status register return; without another
  value the inner loop waits for ever.
\<close>

fun await_line :: "u8 list \<Rightarrow> u8 list option" where
  "await_line [] = None"
| "await_line (v # line_status) = (if v AND 0x20 = 0 then await_line line_status else Some line_status)"

fun serial_print :: "char list \<Rightarrow> u8 list \<Rightarrow> 's intr \<Rightarrow> (u8 list \<times> 's intr) option" where
  "serial_print [] line_status m = None"
| "serial_print (c # message) line_status m =
     (if c \<noteq> NUL then do {
        rest \<leftarrow> await_line line_status;
        serial_print message rest (outb SERIAL_PORT (of_char c) m)
      } else Some (line_status, m))"

subsection \<open>Lemmas\<close>

lemma outb_fields [simp]:
  "interrupt_handlers (outb p v m) = interrupt_handlers m" "device (outb p v m) = device m"
  "port_log (outb p v m) = port_log m @ [(p, v)]"
  by (simp_all add: outb_def)

lemma await_ready: "await_line v = Some r \<Longrightarrow> length r < length v"
  by (induction v) (auto split: if_splits)

lemma await_line_ready:
  "\<exists>pre w. v = pre @ w # r \<and> w AND 0x20 \<noteq> 0 \<and> (\<forall>x\<in>set pre. x AND 0x20 = 0) \<Longrightarrow> await_line v = Some r"
proof (elim exE conjE)
  fix pre w assume "v = pre @ w # r" "w AND 0x20 \<noteq> 0" "\<forall>x\<in>set pre. x AND 0x20 = 0"
  then show ?thesis by (induction pre arbitrary: v) auto
qed

lemma ucast_byte: "(ucast (n AND 0xFF :: u32) :: u8) = ucast n"
proof (rule bit_word_eqI)
  fix i assume "i < LENGTH(8)"
  moreover have m: "(0xFF :: u32) = mask 8" by (simp add: mask_eq_exp_minus_1)
  ultimately show "bit (ucast (n AND 0xFF :: u32) :: u8) i = bit (ucast n :: u8) i"
    unfolding m by (auto simp: bit_and_iff bit_ucast_iff bit_mask_iff)
qed

lemma irq_number: "n < 256 \<Longrightarrow> unat (ucast (of_nat n AND 0xFF :: u32) :: u8) = n"
  by (simp only: ucast_byte unsigned_ucast_eq unat_of_nat) (simp add: take_bit_nat_def)

lemma dispatch:
  assumes "n < 16"
  shows "common_irq_handler (of_nat n) m =
    (case interrupt_handlers m (n + 32) of
       None \<Rightarrow> Some (m\<lparr>port_log := port_log m @ (if 8 \<le> n then [(0xA0, 0x20)] else []) @ [(0x20, 0x20)]\<rparr>)
     | Some h \<Rightarrow> (case h (device m) of
         None \<Rightarrow> None
       | Some d \<Rightarrow> Some (m\<lparr>device := d, port_log := port_log m @ (if 8 \<le> n then [(0xA0, 0x20)] else []) @ [(0x20, 0x20)]\<rparr>)))"
proof -
  have u: "unat (ucast (word_of_nat n AND 0xFF :: u32) :: u8) = n" using assms by (simp add: irq_number)
  then have "8 \<le> (ucast (word_of_nat n AND 0xFF :: u32) :: u8) \<longleftrightarrow> 8 \<le> n" by (simp add: word_le_nat_alt)
  then show ?thesis using assms
    by (simp add: common_irq_handler_def irq_handler_def Let_def u outb_def split: option.split)
qed

subsection \<open>Properties\<close>

text \<open>C38 (dispatch of interrupts). Let a handler be registered for an interrupt line. The line's gate is the one
  that \<open>irq_install\<close> fills with the stub of that line; when the stub calls \<open>common_irq_handler\<close> the
  handler runs exactly once, and then the end of the interrupt is signalled, to the second
  controller first when the line is one of its eight. An interrupt on another line that has no
  handler leaves the device alone.\<close>

theorem interrupt_dispatch:
  assumes "n < 16" "h (device m) = Some d"
  defines "r \<equiv> register_interrupt_handler (of_nat (32 + n)) h m"
  shows "gate_offset (irq_install irq_stub idt (32 + n)) = irq_stub n
    \<and> common_irq_handler (of_nat n) r =
        Some (r\<lparr>device := d, port_log := port_log m @ (if n < 8 then [] else [(0xA0, 0x20)]) @ [(0x20, 0x20)]\<rparr>)
    \<and> (\<forall>k<16. k = n \<or> interrupt_handlers m (32 + k) \<noteq> None
        \<or> (\<exists>m'. common_irq_handler (of_nat k) r = Some m' \<and> device m' = device m))"
proof -
  have v: "unat (word_of_nat (32 + n) :: u8) = 32 + n" using assms(1) by (simp only: unat_of_nat) simp
  have hs: "interrupt_handlers r = (interrupt_handlers m)(32 + n := Some h)" "device r = device m" "port_log r = port_log m"
    using v by (simp_all add: r_def register_interrupt_handler_def)
  have "gate_offset (irq_install irq_stub idt (32 + n)) = irq_stub n"
    using set_gate_fields(1) [of "32 + n" "irq_stub n"] assms(1) by (simp add: irq_install_eq)
  moreover have "\<exists>m'. common_irq_handler (of_nat k) r = Some m' \<and> device m' = device m"
    if "k < 16" "k \<noteq> n" "interrupt_handlers m (32 + k) = None" for k
    using dispatch [OF that(1), of r] that by (simp add: hs add.commute [of k])
  ultimately show ?thesis
    using dispatch [OF assms(1), of r] assms(2) by (auto simp: hs add.commute [of n])
qed

theorem interrupt_dispatch_witness:
  "\<exists>m. common_irq_handler 1 (register_interrupt_handler 33 (\<lambda>n. Some (n + 1)) \<lparr>interrupt_handlers = (\<lambda>_. None), port_log = [], device = 6\<rparr>)
    = Some m \<and> device m = (7 :: nat) \<and> port_log m = [(0x20, 0x20)]"
  using interrupt_dispatch [of 1 "\<lambda>n. Some (n + 1)" "\<lparr>interrupt_handlers = (\<lambda>_. None), port_log = [], device = 6 :: nat\<rparr>"] by auto

text \<open>The controllers: \<open>pic_remap\<close> gives the first controller the vector 32, which is where \<open>irq_install\<close> has
  put the lines 0 to 7, and clears the mask of the keyboard line only. Nothing is ever written to
  the data port of the second controller: its vector, wiring and mode words go to its command
  port, so its interrupts do not arrive at the vectors 40 to 47.\<close>

theorem pic_remap_programs_first_only:
  "written 0x21 (pic_remap a1 a2 (m\<lparr>port_log := []\<rparr>)) = [32, 4, 1, a1 AND NOT 2]
    \<and> written 0xA1 (pic_remap a1 a2 (m\<lparr>port_log := []\<rparr>)) = []
    \<and> written 0xA0 (pic_remap a1 a2 (m\<lparr>port_log := []\<rparr>)) = [0x11, 40, 2, 1, a2]"
proof -
  have "(ucast (NOT (push_bit 1 (1 :: u32))) :: u8) = NOT 2"
    by (subst word_uint_eq_iff) simp
  then show ?thesis
    by (simp only: written_def pic_remap_def Let_def outb_fields filter.simps append.simps list.map fst_conv snd_conv) simp
qed

text \<open>Serial output: when the line becomes ready once for each character, \<open>serial_print\<close> ends and has sent
  the characters of the message in order, one for each ready status.\<close>

definition ready_reads :: "u8 list \<Rightarrow> nat" where
  "ready_reads line_status = length (filter (\<lambda>v. v AND 0x20 \<noteq> 0) line_status)"

definition sent :: "string \<Rightarrow> 's intr \<Rightarrow> 's intr" where
  "sent message m = m\<lparr>port_log := port_log m @ map (\<lambda>c. (SERIAL_PORT, of_char c)) message\<rparr>"

lemma sent_sent: "sent t (sent s m) = sent (s @ t) m"
  by (simp add: sent_def)

lemma await_line_counts:
  "0 < ready_reads line_status \<Longrightarrow> \<exists>rest. await_line line_status = Some rest \<and> ready_reads line_status = Suc (ready_reads rest)"
  by (induction line_status) (auto simp: ready_reads_def)

lemma serial_print_sends:
  assumes "NUL \<notin> set message" "length message \<le> ready_reads line_status"
  shows "\<exists>rest. serial_print (message @ NUL # r) line_status m = Some (rest, sent message m)
    \<and> ready_reads line_status = length message + ready_reads rest"
  using assms
proof (induction message arbitrary: line_status m)
  case (Cons c message)
  then obtain rest where rest: "await_line line_status = Some rest" "ready_reads line_status = Suc (ready_reads rest)"
    using await_line_counts [of line_status] by auto
  with Cons.IH [of rest "outb SERIAL_PORT (of_char c) m"] Cons.prems show ?case by (auto simp: sent_def outb_def)
qed (simp add: sent_def)

end
