(* ===== verification/Screen.thy ===== *)
theory Screen
  imports CString
begin

text \<open>
  The text screen of \<^verbatim>\<open>kernel.c\<close>: the video memory, the cursor and the scrolling. The spec is a
  tape of lines that never scrolls, of which the screen shows the last 25.
\<close>

subsection \<open>Operations\<close>

abbreviation VGA_WIDTH :: nat where "VGA_WIDTH \<equiv> 80"
abbreviation VGA_HEIGHT :: nat where "VGA_HEIGHT \<equiv> 25"
abbreviation newline :: char where "newline \<equiv> CHR 0x0A"
abbreviation attribute :: char where "attribute \<equiv> CHR 0x07"

text \<open>The bytes from \<open>VGA_MEMORY\<close> on, and the two static variables.\<close>

record screen =
  video :: "nat \<Rightarrow> char"
  vga_row :: u16
  vga_col :: u16

definition copy_cell :: "nat \<Rightarrow> nat \<Rightarrow> (nat \<Rightarrow> char) \<Rightarrow> nat \<Rightarrow> char" where
  "copy_cell row col v =
     (let from = (row * VGA_WIDTH + col) * 2; to = ((row - 1) * VGA_WIDTH + col) * 2;
          v1 = v(to := v from) in v1(to + 1 := v1 (from + 1)))"

definition scroll_screen :: "screen \<Rightarrow> screen" where
  "scroll_screen s =
     (let v1 = fold (\<lambda>row. fold (copy_cell row) [0..<VGA_WIDTH]) [1..<VGA_HEIGHT] (video s);
          last_row = (VGA_HEIGHT - 1) * VGA_WIDTH * 2;
          v2 = fold (\<lambda>col v. v(last_row + col * 2 := CHR '' '', last_row + col * 2 + 1 := attribute)) [0..<VGA_WIDTH] v1
      in s\<lparr>video := v2, vga_row := of_nat (VGA_HEIGHT - 1), vga_col := 0\<rparr>)"

definition putchar :: "char \<Rightarrow> screen \<Rightarrow> screen" where
  "putchar c s =
     (let s1 =
        (if c = newline then s\<lparr>vga_row := vga_row s + 1, vga_col := 0\<rparr>
         else (let offset = (unat (vga_row s) * VGA_WIDTH + unat (vga_col s)) * 2;
                   s1 = s\<lparr>video := (video s)(offset := c, offset + 1 := attribute), vga_col := vga_col s + 1\<rparr> in
               if unat (vga_col s1) \<ge> VGA_WIDTH then s1\<lparr>vga_row := vga_row s1 + 1, vga_col := 0\<rparr> else s1))
      in if unat (vga_row s1) \<ge> VGA_HEIGHT then scroll_screen s1 else s1)"

fun print_to_screen :: "char list \<Rightarrow> screen \<Rightarrow> screen option" where
  "print_to_screen [] s = None"
| "print_to_screen (c # message) s = (if c \<noteq> NUL then print_to_screen message (putchar c s) else Some s)"

subsection \<open>The tape\<close>

text \<open>A complete-lines-and-current-line view of everything printed; a line of 80 characters is complete.\<close>

type_synonym tape = "string list \<times> string"

primrec feed :: "char \<Rightarrow> tape \<Rightarrow> tape" where
  "feed c (ls, l) =
     (if c = newline then (ls @ [l], [])
      else if length l + 1 = VGA_WIDTH then (ls @ [l @ [c]], [])
      else (ls, l @ [c]))"

text \<open>A cell is a character with its attribute. \<open>B\<close> is what was on the screen before.\<close>

definition cell :: "screen \<Rightarrow> nat \<Rightarrow> nat \<Rightarrow> char \<times> char" where
  "cell s r j = (video s ((r * VGA_WIDTH + j) * 2), video s ((r * VGA_WIDTH + j) * 2 + 1))"

definition tape_cell :: "(nat \<Rightarrow> nat \<Rightarrow> char \<times> char) \<Rightarrow> string list \<Rightarrow> nat \<Rightarrow> nat \<Rightarrow> char \<times> char" where
  "tape_cell B ls i j =
     (if i < length ls \<and> j < length (ls ! i) then (ls ! i ! j, attribute)
      else if i < VGA_HEIGHT then B i j else (CHR '' '', attribute))"

text \<open>The lines that have left the screen at the top.\<close>

definition scrolled :: "string list \<Rightarrow> nat" where
  "scrolled ls = length ls - (VGA_HEIGHT - 1)"

definition shows_tape :: "(nat \<Rightarrow> nat \<Rightarrow> char \<times> char) \<Rightarrow> tape \<Rightarrow> screen \<Rightarrow> bool" where
  "shows_tape B x s \<longleftrightarrow>
     (case x of (ls, l) \<Rightarrow>
        vga_row s = of_nat (length ls - scrolled ls) \<and> vga_col s = of_nat (length l) \<and> length l < VGA_WIDTH
      \<and> (\<forall>r<VGA_HEIGHT. \<forall>j<VGA_WIDTH. cell s r j = tape_cell B (ls @ [l]) (r + scrolled ls) j))"

subsection \<open>Scrolling\<close>

lemma copy_cells:
  "0 < row \<Longrightarrow> n \<le> VGA_WIDTH \<Longrightarrow> fold (copy_cell row) [0..<n] v =
    (\<lambda>a. if (row - 1) * 160 \<le> a \<and> a < (row - 1) * 160 + 2 * n then v (a + 160) else v a)"
proof (induction n)
  case (Suc n)
  obtain r where r: "row = Suc r" using Suc.prems(1) by (cases row) auto
  have "fold (copy_cell row) [0..<Suc n] v = copy_cell row n (fold (copy_cell row) [0..<n] v)" by simp
  also have "fold (copy_cell row) [0..<n] v = (\<lambda>a. if r * 160 \<le> a \<and> a < r * 160 + 2 * n then v (a + 160) else v a)"
    using Suc by (simp add: r)
  finally show ?case
    using Suc.prems(2) by (auto simp: r copy_cell_def Let_def fun_eq_iff algebra_simps intro!: arg_cong [where f = v])
qed (auto simp: fun_eq_iff)

lemma copy_rows:
  "n < VGA_HEIGHT \<Longrightarrow> fold (\<lambda>row. fold (copy_cell row) [0..<VGA_WIDTH]) [1..<Suc n] v =
    (\<lambda>a. if a < n * 160 then v (a + 160) else v a)"
proof (induction n)
  case (Suc n)
  have "[1..<Suc (Suc n)] = [1..<Suc n] @ [Suc n]" by simp
  then have "fold (\<lambda>row. fold (copy_cell row) [0..<VGA_WIDTH]) [1..<Suc (Suc n)] v
      = fold (copy_cell (Suc n)) [0..<VGA_WIDTH] (\<lambda>a. if a < n * 160 then v (a + 160) else v a)"
    using Suc by (simp del: upt_Suc)
  also have "\<dots> = (\<lambda>a. if a < Suc n * 160 then v (a + 160) else v a)"
    by (subst copy_cells) (auto simp: fun_eq_iff)
  finally show ?case .
qed simp

lemma blank_cells:
  "fold (\<lambda>col v. v(b + col * 2 := x, b + col * 2 + 1 := y)) [0..<n] (v :: nat \<Rightarrow> char) =
    (\<lambda>a. if b \<le> a \<and> a < b + 2 * n then (if even (a - b) then x else y) else v a)"
proof (induction n)
  case (Suc n)
  have "a = b + n * 2 \<or> a = b + n * 2 + 1" if "b \<le> a" "a < b + 2 * Suc n" "\<not> a < b + 2 * n" for a
    using that by auto
  with Suc show ?case by (auto simp: fun_eq_iff)
qed (auto simp: fun_eq_iff)

lemma scroll_screen_eq:
  "vga_row (scroll_screen s) = 24" "vga_col (scroll_screen s) = 0"
  "j < VGA_WIDTH \<Longrightarrow> r < VGA_HEIGHT \<Longrightarrow>
    cell (scroll_screen s) r j = (if r < 24 then cell s (Suc r) j else (CHR '' '', attribute))"
  "4000 \<le> a \<Longrightarrow> video (scroll_screen s) a = video s a"
proof -
  have h: "VGA_HEIGHT = Suc 24" by simp
  have rows: "fold (\<lambda>row. fold (copy_cell row) [0..<VGA_WIDTH]) [1..<VGA_HEIGHT] (video s) =
      (\<lambda>a. if a < 24 * 160 then video s (a + 160) else video s a)"
    unfolding h by (rule copy_rows) simp
  have v: "video (scroll_screen s) = (\<lambda>a. if 3840 \<le> a \<and> a < 4000 then (if even (a - 3840) then CHR '' '' else attribute)
      else if a < 3840 then video s (a + 160) else video s a)"
    by (simp only: scroll_screen_def Let_def rows blank_cells screen.simps) (simp add: fun_eq_iff)
  show "vga_row (scroll_screen s) = 24" "vga_col (scroll_screen s) = 0" by (simp_all add: scroll_screen_def Let_def)
  show "4000 \<le> a \<Longrightarrow> video (scroll_screen s) a = video s a" by (simp add: v)
  show "j < VGA_WIDTH \<Longrightarrow> r < VGA_HEIGHT \<Longrightarrow>
      cell (scroll_screen s) r j = (if r < 24 then cell s (Suc r) j else (CHR '' '', attribute))"
    by (auto simp: cell_def v algebra_simps)
qed

subsection \<open>The screen shows the end of the tape\<close>

lemma tape_cell_nil: "tape_cell B (ls @ [[]]) = tape_cell B ls"
  by (auto simp: tape_cell_def fun_eq_iff nth_append)

lemma cell_regs [simp]:
  "cell (s\<lparr>vga_row := r\<rparr>) = cell s" "cell (s\<lparr>vga_col := j\<rparr>) = cell s"
  by (simp_all add: cell_def fun_eq_iff)

lemma cell_index: "(r * VGA_WIDTH + j = i * VGA_WIDTH + k) \<longleftrightarrow> r = i \<and> j = k" if "j < VGA_WIDTH" "k < VGA_WIDTH"
proof
  assume e: "r * VGA_WIDTH + j = i * VGA_WIDTH + k"
  have "(r * VGA_WIDTH + j) div VGA_WIDTH = r" "(i * VGA_WIDTH + k) div VGA_WIDTH = i" using that by simp_all
  with e have "r = i" by metis
  with e show "r = i \<and> j = k" by simp
qed simp

lemma even_odd_index: "m * 2 \<noteq> n * 2 + (1 :: nat)" "m * 2 + (1 :: nat) \<noteq> n * 2"
  by presburger+

lemma cell_write:
  assumes "j < VGA_WIDTH" "k < VGA_WIDTH"
  shows "cell (s\<lparr>video := (video s)((i * VGA_WIDTH + k) * 2 := c, (i * VGA_WIDTH + k) * 2 + 1 := d)\<rparr>) r j =
    (if r = i \<and> j = k then (c, d) else cell s r j)"
proof -
  define m n where "m = r * VGA_WIDTH + j" and "n = i * VGA_WIDTH + k"
  have eq: "m = n \<longleftrightarrow> r = i \<and> j = k" unfolding m_def n_def by (rule cell_index [OF assms])
  have "((video s)(n * 2 := c, n * 2 + 1 := d)) (m * 2) = (if m = n then c else video s (m * 2))"
    "((video s)(n * 2 := c, n * 2 + 1 := d)) (m * 2 + 1) = (if m = n then d else video s (m * 2 + 1))"
    by (simp_all only: fun_upd_apply even_odd_index if_False mult_cancel2 add_right_cancel) simp_all
  then show ?thesis by (simp only: cell_def screen.simps m_def [symmetric] n_def [symmetric] eq) simp
qed

lemma line_end_shows:
  assumes row: "vga_row s = of_nat (length ls - scrolled ls + 1)" and col: "vga_col s = 0"
    and c: "\<And>r j. r < VGA_HEIGHT \<Longrightarrow> j < VGA_WIDTH \<Longrightarrow> cell s r j = tape_cell B (ls @ [l]) (r + scrolled ls) j"
  shows "shows_tape B (ls @ [l], []) (if unat (vga_row s) \<ge> VGA_HEIGHT then scroll_screen s else s)"
proof (cases "length ls < 24")
  case True
  then have "scrolled ls = 0" "scrolled (ls @ [l]) = 0" by (simp_all add: scrolled_def)
  moreover from this have "unat (vga_row s) < VGA_HEIGHT" using row True by (simp only: unat_of_nat) simp
  ultimately show ?thesis using row col c tape_cell_nil [of B "ls @ [l]"] by (simp add: shows_tape_def)
next
  case False
  then have n: "length ls - scrolled ls = 24" "scrolled (ls @ [l]) = Suc (scrolled ls)" "length ls = 24 + scrolled ls"
    by (simp_all add: scrolled_def)
  have sc: "unat (vga_row s) \<ge> VGA_HEIGHT" using row n(1) by simp
  have "cell (scroll_screen s) r j = tape_cell B (ls @ [l]) (r + Suc (scrolled ls)) j" if rj: "r < VGA_HEIGHT" "j < VGA_WIDTH" for r j
  proof (cases "r < 24")
    case True
    then show ?thesis using scroll_screen_eq(3) [OF rj(2,1), of s] c [of "Suc r" j] rj by simp
  next
    case False
    then have "r = 24" using rj by simp
    then show ?thesis using scroll_screen_eq(3) [OF rj(2,1), of s] n(3) by (simp add: tape_cell_def)
  qed
  then show ?thesis using sc n tape_cell_nil [of B "ls @ [l]"] scroll_screen_eq(1,2) [of s]
    by (simp add: shows_tape_def)
qed

lemma putchar_shows:
  assumes "shows_tape B x s"
  shows "shows_tape B (feed c x) (putchar c s)" "4000 \<le> a \<Longrightarrow> video (putchar c s) a = video s a"
proof -
  obtain ls l where x: "x = (ls, l)" by (cases x)
  let ?i = "length ls - scrolled ls" and ?k = "length l"
  have i: "?i < VGA_HEIGHT" by (simp add: scrolled_def)
  have row: "vga_row s = of_nat ?i" "unat (vga_row s) = ?i" and col: "vga_col s = of_nat ?k" "unat (vga_col s) = ?k"
    and k: "?k < VGA_WIDTH"
    using assms i by (auto simp: shows_tape_def x unat_of_nat)
  have c0: "cell s r j = tape_cell B (ls @ [l]) (r + scrolled ls) j" if "r < VGA_HEIGHT" "j < VGA_WIDTH" for r j
    using assms that by (simp add: shows_tape_def x)
  have len: "length ls = ?i + scrolled ls" by (simp add: scrolled_def)
  define t where "t = s\<lparr>video := (video s)((?i * VGA_WIDTH + ?k) * 2 := c, (?i * VGA_WIDTH + ?k) * 2 + 1 := attribute)\<rparr>"
  have c1: "cell t r j = tape_cell B (ls @ [l @ [c]]) (r + scrolled ls) j" if rj: "r < VGA_HEIGHT" "j < VGA_WIDTH" for r j
    using cell_write [OF rj(2) k, where s = s and c = c and d = attribute and i = ?i and r = r] c0 [OF rj] len
    by (auto simp: t_def tape_cell_def nth_append less_Suc_eq)
  have v: "4000 \<le> a \<Longrightarrow> video t a = video s a" using i k by (auto simp: t_def)
  have t: "vga_row t = vga_row s" "vga_col t = vga_col s" by (simp_all add: t_def)
  have wrap: "VGA_WIDTH \<le> unat (vga_col s + 1) \<longleftrightarrow> Suc ?k = VGA_WIDTH"
    unfolding unat_word_ariths col(2) using k by auto
  have put: "putchar c s = (let u = t\<lparr>vga_col := vga_col s + 1\<rparr>;
        u' = (if unat (vga_col s + 1) \<ge> VGA_WIDTH then u\<lparr>vga_row := vga_row s + 1, vga_col := 0\<rparr> else u) in
      if unat (vga_row u') \<ge> VGA_HEIGHT then scroll_screen u' else u')" if "c \<noteq> newline"
    using that by (simp add: putchar_def Let_def row(2) col(2) t_def)
  show "shows_tape B (feed c x) (putchar c s)"
  proof (cases "c = newline")
    case True
    have "shows_tape B (ls @ [l], []) (let t = s\<lparr>vga_row := vga_row s + 1, vga_col := 0\<rparr> in
        if unat (vga_row t) \<ge> VGA_HEIGHT then scroll_screen t else t)"
      unfolding Let_def by (rule line_end_shows) (simp_all add: c0 row(1))
    with True show ?thesis by (simp add: x putchar_def Let_def)
  next
    case c: False
    show ?thesis
    proof (cases "Suc ?k = VGA_WIDTH")
      case True
      let ?t = "t\<lparr>vga_col := vga_col s + 1, vga_row := vga_row s + 1, vga_col := 0\<rparr>"
      have "shows_tape B (ls @ [l @ [c]], []) (if unat (vga_row ?t) \<ge> VGA_HEIGHT then scroll_screen ?t else ?t)"
        by (rule line_end_shows) (simp_all add: c1 row(1))
      moreover have "putchar c s = (if unat (vga_row ?t) \<ge> VGA_HEIGHT then scroll_screen ?t else ?t)"
        unfolding put [OF c] using wrap True by simp
      ultimately show ?thesis using True c by (simp add: x)
    next
      case False
      have "putchar c s = t\<lparr>vga_col := vga_col s + 1\<rparr>"
        unfolding put [OF c] using wrap False i by (simp add: t row(2))
      then show ?thesis using False c c1 row col k by (simp add: x shows_tape_def t)
    qed
  qed
  show "video (putchar c s) a = video s a" if "4000 \<le> a"
    using v [OF that] scroll_screen_eq(4) [OF that]
    by (simp add: putchar_def Let_def row(2) col(2) t_def)
qed

lemma print_eq: "NUL \<notin> set m \<Longrightarrow> print_to_screen (m @ NUL # r) s = Some (fold putchar m s)"
  by (induction m arbitrary: s) auto

lemma fold_putchar_shows:
  "shows_tape B x s \<Longrightarrow> shows_tape B (fold feed m x) (fold putchar m s) \<and> (\<forall>a\<ge>4000. video (fold putchar m s) a = video s a)"
proof (induction m arbitrary: x s)
  case (Cons c m)
  from Cons.IH [OF putchar_shows(1) [OF Cons.prems]] putchar_shows(2) [OF Cons.prems] show ?case by auto
qed simp

lemma screen_start:
  assumes "vga_row s = 0" "vga_col s = 0"
  shows "shows_tape (cell s) ([], []) s"
proof -
  have "tape_cell (cell s) [[]] r j = cell s r j" if "r < VGA_HEIGHT" for r j
    using that by (cases r) (simp_all add: tape_cell_def)
  with assms show ?thesis by (simp add: shows_tape_def scrolled_def)
qed

lemma print_shows:
  assumes "shows_tape B x s" "NUL \<notin> set m"
  shows "\<exists>t. print_to_screen (m @ NUL # r) s = Some t \<and> shows_tape B (fold feed m x) t"
  using print_eq [OF assms(2)] fold_putchar_shows [OF assms(1)] by blast

text \<open>
  The interface of everything that prints: a message is appended to the tape that is shown. The screen, the
  keyboard driver and the command line provide it.
\<close>

fun print_seq :: "(string \<Rightarrow> 's \<Rightarrow> 's option) \<Rightarrow> string list \<Rightarrow> 's \<Rightarrow> 's option" where
  "print_seq pr [] s = Some s"
| "print_seq pr (m # ms) s = do { s1 \<leftarrow> pr m s; print_seq pr ms s1 }"

locale console =
  fixes pr :: "string \<Rightarrow> 's \<Rightarrow> 's option" and on :: "tape \<Rightarrow> 's \<Rightarrow> bool"
  assumes print_law: "on x s \<Longrightarrow> NUL \<notin> set m \<Longrightarrow> \<exists>t. pr m s = Some t \<and> on (fold feed m x) t"
begin

lemma seq_shows:
  "on x s \<Longrightarrow> \<forall>m\<in>set ms. NUL \<notin> set m \<Longrightarrow> \<exists>t. print_seq pr ms s = Some t \<and> on (fold feed (concat ms) x) t"
proof (induction ms arbitrary: x s)
  case (Cons m ms)
  from print_law [OF Cons.prems(1), of m] Cons.prems(2) obtain t where "pr m s = Some t" "on (fold feed m x) t" by auto
  with Cons.IH [OF this(2)] Cons.prems(2) show ?case by auto
qed simp

end

interpretation screen_console: console "\<lambda>m. print_to_screen (cstr m)" "shows_tape B" for B
  by unfold_locales (use print_shows [of B _ _ _ "[]"] in \<open>simp add: cstr_def\<close>)

text \<open>Text without a newline that fits into the line is appended to it.\<close>

lemma feed_short: "newline \<notin> set m \<Longrightarrow> length l + length m < VGA_WIDTH \<Longrightarrow> fold feed m (ls, l) = (ls, l @ m)"
  by (induction m arbitrary: l) auto

lemma feed_line: "newline \<notin> set m \<Longrightarrow> length l + length m < VGA_WIDTH \<Longrightarrow> fold feed (m @ [newline]) (ls, l) = (ls @ [l @ m], [])"
  by (simp add: feed_short)

subsection \<open>Properties\<close>

text \<open>C33 (the screen). Whatever was on the screen before, after any sequence of messages printed from
  the upper left corner, the 25 rows of the screen are the last rows of the tape of all text
  (broken at newlines and after 80 characters) over the old contents, the cursor is at the
  end of the last line, and no byte outside the 4000 of the video memory has changed.\<close>

theorem print_shows_last_rows:
  assumes "vga_row s = 0" "vga_col s = 0" "NUL \<notin> set message"
  shows "\<exists>t ls l. print_to_screen (cstr message) s = Some t \<and> fold feed message ([], []) = (ls, l)
    \<and> vga_row t = of_nat (length ls - scrolled ls) \<and> vga_col t = of_nat (length l) \<and> length l < 80
    \<and> (\<forall>r<25. \<forall>j<80. cell t r j = tape_cell (cell s) (ls @ [l]) (r + scrolled ls) j)
    \<and> (\<forall>a\<ge>4000. video t a = video s a)"
proof -
  obtain ls l where x: "fold feed message ([], []) = (ls, l)" by fastforce
  show ?thesis
    using fold_putchar_shows [OF screen_start [OF assms(1,2)], of message] print_eq [OF assms(3), of "[]" s]
    by (auto simp: x cstr_def shows_tape_def)
qed

definition blank_screen :: screen where
  "blank_screen = \<lparr>video = (\<lambda>a. if even a then CHR '' '' else attribute), vga_row = 0, vga_col = 0\<rparr>"

theorem print_shows_last_rows_witness:
  "\<exists>t. print_to_screen (cstr (concat (replicate 30 ''ab\<newline>''))) blank_screen = Some t
    \<and> vga_row t = 24 \<and> cell t 0 1 = (CHR ''b'', attribute) \<and> cell t 24 0 = (CHR '' '', attribute)"
proof -
  have "fold feed (concat (replicate n ''ab\<newline>'')) (ls, []) = (ls @ replicate n ''ab'', [])" for n ls
    by (induction n arbitrary: ls) (simp_all add: replicate_append_same [symmetric])
  from this [of 30 "[]"] have f: "fold feed (concat (replicate 30 ''ab\<newline>'')) ([], []) = (replicate 30 ''ab'', [])" by simp
  have n: "NUL \<notin> set (concat (replicate 30 ''ab\<newline>''))" by simp
  have b: "vga_row blank_screen = 0" "vga_col blank_screen = 0" by (simp_all add: blank_screen_def)
  from print_shows_last_rows [OF b n] f obtain t where
    t: "print_to_screen (cstr (concat (replicate 30 ''ab\<newline>''))) blank_screen = Some t" "vga_row t = 24"
      "\<forall>r<25. \<forall>j<80. cell t r j = tape_cell (cell blank_screen) (replicate 30 ''ab'' @ [[]]) (r + 6) j"
    by (auto simp: scrolled_def)
  have "cell t 0 1 = (CHR ''b'', attribute)" "cell t 24 0 = (CHR '' '', attribute)"
    using t(3) by (simp_all add: tape_cell_def nth_append)
  with t(1,2) show ?thesis by blast
qed

end
