(* ===== verification/Debug.thy ===== *)
theory Debug
  imports Interrupts NumConv Screen
begin

text \<open>
  The debug output of \<^verbatim>\<open>kernel.c\<close> over the serial port: \<open>debug_print\<close> and \<open>debug_int\<close>. The other theories leave it
  out of their operations; here is what it puts on the line and how many reads of the status it takes.
\<close>

definition debug_print :: "char list \<Rightarrow> u8 list \<Rightarrow> 's intr \<Rightarrow> (u8 list \<times> 's intr) option" where
  "debug_print msg line_status m = do {
     (rest, m1) \<leftarrow> serial_print msg line_status m;
     serial_print (cstr [CHR 0x0D, newline]) rest m1
   }"

text \<open>\<open>buffer\<close> holds the sixteen bytes of the array on the stack.\<close>

definition debug_int :: "char list \<Rightarrow> u32 \<Rightarrow> u8 list \<Rightarrow> 's intr \<Rightarrow> (u8 list \<times> 's intr) option" where
  "debug_int buffer val line_status m = do {
     buffer1 \<leftarrow> int_to_hex val buffer;
     debug_print buffer1 line_status m
   }"

lemma debug_print_sends:
  assumes "NUL \<notin> set message" "length message + 2 \<le> ready_reads line_status"
  shows "\<exists>rest. debug_print (message @ NUL # r) line_status m = Some (rest, sent (message @ [CHR 0x0D, newline]) m)
    \<and> ready_reads line_status = length message + 2 + ready_reads rest"
proof -
  have "length message \<le> ready_reads line_status" using assms(2) by simp
  from serial_print_sends [OF assms(1) this, of r m] obtain rest where
    rest: "serial_print (message @ NUL # r) line_status m = Some (rest, sent message m)"
      "ready_reads line_status = length message + ready_reads rest" by blast
  have "length [CHR 0x0D, newline] \<le> ready_reads rest" "NUL \<notin> set [CHR 0x0D, newline]" using rest(2) assms(2) by simp_all
  from serial_print_sends [OF this(2,1), of "[]" "sent message m"] obtain rest2 where
    "serial_print (cstr [CHR 0x0D, newline]) rest (sent message m) = Some (rest2, sent (message @ [CHR 0x0D, newline]) m)"
    "ready_reads rest = 2 + ready_reads rest2" by (auto simp: cstr_def sent_sent)
  with rest show ?thesis by (simp add: debug_print_def)
qed

lemma hex_chars_clean: "d < 16 \<Longrightarrow> hex_chars ! d \<noteq> NUL"
proof -
  have "\<forall>d \<in> set [0..<16]. hex_chars ! d \<noteq> NUL" by code_simp
  moreover assume "d < 16"
  ultimately show ?thesis by simp
qed

text \<open>Debug output of a number: With twelve reads of the status that find the transmitter empty, \<open>debug_int\<close> ends
  and has sent \<^verbatim>\<open>0x\<close>, eight hexadecimal digits with the value of the number, and the end of
  the line.\<close>

theorem debug_int_sends:
  assumes "length buffer = 16" "12 \<le> ready_reads line_status"
  shows "\<exists>ds rest. debug_int buffer val line_status m = Some (rest, sent (''0x'' @ ds @ [CHR 0x0D, newline]) m)
    \<and> length ds = 8 \<and> hex_value ds = unat val"
proof -
  define ds where "ds = map (\<lambda>i. hex_chars ! unat (drop_bit ((7 - i) * 4) val AND 15)) [0..<8]"
  have nib: "unat (drop_bit n val AND 15) < 16" for n
    using nibble [of n val] by simp
  have "\<forall>c\<in>set ds. c \<noteq> NUL" using hex_chars_clean [OF nib] by (simp add: ds_def)
  then have "NUL \<notin> set ds" by blast
  then have c: "NUL \<notin> set (''0x'' @ ds)" by simp
  have l: "length ds = 8" by (simp add: ds_def)
  have "int_to_hex val buffer = Some ((''0x'' @ ds) @ NUL # drop 11 buffer)"
    using assms(1) by (simp add: int_to_hex_def put_string_def ds_def)
  moreover have "length (''0x'' @ ds) + 2 \<le> ready_reads line_status" using assms(2) l by simp
  from debug_print_sends [OF c this, of "drop 11 buffer" m] obtain rest where
    "debug_print ((''0x'' @ ds) @ NUL # drop 11 buffer) line_status m = Some (rest, sent ((''0x'' @ ds) @ [CHR 0x0D, newline]) m)"
    by blast
  moreover have "hex_value ds = unat val" using hex_digits_value [of 8 val] by (simp add: ds_def)
  ultimately show ?thesis using l by (auto simp: debug_int_def)
qed

theorem debug_int_sends_witness:
  "\<exists>ds rest. debug_int (replicate 16 NUL) 48879 (replicate 12 0x60) \<lparr>interrupt_handlers = (\<lambda>_. None), port_log = [], device = ()\<rparr>
      = Some (rest, sent (''0x'' @ ds @ [CHR 0x0D, newline]) \<lparr>interrupt_handlers = (\<lambda>_. None), port_log = [], device = ()\<rparr>)
    \<and> hex_value ds = 48879"
proof -
  have "length (replicate 16 NUL) = 16" "12 \<le> ready_reads (replicate 12 0x60)" by (simp_all add: ready_reads_def)
  from debug_int_sends [OF this, of 48879 "\<lparr>interrupt_handlers = (\<lambda>_. None), port_log = [], device = ()\<rparr>"] show ?thesis by auto
qed

end
