(* ===== verification/Keyboard.thy ===== *)
theory Keyboard
  imports Screen Interrupts
begin

text \<open>
  The keyboard driver (\<^verbatim>\<open>keyboard/keyboard.c\<close>) and \<open>read_line\<close> of \<^verbatim>\<open>kernel.c\<close>, with the screen on which the
  driver echoes. The spec is a line editor on strings.
\<close>

subsection \<open>Operations\<close>

abbreviation BUFFER_SIZE :: nat where "BUFFER_SIZE \<equiv> 256"
abbreviation backspace :: char where "backspace \<equiv> CHR 0x08"

text \<open>The static variables of the driver, the screen, and the byte that port 0x60 returns.\<close>

record keyboard =
  display :: screen
  input_buffer :: "char list"
  input_ready :: int
  input_line :: "char list"
  buffer_index :: int
  shift_pressed :: int
  caps_lock_on :: int
  data_port :: u8

definition scancode_to_ascii :: "char list" where
  "scancode_to_ascii =
     [NUL, CHR 0x1B] @ ''1234567890-='' @ [backspace, CHR 0x09]
     @ ''qwertyuiop[]'' @ [newline, NUL] @ ''asdfghjkl;'' @ [CHR 0x27, CHR 0x60, NUL, CHR 0x5C]
     @ ''zxcvbnm,./'' @ [NUL, CHR ''*'', NUL, CHR '' ''] @ replicate 70 NUL"

definition scancode_to_ascii_shift :: "char list" where
  "scancode_to_ascii_shift =
     [NUL, CHR 0x1B] @ ''!@#$%^&*()_+'' @ [backspace, CHR 0x09]
     @ ''QWERTYUIOP{}'' @ [newline, NUL] @ ''ASDFGHJKL:'' @ [CHR 0x22, CHR ''~'', NUL, CHR ''|'']
     @ ''ZXCVBNM<>?'' @ [NUL, CHR ''*'', NUL, CHR '' ''] @ replicate 70 NUL"

text \<open>The character of a key that has been pressed.\<close>

definition pressed_key :: "u8 \<Rightarrow> int \<Rightarrow> int \<Rightarrow> char" where
  "pressed_key scancode shift caps =
     (let key = (if shift \<noteq> 0 then scancode_to_ascii_shift ! unat scancode else scancode_to_ascii ! unat scancode)
      in if uchar CHR ''a'' \<le> uchar key \<and> uchar key \<le> uchar CHR ''z''
         then (if caps XOR shift \<noteq> 0 then char_of (uchar key - 32) else key)
         else key)"

text \<open>The loop that publishes the line, from position \<open>i\<close> on; an access outside an array is undefined.\<close>

function copy_line :: "char list \<Rightarrow> char list \<Rightarrow> nat \<Rightarrow> (nat \<times> char list) option" where
  "copy_line buf line i =
     (if i < length buf
      then (if buf ! i \<noteq> NUL \<and> i < BUFFER_SIZE
            then (if i < length line then copy_line buf (line[i := buf ! i]) (i + 1) else None)
            else Some (i, line))
      else None)"
  by pat_completeness auto
termination
  by (relation "measure (\<lambda>(buf, _, i). length buf - i)") auto

declare copy_line.simps [simp del]

definition store_char :: "char list \<Rightarrow> int \<Rightarrow> char \<Rightarrow> char list option" where
  "store_char xs i c = (if 0 \<le> i \<and> i < int (length xs) then Some (xs[nat i := c]) else None)"

definition echo_text :: "string \<Rightarrow> keyboard \<Rightarrow> keyboard option" where
  "echo_text m k = map_option (\<lambda>s. k\<lparr>display := s\<rparr>) (print_to_screen (cstr m) (display k))"

definition enter_key :: "char \<Rightarrow> keyboard \<Rightarrow> keyboard option" where
  "enter_key key k =
     (if key = newline
      then do {
        buf \<leftarrow> store_char (input_buffer k) (buffer_index k) NUL;
        (i, line) \<leftarrow> copy_line buf (input_line k) 0;
        line1 \<leftarrow> store_char line (int i) NUL;
        k1 \<leftarrow> echo_text [newline] (k\<lparr>input_buffer := buf, input_line := line1, input_ready := 1\<rparr>);
        Some (k1\<lparr>buffer_index := 0\<rparr>)
      }
      else if key = backspace
      then (if buffer_index k > 0
            then echo_text [backspace, CHR '' '', backspace] (k\<lparr>buffer_index := buffer_index k - 1\<rparr>)
            else Some k)
      else (if buffer_index k < int BUFFER_SIZE - 1
            then do {
              buf \<leftarrow> store_char (input_buffer k) (buffer_index k) key;
              echo_text [key] (k\<lparr>input_buffer := buf, buffer_index := buffer_index k + 1\<rparr>)
            }
            else Some k))"

definition keyboard_handler :: "keyboard \<Rightarrow> keyboard option" where
  "keyboard_handler k =
     (let scancode = data_port k in
      if scancode = 0x2A \<or> scancode = 0x36 then Some (k\<lparr>shift_pressed := 1\<rparr>)
      else if scancode = 0xAA \<or> scancode = 0xB6 then Some (k\<lparr>shift_pressed := 0\<rparr>)
      else if scancode = 0x3A then Some (k\<lparr>caps_lock_on := (if caps_lock_on k = 0 then 1 else 0)\<rparr>)
      else if scancode AND 0x80 = 0
      then (let key = pressed_key scancode (shift_pressed k) (caps_lock_on k) in
            if key \<noteq> NUL then enter_key key k else Some k)
      else Some k)"

definition init_keyboard :: "keyboard intr \<Rightarrow> keyboard intr option" where
  "init_keyboard m =
     (let m1 = register_interrupt_handler 33 keyboard_handler m in
      map_option (\<lambda>d. m1\<lparr>device := d\<rparr>) (echo_text (''DEBUG: Keyboard interrupt handler registered.'' @ [newline]) (device m1)))"

text \<open>A key event: the controller offers a scan code and raises line 1.\<close>

definition key_event :: "u8 \<Rightarrow> keyboard intr \<Rightarrow> keyboard intr option" where
  "key_event scancode m = common_irq_handler 1 (m\<lparr>device := (device m)\<lparr>data_port := scancode\<rparr>\<rparr>)"

text \<open>
  \<open>read_line\<close> halts until a line is ready; each interrupt that ends a halt is a key event of the
  list \<open>keys\<close>. When the events run out it waits for ever.
\<close>

fun await_input :: "u8 list \<Rightarrow> keyboard intr \<Rightarrow> (u8 list \<times> keyboard intr) option" where
  "await_input keys m =
     (if input_ready (device m) \<noteq> 0 then Some (keys, m)
      else (case keys of
              [] \<Rightarrow> None
            | scancode # rest \<Rightarrow> do { m1 \<leftarrow> key_event scancode m; await_input rest m1 }))"

declare await_input.simps [simp del]

function copy_input :: "char list \<Rightarrow> char list \<Rightarrow> nat \<Rightarrow> nat \<Rightarrow> (nat \<times> char list) option" where
  "copy_input line buffer max_length i =
     (if i < length line
      then (if line ! i \<noteq> NUL \<and> i + 1 < max_length
            then (if i < length buffer then copy_input line (buffer[i := line ! i]) max_length (i + 1) else None)
            else Some (i, buffer))
      else None)"
  by pat_completeness auto
termination
  by (relation "measure (\<lambda>(line, _, _, i). length line - i)") auto

declare copy_input.simps [simp del]

definition read_line ::
  "char list \<Rightarrow> nat \<Rightarrow> u8 list \<Rightarrow> keyboard intr \<Rightarrow> (char list \<times> u8 list \<times> keyboard intr) option" where
  "read_line buffer max_length keys m = do {
     (keys1, m1) \<leftarrow> await_input keys m;
     (i, buffer1) \<leftarrow> copy_input (input_line (device m1)) buffer max_length 0;
     buffer2 \<leftarrow> store_char buffer1 (int i) NUL;
     Some (buffer2, keys1, m1\<lparr>device := (device m1)\<lparr>input_ready := 0\<rparr>\<rparr>)
   }"

subsection \<open>The line editor\<close>

text \<open>The line being typed, the line that is ready, and the two modifiers.\<close>

record editor =
  typed :: string
  ready :: "string option"
  shifted :: bool
  caps :: bool

definition type_key :: "char \<Rightarrow> editor \<Rightarrow> editor" where
  "type_key c e =
     (if c = newline then e\<lparr>typed := [], ready := Some (typed e)\<rparr>
      else if c = backspace then e\<lparr>typed := butlast (typed e)\<rparr>
      else if length (typed e) < 255 then e\<lparr>typed := typed e @ [c]\<rparr> else e)"

definition echo :: "char \<Rightarrow> editor \<Rightarrow> string" where
  "echo c e =
     (if c = newline then [newline]
      else if c = backspace then (if typed e = [] then [] else [backspace, CHR '' '', backspace])
      else if length (typed e) < 255 then [c] else [])"

text \<open>The key that a scan code stands for: none for modifiers, releases and unassigned codes.\<close>

definition key_of :: "u8 \<Rightarrow> editor \<Rightarrow> char option" where
  "key_of scancode e =
     (let c = pressed_key scancode (of_bool (shifted e)) (of_bool (caps e)) in
      if scancode < 0x80 \<and> scancode \<notin> {0x2A, 0x36, 0x3A} \<and> c \<noteq> NUL then Some c else None)"

definition press :: "u8 \<Rightarrow> editor \<Rightarrow> editor" where
  "press scancode e =
     (if scancode \<in> {0x2A, 0x36} then e\<lparr>shifted := True\<rparr>
      else if scancode \<in> {0xAA, 0xB6} then e\<lparr>shifted := False\<rparr>
      else if scancode = 0x3A then e\<lparr>caps := \<not> caps e\<rparr>
      else (case key_of scancode e of None \<Rightarrow> e | Some c \<Rightarrow> type_key c e))"

definition press_echo :: "u8 \<Rightarrow> editor \<Rightarrow> string" where
  "press_echo scancode e = (case key_of scancode e of None \<Rightarrow> [] | Some c \<Rightarrow> echo c e)"

definition edits :: "editor \<Rightarrow> keyboard \<Rightarrow> bool" where
  "edits e k \<longleftrightarrow>
     length (input_buffer k) = BUFFER_SIZE \<and> length (input_line k) = BUFFER_SIZE
   \<and> NUL \<notin> set (typed e) \<and> length (typed e) < BUFFER_SIZE
   \<and> buffer_index k = int (length (typed e)) \<and> take (length (typed e)) (input_buffer k) = typed e
   \<and> shift_pressed k = of_bool (shifted e) \<and> caps_lock_on k = of_bool (caps e)
   \<and> (case ready e of
        None \<Rightarrow> input_ready k = 0
      | Some l \<Rightarrow> input_ready k = 1 \<and> NUL \<notin> set l \<and> length l < BUFFER_SIZE
          \<and> (\<exists>r. input_line k = l @ NUL # r))"

subsection \<open>The copying loops\<close>

lemma copy_input_from:
  assumes "line = l @ NUL # r" "NUL \<notin> set l" "n = min (length l) (max_length - 1)" "n \<le> length buffer" "i \<le> n"
  shows "copy_input line (take i l @ drop i buffer) max_length i = Some (n, take n l @ drop n buffer)"
  using assms(5)
proof (induction "n - i" arbitrary: i)
  case 0
  then have i: "i = n" by simp
  have "line ! n = NUL \<or> \<not> n + 1 < max_length" using assms(1,3) by (auto simp: min_def nth_append)
  then show ?case using i assms(1,3) by (subst copy_input.simps) auto
next
  case (Suc d)
  then have i: "i < length l" "i + 1 < max_length" "i < length buffer" "i < n" using assms(3,4) by auto
  then have li: "line ! i = l ! i" "l ! i \<noteq> NUL" using assms(1,2) by (auto simp: nth_append dest: nth_mem)
  have "(take i l @ drop i buffer)[i := l ! i] = take (Suc i) l @ drop (Suc i) buffer"
    using i(1,3) by (simp add: list_update_append take_Suc_conv_app_nth Cons_nth_drop_Suc [symmetric])
  moreover have "d = n - Suc i" "Suc i \<le> n" using Suc.hyps(2) i(4) by auto
  ultimately show ?case
    using Suc.hyps(1) [of "Suc i"] i li assms(1) by (subst copy_input.simps) simp
qed

lemma copy_input_eq:
  assumes "line = l @ NUL # r" "NUL \<notin> set l" "n = min (length l) (max_length - 1)" "n \<le> length buffer"
  shows "copy_input line buffer max_length 0 = Some (n, take n l @ drop n buffer)"
  using copy_input_from [OF assms, of 0] by simp

lemma copy_line_input: "copy_line buf line i = copy_input buf line (Suc BUFFER_SIZE) i"
proof (induction buf line i rule: copy_line.induct)
  case (1 buf line i)
  then show ?case by (subst copy_line.simps, subst copy_input.simps) auto
qed

lemma store_char_eq: "i < length xs \<Longrightarrow> store_char xs (int i) c = Some (take i xs @ c # drop (Suc i) xs)"
  by (simp add: store_char_def upd_conv_take_nth_drop)

text \<open>The tables have 128 entries, and a key that is down has a code below 128.\<close>

lemma tables_length: "length scancode_to_ascii = 128" "length scancode_to_ascii_shift = 128"
  by (simp_all add: scancode_to_ascii_def scancode_to_ascii_shift_def)

lemma release_bit: "(c :: u8) AND 0x80 = 0 \<longleftrightarrow> c < 0x80"
proof -
  have m: "unat c < 256" using unsigned_less [of c, where ?'a = nat] by simp
  have p: "(2 :: u8) ^ 7 = 0x80" by simp
  have "c AND 0x80 = 0 \<longleftrightarrow> \<not> bit c 7" using and_exp_eq_0_iff_not_bit [of c 7] unfolding p .
  also have "bit c 7 \<longleftrightarrow> odd (unat c div 2 ^ 7)"
    using bit_unsigned_iff [of c 7, where ?'a = nat] unfolding bit_iff_odd [of "unat c"] by simp
  also have "\<dots> \<longleftrightarrow> 128 \<le> unat c"
  proof (cases "128 \<le> unat c")
    case True
    then obtain j where "unat c = 128 + j" "j < 128" using m by (metis le_Suc_ex nat_add_left_cancel_less numeral_Bit0)
    then have "unat c div 128 = 1" by (simp add: div_nat_eqI)
    with True show ?thesis by simp
  qed simp
  finally show ?thesis by (simp add: word_less_nat_alt not_le)
qed

subsection \<open>The driver refines the editor\<close>

lemma echo_shows:
  assumes "shows_tape B x (display k)" "NUL \<notin> set m"
  shows "\<exists>t. echo_text m k = Some (k\<lparr>display := t\<rparr>) \<and> shows_tape B (fold feed m x) t"
  using print_shows [OF assms, of "[]"] by (auto simp: echo_text_def cstr_def)

interpretation key_console: console echo_text "\<lambda>x k. shows_tape B x (display k)" for B
proof unfold_locales
  fix x m and k :: keyboard
  assume "shows_tape B x (display k)" "NUL \<notin> set m"
  from echo_shows [OF this] obtain t where "echo_text m k = Some (k\<lparr>display := t\<rparr>)" "shows_tape B (fold feed m x) t" by blast
  then show "\<exists>t. echo_text m k = Some t \<and> shows_tape B (fold feed m x) (display t)" by auto
qed

lemma enter_newline:
  assumes e: "edits e k" and s: "shows_tape B x (display k)"
  shows "\<exists>k'. enter_key newline k = Some k' \<and> edits (type_key newline e) k'
    \<and> shows_tape B (fold feed (echo newline e) x) (display k') \<and> data_port k' = data_port k"
proof -
  let ?n = "length (typed e)"
  let ?buf = "typed e @ NUL # drop (Suc ?n) (input_buffer k)"
  let ?line = "typed e @ NUL # drop (Suc ?n) (input_line k)"
  from e have len: "length (input_buffer k) = 256" "length (input_line k) = 256"
    and t: "NUL \<notin> set (typed e)" "?n < 256" "buffer_index k = int ?n" "take ?n (input_buffer k) = typed e"
    by (auto simp: edits_def)
  have b: "store_char (input_buffer k) (buffer_index k) NUL = Some ?buf"
    using store_char_eq [of ?n "input_buffer k" NUL] len t by simp
  have l: "copy_line ?buf (input_line k) 0 = Some (?n, typed e @ drop ?n (input_line k))"
    unfolding copy_line_input using copy_input_eq [OF refl t(1), of ?n "Suc BUFFER_SIZE" "input_line k"] t(2) len by simp
  have l1: "store_char (typed e @ drop ?n (input_line k)) (int ?n) NUL = Some ?line"
    using store_char_eq [of ?n "typed e @ drop ?n (input_line k)" NUL] len t(2) by simp
  obtain t' where t': "echo_text [newline] (k\<lparr>input_buffer := ?buf, input_line := ?line, input_ready := 1\<rparr>)
      = Some (k\<lparr>input_buffer := ?buf, input_line := ?line, input_ready := 1, display := t'\<rparr>)"
      "shows_tape B (fold feed [newline] x) t'"
    using echo_shows [of B x "k\<lparr>input_buffer := ?buf, input_line := ?line, input_ready := 1\<rparr>" "[newline]"] s by auto
  let ?k' = "k\<lparr>input_buffer := ?buf, input_line := ?line, input_ready := 1, display := t', buffer_index := 0\<rparr>"
  have "enter_key newline k = Some ?k'"
    unfolding enter_key_def if_P [OF refl] b Option.bind.bind_lunit l prod.case l1 t'(1) by simp
  moreover have "edits (type_key newline e) ?k'"
    using e t len by (auto simp: edits_def type_key_def)
  moreover have "shows_tape B (fold feed (echo newline e) x) (display ?k')" using t'(2) by (simp add: echo_def)
  ultimately show ?thesis by auto
qed

lemma enter_backspace:
  assumes e: "edits e k" and s: "shows_tape B x (display k)"
  shows "\<exists>k'. enter_key backspace k = Some k' \<and> edits (type_key backspace e) k'
    \<and> shows_tape B (fold feed (echo backspace e) x) (display k') \<and> data_port k' = data_port k"
proof (cases "typed e" rule: rev_cases)
  case Nil
  then show ?thesis using e s by (simp add: enter_key_def type_key_def echo_def edits_def)
next
  case (snoc w d)
  from e have t: "take (length (typed e)) (input_buffer k) = typed e" "buffer_index k = int (length (typed e))"
    by (auto simp: edits_def)
  have "take (length w) (take (Suc (length w)) (input_buffer k)) = take (length w) (w @ [d])" using t(1) snoc by simp
  then have w: "take (length w) (input_buffer k) = w" by (simp add: min_def)
  obtain t' where "echo_text [backspace, CHR '' '', backspace] (k\<lparr>buffer_index := buffer_index k - 1\<rparr>)
      = Some (k\<lparr>buffer_index := buffer_index k - 1, display := t'\<rparr>)"
      "shows_tape B (fold feed [backspace, CHR '' '', backspace] x) t'"
    using echo_shows [of B x "k\<lparr>buffer_index := buffer_index k - 1\<rparr>" "[backspace, CHR '' '', backspace]"] s by auto
  then show ?thesis using e t(2) snoc w
    by (auto simp: enter_key_def type_key_def echo_def edits_def split: option.splits)
qed

lemma enter_other:
  assumes e: "edits e k" and s: "shows_tape B x (display k)" and c: "c \<noteq> NUL" "c \<noteq> newline" "c \<noteq> backspace"
  shows "\<exists>k'. enter_key c k = Some k' \<and> edits (type_key c e) k'
    \<and> shows_tape B (fold feed (echo c e) x) (display k') \<and> data_port k' = data_port k"
proof (cases "length (typed e) < 255")
  case True
  let ?n = "length (typed e)" and ?buf = "typed e @ c # drop (Suc (length (typed e))) (input_buffer k)"
  from e have len: "length (input_buffer k) = 256" and t: "buffer_index k = int ?n" "take ?n (input_buffer k) = typed e"
    by (auto simp: edits_def)
  have b: "store_char (input_buffer k) (buffer_index k) c = Some ?buf"
    using store_char_eq [of ?n "input_buffer k" c] len t True by simp
  obtain t' where "echo_text [c] (k\<lparr>input_buffer := ?buf, buffer_index := buffer_index k + 1\<rparr>)
      = Some (k\<lparr>input_buffer := ?buf, buffer_index := buffer_index k + 1, display := t'\<rparr>)"
      "shows_tape B (fold feed [c] x) t'"
    using echo_shows [of B x "k\<lparr>input_buffer := ?buf, buffer_index := buffer_index k + 1\<rparr>" "[c]"] s c by auto
  then show ?thesis using e t(1) len True b c
    by (auto simp: enter_key_def type_key_def echo_def edits_def split: option.splits)
next
  case False
  then show ?thesis using e s c by (simp add: enter_key_def edits_def type_key_def echo_def)
qed

lemma enter_key_edits:
  assumes "edits e k" "shows_tape B x (display k)" "c \<noteq> NUL"
  shows "\<exists>k'. enter_key c k = Some k' \<and> edits (type_key c e) k' \<and> shows_tape B (fold feed (echo c e) x) (display k')
    \<and> data_port k' = data_port k"
  using enter_newline [OF assms(1,2)] enter_backspace [OF assms(1,2)] enter_other [OF assms] by blast

lemma handler_edits:
  assumes e: "edits e k" and s: "shows_tape B x (display k)"
  shows "\<exists>k'. keyboard_handler k = Some k' \<and> edits (press (data_port k) e) k'
    \<and> shows_tape B (fold feed (press_echo (data_port k) e) x) (display k')"
proof -
  let ?sc = "data_port k"
  have m: "shift_pressed k = of_bool (shifted e)" "caps_lock_on k = of_bool (caps e)" using e by (simp_all add: edits_def)
  have other: "keyboard_handler k = Some k' \<Longrightarrow> edits (press ?sc e) k' \<Longrightarrow> display k' = display k \<Longrightarrow> key_of ?sc e = None \<Longrightarrow> ?thesis"
    for k' using s by (auto simp: press_echo_def)
  consider (down) "?sc \<in> {0x2A, 0x36}" | (up) "?sc \<in> {0xAA, 0xB6}" | (lock) "?sc = 0x3A"
    | (rest) "?sc \<notin> {0x2A, 0x36, 0xAA, 0xB6, 0x3A}" by blast
  then show ?thesis
  proof cases
    case down
    have "edits (e\<lparr>shifted := True\<rparr>) (k\<lparr>shift_pressed := 1\<rparr>)" using e by (simp add: edits_def split: option.splits)
    then show ?thesis using down by (intro other [of "k\<lparr>shift_pressed := 1\<rparr>"]) (auto simp: keyboard_handler_def press_def key_of_def)
  next
    case up
    have "edits (e\<lparr>shifted := False\<rparr>) (k\<lparr>shift_pressed := 0\<rparr>)" using e by (simp add: edits_def split: option.splits)
    then show ?thesis using up by (intro other [of "k\<lparr>shift_pressed := 0\<rparr>"]) (auto simp: keyboard_handler_def press_def key_of_def)
  next
    case lock
    have "edits (e\<lparr>caps := \<not> caps e\<rparr>) (k\<lparr>caps_lock_on := (if caps_lock_on k = 0 then 1 else 0)\<rparr>)"
      using e m by (simp add: edits_def split: option.splits)
    then show ?thesis using lock by (intro other [of "k\<lparr>caps_lock_on := (if caps_lock_on k = 0 then 1 else 0)\<rparr>"]) (auto simp: keyboard_handler_def press_def key_of_def)
  next
    case rest
    let ?c = "pressed_key ?sc (of_bool (shifted e)) (of_bool (caps e))"
    have h: "keyboard_handler k = (if ?sc < 0x80 \<and> ?c \<noteq> NUL then enter_key ?c k else Some k)"
      using rest m by (simp add: keyboard_handler_def release_bit Let_def)
    have ko: "key_of ?sc e = (if ?sc < 0x80 \<and> ?c \<noteq> NUL then Some ?c else None)"
      using rest by (simp add: key_of_def Let_def)
    show ?thesis
    proof (cases "?sc < 0x80 \<and> ?c \<noteq> NUL")
      case True
      with enter_key_edits [OF e s, of ?c] show ?thesis
        using rest by (auto simp: h ko press_def press_echo_def)
    next
      case False
      then show ?thesis using rest e by (intro other [of k]) (auto simp: h ko press_def)
    qed
  qed
qed

text \<open>A run of the driver over scan codes, as the dispatcher calls it.\<close>

fun key_events :: "u8 list \<Rightarrow> keyboard intr \<Rightarrow> keyboard intr option" where
  "key_events [] m = Some m"
| "key_events (sc # scs) m = do { m1 \<leftarrow> key_event sc m; key_events scs m1 }"

fun presses :: "u8 list \<Rightarrow> editor \<Rightarrow> editor \<times> string" where
  "presses [] e = (e, [])"
| "presses (sc # scs) e = (let (e', out) = presses scs (press sc e) in (e', press_echo sc e @ out))"

definition drives :: "keyboard intr \<Rightarrow> bool" where
  "drives m \<longleftrightarrow> interrupt_handlers m 33 = Some keyboard_handler"

lemma edits_data_port: "edits e (k\<lparr>data_port := sc\<rparr>) = edits e k"
  by (simp add: edits_def split: option.splits)

lemma key_event_edits:
  assumes "drives m" "edits e (device m)" "shows_tape B x (display (device m))"
  shows "\<exists>m'. key_event sc m = Some m' \<and> drives m' \<and> edits (press sc e) (device m')
    \<and> shows_tape B (fold feed (press_echo sc e) x) (display (device m'))"
proof -
  let ?k = "(device m)\<lparr>data_port := sc\<rparr>"
  have "edits e ?k" "shows_tape B x (display ?k)" using assms by (simp_all add: edits_data_port)
  from handler_edits [OF this] obtain k' where "keyboard_handler ?k = Some k'" "edits (press sc e) k'"
    "shows_tape B (fold feed (press_echo sc e) x) (display k')" by auto
  then show ?thesis
    using dispatch [of 1 "m\<lparr>device := ?k\<rparr>"] assms(1) by (auto simp: key_event_def drives_def)
qed

lemma key_events_edits:
  assumes "drives m" "edits e (device m)" "shows_tape B x (display (device m))"
  shows "\<exists>m'. key_events scs m = Some m' \<and> drives m' \<and> edits (fst (presses scs e)) (device m')
    \<and> shows_tape B (fold feed (snd (presses scs e)) x) (display (device m'))"
  using assms
proof (induction scs arbitrary: m e x)
  case (Cons sc scs)
  from key_event_edits [OF Cons.prems, of sc] obtain m1 where m1: "key_event sc m = Some m1" "drives m1"
    "edits (press sc e) (device m1)" "shows_tape B (fold feed (press_echo sc e) x) (display (device m1))" by auto
  from Cons.IH [OF m1(2-4)] m1(1) show ?case by (auto simp: case_prod_beta)
qed simp

subsection \<open>Waiting for a line\<close>

lemma press_ready: "ready e \<noteq> None \<Longrightarrow> ready (press sc e) \<noteq> None"
  by (auto simp: press_def type_key_def split: option.split)

lemma presses_Cons: "fst (presses (sc # scs) e) = fst (presses scs (press sc e))"
  by (simp add: case_prod_beta)

lemma input_ready_iff: "edits e k \<Longrightarrow> input_ready k \<noteq> 0 \<longleftrightarrow> ready e \<noteq> None"
  by (auto simp: edits_def split: option.splits)

lemma await_input_edits:
  assumes "drives m" "edits e (device m)" "shows_tape B x (display (device m))" "ready (fst (presses keys e)) \<noteq> None"
  shows "\<exists>ks rest m'. keys = ks @ rest \<and> await_input keys m = Some (rest, m') \<and> drives m'
    \<and> edits (fst (presses ks e)) (device m') \<and> ready (fst (presses ks e)) \<noteq> None
    \<and> (\<forall>i<length ks. ready (fst (presses (take i ks) e)) = None)
    \<and> shows_tape B (fold feed (snd (presses ks e)) x) (display (device m'))"
  using assms
proof (induction keys arbitrary: m e x)
  case Nil
  then show ?case using input_ready_iff [OF Nil(2)]
    by (intro exI [of _ "[]"] exI [of _ m]) (simp add: await_input.simps)
next
  case (Cons sc keys)
  show ?case
  proof (cases "ready e = None")
    case True
    from key_event_edits [OF Cons.prems(1-3), of sc] obtain m1 where m1: "key_event sc m = Some m1" "drives m1"
      "edits (press sc e) (device m1)" "shows_tape B (fold feed (press_echo sc e) x) (display (device m1))" by auto
    from Cons.IH [OF m1(2-4)] Cons.prems(4) obtain ks rest m' where ih: "keys = ks @ rest" "await_input keys m1 = Some (rest, m')"
      "drives m'" "edits (fst (presses ks (press sc e))) (device m')" "ready (fst (presses ks (press sc e))) \<noteq> None"
      "\<forall>i<length ks. ready (fst (presses (take i ks) (press sc e))) = None"
      "shows_tape B (fold feed (snd (presses ks (press sc e))) (fold feed (press_echo sc e) x)) (display (device m'))"
      unfolding presses_Cons by blast
    have "\<forall>i<length (sc # ks). ready (fst (presses (take i (sc # ks)) e)) = None"
    proof (intro allI impI)
      fix i assume "i < length (sc # ks)"
      then show "ready (fst (presses (take i (sc # ks)) e)) = None"
        using True ih(6) by (cases i) (simp_all add: case_prod_beta)
    qed
    moreover have "await_input (sc # keys) m = Some (rest, m')"
      using input_ready_iff [OF Cons.prems(2)] True m1(1) ih(2)
      by (simp add: await_input.simps [of "sc # keys"])
    ultimately show ?thesis using ih
      by (intro exI [of _ "sc # ks"] exI [of _ rest] exI [of _ m']) (simp add: case_prod_beta)
  next
    case False
    then have "await_input (sc # keys) m = Some (sc # keys, m)"
      using input_ready_iff [OF Cons.prems(2)] by (simp add: await_input.simps [of "sc # keys"])
    with False Cons.prems(1-3) show ?thesis
      by (intro exI [of _ "[]"] exI [of _ "sc # keys"] exI [of _ m]) simp
  qed
qed

text \<open>Taking the line away from the editor.\<close>

lemma edits_take:
  assumes "edits e k" "ready e = Some l"
  shows "edits (e\<lparr>ready := None\<rparr>) (k\<lparr>input_ready := 0\<rparr>)" "\<exists>r. input_line k = l @ NUL # r" "NUL \<notin> set l"
  using assms by (auto simp: edits_def)

lemma read_line_edits:
  assumes m: "drives m" "edits e (device m)" "shows_tape B x (display (device m))" and r: "ready (fst (presses keys e)) \<noteq> None"
    and b: "0 < max_length" "max_length \<le> length buffer"
  shows "\<exists>ks rest l m'. keys = ks @ rest \<and> ready (fst (presses ks e)) = Some l
    \<and> read_line buffer max_length keys m =
        Some (take (max_length - 1) l @ NUL # drop (Suc (min (length l) (max_length - 1))) buffer, rest, m')
    \<and> drives m' \<and> edits ((fst (presses ks e))\<lparr>ready := None\<rparr>) (device m')
    \<and> (\<forall>i<length ks. ready (fst (presses (take i ks) e)) = None)
    \<and> shows_tape B (fold feed (snd (presses ks e)) x) (display (device m'))"
proof -
  from await_input_edits [OF m r] obtain ks rest m1 where a: "keys = ks @ rest" "await_input keys m = Some (rest, m1)" "drives m1"
    "edits (fst (presses ks e)) (device m1)" "ready (fst (presses ks e)) \<noteq> None"
    "\<forall>i<length ks. ready (fst (presses (take i ks) e)) = None"
    "shows_tape B (fold feed (snd (presses ks e)) x) (display (device m1))" by blast
  then obtain l where l: "ready (fst (presses ks e)) = Some l" by blast
  note t = edits_take [OF a(4) l]
  then obtain r where r: "input_line (device m1) = l @ NUL # r" by blast
  let ?n = "min (length l) (max_length - 1)"
  have "copy_input (input_line (device m1)) buffer max_length 0 = Some (?n, take ?n l @ drop ?n buffer)"
    by (rule copy_input_eq [OF r t(3) refl]) (use b in simp)
  moreover have "store_char (take ?n l @ drop ?n buffer) (int ?n) NUL = Some (take ?n l @ NUL # drop (Suc ?n) buffer)"
    using store_char_eq [of ?n "take ?n l @ drop ?n buffer" NUL] b by simp
  moreover have "take ?n l = take (max_length - 1) l" by (simp add: min_def)
  ultimately have "read_line buffer max_length keys m =
      Some (take (max_length - 1) l @ NUL # drop (Suc ?n) buffer, rest, m1\<lparr>device := (device m1)\<lparr>input_ready := 0\<rparr>\<rparr>)"
    by (simp add: read_line_def a(2))
  then show ?thesis using a l t(1)
    by (intro exI [of _ ks] exI [of _ rest] exI [of _ l] exI [of _ "m1\<lparr>device := (device m1)\<lparr>input_ready := 0\<rparr>\<rparr>"])
      (simp add: drives_def)
qed

subsection \<open>The driver after boot\<close>

text \<open>The static variables as the loader leaves them.\<close>

definition fresh_keyboard :: "keyboard \<Rightarrow> bool" where
  "fresh_keyboard k \<longleftrightarrow> length (input_buffer k) = BUFFER_SIZE \<and> length (input_line k) = BUFFER_SIZE
     \<and> input_ready k = 0 \<and> buffer_index k = 0 \<and> shift_pressed k = 0 \<and> caps_lock_on k = 0"

definition new_editor :: editor where
  "new_editor = \<lparr>typed = [], ready = None, shifted = False, caps = False\<rparr>"

lemma fresh_edits: "fresh_keyboard k \<Longrightarrow> edits new_editor k"
  by (simp add: fresh_keyboard_def edits_def new_editor_def)

lemma init_keyboard_drives:
  assumes "fresh_keyboard (device m)" "shows_tape B x (display (device m))"
  shows "\<exists>m' x'. init_keyboard m = Some m' \<and> drives m' \<and> edits new_editor (device m') \<and> shows_tape B x' (display (device m'))
    \<and> interrupt_handlers m' = (interrupt_handlers m)(33 := Some keyboard_handler) \<and> port_log m' = port_log m"
proof -
  let ?m = "register_interrupt_handler 33 keyboard_handler m"
  define g where "g = ''DEBUG: Keyboard interrupt handler registered.'' @ [newline]"
  have d: "device ?m = device m" "interrupt_handlers ?m = (interrupt_handlers m)(33 := Some keyboard_handler)" "port_log ?m = port_log m"
    by (simp_all add: register_interrupt_handler_def)
  have "NUL \<notin> set g" by (simp add: g_def)
  from echo_shows [OF assms(2) this] obtain t where
    t: "echo_text g (device ?m) = Some ((device m)\<lparr>display := t\<rparr>)" "shows_tape B (fold feed g x) t" unfolding d by blast
  let ?r = "?m\<lparr>device := (device m)\<lparr>display := t\<rparr>\<rparr>"
  have "edits new_editor (device ?r)"
    using fresh_edits [OF assms(1)] by (simp add: edits_def new_editor_def)
  moreover have "init_keyboard m = Some ?r"
    by (simp only: init_keyboard_def Let_def g_def [symmetric] t(1) option.map)
  ultimately show ?thesis using t(2) d(2,3)
    by (intro exI [of _ ?r] exI [of _ "fold feed g x"]) (simp add: drives_def)
qed

end
