(* ===== verification/Cli.thy ===== *)
theory Cli
  imports Keyboard NumConv FileSystem Process
begin

text \<open>
  The command line of \<^verbatim>\<open>kernel.c\<close>, on a machine made of the kernel, the disk and the board with the
  keyboard and the screen.

  The array \<open>input\<close> is a list of bytes and a \<open>char *\<close> into it is an offset, as in \<open>strtok\<close>. The
  addresses of the test programs, which the linker chooses, are a parameter; so are the bytes
  that the arrays on the stack hold before they are written.
\<close>

subsection \<open>The machine\<close>

record machine =
  kern :: kernel
  disk :: fs_state
  board :: "keyboard intr"

record symbols =
  dummy_process_1 :: u32
  dummy_process_2 :: u32
  dummy_process_3 :: u32
  syscall_test :: u32
  process_test :: u32

text \<open>
  How one pass of the loop ends: the loop goes on, it is left, a process runs, or \<open>schedule\<close> has found
  no process and has entered a new command line.
\<close>

datatype cli_result =
    Continue machine
  | Leave machine
  | Dispatched machine
  | Nested machine

definition show_text :: "char list \<Rightarrow> machine \<Rightarrow> machine option" where
  "show_text s m =
     map_option (\<lambda>t. m\<lparr>board := (board m)\<lparr>device := (device (board m))\<lparr>display := t\<rparr>\<rparr>\<rparr>)
       (print_to_screen s (display (device (board m))))"

definition say :: "string \<Rightarrow> machine \<Rightarrow> machine option" where
  "say s m = show_text (cstr s) m"

definition reply :: "string \<Rightarrow> machine \<Rightarrow> cli_result option" where
  "reply s m = map_option Continue (say s m)"

subsection \<open>Words of the line\<close>

abbreviation blanks :: string where "blanks \<equiv> [CHR '' '', CHR 0x09]"

definition equals :: "char list \<Rightarrow> nat \<Rightarrow> string \<Rightarrow> bool option" where
  "equals buf p w = map_option (\<lambda>r. r = 0) (strcmp (drop p buf) (cstr w))"

definition names_test :: "char list \<Rightarrow> nat \<Rightarrow> string \<Rightarrow> nat option \<Rightarrow> bool option" where
  "names_test buf token2 w token3 = do {
     b \<leftarrow> equals buf token2 w;
     if b then (case token3 of None \<Rightarrow> Some False | Some p \<Rightarrow> equals buf p ''test'') else Some False
   }"

definition priority_of :: "char list \<Rightarrow> nat option \<Rightarrow> u32 option" where
  "priority_of buf tok = (case tok of None \<Rightarrow> Some 1 | Some p \<Rightarrow> atoi (drop p buf))"

subsection \<open>The commands on processes\<close>

definition process_commands :: "symbols \<Rightarrow> (string \<times> u32) list" where
  "process_commands sy = [(''dummy1'', dummy_process_1 sy), (''dummy2'', dummy_process_2 sy), (''dummy3'', dummy_process_3 sy)]"

fun find_command :: "char list \<Rightarrow> (string \<times> u32) list \<Rightarrow> u32 option option" where
  "find_command s [] = Some None"
| "find_command s ((w, f) # cs) = do {
     r \<leftarrow> strcmp s (cstr w);
     if r = 0 then Some (Some f) else find_command s cs
   }"

definition queue_program :: "u32 \<Rightarrow> u32 \<Rightarrow> machine \<Rightarrow> cli_result option" where
  "queue_program entry prio m = do {
     let (pd, k) = get_new_pid (kern m);
     (p, k1) \<leftarrow> create_process pd entry (sint prio) 1 2 k;
     Some (Continue (m\<lparr>kern := k1\<rparr>))
   }"

definition start_processes :: "nat \<Rightarrow> machine \<Rightarrow> cli_result option" where
  "start_processes frame m = do {
     r \<leftarrow> schedule frame (kern m);
     Some (case r of
         Returned u k \<Rightarrow> Continue (m\<lparr>kern := k\<rparr>)
       | Switched k \<Rightarrow> Dispatched (m\<lparr>kern := k\<rparr>)
       | Idle k \<Rightarrow> Nested (m\<lparr>kern := k\<rparr>))
   }"

definition process_command :: "symbols \<Rightarrow> nat \<Rightarrow> char list \<Rightarrow> nat option \<Rightarrow> machine \<Rightarrow> cli_result option" where
  "process_command sy frame buf st m = do {
     (token2, buf, st) \<leftarrow> strtok None blanks buf st;
     case token2 of
       None \<Rightarrow> reply ''Usage: process <dummy1|dummy2|dummy3|syscall test|process test|start> [priority]\<newline>'' m
     | Some t2 \<Rightarrow> do {
         start \<leftarrow> equals buf t2 ''start'';
         if start then do {
           m1 \<leftarrow> say ''Starting scheduled processes...\<newline>'' m;
           start_processes frame m1
         }
         else do {
           (token3, buf, st) \<leftarrow> strtok None blanks buf st;
           (token4, buf, st) \<leftarrow> strtok None blanks buf st;
           b1 \<leftarrow> names_test buf t2 ''syscall'' token3;
           if b1 then do {
             prio \<leftarrow> priority_of buf token4;
             m1 \<leftarrow> say ''Queueing syscall_test process...\<newline>'' m;
             queue_program (syscall_test sy) prio m1
           }
           else do {
             b2 \<leftarrow> names_test buf t2 ''process'' token3;
             if b2 then do {
               prio \<leftarrow> priority_of buf token4;
               m1 \<leftarrow> say ''Queueing process_test process...\<newline>'' m;
               queue_program (process_test sy) prio m1
             }
             else do {
               prio \<leftarrow> priority_of buf token3;
               found \<leftarrow> find_command (drop t2 buf) (process_commands sy);
               case found of
                 Some entry \<Rightarrow> do {
                   m1 \<leftarrow> say ''Queueing process...\<newline>'' m;
                   queue_program entry prio m1
                 }
               | None \<Rightarrow> reply ''Error: Unknown process name.\<newline>'' m
             }
           }
         }
       }
   }"

subsection \<open>The commands on files\<close>

text \<open>The end of a command that changes the disk: an error message or a confirmation.\<close>

definition report :: "string \<Rightarrow> string \<Rightarrow> machine \<Rightarrow> 'a fs_result \<Rightarrow> cli_result option" where
  "report failure success m r = do {
     (d, v) \<leftarrow> r;
     reply (case v of Inl e \<Rightarrow> failure | Inr x \<Rightarrow> success) (m\<lparr>disk := d\<rparr>)
   }"

definition make_command :: "char list \<Rightarrow> machine \<Rightarrow> cli_result option" where
  "make_command name m =
     report ''Error: Failed to create file.\<newline>'' ''File created successfully.\<newline>'' m (create_file name (disk m))"

definition read_command :: "char list \<Rightarrow> char list \<Rightarrow> machine \<Rightarrow> cli_result option" where
  "read_command buffer name m = do {
     r \<leftarrow> read_file name buffer 128 (disk m);
     case r of
       Inl e \<Rightarrow> reply ''Error: Failed to read file.\<newline>'' m
     | Inr (bytes_read, buffer1) \<Rightarrow> do {
         buffer2 \<leftarrow> store_char buffer1 (int bytes_read) NUL;
         m1 \<leftarrow> say ''File content: '' m;
         m2 \<leftarrow> show_text buffer2 m1;
         reply ''\<newline>'' m2
       }
   }"

definition write_command :: "char list \<Rightarrow> char list \<Rightarrow> machine \<Rightarrow> cli_result option" where
  "write_command name data m = do {
     n \<leftarrow> strlen data;
     report ''Error: Failed to write to file.\<newline>'' ''Data written to file successfully.\<newline>'' m (write_file name data n (disk m))
   }"

definition append_command :: "char list \<Rightarrow> char list \<Rightarrow> machine \<Rightarrow> cli_result option" where
  "append_command name data m = do {
     n \<leftarrow> strlen data;
     report ''Error: Failed to append to file.\<newline>'' ''Data appended to file successfully.\<newline>'' m (append_to_file name data n (disk m))
   }"

definition remove_command :: "char list \<Rightarrow> machine \<Rightarrow> cli_result option" where
  "remove_command name m =
     report ''Error: Failed to delete file.\<newline>'' ''File deleted successfully.\<newline>'' m (delete_file name (disk m))"

definition chmod_command :: "char list \<Rightarrow> char list \<Rightarrow> machine \<Rightarrow> cli_result option" where
  "chmod_command name perm_str m = do {
     p \<leftarrow> atoi perm_str;
     report ''Error: Failed to change file permissions.\<newline>'' ''File permissions changed successfully.\<newline>'' m
       (chmod_file name (ucast p) (disk m))
   }"

fun print_names :: "string list \<Rightarrow> machine \<Rightarrow> machine option" where
  "print_names [] m = Some m"
| "print_names (n # ns) m = do { m1 \<leftarrow> say n m; m2 \<leftarrow> say ''\<newline>'' m1; print_names ns m2 }"

definition list_command :: "machine \<Rightarrow> cli_result option" where
  "list_command m = do {
     names \<leftarrow> list_files (disk m);
     map_option Continue (print_names names m)
   }"

text \<open>A file name alone, and a file name with an argument that \<open>delim\<close> ends.\<close>

definition with_name ::
  "string \<Rightarrow> (char list \<Rightarrow> machine \<Rightarrow> cli_result option) \<Rightarrow> char list \<Rightarrow> nat option \<Rightarrow> machine \<Rightarrow> cli_result option" where
  "with_name usage f buf st m = do {
     (name, buf, st) \<leftarrow> strtok None blanks buf st;
     case name of None \<Rightarrow> reply usage m | Some p \<Rightarrow> f (drop p buf) m
   }"

definition with_argument ::
  "string \<Rightarrow> string \<Rightarrow> (char list \<Rightarrow> char list \<Rightarrow> machine \<Rightarrow> cli_result option) \<Rightarrow> char list \<Rightarrow> nat option \<Rightarrow> machine
    \<Rightarrow> cli_result option" where
  "with_argument delim usage f buf st m = do {
     (name, buf, st) \<leftarrow> strtok None blanks buf st;
     (arg, buf, st) \<leftarrow> strtok None delim buf st;
     case (name, arg) of (Some p, Some q) \<Rightarrow> f (drop p buf) (drop q buf) m | _ \<Rightarrow> reply usage m
   }"

definition file_command :: "char list \<Rightarrow> char list \<Rightarrow> nat option \<Rightarrow> machine \<Rightarrow> cli_result option" where
  "file_command junk buf st m = do {
     (operation, buf, st) \<leftarrow> strtok None blanks buf st;
     case operation of
       None \<Rightarrow> reply ''Usage: file <operation> <filename> [args]\<newline>'' m
     | Some op \<Rightarrow> do {
         b \<leftarrow> equals buf op ''make'';
         if b then with_name ''Usage: file make <filename>\<newline>'' make_command buf st m else do {
         b \<leftarrow> equals buf op ''read'';
         if b then with_name ''Usage: file read <filename>\<newline>'' (read_command junk) buf st m else do {
         b \<leftarrow> equals buf op ''write'';
         if b then with_argument ''\<newline>'' ''Usage: file write <filename> <data>\<newline>'' write_command buf st m else do {
         b \<leftarrow> equals buf op ''append'';
         if b then with_argument ''\<newline>'' ''Usage: file append <filename> <data>\<newline>'' append_command buf st m else do {
         b \<leftarrow> equals buf op ''rm'';
         if b then with_name ''Usage: file rm <filename>\<newline>'' remove_command buf st m else do {
         b \<leftarrow> equals buf op ''ls'';
         if b then list_command m else do {
         b \<leftarrow> equals buf op ''chmod'';
         if b then with_argument blanks ''Usage: file chmod <filename> <permissions>\<newline>'' chmod_command buf st m
         else reply ''Unknown file operation. Use 'make', 'read', 'write', 'append', 'rm', or 'ls'.\<newline>'' m
         }}}}}}
       }
   }"

subsection \<open>The loop\<close>

text \<open>The line in \<open>buf\<close>, and one pass of the loop with the key events that arrive while it waits.\<close>

definition cli_command :: "symbols \<Rightarrow> nat \<Rightarrow> char list \<Rightarrow> char list \<Rightarrow> machine \<Rightarrow> cli_result option" where
  "cli_command sy frame junk buf m = do {
     (token1, buf, st) \<leftarrow> strtok (Some 0) blanks buf None;
     case token1 of
       None \<Rightarrow> Some (Continue m)
     | Some t1 \<Rightarrow> do {
         b \<leftarrow> equals buf t1 ''exit'';
         if b then map_option Leave (say ''Exiting kernel CLI...\<newline>'' m) else do {
         b \<leftarrow> equals buf t1 ''process'';
         if b then process_command sy frame buf st m else do {
         b \<leftarrow> equals buf t1 ''file'';
         if b then file_command junk buf st m else do {
         b \<leftarrow> equals buf t1 ''ls'';
         if b then list_command m
         else reply ''Unknown command. Use 'process', 'file', 'ls', or 'exit'.\<newline>'' m
         }}}
       }
   }"

definition cli_pass ::
  "symbols \<Rightarrow> nat \<Rightarrow> char list \<Rightarrow> char list \<Rightarrow> u8 list \<Rightarrow> machine \<Rightarrow> (u8 list \<times> cli_result) option" where
  "cli_pass sy frame input junk keys m = do {
     m1 \<leftarrow> say ''CLI> '' m;
     (buf, rest, b) \<leftarrow> read_line input 128 keys (board m1);
     r \<leftarrow> cli_command sy frame junk buf (m1\<lparr>board := b\<rparr>);
     Some (rest, r)
   }"

end
