(* ===== verification/CliParse.thy ===== *)
theory CliParse
  imports Cli
begin

text \<open>
  The command line as a parser followed by an interpreter. \<open>parse\<close> reads a line as a string, with no buffer, no
  static pointer and no terminator wr over a blank; the theorem at the end says that the code does
  what the interpreter does on the parsed command.
\<close>

subsection \<open>Words of a string\<close>

text \<open>The next word up to a delimiter, and what follows the delimiter.\<close>

definition next_word :: "string \<Rightarrow> string \<Rightarrow> (string \<times> string) option" where
  "next_word delim s =
     (let b = dropWhile (\<lambda>c. c \<in> set delim) s;
          w = takeWhile (\<lambda>c. c \<notin> set delim) b
      in if b = [] then None else Some (w, tl (drop (length w) b)))"

text \<open>The rest of the line that the static pointer of \<open>strtok\<close> stands at, and the words already cut off.\<close>

definition scanned :: "char list \<Rightarrow> nat option \<Rightarrow> string \<Rightarrow> bool" where
  "scanned buf st s \<longleftrightarrow> (\<exists>q r. st = Some q \<and> drop q buf = s @ NUL # r \<and> NUL \<notin> set s)"

definition word_at :: "char list \<Rightarrow> nat option \<Rightarrow> nat \<Rightarrow> string \<Rightarrow> bool" where
  "word_at buf st t w \<longleftrightarrow> (\<exists>q r. st = Some q \<and> drop t buf = w @ NUL # r \<and> NUL \<notin> set w \<and> t + length w \<le> q)"

lemma strtok_first: "strtok (Some p) delim buf st = strtok None delim buf (Some p)"
  by (simp add: strtok_def)

lemma next_word_clean:
  assumes "NUL \<notin> set s" "next_word delim s = Some (w, r)"
  shows "NUL \<notin> set w" "NUL \<notin> set r" "w \<noteq> []" "length r < length s"
proof -
  let ?b = "dropWhile (\<lambda>c. c \<in> set delim) s"
  from assms(2) have b: "?b \<noteq> []" and w: "w = takeWhile (\<lambda>c. c \<notin> set delim) ?b" and r: "r = tl (drop (length w) ?b)"
    by (auto simp: next_word_def Let_def split: if_splits)
  have sub: "set ?b \<subseteq> set s" by (auto dest: set_dropWhileD)
  show "NUL \<notin> set w" using sub assms(1) w by (auto dest: set_takeWhileD)
  have "set (tl xs) \<subseteq> set xs" for xs :: string by (cases xs) auto
  then have "set r \<subseteq> set (drop (length w) ?b)" unfolding r .
  also have "\<dots> \<subseteq> set ?b" by (rule set_drop_subset)
  finally show "NUL \<notin> set r" using sub assms(1) by blast
  show wn: "w \<noteq> []"
  proof (cases ?b)
    case (Cons x xs)
    then have "x \<notin> set delim" using hd_dropWhile [of "\<lambda>c. c \<in> set delim" s] b by simp
    then show ?thesis unfolding w Cons by simp
  qed (use b in blast)
  have "length r \<le> length ?b - length w" unfolding r by simp
  moreover have "length w \<noteq> 0" "length ?b \<noteq> 0" using wn b by simp_all
  moreover have "length ?b \<le> length s" by (rule length_dropWhile_le)
  ultimately show "length r < length s" by linarith
qed

lemma strtok_next:
  assumes s: "scanned buf st s" and d: "NUL \<notin> set delim"
  shows "case next_word delim s of
      None \<Rightarrow> \<exists>st'. strtok None delim buf st = Some (None, buf, st') \<and> scanned buf st' []
        \<and> (\<forall>t w. word_at buf st t w \<longrightarrow> word_at buf st' t w)
    | Some (w, r) \<Rightarrow> \<exists>t buf' st'. strtok None delim buf st = Some (Some t, buf', st') \<and> scanned buf' st' r
        \<and> word_at buf' st' t w \<and> (\<forall>t0 w0. word_at buf st t0 w0 \<longrightarrow> word_at buf' st' t0 w0)"
proof -
  from s obtain q z where q: "st = Some q" "drop q buf = s @ NUL # z" "NUL \<notin> set s" by (auto simp: scanned_def)
  define a b where "a = takeWhile (\<lambda>c. c \<in> set delim) s" and "b = dropWhile (\<lambda>c. c \<in> set delim) s"
  define w v where "w = takeWhile (\<lambda>c. c \<notin> set delim) b" and "v = dropWhile (\<lambda>c. c \<notin> set delim) b"
  have sab: "s = a @ b" "b = w @ v" by (simp_all add: a_def b_def w_def v_def)
  have len: "q \<le> length buf" using q(2) by (cases "q \<le> length buf") auto
  have buf: "buf = take q buf @ a @ b @ NUL # z" using append_take_drop_id [of q buf] q(2) sab(1) by simp
  have lq: "length (take q buf) = q" using len by simp
  have nn: "NUL \<notin> set a" "NUL \<notin> set b" using q(3) sab(1) by auto
  have ta: "takeWhile (\<lambda>c. c \<in> set delim) (a @ b) = a" using sab(1) a_def by simp
  note step = strtok_split [OF buf lq nn d ta, of None st, folded w_def, unfolded Let_def]
  have dv: "drop (length w) b = v" using sab(2) by simp
  have nw: "next_word delim s = (if b = [] then None else Some (w, tl v))"
    by (simp only: next_word_def b_def [symmetric] w_def [symmetric] Let_def dv)
  show ?thesis
  proof (cases "b = []")
    case True
    have "strtok None delim buf st = Some (None, buf, Some (q + length a))" using step True q(1) by simp
    moreover have "drop (q + length a) buf = [] @ NUL # z"
      using True q(2) sab(1) by (metis append_Nil2 append_eq_conv_conj drop_drop add.commute append_Nil)
    ultimately show ?thesis using nw True
      by (auto simp: scanned_def word_at_def q(1))
  next
    case b: False
    let ?t = "q + length a" and ?e = "q + length a + length w"
    have dt: "drop ?t buf = w @ v @ NUL # z"
      using arg_cong [OF q(2), of "drop (length a)"] sab by (simp add: add.commute)
    have wn: "w \<noteq> []" using b hd_dropWhile [of "\<lambda>c. c \<in> set delim" s] unfolding w_def b_def by (cases "dropWhile (\<lambda>c. c \<in> set delim) s") auto
    show ?thesis
    proof (cases v)
      case Nil
      have st: "strtok None delim buf st = Some (Some ?t, buf, Some ?e)"
        using step b Nil sab(2) q(1) by simp
      have "drop (length w) (drop ?t buf) = NUL # z" unfolding dt using Nil by simp
      then have de: "drop ?e buf = NUL # z" by (simp add: ac_simps)
      have "scanned buf (Some ?e) []" "word_at buf (Some ?e) ?t w"
        using de dt Nil nn(2) sab(2) by (auto simp: scanned_def word_at_def)
      then show ?thesis using nw b st Nil by (auto simp: word_at_def q(1))
    next
      case (Cons x v')
      have st: "strtok None delim buf st = Some (Some ?t, buf[?e := NUL], Some (?e + 1))"
        using step b Cons sab(2) q(1) by simp
      have up: "buf[?e := NUL] = take q buf @ a @ w @ NUL # v' @ NUL # z"
        using buf sab(2) Cons lq by (metis (no_types, lifting) append.assoc append_Cons length_append list_update_length add.assoc)
      have "drop ?t (buf[?e := NUL]) = w @ NUL # v' @ NUL # z" "drop (?e + 1) (buf[?e := NUL]) = v' @ NUL # z"
        unfolding up using lq by simp_all
      moreover have "NUL \<notin> set w" "NUL \<notin> set v'" using nn(2) sab(2) Cons by auto
      ultimately have "scanned (buf[?e := NUL]) (Some (?e + 1)) (tl v)" "word_at (buf[?e := NUL]) (Some (?e + 1)) ?t w"
        using Cons by (auto simp: scanned_def word_at_def)
      moreover have "word_at (buf[?e := NUL]) (Some (?e + 1)) t0 w0" if "word_at buf st t0 w0" for t0 w0
      proof -
        from that obtain r where r: "drop t0 buf = w0 @ NUL # r" "NUL \<notin> set w0" "t0 + length w0 \<le> q"
          by (auto simp: word_at_def q(1))
        have "t0 + length w0 < ?e" using r(3) wn by (cases w) auto
        then obtain j where j: "?e = t0 + length w0 + Suc j" using less_imp_Suc_add by fastforce
        have "drop t0 (buf[?e := NUL]) = (w0 @ NUL # r)[length w0 + Suc j := NUL]"
          unfolding j by (simp add: drop_update_swap r(1))
        also have "\<dots> = w0 @ NUL # r[j := NUL]" by (simp add: list_update_append)
        finally have "drop t0 (buf[?e := NUL]) = w0 @ NUL # r[j := NUL]" .
        then show ?thesis using r \<open>t0 + length w0 < ?e\<close> by (auto simp: word_at_def)
      qed
      ultimately show ?thesis using nw b st by auto
    qed
  qed
qed

subsection \<open>Only the string counts, not what follows it\<close>

lemma word_atD: "word_at buf st t w \<Longrightarrow> \<exists>r. drop t buf = w @ NUL # r \<and> NUL \<notin> set w"
  by (auto simp: word_at_def)

lemma equals_word:
  assumes "word_at buf st t w" "NUL \<notin> set x"
  shows "equals buf t x = Some (w = x)"
proof -
  from word_atD [OF assms(1)] obtain r where r: "drop t buf = w @ NUL # r" "NUL \<notin> set w" by blast
  from strcmp_zero [OF r(2) assms(2), of r "[]"] show ?thesis by (auto simp: equals_def r(1) cstr_def)
qed

lemma atoi_loop_ext: "NUL \<notin> set w \<Longrightarrow> atoi_loop (w @ NUL # r) n = atoi_loop (w @ NUL # r') n"
  by (induction w arbitrary: n) auto

lemma atoi_loop_ends: "NUL \<notin> set w \<Longrightarrow> \<exists>v. atoi_loop (w @ NUL # r) n = Some v"
  by (induction w arbitrary: n) auto

lemma atoi_ext:
  assumes "NUL \<notin> set w"
  shows "atoi (w @ NUL # r) = Some (the (atoi (cstr w)))"
proof (cases w)
  case (Cons c cs)
  with assms atoi_loop_ext [of cs r 0 "[]"] atoi_loop_ext [of w r 0 "[]"] atoi_loop_ends [of cs "[]" 0] atoi_loop_ends [of w "[]" 0]
  show ?thesis by (auto simp: atoi_def cstr_def simp del: atoi_loop.simps)
qed (simp add: atoi_def cstr_def)

lemma find_command_map:
  assumes "NUL \<notin> set w" "\<forall>x\<in>fst ` set cs. NUL \<notin> set x"
  shows "find_command (w @ NUL # r) cs = Some (map_of cs w)"
  using assms(2)
proof (induction cs)
  case (Cons c cs)
  obtain x f where c: "c = (x, f)" by fastforce
  from strcmp_zero [OF assms(1), of x r "[]"] Cons show ?case by (auto simp: c cstr_def)
qed simp

lemma strncmp_ext: "NUL \<notin> set w \<Longrightarrow> strncmp s (w @ NUL # r) n = strncmp s (cstr w) n"
proof (induction w arbitrary: s n)
  case Nil
  then show ?case by (cases s; cases n) (simp_all add: cstr_def)
next
  case (Cons c w)
  then show ?case by (cases s; cases n) (simp_all add: cstr_def)
qed

lemma strncpy_ext: "NUL \<notin> set w \<Longrightarrow> length w < n \<Longrightarrow> strncpy d (w @ NUL # r) n = strncpy d (cstr w) n"
proof (induction w arbitrary: d n)
  case Nil
  then show ?case by (cases d; cases n) (simp_all add: cstr_def)
next
  case (Cons c w)
  then show ?case by (cases d; cases n) (simp_all add: cstr_def)
qed

lemma find_entry_ext: "NUL \<notin> set w \<Longrightarrow> find_entry s (w @ NUL # r) i = find_entry s (cstr w) i"
proof (induction "MAX_FILES - i" arbitrary: i)
  case 0
  then show ?case by (simp add: find_entry.simps [of s _ i])
next
  case (Suc n)
  have "find_entry s (w @ NUL # r) (i + 1) = find_entry s (cstr w) (i + 1)"
    by (rule Suc.hyps(1)) (use Suc.hyps(2) Suc.prems in simp_all)
  then show ?case unfolding find_entry.simps [of s _ i] strncmp_ext [OF Suc.prems] by (simp only:)
qed

lemma files_ext:
  assumes "NUL \<notin> set w"
  shows "chmod_file (w @ NUL # r) p s = chmod_file (cstr w) p s" "delete_file (w @ NUL # r) s = delete_file (cstr w) s"
    "read_file (w @ NUL # r) buf n s = read_file (cstr w) buf n s"
    "write_file (w @ NUL # r) buf n s = write_file (cstr w) buf n s"
    "append_to_file (w @ NUL # r) buf n s = append_to_file (cstr w) buf n s"
  by (simp_all add: chmod_file_def delete_file_def read_file_def write_file_def append_to_file_def find_entry_ext [OF assms])

lemma create_ext:
  assumes "NUL \<notin> set w" "length w < MAX_FILENAME_LEN"
  shows "create_file (w @ NUL # r) s = create_file (cstr w) s"
  unfolding create_file_def strncpy_ext [OF assms] ..

lemma slice_ext: "off + n \<le> length d \<Longrightarrow> slice (d @ x) off n = slice d off n"
  by (simp add: slice_def)

lemma slice_some: "off + n \<le> length d \<Longrightarrow> slice d off n = Some (take n (drop off d))"
  by (simp add: slice_def)

lemma write_loop_ext:
  "sz \<le> length d \<Longrightarrow> wr \<le> sz \<Longrightarrow> write_loop n (d @ x) sz j wr s = write_loop n d sz j wr s"
proof (induction "MAX_BLOCKS_PER_FILE - j" arbitrary: j wr s)
  case 0
  then show ?case by (simp add: write_loop.simps [of n _ sz j wr s])
next
  case (Suc k)
  let ?chunk = "min BLOCK_SIZE (sz - wr)" and ?b = "file_blocks (inode_table s n) j"
  let ?s = "s\<lparr>storage := (storage s)(unat ?b := copy_in (storage s (unat ?b)) 0 (take ?chunk (drop wr d)))\<rparr>"
  have "write_loop n (d @ x) sz (j + 1) (wr + ?chunk) ?s = write_loop n d sz (j + 1) (wr + ?chunk) ?s"
    by (rule Suc.hyps(1)) (use Suc.hyps(2) Suc.prems in simp_all)
  moreover have "slice (d @ x) wr ?chunk = Some (take ?chunk (drop wr d))" "slice d wr ?chunk = Some (take ?chunk (drop wr d))"
    using Suc.prems by (simp_all add: slice_def)
  ultimately show ?case
    unfolding write_loop.simps [of n _ sz j wr s] Let_def by (simp only: option.case)
qed

lemma append_loop_ext:
  "sz \<le> length d \<Longrightarrow> wr \<le> sz \<Longrightarrow> append_loop n (d @ x) cur sz wr s = append_loop n d cur sz wr s"
proof (induction "sz - wr" arbitrary: wr s rule: less_induct)
  case less
  let ?o = "(cur + wr) mod BLOCK_SIZE" and ?b = "file_blocks (inode_table s n) ((cur + wr) div BLOCK_SIZE)"
  let ?chunk = "min (BLOCK_SIZE - ?o) (sz - wr)"
  let ?s = "s\<lparr>storage := (storage s)(unat ?b := copy_in (storage s (unat ?b)) ?o (take ?chunk (drop wr d)))\<rparr>"
  show ?case
  proof (cases "wr < sz")
    case True
    then have "0 < ?chunk" by simp
    then have "append_loop n (d @ x) cur sz (wr + ?chunk) ?s = append_loop n d cur sz (wr + ?chunk) ?s"
      using less.prems True by (intro less.hyps) simp_all
    moreover have "slice (d @ x) wr ?chunk = Some (take ?chunk (drop wr d))" "slice d wr ?chunk = Some (take ?chunk (drop wr d))"
      using less.prems by (simp_all add: slice_def)
    ultimately show ?thesis
      unfolding append_loop.simps [of n _ cur sz wr s] Let_def by (simp only: option.case)
  qed (simp add: append_loop.simps [of n _ cur sz wr s])
qed

text \<open>The number of bytes asked for is never exceeded.\<close>

lemma blocks_below: "int a < int (blocks_for n) - int c \<Longrightarrow> (c + a) * BLOCK_SIZE \<le> n"
  by (auto simp: blocks_for_def)

lemma write_file_ext: "write_file nm (d @ x) (length d) s = write_file nm d (length d) s"
proof -
  have "write_loop n (d @ x) (if needed > 0 \<and> int a < needed then (c + a) * BLOCK_SIZE else min (length d) m) 0 0 u
      = write_loop n d (if needed > 0 \<and> int a < needed then (c + a) * BLOCK_SIZE else min (length d) m) 0 0 u"
    if "needed = int (blocks_for (min (length d) m)) - int c" for n a c m u needed
  proof (rule write_loop_ext)
    have "(c + a) * BLOCK_SIZE \<le> min (length d) m" if "int a < needed"
      using blocks_below [of a "min (length d) m" c] that \<open>needed = _\<close> by simp
    then show "(if needed > 0 \<and> int a < needed then (c + a) * BLOCK_SIZE else min (length d) m) \<le> length d" by auto
  qed simp
  then show ?thesis unfolding write_file_def Let_def by (simp only: refl)
qed

lemma append_to_file_ext: "append_to_file nm (d @ x) (length d) s = append_to_file nm d (length d) s"
proof -
  have "append_loop n (d @ x) cur (if 0 < blocks_for (if min (length d) m > sp then min (length d) m - sp else 0)
        \<and> a < blocks_for (if min (length d) m > sp then min (length d) m - sp else 0) then sp + a * BLOCK_SIZE else min (length d) m) 0 u
      = append_loop n d cur (if 0 < blocks_for (if min (length d) m > sp then min (length d) m - sp else 0)
        \<and> a < blocks_for (if min (length d) m > sp then min (length d) m - sp else 0) then sp + a * BLOCK_SIZE else min (length d) m) 0 u"
    for n cur sp a m u
  proof (rule append_loop_ext)
    have "sp + a * BLOCK_SIZE \<le> min (length d) m" if "a < blocks_for (if min (length d) m > sp then min (length d) m - sp else 0)"
      using blocks_below [of a "min (length d) m - sp" 0] that by (auto simp: blocks_for_def split: if_splits)
    then show "(if 0 < blocks_for (if min (length d) m > sp then min (length d) m - sp else 0)
        \<and> a < blocks_for (if min (length d) m > sp then min (length d) m - sp else 0) then sp + a * BLOCK_SIZE else min (length d) m)
        \<le> length d" by auto
  qed simp
  then show ?thesis unfolding append_to_file_def Let_def by (simp only: refl)
qed

subsection \<open>The commands\<close>

datatype command =
    Nothing
  | Exit
  | Say string
  | Start
  | Run string u32 u32
  | MakeFile string
  | ReadFile string
  | WriteFile string string
  | AppendFile string string
  | RemoveFile string
  | ChmodFile string u16
  | ListFiles

definition number :: "string \<Rightarrow> u32" where
  "number w = the (atoi (cstr w))"

definition parse_program :: "symbols \<Rightarrow> string \<Rightarrow> string option \<Rightarrow> string option \<Rightarrow> command" where
  "parse_program sy w2 w3 w4 =
     (let prio = (\<lambda>w. case w of None \<Rightarrow> 1 | Some p \<Rightarrow> number p) in
      if w2 = ''syscall'' \<and> w3 = Some ''test'' then Run ''Queueing syscall_test process...\<newline>'' (syscall_test sy) (prio w4)
      else if w2 = ''process'' \<and> w3 = Some ''test'' then Run ''Queueing process_test process...\<newline>'' (process_test sy) (prio w4)
      else (case map_of (process_commands sy) w2 of
              Some entry \<Rightarrow> Run ''Queueing process...\<newline>'' entry (prio w3)
            | None \<Rightarrow> Say ''Error: Unknown process name.\<newline>''))"

definition parse_process :: "symbols \<Rightarrow> string \<Rightarrow> command" where
  "parse_process sy s =
     (case next_word blanks s of
        None \<Rightarrow> Say ''Usage: process <dummy1|dummy2|dummy3|syscall test|process test|start> [priority]\<newline>''
      | Some (w2, s2) \<Rightarrow>
          if w2 = ''start'' then Start
          else (case next_word blanks s2 of
                  None \<Rightarrow> parse_program sy w2 None None
                | Some (w3, s3) \<Rightarrow> parse_program sy w2 (Some w3) (map_option fst (next_word blanks s3))))"

definition parse_name :: "string \<Rightarrow> (string \<Rightarrow> command) \<Rightarrow> string \<Rightarrow> command" where
  "parse_name usage f s = (case next_word blanks s of None \<Rightarrow> Say usage | Some (nm, s1) \<Rightarrow> f nm)"

definition parse_argument :: "string \<Rightarrow> string \<Rightarrow> (string \<Rightarrow> string \<Rightarrow> command) \<Rightarrow> string \<Rightarrow> command" where
  "parse_argument delim usage f s =
     (case next_word blanks s of
        None \<Rightarrow> Say usage
      | Some (nm, s1) \<Rightarrow> (case next_word delim s1 of None \<Rightarrow> Say usage | Some (x, s2) \<Rightarrow> f nm x))"

definition parse_file :: "string \<Rightarrow> command" where
  "parse_file s =
     (case next_word blanks s of
        None \<Rightarrow> Say ''Usage: file <operation> <filename> [args]\<newline>''
      | Some (op, s1) \<Rightarrow>
          if op = ''make'' then parse_name ''Usage: file make <filename>\<newline>'' MakeFile s1
          else if op = ''read'' then parse_name ''Usage: file read <filename>\<newline>'' ReadFile s1
          else if op = ''write'' then parse_argument ''\<newline>'' ''Usage: file write <filename> <data>\<newline>'' WriteFile s1
          else if op = ''append'' then parse_argument ''\<newline>'' ''Usage: file append <filename> <data>\<newline>'' AppendFile s1
          else if op = ''rm'' then parse_name ''Usage: file rm <filename>\<newline>'' RemoveFile s1
          else if op = ''ls'' then ListFiles
          else if op = ''chmod'' then
            parse_argument blanks ''Usage: file chmod <filename> <permissions>\<newline>'' (\<lambda>nm p. ChmodFile nm (ucast (number p))) s1
          else Say ''Unknown file operation. Use 'make', 'read', 'write', 'append', 'rm', or 'ls'.\<newline>'')"

definition parse :: "symbols \<Rightarrow> string \<Rightarrow> command" where
  "parse sy s =
     (case next_word blanks s of
        None \<Rightarrow> Nothing
      | Some (w, s1) \<Rightarrow>
          if w = ''exit'' then Exit
          else if w = ''process'' then parse_process sy s1
          else if w = ''file'' then parse_file s1
          else if w = ''ls'' then ListFiles
          else Say ''Unknown command. Use 'process', 'file', 'ls', or 'exit'.\<newline>'')"

fun execute :: "nat \<Rightarrow> char list \<Rightarrow> command \<Rightarrow> machine \<Rightarrow> cli_result option" where
  "execute frame junk Nothing m = Some (Continue m)"
| "execute frame junk Exit m = map_option Leave (say ''Exiting kernel CLI...\<newline>'' m)"
| "execute frame junk (Say t) m = reply t m"
| "execute frame junk Start m = do { m1 \<leftarrow> say ''Starting scheduled processes...\<newline>'' m; start_processes frame m1 }"
| "execute frame junk (Run t entry prio) m = do { m1 \<leftarrow> say t m; queue_program entry prio m1 }"
| "execute frame junk (MakeFile nm) m = make_command (cstr nm) m"
| "execute frame junk (ReadFile nm) m = read_command junk (cstr nm) m"
| "execute frame junk (WriteFile nm d) m = write_command (cstr nm) (cstr d) m"
| "execute frame junk (AppendFile nm d) m = append_command (cstr nm) (cstr d) m"
| "execute frame junk (RemoveFile nm) m = remove_command (cstr nm) m"
| "execute frame junk (ChmodFile nm p) m =
     report ''Error: Failed to change file permissions.\<newline>'' ''File permissions changed successfully.\<newline>'' m
       (chmod_file (cstr nm) p (disk m))"
| "execute frame junk ListFiles m = list_command m"

subsection \<open>The code parses\<close>

text \<open>The next word of the buffer is the next word of the rest of the line.\<close>

lemma strtok_cases:
  assumes "scanned buf st s" "NUL \<notin> set delim"
  obtains (none) st' where "next_word delim s = None" "strtok None delim buf st = Some (None, buf, st')" "scanned buf st' []"
      "\<And>t w. word_at buf st t w \<Longrightarrow> word_at buf st' t w"
    | (word) w r t buf' st' where "next_word delim s = Some (w, r)" "strtok None delim buf st = Some (Some t, buf', st')"
      "scanned buf' st' r" "word_at buf' st' t w" "\<And>t0 w0. word_at buf st t0 w0 \<Longrightarrow> word_at buf' st' t0 w0"
proof (cases "next_word delim s")
  case None
  with strtok_next [OF assms] none show ?thesis by auto
next
  case (Some x)
  with strtok_next [OF assms] word show ?thesis by (cases x) auto
qed

lemma next_word_nil: "next_word delim [] = None"
  by (simp add: next_word_def)

lemma blanks_clean: "NUL \<notin> set blanks" "NUL \<notin> set ''\<newline>''"
  by simp_all

lemma with_name_parses:
  assumes "scanned buf st s" "\<And>w r. NUL \<notin> set w \<Longrightarrow> length w \<le> length s \<Longrightarrow> f (w @ NUL # r) m = execute frame junk (F w) m"
  shows "with_name usage f buf st m = execute frame junk (parse_name usage F s) m"
  using assms(1) blanks_clean(1)
proof (cases rule: strtok_cases)
  case (none st')
  then show ?thesis by (simp add: with_name_def parse_name_def)
next
  case (word w r t buf' st')
  from assms(1) have "NUL \<notin> set s" by (auto simp: scanned_def)
  have "length w \<le> length s"
    using word(1) length_takeWhile_le [of "\<lambda>c. c \<notin> set blanks" "dropWhile (\<lambda>c. c \<in> set blanks) s"]
      length_dropWhile_le [of "\<lambda>c. c \<in> set blanks" s]
    by (auto simp: next_word_def Let_def split: if_splits)
  with word word_atD [OF word(4)] assms(2) show ?thesis by (auto simp: with_name_def parse_name_def)
qed

lemma with_argument_parses:
  assumes "scanned buf st s" "NUL \<notin> set delim"
    and "\<And>w r x z. NUL \<notin> set w \<Longrightarrow> NUL \<notin> set x \<Longrightarrow> f (w @ NUL # r) (x @ NUL # z) m = execute frame junk (F w x) m"
  shows "with_argument delim usage f buf st m = execute frame junk (parse_argument delim usage F s) m"
  using assms(1) blanks_clean(1)
proof (cases rule: strtok_cases)
  case (none st')
  from strtok_next [OF none(3) assms(2)] none(1,2) show ?thesis
    by (auto simp: next_word_nil with_argument_def parse_argument_def)
next
  case (word w r t buf' st')
  from word(3) assms(2) show ?thesis
  proof (cases rule: strtok_cases)
    case (none st1)
    then show ?thesis using word(1,2) by (simp add: with_argument_def parse_argument_def)
  next
    case (word x r1 t1 buf1 st1)
    from word_atD [OF word(5) [OF \<open>word_at buf' st' t w\<close>]] word_atD [OF word(4)] show ?thesis
      using word(1,2) assms(3) \<open>next_word blanks s = _\<close> \<open>strtok None blanks buf st = _\<close>
      by (auto simp: with_argument_def parse_argument_def)
  qed
qed

text \<open>The operations on files.\<close>

lemma strlen_word: "NUL \<notin> set w \<Longrightarrow> strlen (w @ NUL # r) = Some (length w)" "NUL \<notin> set w \<Longrightarrow> strlen (cstr w) = Some (length w)"
  using strlen_cstr [of w "[]"] by (simp_all add: strlen_cstr cstr_def)

lemma file_words:
  assumes "NUL \<notin> set w"
  shows "length w < MAX_FILENAME_LEN \<Longrightarrow> make_command (w @ NUL # r) m = execute frame junk (MakeFile w) m"
    "read_command junk (w @ NUL # r) m = execute frame junk (ReadFile w) m"
    "remove_command (w @ NUL # r) m = execute frame junk (RemoveFile w) m"
    "NUL \<notin> set x \<Longrightarrow> write_command (w @ NUL # r) (x @ NUL # z) m = execute frame junk (WriteFile w x) m"
    "NUL \<notin> set x \<Longrightarrow> append_command (w @ NUL # r) (x @ NUL # z) m = execute frame junk (AppendFile w x) m"
    "NUL \<notin> set x \<Longrightarrow> chmod_command (w @ NUL # r) (x @ NUL # z) m = execute frame junk (ChmodFile w (ucast (number x))) m"
proof -
  show "length w < MAX_FILENAME_LEN \<Longrightarrow> make_command (w @ NUL # r) m = execute frame junk (MakeFile w) m"
    unfolding make_command_def execute.simps by (simp only: create_ext [OF assms])
  show "read_command junk (w @ NUL # r) m = execute frame junk (ReadFile w) m"
    "remove_command (w @ NUL # r) m = execute frame junk (RemoveFile w) m"
    unfolding read_command_def remove_command_def execute.simps files_ext [OF assms] by (rule refl)+
  assume x: "NUL \<notin> set x"
  have wr: "write_file (cstr w) (x @ y) (length x) d = write_file (cstr w) x (length x) d"
    "append_to_file (cstr w) (x @ y) (length x) d = append_to_file (cstr w) x (length x) d" for y d
    by (rule write_file_ext append_to_file_ext)+
  show "write_command (w @ NUL # r) (x @ NUL # z) m = execute frame junk (WriteFile w x) m"
    "append_command (w @ NUL # r) (x @ NUL # z) m = execute frame junk (AppendFile w x) m"
    unfolding write_command_def append_command_def execute.simps files_ext [OF assms] strlen_word [OF x] Option.bind.bind_lunit wr
      cstr_def [of x] by (rule refl)+
  show "chmod_command (w @ NUL # r) (x @ NUL # z) m = execute frame junk (ChmodFile w (ucast (number x))) m"
    unfolding chmod_command_def execute.simps files_ext [OF assms] atoi_ext [OF x] Option.bind.bind_lunit number_def ..
qed

lemma file_command_parses:
  assumes "scanned buf st s" "length s < MAX_FILENAME_LEN"
  shows "file_command junk buf st m = execute frame junk (parse_file s) m"
  using assms(1) blanks_clean(1)
proof (cases rule: strtok_cases)
  case (none st')
  then show ?thesis by (simp add: file_command_def parse_file_def)
next
  case (word w r t buf' st')
  from assms(1) have "NUL \<notin> set s" by (auto simp: scanned_def)
  from next_word_clean [OF this word(1)] assms(2) have len: "length r < MAX_FILENAME_LEN" by simp
  note e = equals_word [OF word(4)]
  have n: "with_name u make_command buf' st' m = execute frame junk (parse_name u MakeFile r) m"
    "with_name u (read_command junk) buf' st' m = execute frame junk (parse_name u ReadFile r) m"
    "with_name u remove_command buf' st' m = execute frame junk (parse_name u RemoveFile r) m" for u
    using with_name_parses [OF word(3)] file_words(1-3) len by auto
  have a: "with_argument ''\<newline>'' u write_command buf' st' m = execute frame junk (parse_argument ''\<newline>'' u WriteFile r) m"
    "with_argument ''\<newline>'' u append_command buf' st' m = execute frame junk (parse_argument ''\<newline>'' u AppendFile r) m"
    "with_argument blanks u chmod_command buf' st' m
      = execute frame junk (parse_argument blanks u (\<lambda>nm p. ChmodFile nm (ucast (number p))) r) m" for u
    using with_argument_parses [OF word(3)] file_words(4-6) blanks_clean by auto
  have es: "equals buf' t ''make'' = Some (w = ''make'')" "equals buf' t ''read'' = Some (w = ''read'')"
    "equals buf' t ''write'' = Some (w = ''write'')" "equals buf' t ''append'' = Some (w = ''append'')"
    "equals buf' t ''rm'' = Some (w = ''rm'')" "equals buf' t ''ls'' = Some (w = ''ls'')"
    "equals buf' t ''chmod'' = Some (w = ''chmod'')"
    by (rule e, simp)+
  show ?thesis
    unfolding file_command_def parse_file_def word(1,2) Option.bind.bind_lunit prod.case option.case es
      if_distrib [of "\<lambda>c. execute frame junk c m"] n a execute.simps ..
qed

lemma program_parses:
  assumes "word_at buf st t2 w2"
    and "case w3 of None \<Rightarrow> t3 = None | Some w \<Rightarrow> \<exists>t. t3 = Some t \<and> word_at buf st t w"
    and "case w4 of None \<Rightarrow> t4 = None | Some w \<Rightarrow> \<exists>t. t4 = Some t \<and> word_at buf st t w"
  shows "names_test buf t2 ''syscall'' t3 = Some (w2 = ''syscall'' \<and> w3 = Some ''test'')"
    "names_test buf t2 ''process'' t3 = Some (w2 = ''process'' \<and> w3 = Some ''test'')"
    "priority_of buf t3 = Some (case w3 of None \<Rightarrow> 1 | Some p \<Rightarrow> number p)"
    "priority_of buf t4 = Some (case w4 of None \<Rightarrow> 1 | Some p \<Rightarrow> number p)"
    "find_command (drop t2 buf) (process_commands sy) = Some (map_of (process_commands sy) w2)"
proof -
  have test: "names_test buf t2 x t3 = Some (w2 = x \<and> w3 = Some ''test'')" if "NUL \<notin> set x" for x
  proof (cases w3)
    case None
    then show ?thesis using equals_word [OF assms(1) that] assms(2) by (simp add: names_test_def)
  next
    case (Some w)
    then obtain t where "t3 = Some t" "word_at buf st t w" using assms(2) by auto
    then show ?thesis using equals_word [OF assms(1) that] equals_word [of buf st t w "''test''"] Some
      by (simp add: names_test_def)
  qed
  show "names_test buf t2 ''syscall'' t3 = Some (w2 = ''syscall'' \<and> w3 = Some ''test'')"
    "names_test buf t2 ''process'' t3 = Some (w2 = ''process'' \<and> w3 = Some ''test'')" by (rule test, simp)+
  have prio: "priority_of buf tok = Some (case w of None \<Rightarrow> 1 | Some p \<Rightarrow> number p)"
    if "case w of None \<Rightarrow> tok = None | Some w \<Rightarrow> \<exists>t. tok = Some t \<and> word_at buf st t w" for tok w
    using that by (auto simp: priority_of_def number_def atoi_ext dest!: word_atD split: option.splits)
  show "priority_of buf t3 = Some (case w3 of None \<Rightarrow> 1 | Some p \<Rightarrow> number p)"
    "priority_of buf t4 = Some (case w4 of None \<Rightarrow> 1 | Some p \<Rightarrow> number p)" by (rule prio, fact)+
  have "\<forall>x\<in>fst ` set (process_commands sy). NUL \<notin> set x" by (simp add: process_commands_def)
  then show "find_command (drop t2 buf) (process_commands sy) = Some (map_of (process_commands sy) w2)"
    using word_atD [OF assms(1)] find_command_map by auto
qed

text \<open>The last part of \<open>process_command\<close>, when the words have been cut off.\<close>

lemma program_tail:
  assumes "word_at buf st t2 w2"
    and "case w3 of None \<Rightarrow> t3 = None | Some w \<Rightarrow> \<exists>t. t3 = Some t \<and> word_at buf st t w"
    and "case w4 of None \<Rightarrow> t4 = None | Some w \<Rightarrow> \<exists>t. t4 = Some t \<and> word_at buf st t w"
  shows "do {
      b1 \<leftarrow> names_test buf t2 ''syscall'' t3;
      if b1 then do {
        prio \<leftarrow> priority_of buf t4;
        m1 \<leftarrow> say ''Queueing syscall_test process...\<newline>'' m;
        queue_program (syscall_test sy) prio m1
      }
      else do {
        b2 \<leftarrow> names_test buf t2 ''process'' t3;
        if b2 then do {
          prio \<leftarrow> priority_of buf t4;
          m1 \<leftarrow> say ''Queueing process_test process...\<newline>'' m;
          queue_program (process_test sy) prio m1
        }
        else do {
          prio \<leftarrow> priority_of buf t3;
          found \<leftarrow> find_command (drop t2 buf) (process_commands sy);
          case found of
            Some entry \<Rightarrow> do {
              m1 \<leftarrow> say ''Queueing process...\<newline>'' m;
              queue_program entry prio m1
            }
          | None \<Rightarrow> reply ''Error: Unknown process name.\<newline>'' m
        }
      }
    } = execute frame junk (parse_program sy w2 w3 w4) m"
  unfolding program_parses [OF assms] Option.bind.bind_lunit parse_program_def Let_def
    if_distrib [of "\<lambda>c. execute frame junk c m"] execute.simps
  by (cases "map_of (process_commands sy) w2") simp_all

lemma process_command_parses:
  assumes "scanned buf st s"
  shows "process_command sy frame buf st m = execute frame junk (parse_process sy s) m"
  using assms blanks_clean(1)
proof (cases rule: strtok_cases)
  case (none st')
  then show ?thesis by (simp add: process_command_def parse_process_def)
next
  case (word w r t buf' st')
  note w2 = word
  have st: "equals buf' t ''start'' = Some (w = ''start'')" by (rule equals_word [OF word(4)]) simp
  from word(3) blanks_clean(1) show ?thesis
  proof (cases rule: strtok_cases)
    case (none st1)
    from strtok_next [OF none(3) blanks_clean(1)] obtain st2 where n2: "strtok None blanks buf' st1 = Some (None, buf', st2)"
      "\<And>t w. word_at buf' st1 t w \<Longrightarrow> word_at buf' st2 t w" by (auto simp: next_word_nil)
    have "word_at buf' st2 t w" using n2(2) none(4) w2(4) by blast
    note tail = program_tail [OF this, where ?w3.0 = None and ?t3.0 = None and ?w4.0 = None and ?t4.0 = None]
    show ?thesis
      unfolding process_command_def w2(2) parse_process_def w2(1) none(1) none(2) n2(1) Option.bind.bind_lunit prod.case option.case st
        if_distrib [of "\<lambda>c. execute frame junk c m"] execute.simps
      using tail by simp
  next
    case (word w3 r3 t3 buf3 st3)
    note w3 = word
    from word(3) blanks_clean(1) show ?thesis
    proof (cases rule: strtok_cases)
      case (none st1)
      have at: "word_at buf3 st1 t w" "word_at buf3 st1 t3 w3" using none(4) w3(4,5) w2(4) by blast+
      note tail = program_tail [OF at(1), where ?w3.0 = "Some w3" and ?t3.0 = "Some t3" and ?w4.0 = None and ?t4.0 = None]
      show ?thesis
        unfolding process_command_def w2(2) parse_process_def w2(1) w3(1,2) none(1,2) Option.bind.bind_lunit prod.case option.case st
          if_distrib [of "\<lambda>c. execute frame junk c m"] execute.simps
        using tail at by simp
    next
      case (word w4 r4 t4 buf4 st4)
      have at: "word_at buf4 st4 t w" "word_at buf4 st4 t3 w3" "word_at buf4 st4 t4 w4" using word(4,5) w3(4,5) w2(4) by blast+
      note tail = program_tail [OF at(1), where ?w3.0 = "Some w3" and ?t3.0 = "Some t3" and ?w4.0 = "Some w4" and ?t4.0 = "Some t4"]
      show ?thesis
        unfolding process_command_def w2(2) parse_process_def w2(1) w3(1,2) word(1,2) Option.bind.bind_lunit prod.case option.case st
          if_distrib [of "\<lambda>c. execute frame junk c m"] execute.simps
        using tail at by simp
    qed
  qed
qed

text \<open>The whole line.\<close>

lemma cli_command_parses:
  assumes "NUL \<notin> set s" "length s < MAX_FILENAME_LEN"
  shows "cli_command sy frame junk (s @ NUL # r) m = execute frame junk (parse sy s) m"
proof -
  have "scanned (s @ NUL # r) (Some 0) s" using assms(1) by (simp add: scanned_def)
  from this blanks_clean(1) show ?thesis
  proof (cases rule: strtok_cases)
    case (none st')
    then show ?thesis by (simp add: cli_command_def parse_def strtok_first)
  next
    case (word w r1 t buf' st')
    from next_word_clean [OF assms(1) word(1)] assms(2) have len: "length r1 < MAX_FILENAME_LEN" by simp
    note e = equals_word [OF word(4)]
    have es: "equals buf' t ''exit'' = Some (w = ''exit'')" "equals buf' t ''process'' = Some (w = ''process'')"
      "equals buf' t ''file'' = Some (w = ''file'')" "equals buf' t ''ls'' = Some (w = ''ls'')"
      by (rule e, simp)+
    show ?thesis
      unfolding cli_command_def strtok_first parse_def word(1,2) Option.bind.bind_lunit prod.case option.case es
        if_distrib [of "\<lambda>c. execute frame junk c m"] process_command_parses [OF word(3), of sy frame m junk]
        file_command_parses [OF word(3) len, of junk m frame] execute.simps ..
  qed
qed

subsection \<open>Properties\<close>

text \<open>C3 (the command line). For every line that \<open>read_line\<close> can deliver, the code (four words cut out of the buffer in
  place by \<open>strtok\<close>, the comparisons, the early continues) does exactly what the parsed command
  asks for, in every state of the machine: the same next state and output, or the same failure.\<close>

theorem command_line_parses:
  assumes "NUL \<notin> set line" "length line < 128"
  shows "cli_command sy frame junk (line @ NUL # r) m = execute frame junk (parse sy line) m"
  by (rule cli_command_parses) (use assms in simp_all)

definition some_symbols :: symbols where
  "some_symbols = \<lparr>dummy_process_1 = 4096, dummy_process_2 = 8192, dummy_process_3 = 12288, syscall_test = 16384, process_test = 20480\<rparr>"

theorem command_line_parses_witness:
  "\<forall>m. cli_command some_symbols 32 [] ('' file  write a b c'' @ NUL # ''junk'') m
    = write_command (cstr ''a'') (cstr ''b c'') m
  \<and> cli_command some_symbols 32 [] (''process dummy2 7'' @ NUL # ''junk'') m
    = do { m1 \<leftarrow> say ''Queueing process...\<newline>'' m; queue_program 8192 7 m1 }"
proof
  fix m
  have "parse some_symbols '' file  write a b c'' = WriteFile ''a'' ''b c''"
    by (simp add: parse_def next_word_def parse_file_def parse_argument_def)
  moreover have "parse some_symbols ''process dummy2 7'' = Run ''Queueing process...\<newline>'' 8192 7"
    by (simp add: parse_def next_word_def parse_process_def parse_program_def process_commands_def some_symbols_def number_def
        atoi_def cstr_def)
  ultimately show "cli_command some_symbols 32 [] ('' file  write a b c'' @ NUL # ''junk'') m
      = write_command (cstr ''a'') (cstr ''b c'') m
    \<and> cli_command some_symbols 32 [] (''process dummy2 7'' @ NUL # ''junk'') m
      = do { m1 \<leftarrow> say ''Queueing process...\<newline>'' m; queue_program 8192 7 m1 }"
    using command_line_parses [of "'' file  write a b c''" some_symbols 32 "[]" "''junk''" m]
      command_line_parses [of "''process dummy2 7''" some_symbols 32 "[]" "''junk''" m] by simp
qed

end
