(* ===== verification/Machine.thy ===== *)
theory Machine
  imports CliParse KernelStep FileProps
begin

text \<open>
  The machine as a whole: \<open>kernel_main\<close> of \<^verbatim>\<open>kernel.c\<close> up to the command line, the steps that the machine
  takes from then on (passes of the command line, key events, what the processes do), and the
  invariant of all its parts together.
\<close>

subsection \<open>Start\<close>

text \<open>\<open>num\<close> is the array in which the numbers of the lines are formatted.\<close>

fun debug_lines :: "nat list \<Rightarrow> char list \<Rightarrow> machine \<Rightarrow> machine option" where
  "debug_lines [] num m = Some m"
| "debug_lines (i # is) num m = do {
     m1 \<leftarrow> say ''Debug: line '' m;
     num1 \<leftarrow> int_to_str (of_nat i) num;
     m2 \<leftarrow> show_text num1 m1;
     m3 \<leftarrow> say ''\<newline>'' m2;
     debug_lines is num m3
   }"

record tables =
  gdtr :: gdt_ptr
  gdt :: "nat \<Rightarrow> gdt_entry"
  idtr :: idt_ptr
  idt :: "nat \<Rightarrow> idt_entry"

text \<open>
  \<open>kernel_main\<close> up to the call of \<open>cli_loop\<close>. \<open>a1\<close> and \<open>a2\<close> are the masks that \<open>pic_remap\<close> reads; the other
  arguments are addresses. Messages for the serial port are left out.
\<close>

definition kernel_start ::
  "char list \<Rightarrow> u8 \<Rightarrow> u8 \<Rightarrow> u32 \<Rightarrow> u32 \<Rightarrow> u32 \<Rightarrow> (nat \<Rightarrow> u32) \<Rightarrow> tables \<Rightarrow> machine \<Rightarrow> (tables \<times> machine) option" where
  "kernel_start num a1 a2 gdt_addr idt_addr isr_stub irq_stub t m = do {
     m1 \<leftarrow> debug_lines [1..<31] num (m\<lparr>board := serial_init (board m)\<rparr>);
     let m2 = m1\<lparr>kern := clear_memory (kern m1)\<rparr>;
     d \<leftarrow> create_file_system (disk m2);
     let m3 = m2\<lparr>disk := d\<rparr>;
     (gp, g) \<leftarrow> gdt_install gdt_addr (gdt t);
     m4 \<leftarrow> say ''DEBUG: GDT installed.\<newline>'' m3;
     let m5 = m4\<lparr>board := pic_remap a1 a2 (board m4)\<rparr>;
     let (ip, i) = idt_install isr_stub idt_addr (idt t);
     m6 \<leftarrow> say ''DEBUG: IDT and IRQ handlers installed.\<newline>'' m5;
     b \<leftarrow> init_keyboard (board m6);
     m7 \<leftarrow> say ''DEBUG: Keyboard initialized. Press keys!\<newline>'' (m6\<lparr>board := b\<rparr>);
     Some (\<lparr>gdtr = gp, gdt = g, idtr = ip, idt = irq_install irq_stub i\<rparr>,
           m7\<lparr>kern := init_process_management (kern m7)\<rparr>)
   }"

text \<open>What the loader leaves: zeroed variables, and a disk whose name fields have their lengths.\<close>

definition loaded :: "machine \<Rightarrow> bool" where
  "loaded m \<longleftrightarrow>
     fresh_keyboard (device (board m)) \<and> vga_row (display (device (board m))) = 0 \<and> vga_col (display (device (board m))) = 0
   \<and> interrupt_handlers (board m) = (\<lambda>_. None) \<and> port_log (board m) = [] \<and> disk_shape (disk m)
   \<and> current_process (kern m) = None \<and> process_table_head (kern m) = None \<and> (\<forall>a. state (pcbs (kern m) a) = STATE_READY)"

subsection \<open>The invariant\<close>

definition machine_ok :: "machine \<Rightarrow> bool" where
  "machine_ok m \<longleftrightarrow>
     (\<exists>tbl rq. kernel_inv (kern m) tbl rq) \<and> fs_inv (disk m) \<and> drives (board m)
   \<and> (\<exists>e. edits e (device (board m))) \<and> (\<exists>B x. shows_tape B x (display (device (board m))))"

subsection \<open>Output\<close>

abbreviation show_on :: "screen \<Rightarrow> machine \<Rightarrow> machine" where
  "show_on t m \<equiv> m\<lparr>board := (board m)\<lparr>device := (device (board m))\<lparr>display := t\<rparr>\<rparr>\<rparr>"

lemma edits_display [simp]: "edits e (k\<lparr>display := t\<rparr>) = edits e k"
  by (simp add: edits_def split: option.splits)

lemma show_text_shows:
  assumes "shows_tape B x (display (device (board m)))" "NUL \<notin> set s"
  shows "\<exists>t. show_text (s @ NUL # r) m = Some (show_on t m) \<and> shows_tape B (fold feed s x) t"
proof -
  from print_shows [OF assms, of r] obtain t where
    "print_to_screen (s @ NUL # r) (display (device (board m))) = Some t" "shows_tape B (fold feed s x) t" by blast
  then show ?thesis by (auto simp: show_text_def intro!: exI [of _ t])
qed

lemma say_shows:
  assumes "shows_tape B x (display (device (board m)))" "NUL \<notin> set s"
  shows "\<exists>t. say s m = Some (show_on t m) \<and> shows_tape B (fold feed s x) t"
  using show_text_shows [OF assms, of "[]"] by (simp add: say_def cstr_def)

interpretation cli_console: console say "\<lambda>x m. shows_tape B x (display (device (board m)))" for B
proof unfold_locales
  fix x s and m :: machine
  assume "shows_tape B x (display (device (board m)))" "NUL \<notin> set s"
  from say_shows [OF this] obtain t where "say s m = Some (show_on t m)" "shows_tape B (fold feed s x) t" by blast
  then show "\<exists>t. say s m = Some t \<and> shows_tape B (fold feed s x) (display (device (board t)))" by auto
qed

text \<open>The names of a directory are printed one to a line.\<close>

lemma print_names_seq: "print_names ns m = print_seq say (concat (map (\<lambda>n. [n, [newline]]) ns)) m"
  by (induction ns arbitrary: m) (simp_all split: Option.bind_split)

lemma print_names_shows:
  assumes "shows_tape B x (display (device (board m)))" "\<forall>n\<in>set ns. NUL \<notin> set n"
  shows "\<exists>m'. print_names ns m = Some m'
    \<and> shows_tape B (fold feed (concat (map (\<lambda>n. n @ [newline]) ns)) x) (display (device (board m')))"
proof -
  have "\<forall>t\<in>set (concat (map (\<lambda>n. [n, [newline]]) ns)). NUL \<notin> set t" using assms(2) by auto
  moreover have "concat (concat (map (\<lambda>n. [n, [newline]]) ns)) = concat (map (\<lambda>n. n @ [newline]) ns)" by (induction ns) simp_all
  ultimately show ?thesis using cli_console.seq_shows [OF assms(1)] unfolding print_names_seq by metis
qed

lemma machine_ok_show: "machine_ok m \<Longrightarrow> shows_tape B x t \<Longrightarrow> machine_ok (show_on t m)"
  by (cases x) (auto simp: machine_ok_def drives_def)

text \<open>A message changes the screen only.\<close>

lemma say_ok:
  assumes "machine_ok m" "NUL \<notin> set s"
  shows "\<exists>m'. say s m = Some m' \<and> machine_ok m' \<and> kern m' = kern m \<and> disk m' = disk m
    \<and> (\<forall>e. edits e (device (board m')) = edits e (device (board m)))"
proof -
  from assms(1) obtain B x where x: "shows_tape B x (display (device (board m)))" by (auto simp: machine_ok_def)
  from say_shows [OF x assms(2)] obtain t where t: "say s m = Some (show_on t m)" "shows_tape B (fold feed s x) t" by blast
  then show ?thesis using machine_ok_show [OF assms(1) t(2)] by auto
qed

lemma reply_ok:
  assumes "machine_ok m" "NUL \<notin> set s"
  shows "\<exists>m'. reply s m = Some (Continue m') \<and> machine_ok m' \<and> kern m' = kern m \<and> disk m' = disk m"
  using say_ok [OF assms] by (auto simp: reply_def)

lemma show_text_ok: "machine_ok m \<Longrightarrow> NUL \<in> set s \<Longrightarrow> \<exists>m'. show_text s m = Some m' \<and> machine_ok m' \<and> kern m' = kern m \<and> disk m' = disk m"
proof -
  assume m: "machine_ok m" and s: "NUL \<in> set s"
  from split_list_first [OF s] obtain u r where u: "s = u @ NUL # r" "NUL \<notin> set u" by blast
  from m obtain B x where x: "shows_tape B x (display (device (board m)))" by (auto simp: machine_ok_def)
  from show_text_shows [OF x u(2), of r] obtain t where t: "show_text s m = Some (show_on t m)" "shows_tape B (fold feed u x) t"
    unfolding u(1) by blast
  then show ?thesis using machine_ok_show [OF m t(2)] by auto
qed

subsection \<open>Commands\<close>

text \<open>Formatting a small number.\<close>

lemma dec_clean: "NUL \<notin> set (dec n)"
proof (induction n rule: dec.induct)
  case (1 n)
  then show ?case using digit_not_NUL [of "int (n mod 10)"] by (subst dec.simps) auto
qed

lemma int_to_str_small:
  assumes "n < 2 ^ 31" "length (dec n) < length buffer"
  shows "\<exists>r. int_to_str (of_nat n) buffer = Some (dec n @ NUL # r) \<and> length (dec n @ NUL # r) = length buffer"
proof -
  have "uint (of_nat n :: u32) = int n" using assms(1) by (simp add: unsigned_of_nat take_bit_nat_eq_self)
  then have s: "sint (of_nat n :: u32) = int n" using assms(1) by (simp add: sint_uint signed_take_bit_int_eq_self)
  have "n < 10 ^ 10" using assms(1) by simp
  from str_loop_eq [OF _ this, of 0] have "int_to_str (of_nat n) buffer = put_string buffer (dec n)"
    by (cases "n = 0") (auto simp: int_to_str_def s dec_0)
  then show ?thesis using assms(2) by (auto simp: put_string_def)
qed

text \<open>What the interpreter does to the parts of the machine, command by command.\<close>

definition cli_state :: "cli_result \<Rightarrow> machine" where
  "cli_state r = (case r of Continue m \<Rightarrow> m | Leave m \<Rightarrow> m | Dispatched m \<Rightarrow> m | Nested m \<Rightarrow> m)"

lemma cli_state_simps [simp]:
  "cli_state (Continue m) = m" "cli_state (Leave m) = m" "cli_state (Dispatched m) = m" "cli_state (Nested m) = m"
  by (simp_all add: cli_state_def)

lemma machine_ok_disk: "machine_ok m \<Longrightarrow> fs_inv d \<Longrightarrow> machine_ok (m\<lparr>disk := d\<rparr>)"
  by (simp add: machine_ok_def)

lemma machine_ok_kern: "machine_ok m \<Longrightarrow> \<exists>tbl rq. kernel_inv k tbl rq \<Longrightarrow> machine_ok (m\<lparr>kern := k\<rparr>)"
  by (simp add: machine_ok_def)

lemma report_ok:
  assumes m: "machine_ok m" and r: "r = Some (d, v)" "fs_inv d" and t: "NUL \<notin> set failure" "NUL \<notin> set success"
  shows "\<exists>m'. report failure success m r = Some (Continue m') \<and> machine_ok m' \<and> kern m' = kern m \<and> disk m' = d"
proof -
  have c: "NUL \<notin> set (case v of Inl e \<Rightarrow> failure | Inr x \<Rightarrow> success)" using t by (cases v) simp_all
  have "machine_ok (m\<lparr>disk := d\<rparr>)" by (rule machine_ok_disk [OF m r(2)])
  from reply_ok [OF this c] show ?thesis by (simp add: report_def r(1))
qed

lemma print_names_ok:
  assumes "machine_ok m" "\<forall>n\<in>set ns. NUL \<notin> set n"
  shows "\<exists>m'. print_names ns m = Some m' \<and> machine_ok m' \<and> kern m' = kern m \<and> disk m' = disk m"
  using assms
proof (induction ns arbitrary: m)
  case (Cons n ns)
  from say_ok [OF Cons.prems(1), of n] Cons.prems(2) obtain m1 where
    m1: "say n m = Some m1" "machine_ok m1" "kern m1 = kern m" "disk m1 = disk m" by auto
  from say_ok [OF m1(2), of "[newline]"] obtain m2 where
    m2: "say ''\<newline>'' m1 = Some m2" "machine_ok m2" "kern m2 = kern m" "disk m2 = disk m" using m1 by auto
  from Cons.IH [OF m2(2)] Cons.prems(2) m1(1) m2 show ?case by auto
qed simp

text \<open>Commands whose words are C strings.\<close>

fun command_ok :: "command \<Rightarrow> bool" where
  "command_ok (Say t) = (NUL \<notin> set t)"
| "command_ok (Run t entry prio) = (NUL \<notin> set t)"
| "command_ok (MakeFile nm) = (NUL \<notin> set nm \<and> length nm < MAX_FILENAME_LEN)"
| "command_ok (ReadFile nm) = (NUL \<notin> set nm)"
| "command_ok (WriteFile nm d) = (NUL \<notin> set nm \<and> NUL \<notin> set d)"
| "command_ok (AppendFile nm d) = (NUL \<notin> set nm \<and> NUL \<notin> set d)"
| "command_ok (RemoveFile nm) = (NUL \<notin> set nm)"
| "command_ok (ChmodFile nm p) = (NUL \<notin> set nm)"
| "command_ok _ = True"

lemma parse_program_ok: "command_ok (parse_program sy w2 w3 w4)"
  by (auto simp: parse_program_def Let_def split: option.split)

lemma parse_process_ok: "command_ok (parse_process sy s)"
  using parse_program_ok by (auto simp: parse_process_def split: option.split prod.split)

lemma parse_name_ok:
  assumes "NUL \<notin> set s" "length s < MAX_FILENAME_LEN" "NUL \<notin> set u"
    and "\<And>w. NUL \<notin> set w \<Longrightarrow> length w < MAX_FILENAME_LEN \<Longrightarrow> command_ok (f w)"
  shows "command_ok (parse_name u f s)"
proof (cases "next_word blanks s")
  case (Some x)
  obtain w r where x: "x = (w, r)" by fastforce
  have "length w \<le> length s"
    using Some length_takeWhile_le [of "\<lambda>c. c \<notin> set blanks" "dropWhile (\<lambda>c. c \<in> set blanks) s"]
      length_dropWhile_le [of "\<lambda>c. c \<in> set blanks" s]
    by (auto simp: x next_word_def Let_def split: if_splits)
  then show ?thesis using next_word_clean(1) [OF assms(1) Some [unfolded x]] assms(2,4) by (simp add: parse_name_def Some x)
qed (simp add: parse_name_def assms(3))

lemma parse_argument_ok:
  assumes "NUL \<notin> set s" "NUL \<notin> set u" "\<And>w v. NUL \<notin> set w \<Longrightarrow> NUL \<notin> set v \<Longrightarrow> command_ok (f w v)"
  shows "command_ok (parse_argument delim u f s)"
proof (cases "next_word blanks s")
  case (Some x)
  obtain w r where x: "x = (w, r)" by fastforce
  note c = next_word_clean [OF assms(1) Some [unfolded x]]
  show ?thesis
  proof (cases "next_word delim r")
    case None
    then show ?thesis using assms(2) by (simp add: parse_argument_def Some x)
  next
    case (Some y)
    obtain v r' where y: "y = (v, r')" by fastforce
    show ?thesis using next_word_clean(1) [OF c(2) Some [unfolded y]] c(1) assms(3)
      by (simp add: parse_argument_def \<open>next_word blanks s = _\<close> x Some y)
  qed
qed (simp add: parse_argument_def assms(2))

lemma parse_file_ok:
  assumes "NUL \<notin> set s" "length s < MAX_FILENAME_LEN"
  shows "command_ok (parse_file s)"
proof (cases "next_word blanks s")
  case (Some x)
  obtain w r where x: "x = (w, r)" by fastforce
  note c = next_word_clean [OF assms(1) Some [unfolded x]]
  have n: "NUL \<notin> set u \<Longrightarrow> command_ok (parse_name u MakeFile r)" "NUL \<notin> set u \<Longrightarrow> command_ok (parse_name u ReadFile r)"
    "NUL \<notin> set u \<Longrightarrow> command_ok (parse_name u RemoveFile r)" for u
    using c(2,4) assms(2) by (auto intro!: parse_name_ok)
  have a: "NUL \<notin> set u \<Longrightarrow> command_ok (parse_argument d u WriteFile r)" "NUL \<notin> set u \<Longrightarrow> command_ok (parse_argument d u AppendFile r)"
    "NUL \<notin> set u \<Longrightarrow> command_ok (parse_argument d u (\<lambda>nm p. ChmodFile nm (ucast (number p))) r)" for u d
    using c(2) by (auto intro!: parse_argument_ok)
  show ?thesis using n a by (simp add: parse_file_def Some x)
qed (simp add: parse_file_def)

lemma parse_ok:
  assumes "NUL \<notin> set s" "length s < MAX_FILENAME_LEN"
  shows "command_ok (parse sy s)"
proof (cases "next_word blanks s")
  case (Some x)
  obtain w r where x: "x = (w, r)" by fastforce
  note c = next_word_clean [OF assms(1) Some [unfolded x]]
  from parse_file_ok [OF c(2)] c(4) assms(2) have "command_ok (parse_file r)" by simp
  then show ?thesis using parse_process_ok by (simp add: parse_def Some x)
qed (simp add: parse_def)

subsection \<open>Every command keeps the machine in order\<close>

text \<open>A file of 128 bytes or more fills the array of \<open>file read\<close>, and the terminator is stored behind it.\<close>

definition too_long :: "string \<Rightarrow> fs_state \<Rightarrow> bool" where
  "too_long nm d \<longleftrightarrow> (\<exists>f. the_file d nm = Some f \<and> readable (f_perms f) \<and> 128 \<le> length (f_data f))"

lemma read_overruns:
  assumes "fs_inv (disk m)" "NUL \<notin> set nm" "length junk = 128" "too_long nm (disk m)"
  shows "execute frame junk (ReadFile nm) m = None"
proof -
  from assms(4) obtain f where f: "the_file (disk m) nm = Some f" "readable (f_perms f)" "128 \<le> length (f_data f)"
    by (auto simp: too_long_def)
  with read_file_cases [OF assms(1,2), of 128 junk] assms(3)
  have "read_file (cstr nm) junk 128 (disk m) = Some (Inr (128, take 128 (f_data f)))" by (simp add: Let_def min_absorb1)
  then show ?thesis using f(3) by (simp add: read_command_def store_char_def)
qed

lemma read_ok:
  assumes m: "machine_ok m" and nm: "NUL \<notin> set nm" "length junk = 128" "\<not> too_long nm (disk m)"
  shows "\<exists>m'. execute frame junk (ReadFile nm) m = Some (Continue m') \<and> machine_ok m' \<and> kern m' = kern m \<and> disk m' = disk m"
proof -
  have inv: "fs_inv (disk m)" using m by (simp add: machine_ok_def)
  note r = read_file_cases [OF inv nm(1), of 128 junk]
  consider (fails) e where "read_file (cstr nm) junk 128 (disk m) = Some (Inl e)"
    | (data) f where "the_file (disk m) nm = Some f" "readable (f_perms f)" "length (f_data f) < 128"
    using r nm(2,3) by (auto simp: too_long_def not_le split: option.splits if_splits)
  then show ?thesis
  proof cases
    case fails
    then show ?thesis using reply_ok [OF m, of "''Error: Failed to read file.\<newline>''"] by (simp add: read_command_def)
  next
    case data
    let ?n = "length (f_data f)" and ?b = "f_data f @ NUL # drop (Suc (length (f_data f))) junk"
    have rd: "read_file (cstr nm) junk 128 (disk m) = Some (Inr (?n, f_data f @ drop ?n junk))"
      using r data nm(2) by (simp add: Let_def min_absorb2)
    have st: "store_char (f_data f @ drop ?n junk) (int ?n) NUL = Some ?b"
      using store_char_eq [of ?n "f_data f @ drop ?n junk" NUL] data(3) nm(2) by simp
    have n1: "NUL \<notin> set ''File content: ''" "NUL \<notin> set ''\<newline>''" by simp_all
    from say_ok [OF m n1(1)] obtain m1 where m1: "say ''File content: '' m = Some m1" "machine_ok m1" "kern m1 = kern m" "disk m1 = disk m"
      by blast
    from show_text_ok [OF m1(2), of ?b] obtain m2 where m2: "show_text ?b m1 = Some m2" "machine_ok m2" "kern m2 = kern m" "disk m2 = disk m"
      using m1(3,4) by auto
    from reply_ok [OF m2(2) n1(2)] obtain m3 where m3: "reply ''\<newline>'' m2 = Some (Continue m3)" "machine_ok m3" "kern m3 = kern m" "disk m3 = disk m"
      using m2(3,4) by auto
    have "execute frame junk (ReadFile nm) m = Some (Continue m3)"
      unfolding execute.simps read_command_def rd Option.bind.bind_lunit sum.case prod.case st m1(1) m2(1) m3(1) ..
    with m3(2-4) show ?thesis by blast
  qed
qed

text \<open>The commands on files and the messages always end, and touch the disk and the screen only.\<close>

lemma file_commands_ok:
  assumes m: "machine_ok m" and c: "command_ok c" and j: "length junk = 128"
    and "c \<noteq> Start" "\<And>t en p. c \<noteq> Run t en p" "\<And>nm. c = ReadFile nm \<Longrightarrow> \<not> too_long nm (disk m)"
  shows "\<exists>r. execute frame junk c m = Some r \<and> machine_ok (cli_state r) \<and> kern (cli_state r) = kern m"
proof -
  have inv: "fs_inv (disk m)" using m by (simp add: machine_ok_def)
  have rep: "\<exists>r. report fl sc m res = Some r \<and> machine_ok (cli_state r) \<and> kern (cli_state r) = kern m"
    if "\<exists>d v. res = Some (d, v) \<and> fs_inv d" "NUL \<notin> set fl" "NUL \<notin> set sc" for fl sc and res :: "'b fs_result"
    using report_ok [OF m _ _ that(2,3)] that(1) by fastforce
  have rep': "\<exists>r. report fl sc m res = Some r \<and> machine_ok (cli_state r) \<and> kern (cli_state r) = kern m"
    if "\<exists>d v. res = Some (d, v) \<and> fs_inv d" "NUL \<notin> set fl" "NUL \<notin> set sc" for fl sc and res :: "nat fs_result"
    using report_ok [OF m _ _ that(2,3)] that(1) by fastforce
  show ?thesis
  proof (cases c)
    case Nothing
    then show ?thesis using m by simp
  next
    case Exit
    then show ?thesis using say_ok [OF m, of "''Exiting kernel CLI...\<newline>''"] by auto
  next
    case (Say t)
    then show ?thesis using reply_ok [OF m, of t] c by auto
  next
    case (MakeFile nm)
    with create_file_cases [OF inv, of nm] c show ?thesis
      unfolding MakeFile execute.simps make_command_def by (intro rep') (simp_all, blast)
  next
    case (ReadFile nm)
    with read_ok [OF m, of nm junk frame] c j assms(6) show ?thesis by force
  next
    case (WriteFile nm d)
    with c have nm: "NUL \<notin> set nm" and d: "NUL \<notin> set d" by simp_all
    have len: "length d \<le> length (cstr d)" by (simp add: cstr_def)
    from write_file_cases [OF inv nm len] have t: "\<exists>t v. write_file (cstr nm) (cstr d) (length d) (disk m) = Some (t, v) \<and> fs_inv t" by blast
    show ?thesis
      unfolding WriteFile execute.simps write_command_def strlen_word(2) [OF d] Option.bind.bind_lunit by (rule rep' [OF t]) simp_all
  next
    case (AppendFile nm d)
    with c have nm: "NUL \<notin> set nm" and d: "NUL \<notin> set d" by simp_all
    have len: "length d \<le> length (cstr d)" by (simp add: cstr_def)
    from append_to_file_cases [OF inv nm len] have t: "\<exists>t v. append_to_file (cstr nm) (cstr d) (length d) (disk m) = Some (t, v) \<and> fs_inv t" by blast
    show ?thesis
      unfolding AppendFile execute.simps append_command_def strlen_word(2) [OF d] Option.bind.bind_lunit by (rule rep' [OF t]) simp_all
  next
    case (RemoveFile nm)
    with delete_file_cases [OF inv, of nm] c show ?thesis
      unfolding RemoveFile execute.simps remove_command_def by (intro rep) (simp_all, blast)
  next
    case (ChmodFile nm p)
    with chmod_file_cases [OF inv, of nm p] c show ?thesis
      unfolding ChmodFile execute.simps by (intro rep) (simp_all, blast)
  next
    case ListFiles
    have "list_files (disk m) = Some (map f_name (List.map_filter (files (disk m)) [0..<MAX_FILES]))"
      unfolding list_files_def by (rule list_loop_names) (use inv in \<open>auto simp: fs_inv_def dir_inv_def\<close>)
    moreover have "\<forall>n\<in>set (map f_name (List.map_filter (files (disk m)) [0..<MAX_FILES])). NUL \<notin> set n"
      using files_SomeD(3) entry_name_clean by (auto simp: List.map_filter_def)
    ultimately obtain ns where ns: "list_files (disk m) = Some ns" "\<forall>n\<in>set ns. NUL \<notin> set n" by blast
    from print_names_ok [OF m ns(2)] show ?thesis unfolding ListFiles execute.simps list_command_def ns(1) by auto
  qed (use assms(4,5) in blast)+
qed

end
