(* ===== verification/MachineInv.thy ===== *)
theory MachineInv
  imports Machine
begin

text \<open>
  The machine from its start on: \<open>kernel_start\<close> ends and establishes the invariant, every step that the
  machine takes after it keeps it, and what a user sees of a file that he has written.
\<close>

subsection \<open>Every command keeps the invariant\<close>

lemma execute_keeps:
  assumes m: "machine_ok m" and c: "command_ok c" and j: "length junk = 128"
    and r: "execute frame junk c m = Some r"
  shows "machine_ok (cli_state r)"
proof -
  consider (start) "c = Start" | (run) t en p where "c = Run t en p" | (long) nm where "c = ReadFile nm" "too_long nm (disk m)"
    | (other) "c \<noteq> Start" "\<And>t en p. c \<noteq> Run t en p" "\<And>nm. c = ReadFile nm \<Longrightarrow> \<not> too_long nm (disk m)" by blast
  then show ?thesis
  proof cases
    case start
    have "NUL \<notin> set ''Starting scheduled processes...\<newline>''" by simp
    from say_ok [OF m this] obtain m1 where m1: "say ''Starting scheduled processes...\<newline>'' m = Some m1" "machine_ok m1" by blast
    from r [unfolded start execute.simps m1(1) Option.bind.bind_lunit start_processes_def bind_eq_Some_conv] obtain s where
      s: "schedule frame (kern m1) = Some s"
        "r = (case s of Returned u k \<Rightarrow> Continue (m1\<lparr>kern := k\<rparr>) | Switched k \<Rightarrow> Dispatched (m1\<lparr>kern := k\<rparr>)
             | Idle k \<Rightarrow> Nested (m1\<lparr>kern := k\<rparr>))" by auto
    from m1(2) obtain tbl rq where "kernel_inv (kern m1) tbl rq" by (auto simp: machine_ok_def)
    from schedule_keeps [OF this s(1)] have "machine_ok (m1\<lparr>kern := left_state s\<rparr>)" by (rule machine_ok_kern [OF m1(2)])
    then show ?thesis using s(2) by (cases s) simp_all
  next
    case run
    with c have "NUL \<notin> set t" by simp
    from say_ok [OF m this] obtain m1 where m1: "say t m = Some m1" "machine_ok m1" by blast
    obtain pd k where k: "get_new_pid (kern m1) = (pd, k)" by fastforce
    from r [unfolded run execute.simps m1(1) Option.bind.bind_lunit queue_program_def Let_def k prod.case bind_eq_Some_conv]
    obtain p' k1 where c1: "create_process pd en (sint p) 1 2 k = Some (p', k1)" "r = Continue (m1\<lparr>kern := k1\<rparr>)" by auto
    from m1(2) have "\<exists>tbl rq. kernel_inv (kern m1) tbl rq" by (simp add: machine_ok_def)
    from step_keeps [OF kernel_step.new_pid this] have "\<exists>tbl rq. kernel_inv k tbl rq" by (simp add: k)
    then obtain tbl rq where "kernel_inv k tbl rq" by blast
    from create_keeps [OF this c1(1)] have "machine_ok (m1\<lparr>kern := k1\<rparr>)" by (rule machine_ok_kern [OF m1(2)])
    then show ?thesis by (simp add: c1(2))
  next
    case long
    with c have "NUL \<notin> set nm" by simp
    from read_overruns [OF _ this j long(2)] m r show ?thesis by (simp add: long(1) machine_ok_def)
  next
    case other
    from file_commands_ok [OF m c j other, of frame] r show ?thesis by auto
  qed
qed

subsection \<open>A pass of the command line\<close>

lemma machine_ok_board:
  assumes "machine_ok m" "drives b" "edits e (device b)" "shows_tape B x (display (device b))"
  shows "machine_ok (m\<lparr>board := b\<rparr>)"
  using assms by (cases x) (auto simp: machine_ok_def)

lemma await_input_keeps:
  assumes "drives b" "edits e (device b)" "shows_tape B x (display (device b))" "await_input keys b = Some (rest, b')"
  shows "drives b' \<and> (\<exists>e x. ready e \<noteq> None \<and> edits e (device b') \<and> shows_tape B x (display (device b')))"
  using assms
proof (induction keys arbitrary: b e x)
  case Nil
  then have "b' = b" "input_ready (device b) \<noteq> 0" by (auto simp: await_input.simps [of "[]"] split: if_splits)
  with Nil input_ready_iff [OF Nil(2)] show ?case by blast
next
  case (Cons sc keys)
  show ?case
  proof (cases "input_ready (device b) = 0")
    case True
    from key_event_edits [OF Cons.prems(1-3), of sc] obtain b1 where b1: "key_event sc b = Some b1" "drives b1"
      "edits (press sc e) (device b1)" "shows_tape B (fold feed (press_echo sc e) x) (display (device b1))" by auto
    with True Cons.prems(4) have "await_input keys b1 = Some (rest, b')" by (simp add: await_input.simps [of "sc # keys"])
    from Cons.IH [OF b1(2-4) this] show ?thesis .
  next
    case False
    with Cons.prems(4) have "b' = b" by (simp add: await_input.simps [of "sc # keys"])
    with Cons.prems False input_ready_iff [OF Cons.prems(2)] show ?thesis by blast
  qed
qed

text \<open>The buffer then holds a line of fewer than 128 characters.\<close>

lemma read_line_keeps:
  assumes m: "machine_ok m" and i: "length input = 128" and r: "read_line input 128 keys (board m) = Some (buf, rest, b)"
  shows "machine_ok (m\<lparr>board := b\<rparr>) \<and> (\<exists>l r. buf = l @ NUL # r \<and> NUL \<notin> set l \<and> length l < 128)"
proof -
  from m obtain e B x where s: "drives (board m)" "edits e (device (board m))" "shows_tape B x (display (device (board m)))"
    by (auto simp: machine_ok_def)
  from r obtain b1 where a: "await_input keys (board m) = Some (rest, b1)"
    by (auto simp: read_line_def bind_eq_Some_conv)
  from await_input_keeps [OF s a] obtain e1 x1 where b1: "drives b1" "ready e1 \<noteq> None" "edits e1 (device b1)"
    "shows_tape B x1 (display (device b1))" by blast
  then obtain l where l: "ready e1 = Some l" by blast
  note t = edits_take [OF b1(3) l]
  then obtain z where z: "input_line (device b1) = l @ NUL # z" by blast
  let ?n = "min (length l) 127"
  have "copy_input (input_line (device b1)) input 128 0 = Some (?n, take ?n l @ drop ?n input)"
    by (rule copy_input_eq [OF z t(3)]) (use i in simp_all)
  moreover have "store_char (take ?n l @ drop ?n input) (int ?n) NUL = Some (take ?n l @ NUL # drop (Suc ?n) input)"
    using store_char_eq [of ?n "take ?n l @ drop ?n input" NUL] i by simp
  ultimately have "buf = take ?n l @ NUL # drop (Suc ?n) input" "b = b1\<lparr>device := (device b1)\<lparr>input_ready := 0\<rparr>\<rparr>"
    using r by (simp_all add: read_line_def a)
  moreover have "machine_ok (m\<lparr>board := b1\<lparr>device := (device b1)\<lparr>input_ready := 0\<rparr>\<rparr>\<rparr>)"
    by (rule machine_ok_board [OF m, where e = "e1\<lparr>ready := None\<rparr>" and B = B and x = x1]) (use b1 t(1) in \<open>simp_all add: drives_def\<close>)
  moreover have "NUL \<notin> set (take ?n l)" using t(3) by (auto dest: in_set_takeD)
  moreover have "length (take ?n l) < 128" by simp
  ultimately show ?thesis by blast
qed

lemma cli_pass_keeps:
  assumes m: "machine_ok m" and i: "length input = 128" "length junk = 128"
    and r: "cli_pass sy frame input junk keys m = Some (rest, r)"
  shows "machine_ok (cli_state r)"
proof -
  have "NUL \<notin> set ''CLI> ''" by simp
  from say_ok [OF m this] obtain m1 where m1: "say ''CLI> '' m = Some m1" "machine_ok m1" by blast
  from r [unfolded cli_pass_def m1(1) Option.bind.bind_lunit] obtain buf b where
    b: "read_line input 128 keys (board m1) = Some (buf, rest, b)" "cli_command sy frame junk buf (m1\<lparr>board := b\<rparr>) = Some r"
    by (auto simp: bind_eq_Some_conv)
  from read_line_keeps [OF m1(2) i(1) b(1)] obtain l z where l: "machine_ok (m1\<lparr>board := b\<rparr>)"
    "buf = l @ NUL # z" "NUL \<notin> set l" "length l < MAX_FILENAME_LEN" by auto
  from b(2) cli_command_parses [OF l(3,4)] have "execute frame junk (parse sy l) (m1\<lparr>board := b\<rparr>) = Some r"
    by (simp add: l(2))
  from execute_keeps [OF l(1) parse_ok [OF l(3,4)] i(2) this] show ?thesis .
qed

subsection \<open>The start\<close>

text \<open>An output puts another screen, and nothing else, on the board.\<close>

lemma show_on_fields [simp]:
  "kern (show_on t m) = kern m" "disk (show_on t m) = disk m"
  "interrupt_handlers (board (show_on t m)) = interrupt_handlers (board m)" "port_log (board (show_on t m)) = port_log (board m)"
  "device (board (show_on t m)) = (device (board m))\<lparr>display := t\<rparr>"
  by simp_all

lemma show_on_twice: "show_on t (show_on s m) = show_on t m"
  by simp

lemma short_numeral: "n < 100 \<Longrightarrow> length (dec n) \<le> 2"
  by (subst dec.simps, subst dec.simps) auto

lemma debug_lines_shows:
  assumes "shows_tape B x (display (device (board m)))" "length num = 10" "\<forall>i\<in>set is. i < 100"
  shows "\<exists>t x'. debug_lines is num m = Some (show_on t m) \<and> shows_tape B x' t"
  using assms
proof (induction "is" arbitrary: num m x)
  case Nil
  then show ?case by (intro exI [of _ "display (device (board m))"] exI [of _ x]) simp
next
  case (Cons i "is")
  define s where "s = ''Debug: line ''"
  have s: "NUL \<notin> set s" by (simp add: s_def)
  from say_shows [OF Cons.prems(1) s] obtain t1 where t1: "say s m = Some (show_on t1 m)" "shows_tape B (fold feed s x) t1" by blast
  have i: "i < 100" using Cons.prems(3) by simp
  have "length (dec i) < length num" using short_numeral [OF i] Cons.prems(2) by simp
  from int_to_str_small [of i num, OF _ this] i obtain r where r: "int_to_str (of_nat i) num = Some (dec i @ NUL # r)" by auto
  from show_text_shows [where m = "show_on t1 m" and B = B and x = "fold feed s x" and s = "dec i" and r = r, OF _ dec_clean] t1(2) obtain t2 where
    t2: "show_text (dec i @ NUL # r) (show_on t1 m) = Some (show_on t2 m)" "shows_tape B (fold feed (dec i) (fold feed s x)) t2"
    by (auto simp: show_on_twice)
  from say_shows [where m = "show_on t2 m" and s = "[newline]" and B = B and x = "fold feed (dec i) (fold feed s x)"] t2(2) obtain t3 x3 where
    t3: "say [newline] (show_on t2 m) = Some (show_on t3 m)" "shows_tape B x3 t3" by fastforce
  from Cons.IH [of x3 "show_on t3 m" num] t3(2) Cons.prems(2,3) obtain t x' where
    t: "debug_lines is num (show_on t3 m) = Some (show_on t m)" "shows_tape B x' t" by auto
  have "debug_lines (i # is) num m = Some (show_on t m)"
    by (simp only: debug_lines.simps s_def [symmetric] t1(1) r t2(1) t3(1) t(1) Option.bind.bind_lunit)
  with t(2) show ?case by blast
qed

lemma init_keyboard_display:
  assumes "fresh_keyboard (device b)" "shows_tape B x (display (device b))"
  shows "\<exists>b' x'. init_keyboard b = Some b' \<and> drives b' \<and> edits new_editor (device b') \<and> shows_tape B x' (display (device b'))"
  using init_keyboard_drives [OF assms] by blast

lemma fresh_display [simp]: "fresh_keyboard (k\<lparr>display := t\<rparr>) = fresh_keyboard k"
  by (simp add: fresh_keyboard_def)

lemma remap_fields [simp]:
  "device (pic_remap a1 a2 b) = device b" "interrupt_handlers (pic_remap a1 a2 b) = interrupt_handlers b"
  "device (serial_init b) = device b" "interrupt_handlers (serial_init b) = interrupt_handlers b"
  by (simp_all add: pic_remap_def serial_init_def Let_def)



text \<open>The parts of a machine that a message leaves alone, and what it leaves of the screen.\<close>

definition said :: "machine \<Rightarrow> machine \<Rightarrow> bool" where
  "said m m' \<longleftrightarrow> (\<exists>t. m' = show_on t m) \<and> (\<exists>B x. shows_tape B x (display (device (board m'))))"

lemma saidD:
  assumes "said m m'"
  shows "kern m' = kern m" "disk m' = disk m" "interrupt_handlers (board m') = interrupt_handlers (board m)"
    "fresh_keyboard (device (board m')) = fresh_keyboard (device (board m))"
    "edits e (device (board m')) = edits e (device (board m))"
    "\<exists>B x. shows_tape B x (display (device (board m')))"
  using assms by (auto simp: said_def)

lemma said_show_on: "shows_tape B x t \<Longrightarrow> said m (show_on t m)"
  unfolding said_def by (cases x) (auto intro: exI [of _ t])

lemma say_said:
  assumes "\<exists>B x. shows_tape B x (display (device (board m)))" "NUL \<notin> set s"
  shows "\<exists>m'. say s m = Some m' \<and> said m m'"
proof -
  from assms(1) obtain B x where "shows_tape B x (display (device (board m)))" by blast
  from say_shows [OF this assms(2)] obtain t where "say s m = Some (show_on t m)" "shows_tape B (fold feed s x) t" by blast
  then show ?thesis using said_show_on by blast
qed

lemma kernel_start_ok:
  assumes l: "loaded m" and n: "length num = 10"
  shows "\<exists>t' m'. kernel_start num a1 a2 ga ia isr irq t m = Some (t', m') \<and> machine_ok m'
    \<and> edits new_editor (device (board m')) \<and> files (disk m') = Map.empty \<and> free_block_set (disk m') = {..<BLOCK_COUNT}
    \<and> booted (kern m') \<and> pcbs (kern m') = (\<lambda>_. zero_PCB) \<and> unused_from 0 (arena (kern m')) \<and> gdt_install ga (gdt t) = Some (gdtr t', gdt t')
    \<and> idtr t' = fst (idt_install isr ia (idt t)) \<and> idt t' = irq_install irq (snd (idt_install isr ia (idt t)))"
proof -
  define s1 s2 s3 where "s1 = ''DEBUG: GDT installed.\<newline>''" and "s2 = ''DEBUG: IDT and IRQ handlers installed.\<newline>''"
    and "s3 = ''DEBUG: Keyboard initialized. Press keys!\<newline>''"
  have s: "NUL \<notin> set s1" "NUL \<notin> set s2" "NUL \<notin> set s3" by (simp_all add: s1_def s2_def s3_def)
  define m0 where "m0 = m\<lparr>board := serial_init (board m)\<rparr>"
  have "shows_tape (cell (display (device (board m0)))) ([], []) (display (device (board m0)))"
    by (rule screen_start) (use l in \<open>simp_all add: loaded_def m0_def\<close>)
  moreover have "\<forall>i\<in>set [1..<31]. i < (100 :: nat)" by simp
  ultimately obtain m1 where m1: "debug_lines [1..<31] num m0 = Some m1" "said m0 m1"
    using debug_lines_shows [of _ _ m0 num "[1..<31]", OF _ n] said_show_on by blast
  define m2 where "m2 = m1\<lparr>kern := clear_memory (kern m1)\<rparr>"
  note f1 = saidD [OF m1(2)]
  have "disk_shape (disk m2)" using l f1(2) by (simp add: loaded_def m2_def m0_def)
  from format_disk_inv [OF this] obtain d where d: "create_file_system (disk m2) = Some d" "fs_inv d" "files d = Map.empty"
    "free_block_set d = {..<BLOCK_COUNT}" by (auto simp: create_file_system_def)
  obtain gp g where g: "gdt_install ga (gdt t) = Some (gp, g)" using gdt_install_bytes [of ga "gdt t"] by blast
  obtain ip i where i: "idt_install isr ia (idt t) = (ip, i)" by fastforce
  define m3 where "m3 = m2\<lparr>disk := d\<rparr>"
  have "\<exists>B x. shows_tape B x (display (device (board m3)))" using f1(6) by (simp add: m3_def m2_def)
  from say_said [OF this s(1)] obtain m4 where m4: "say s1 m3 = Some m4" "said m3 m4" by blast
  note f4 = saidD [OF m4(2)]
  define m5 where "m5 = m4\<lparr>board := pic_remap a1 a2 (board m4)\<rparr>"
  have "\<exists>B x. shows_tape B x (display (device (board m5)))" using f4(6) by (simp add: m5_def)
  from say_said [OF this s(2)] obtain m6 where m6: "say s2 m5 = Some m6" "said m5 m6" by blast
  note f6 = saidD [OF m6(2)]
  have "fresh_keyboard (device (board m6))" using l by (simp add: f6(4) m5_def f4(4) m3_def m2_def f1(4) m0_def loaded_def)
  moreover from f6(6) obtain B x where "shows_tape B x (display (device (board m6)))" by blast
  ultimately obtain b x' where b: "init_keyboard (board m6) = Some b" "drives b" "edits new_editor (device b)"
    "shows_tape B x' (display (device b))" using init_keyboard_display by blast
  define m7 where "m7 = m6\<lparr>board := b\<rparr>"
  have "\<exists>B x. shows_tape B x (display (device (board m7)))" using b(4) by (cases x') (auto simp: m7_def)
  from say_said [OF this s(3)] obtain m8 where m8: "say s3 m7 = Some m8" "said m7 m8" by blast
  note f8 = saidD [OF m8(2)]
  define m9 where "m9 = m8\<lparr>kern := init_process_management (kern m8)\<rparr>"
  let ?t' = "\<lparr>gdtr = gp, gdt = g, idtr = ip, idt = irq_install irq i\<rparr>"
  have run: "kernel_start num a1 a2 ga ia isr irq t m = Some (?t', m9)"
    by (simp only: kernel_start_def s1_def [symmetric] s2_def [symmetric] s3_def [symmetric] m0_def [symmetric] m1(1)
        Option.bind.bind_lunit Let_def m2_def [symmetric] d(1) m3_def [symmetric] g i prod.case m4(1) m5_def [symmetric] m6(1) b(1)
        m7_def [symmetric] m8(1) m9_def [symmetric])
  have km: "kern m9 = init_process_management (clear_memory (kern m))"
    by (simp add: m9_def f8(1) m7_def f6(1) m5_def f4(1) m3_def m2_def f1(1) m0_def)
  have dm: "disk m9 = d" by (simp add: m9_def f8(2) m7_def f6(2) m5_def f4(2) m3_def)
  have k: "booted (kern m9)" using l by (simp add: km loaded_def booted_def init_process_management_def clear_memory_def zero_PCB_def)
  have z: "pcbs (kern m9) = (\<lambda>_. zero_PCB)" by (simp add: km init_process_management_def clear_memory_def)
  have u: "unused_from 0 (arena (kern m9))" by (simp add: km unused_from_def init_process_management_def clear_memory_def)
  have e: "edits new_editor (device (board m9))" using b(3) by (simp add: m9_def f8(5) m7_def)
  have dr: "drives (board m9)" using b(2) by (simp add: m9_def drives_def f8(3) m7_def)
  have "\<exists>B x. shows_tape B x (display (device (board m9)))" using f8(6) by (simp add: m9_def)
  with booted_inv [OF k] d(2) dr e have "machine_ok m9" unfolding machine_ok_def dm by blast
  moreover have "gdt_install ga (gdt t) = Some (gdtr ?t', gdt ?t')" using g by simp
  moreover have "idtr ?t' = fst (idt_install isr ia (idt t))" "idt ?t' = irq_install irq (snd (idt_install isr ia (idt t)))"
    by (simp_all add: i)
  ultimately show ?thesis using run e k z u d(3,4) unfolding dm [symmetric] by blast
qed

subsection \<open>What the machine may do\<close>

text \<open>
  A pass of the command line with the key events that arrive while it waits, a key event at any other
  time, a step of the kernel that a process makes (a call, its end, any work of its own) and text that a
  process prints. \<open>input\<close> and \<open>buffer\<close> are arrays of 128 bytes; a pass may also leave the
  loop, enter it again inside \<open>schedule\<close>, or dispatch a process.
\<close>

inductive machine_step :: "symbols \<Rightarrow> machine \<Rightarrow> machine \<Rightarrow> bool" for sy :: symbols where
  pass: "cli_pass sy frame input buffer keys m = Some (rest, r) \<Longrightarrow> length input = 128 \<Longrightarrow> length buffer = 128
    \<Longrightarrow> machine_step sy m (cli_state r)"
| key: "key_event sc (board m) = Some b \<Longrightarrow> machine_step sy m (m\<lparr>board := b\<rparr>)"
| kernel: "kernel_step (kern m) k \<Longrightarrow> machine_step sy m (m\<lparr>kern := k\<rparr>)"
| print: "show_text s m = Some m' \<Longrightarrow> machine_step sy m m'"

lemma key_event_keeps:
  assumes "machine_ok m" "key_event sc (board m) = Some b"
  shows "machine_ok (m\<lparr>board := b\<rparr>)"
proof -
  from assms(1) obtain e B x where "drives (board m)" "edits e (device (board m))" "shows_tape B x (display (device (board m)))"
    by (auto simp: machine_ok_def)
  from key_event_edits [OF this, of sc] assms(2) show ?thesis by (auto intro: machine_ok_board [OF assms(1)])
qed

lemma print_terminated: "print_to_screen s t = Some t' \<Longrightarrow> NUL \<in> set s"
  by (induction s arbitrary: t) (auto split: if_splits)

lemma machine_step_keeps: "machine_step sy m m' \<Longrightarrow> machine_ok m \<Longrightarrow> machine_ok m'"
proof (induction rule: machine_step.induct)
  case (kernel m k)
  then show ?case using step_keeps [OF kernel(1)] by (intro machine_ok_kern) (simp_all add: machine_ok_def)
next
  case (print s m m')
  then have "NUL \<in> set s" by (auto simp: show_text_def dest: print_terminated)
  from show_text_ok [OF print(2) this] print(1) show ?case by auto
qed (use cli_pass_keeps key_event_keeps in blast)+

lemma machine_steps_keep: "(machine_step sy)\<^sup>*\<^sup>* m m' \<Longrightarrow> machine_ok m \<Longrightarrow> machine_ok m'"
  by (induction rule: rtranclp_induct) (use machine_step_keeps in blast)+

end
