(* ===== verification/Session.thy ===== *)
theory Session
  imports MachineInv
begin

text \<open>
  The command line from the keys that are pressed to the commands that are carried out: a pass of the loop, the whole
  loop, and \<open>kernel_main\<close> with what follows the loop.
\<close>

subsection \<open>The loop\<close>

text \<open>
  The array \<open>input\<close> keeps its bytes from one pass to the next; only what \<open>read_line\<close> has stored up to the terminator
  is read, so each pass starts from the same array here. The loop ends with \<open>exit\<close>; a pass that
  dispatches a process or enters another command line does not come back.
\<close>

partial_function (option) cli_loop ::
  "symbols \<Rightarrow> nat \<Rightarrow> char list \<Rightarrow> char list \<Rightarrow> u8 list \<Rightarrow> machine \<Rightarrow> (u8 list \<times> cli_result) option" where
  "cli_loop sy frame input junk keys m = do {
     (rest, r) \<leftarrow> cli_pass sy frame input junk keys m;
     (case r of Continue m1 \<Rightarrow> cli_loop sy frame input junk rest m1 | _ \<Rightarrow> Some (rest, r))
   }"

text \<open>\<open>kernel_main\<close> ends with a last message and halts; \<open>Leave\<close> is the halted machine.\<close>

definition kernel_main ::
  "char list \<Rightarrow> u8 \<Rightarrow> u8 \<Rightarrow> u32 \<Rightarrow> u32 \<Rightarrow> u32 \<Rightarrow> (nat \<Rightarrow> u32) \<Rightarrow> symbols \<Rightarrow> nat \<Rightarrow> char list \<Rightarrow> char list \<Rightarrow> u8 list
    \<Rightarrow> tables \<Rightarrow> machine \<Rightarrow> (tables \<times> cli_result) option" where
  "kernel_main num a1 a2 gdt_addr idt_addr isr_stub irq_stub sy frame input junk keys t m = do {
     (t1, m1) \<leftarrow> kernel_start num a1 a2 gdt_addr idt_addr isr_stub irq_stub t m;
     (rest, r) \<leftarrow> cli_loop sy frame input junk keys m1;
     (case r of
        Leave m2 \<Rightarrow> do { m3 \<leftarrow> say ''Kernel execution terminated.\<newline>'' m2; Some (t1, Leave m3) }
      | _ \<Rightarrow> Some (t1, r))
   }"

subsection \<open>Keys that enter a line\<close>

text \<open>The keys \<open>ks\<close> complete the line \<open>l\<close>, with the last of them, and leave the editor as \<open>e'\<close> once the line is read.\<close>

definition enters :: "editor \<Rightarrow> u8 list \<Rightarrow> string \<Rightarrow> editor \<Rightarrow> bool" where
  "enters e ks l e' \<longleftrightarrow>
     ready (fst (presses ks e)) = Some l \<and> e' = (fst (presses ks e))\<lparr>ready := None\<rparr>
   \<and> (\<forall>i<length ks. ready (fst (presses (take i ks) e)) = None)"

text \<open>The lines of a script, each with its keys.\<close>

fun enters_all :: "editor \<Rightarrow> (u8 list \<times> string) list \<Rightarrow> editor \<Rightarrow> bool" where
  "enters_all e [] e' = (e' = e)"
| "enters_all e ((ks, l) # ls) e' = (\<exists>e1. enters e ks l e1 \<and> enters_all e1 ls e')"

lemma presses_append: "fst (presses (ks @ rest) e) = fst (presses rest (fst (presses ks e)))"
  by (induction ks arbitrary: e) (simp_all add: case_prod_beta)

lemma presses_ready: "ready e \<noteq> None \<Longrightarrow> ready (fst (presses ks e)) \<noteq> None"
proof (induction ks arbitrary: e)
  case (Cons sc ks)
  from Cons.IH [OF press_ready [OF Cons.prems]] show ?case unfolding presses_Cons .
qed simp

text \<open>The first prefix at which a line is ready is unique.\<close>

lemma enters_prefix:
  assumes e: "enters e ks l e'" and k: "ks @ rest = ks2 @ rest2" "ready (fst (presses ks2 e)) \<noteq> None"
    "\<forall>i<length ks2. ready (fst (presses (take i ks2) e)) = None"
  shows "ks2 = ks \<and> rest2 = rest"
proof -
  have "\<not> length ks2 < length ks"
  proof
    assume a: "length ks2 < length ks"
    then have "take (length ks2) ks = ks2" using arg_cong [OF k(1), of "take (length ks2)"] by simp
    with e a k(2) show False unfolding enters_def by force
  qed
  moreover have "\<not> length ks < length ks2"
  proof
    assume a: "length ks < length ks2"
    then have "take (length ks) ks2 = ks" using arg_cong [OF k(1), of "take (length ks)"] by simp
    with k(3) a have "ready (fst (presses ks e)) = None" by force
    with e show False by (simp add: enters_def)
  qed
  ultimately have "length ks = length ks2" by simp
  with k(1) show ?thesis by simp
qed

subsection \<open>A pass carries out the line that is typed\<close>

lemma typed_line:
  assumes m: "machine_ok m" and e: "edits e (device (board m))" and s: "shows_tape B x (display (device (board m)))"
    and i: "length input = 128" and k: "enters e ks l e'"
  shows "\<exists>m1. cli_pass sy frame input junk (ks @ rest) m
      = map_option (\<lambda>r. (rest, r)) (execute frame junk (parse sy (take 127 l)) m1)
    \<and> machine_ok m1 \<and> kern m1 = kern m \<and> disk m1 = disk m \<and> edits e' (device (board m1)) \<and> NUL \<notin> set l
    \<and> shows_tape B (fold feed (''CLI> '' @ snd (presses ks e)) x) (display (device (board m1)))"
proof -
  define g where "g = ''CLI> ''"
  have g: "NUL \<notin> set g" by (simp add: g_def)
  from say_shows [OF s g] obtain t where t: "say g m = Some (show_on t m)" "shows_tape B (fold feed g x) t" by blast
  define m0 where "m0 = show_on t m"
  have ok0: "machine_ok m0" using machine_ok_show [OF m t(2)] by (simp add: m0_def)
  have d: "drives (board m0)" "edits e (device (board m0))" "shows_tape B (fold feed g x) (display (device (board m0)))"
    using ok0 e t(2) by (simp_all add: m0_def machine_ok_def)
  have rd: "ready (fst (presses (ks @ rest) e)) \<noteq> None"
    unfolding presses_append by (rule presses_ready) (use k in \<open>simp add: enters_def\<close>)
  have "(0 :: nat) < 128" "128 \<le> length input" using i by simp_all
  from read_line_edits [OF d rd this] obtain ks2 rest2 l2 b where
    r: "ks @ rest = ks2 @ rest2" "ready (fst (presses ks2 e)) = Some l2"
      "read_line input 128 (ks @ rest) (board m0) = Some (take (128 - 1) l2 @ NUL # drop (Suc (min (length l2) (128 - 1))) input, rest2, b)"
      "drives b" "edits ((fst (presses ks2 e))\<lparr>ready := None\<rparr>) (device b)"
      "\<forall>i<length ks2. ready (fst (presses (take i ks2) e)) = None"
      "shows_tape B (fold feed (snd (presses ks2 e)) (fold feed g x)) (display (device b))" by blast
  have n: "(128 - 1 :: nat) = 127" by simp
  have "ks2 = ks" "rest2 = rest" using enters_prefix [OF k r(1)] r(2,6) by simp_all
  then have l2: "l2 = l" using r(2) k by (simp add: enters_def)
  define m1 where "m1 = m0\<lparr>board := b\<rparr>"
  have ok1: "machine_ok m1" unfolding m1_def by (rule machine_ok_board [OF ok0 r(4,5,7)])
  have e1: "edits e' (device (board m1))" using r(5) k by (simp add: m1_def \<open>ks2 = ks\<close> enters_def)
  have ln: "NUL \<notin> set l"
  proof -
    from key_events_edits [OF d, of ks] obtain b3 :: "keyboard intr" where "edits (fst (presses ks e)) (device b3)" by blast
    with k show ?thesis by (auto simp: enters_def dest: edits_take(3))
  qed
  then have tl: "NUL \<notin> set (take 127 l)" by (auto dest: in_set_takeD)
  have len: "length (take 127 l) < MAX_FILENAME_LEN" by simp
  have "cli_pass sy frame input junk (ks @ rest) m = map_option (\<lambda>r. (rest, r)) (execute frame junk (parse sy (take 127 l)) m1)"
    using r(3) [unfolded n] cli_command_parses [OF tl len, of sy frame junk _ m1]
    by (simp only: cli_pass_def g_def [symmetric] t(1) m0_def [symmetric] Option.bind.bind_lunit prod.case l2 \<open>rest2 = rest\<close> m1_def [symmetric])
      (simp add: map_conv_bind_option o_def)
  moreover have "kern m1 = kern m" "disk m1 = disk m" by (simp_all add: m1_def m0_def)
  moreover have "shows_tape B (fold feed (''CLI> '' @ snd (presses ks e)) x) (display (device (board m1)))"
    unfolding g_def [symmetric] using r(7) by (simp add: m1_def \<open>ks2 = ks\<close>)
  ultimately show ?thesis using ok1 e1 ln by blast
qed

subsection \<open>Scripts\<close>

text \<open>Commands that leave the processes alone and come back to the loop, and what they do to the disk.\<close>

fun stays :: "command \<Rightarrow> bool" where
  "stays Exit = False"
| "stays Start = False"
| "stays (Run t en p) = False"
| "stays _ = True"

definition disk_of :: "fs_state \<Rightarrow> 'a fs_result \<Rightarrow> fs_state" where
  "disk_of d x = (case x of None \<Rightarrow> d | Some (d', v) \<Rightarrow> d')"

fun disk_after :: "command \<Rightarrow> fs_state \<Rightarrow> fs_state" where
  "disk_after (MakeFile nm) d = disk_of d (create_file (cstr nm) d)"
| "disk_after (WriteFile nm x) d = disk_of d (write_file (cstr nm) (cstr x) (length x) d)"
| "disk_after (AppendFile nm x) d = disk_of d (append_to_file (cstr nm) (cstr x) (length x) d)"
| "disk_after (RemoveFile nm) d = disk_of d (delete_file (cstr nm) d)"
| "disk_after (ChmodFile nm p) d = disk_of d (chmod_file (cstr nm) p d)"
| "disk_after _ d = d"

text \<open>Every file that a script reads has less than 128 bytes at that moment, or is not there, or not readable.\<close>

fun read_fits :: "command \<Rightarrow> fs_state \<Rightarrow> bool" where
  "read_fits (ReadFile nm) d = (\<not> too_long nm d)"
| "read_fits _ d = True"

fun reads_fit :: "command list \<Rightarrow> fs_state \<Rightarrow> bool" where
  "reads_fit [] d = True"
| "reads_fit (c # cs) d = (read_fits c d \<and> reads_fit cs (disk_after c d))"

text \<open>The commands of a script.\<close>

definition commands :: "symbols \<Rightarrow> (u8 list \<times> string) list \<Rightarrow> command list" where
  "commands sy ls = map (\<lambda>x. parse sy (take 127 (snd x))) ls"

text \<open>No command touches the keyboard.\<close>

lemma show_text_edits: "show_text s m = Some m' \<Longrightarrow> edits e (device (board m')) = edits e (device (board m))"
  by (auto simp: show_text_def)

lemma say_edits: "say s m = Some m' \<Longrightarrow> edits e (device (board m')) = edits e (device (board m))"
  unfolding say_def by (rule show_text_edits)

lemma print_names_edits: "print_names ns m = Some m' \<Longrightarrow> edits e (device (board m')) = edits e (device (board m))"
  by (induction ns arbitrary: m) (auto simp: bind_eq_Some_conv dest!: say_edits [of _ _ _ e])

lemma reply_edits: "reply s m = Some r \<Longrightarrow> edits e (device (board (cli_state r))) = edits e (device (board m))"
  by (auto simp: reply_def say_edits)

lemma report_edits:
  fixes x :: "'a fs_result"
  assumes "report bad good m x = Some r"
  shows "edits e (device (board (cli_state r))) = edits e (device (board m)) \<and> (\<exists>m'. r = Continue m')"
proof -
  from assms obtain d v where "x = Some (d, v)" and r: "reply (case v of Inl z \<Rightarrow> bad | Inr z \<Rightarrow> good) (m\<lparr>disk := d\<rparr>) = Some r"
    by (auto simp: report_def bind_eq_Some_conv)
  from reply_edits [OF r, of e] r show ?thesis by (auto simp: reply_def)
qed

lemma show_text_disk: "show_text s m = Some m' \<Longrightarrow> disk m' = disk m"
  by (auto simp: show_text_def)

lemma say_disk: "say s m = Some m' \<Longrightarrow> disk m' = disk m"
  unfolding say_def by (rule show_text_disk)

lemma print_names_disk: "print_names ns m = Some m' \<Longrightarrow> disk m' = disk m"
  by (induction ns arbitrary: m) (auto simp: bind_eq_Some_conv dest!: say_disk)

lemma reply_disk: "reply s m = Some r \<Longrightarrow> disk (cli_state r) = disk m"
  by (auto simp: reply_def say_disk)

lemma report_disk:
  fixes x :: "'a fs_result"
  assumes "report bad good m x = Some r"
  shows "disk (cli_state r) = disk_of (disk m) x"
proof -
  from assms obtain d v where x: "x = Some (d, v)" and r: "reply (case v of Inl z \<Rightarrow> bad | Inr z \<Rightarrow> good) (m\<lparr>disk := d\<rparr>) = Some r"
    by (auto simp: report_def bind_eq_Some_conv)
  from reply_disk [OF r] show ?thesis by (simp add: disk_of_def x)
qed

lemma stays_edits:
  assumes "execute frame junk c m = Some r" "stays c" "command_ok c"
  shows "edits e (device (board (cli_state r))) = edits e (device (board m)) \<and> disk (cli_state r) = disk_after c (disk m)
    \<and> (\<exists>m'. r = Continue m')"
proof (cases c)
  case (Say t)
  with assms(1) reply_edits [of t m r e] reply_disk [of t m r] show ?thesis by (auto simp: reply_def)
next
  case (MakeFile nm)
  note r = assms(1) [unfolded MakeFile execute.simps make_command_def]
  show ?thesis using report_edits [OF r] report_disk [OF r] by (simp add: MakeFile)
next
  case (ReadFile nm)
  from assms(1) obtain v where "read_file (cstr nm) junk 128 (disk m) = Some v"
    and r: "(case v of Inl e \<Rightarrow> reply ''Error: Failed to read file.\<newline>'' m
     | Inr (bytes_read, buffer1) \<Rightarrow> do {
         buffer2 \<leftarrow> store_char buffer1 (int bytes_read) NUL;
         m1 \<leftarrow> say ''File content: '' m;
         m2 \<leftarrow> show_text buffer2 m1;
         reply ''\<newline>'' m2
       }) = Some r" by (auto simp: ReadFile read_command_def bind_eq_Some_conv)
  show ?thesis
  proof (cases v)
    case (Inl z)
    from r [unfolded Inl sum.case] reply_edits [OF r [unfolded Inl sum.case], of e] reply_disk [OF r [unfolded Inl sum.case]]
    show ?thesis by (auto simp: ReadFile reply_def)
  next
    case (Inr z)
    obtain n x where z: "z = (n, x)" by fastforce
    from r [unfolded Inr z sum.case prod.case bind_eq_Some_conv] obtain y m1 m2 where
      y: "say ''File content: '' m = Some m1" "show_text y m1 = Some m2" "reply ''\<newline>'' m2 = Some r" by blast
    have "edits e (device (board (cli_state r))) = edits e (device (board m))"
      using reply_edits [OF y(3)] show_text_edits [OF y(2)] say_edits [OF y(1)] by blast
    moreover have "disk (cli_state r) = disk m"
      using reply_disk [OF y(3)] show_text_disk [OF y(2)] say_disk [OF y(1)] by simp
    ultimately show ?thesis using y(3) by (auto simp: ReadFile reply_def)
  qed
next
  case (WriteFile nm d)
  then have "strlen (cstr d) = Some (length d)" using assms(3) strlen_word(2) by simp
  with assms(1) have r: "report ''Error: Failed to write to file.\<newline>'' ''Data written to file successfully.\<newline>'' m
      (write_file (cstr nm) (cstr d) (length d) (disk m)) = Some r" by (simp add: WriteFile write_command_def)
  show ?thesis using report_edits [OF r] report_disk [OF r] by (simp add: WriteFile)
next
  case (AppendFile nm d)
  then have "strlen (cstr d) = Some (length d)" using assms(3) strlen_word(2) by simp
  with assms(1) have r: "report ''Error: Failed to append to file.\<newline>'' ''Data appended to file successfully.\<newline>'' m
      (append_to_file (cstr nm) (cstr d) (length d) (disk m)) = Some r" by (simp add: AppendFile append_command_def)
  show ?thesis using report_edits [OF r] report_disk [OF r] by (simp add: AppendFile)
next
  case (RemoveFile nm)
  note r = assms(1) [unfolded RemoveFile execute.simps remove_command_def]
  show ?thesis using report_edits [OF r] report_disk [OF r] by (simp add: RemoveFile)
next
  case (ChmodFile nm p)
  note r = assms(1) [unfolded ChmodFile execute.simps]
  show ?thesis using report_edits [OF r] report_disk [OF r] by (simp add: ChmodFile)
next
  case ListFiles
  with assms(1) show ?thesis by (auto simp: list_command_def bind_eq_Some_conv print_names_edits print_names_disk)
qed (use assms in auto)

text \<open>One command of a script: it is carried out, or reads a file that is too long and is undefined.\<close>

lemma stays_ok:
  assumes m: "machine_ok m" "length junk = 128" and c: "command_ok c" "stays c"
  shows "if read_fits c (disk m)
    then \<exists>m'. execute frame junk c m = Some (Continue m') \<and> machine_ok m' \<and> kern m' = kern m
      \<and> disk m' = disk_after c (disk m) \<and> (\<forall>e. edits e (device (board m')) = edits e (device (board m)))
    else execute frame junk c m = None"
proof (cases "\<exists>nm. c = ReadFile nm \<and> too_long nm (disk m)")
  case True
  then obtain nm where nm: "c = ReadFile nm" "too_long nm (disk m)" by blast
  with c(1) m(1) read_overruns [of m nm junk frame] m(2) show ?thesis by (simp add: machine_ok_def)
next
  case False
  have "c \<noteq> Start" "\<And>t en p. c \<noteq> Run t en p" using c(2) by auto
  from file_commands_ok [OF m(1) c(1) m(2) this, of frame] False obtain r where
    r: "execute frame junk c m = Some r" "machine_ok (cli_state r)" "kern (cli_state r) = kern m" by blast
  note g = stays_edits [OF r(1) c(2,1)]
  then obtain m' where "r = Continue m'" by blast
  with r g have "\<exists>m'. execute frame junk c m = Some (Continue m') \<and> machine_ok m' \<and> kern m' = kern m
      \<and> disk m' = disk_after c (disk m) \<and> (\<forall>e. edits e (device (board m')) = edits e (device (board m)))" by simp
  moreover have "read_fits c (disk m)" using False by (cases c) auto
  ultimately show ?thesis by simp
qed

text \<open>The loop works a script off line by line.\<close>

lemma script_runs:
  assumes "machine_ok m" "edits e (device (board m))" "length input = 128" "length junk = 128"
    and "enters_all e ls e'" "\<forall>c\<in>set (commands sy ls). stays c"
  shows "if reads_fit (commands sy ls) (disk m)
    then \<exists>m'. cli_loop sy frame input junk (concat (map fst ls) @ rest) m = cli_loop sy frame input junk rest m'
      \<and> machine_ok m' \<and> kern m' = kern m \<and> disk m' = fold disk_after (commands sy ls) (disk m) \<and> edits e' (device (board m'))
    else cli_loop sy frame input junk (concat (map fst ls) @ rest) m = None"
  using assms(1,2,5,6)
proof (induction ls arbitrary: m e)
  case (Cons y ls)
  obtain ks l where y: "y = (ks, l)" by fastforce
  define c where "c = parse sy (take 127 l)"
  have cs: "commands sy (y # ls) = c # commands sy ls" by (simp add: commands_def y c_def)
  from Cons.prems(3) obtain e1 where e1: "enters e ks l e1" "enters_all e1 ls e'" by (auto simp: y)
  from Cons.prems(1) obtain B x where "shows_tape B x (display (device (board m)))" by (auto simp: machine_ok_def)
  from typed_line [OF Cons.prems(1,2) this assms(3) e1(1), of sy frame junk "concat (map fst ls) @ rest"] obtain m1 where
    m1: "cli_pass sy frame input junk (ks @ concat (map fst ls) @ rest) m
      = map_option (\<lambda>r. (concat (map fst ls) @ rest, r)) (execute frame junk c m1)"
      "machine_ok m1" "kern m1 = kern m" "disk m1 = disk m" "edits e1 (device (board m1))" "NUL \<notin> set l" unfolding c_def by blast
  have "NUL \<notin> set (take 127 l)" "length (take 127 l) < MAX_FILENAME_LEN" using m1(6) by (auto dest: in_set_takeD)
  then have c: "command_ok c" "stays c" using parse_ok Cons.prems(4) by (simp_all add: c_def cs [unfolded c_def])
  note one = stays_ok [OF m1(2) assms(4) c, of frame]
  show ?case
  proof (cases "read_fits c (disk m)")
    case False
    then have "execute frame junk c m1 = None" using one m1(4) by simp
    then have "cli_loop sy frame input junk (concat (map fst (y # ls)) @ rest) m = None"
      by (subst cli_loop.simps) (simp add: y m1(1))
    then show ?thesis using False by (simp add: cs)
  next
    case True
    then obtain m2 where
      m2: "execute frame junk c m1 = Some (Continue m2)" "machine_ok m2" "kern m2 = kern m1" "disk m2 = disk_after c (disk m)"
        "edits e1 (device (board m2))" using one m1(4,5) by auto
    have step: "cli_loop sy frame input junk (concat (map fst (y # ls)) @ rest) m = cli_loop sy frame input junk (concat (map fst ls) @ rest) m2"
      by (subst cli_loop.simps) (simp add: y m1(1) m2(1))
    have "\<forall>c\<in>set (commands sy ls). stays c" using Cons.prems(4) by (simp add: cs)
    from Cons.IH [OF m2(2,5) e1(2) this] show ?thesis
      by (simp only: cs reads_fit.simps True simp_thms fold_simps step m2(3,4) m1(3))
  qed
qed (auto simp: commands_def)

lemma exit_leaves:
  assumes "machine_ok m" "edits e (device (board m))" "length input = 128" "enters e ks l e'" "parse sy (take 127 l) = Exit"
  shows "\<exists>m'. cli_loop sy frame input junk (ks @ rest) m = Some (rest, Leave m') \<and> machine_ok m' \<and> kern m' = kern m \<and> disk m' = disk m"
proof -
  from assms(1) obtain B x where "shows_tape B x (display (device (board m)))" by (auto simp: machine_ok_def)
  from typed_line [OF assms(1,2) this assms(3,4), of sy frame junk rest] obtain m1 where
    m1: "cli_pass sy frame input junk (ks @ rest) m = map_option (\<lambda>r. (rest, r)) (execute frame junk Exit m1)"
      "machine_ok m1" "kern m1 = kern m" "disk m1 = disk m" unfolding assms(5) by blast
  have "NUL \<notin> set ''Exiting kernel CLI...\<newline>''" by simp
  from say_ok [OF m1(2) this] obtain m2 where
    m2: "say ''Exiting kernel CLI...\<newline>'' m1 = Some m2" "machine_ok m2" "kern m2 = kern m1" "disk m2 = disk m1" by blast
  have "execute frame junk Exit m1 = Some (Leave m2)" unfolding execute.simps m2(1) by simp
  then have "cli_loop sy frame input junk (ks @ rest) m = Some (rest, Leave m2)"
    by (subst cli_loop.simps) (simp only: m1(1) option.map Option.bind.bind_lunit prod.case cli_result.case)
  with m2 m1 show ?thesis by auto
qed

end
