(* ===== verification/KeyProps.thy ===== *)
theory KeyProps
  imports Keyboard
begin

text \<open>
  What the keyboard driver does as a whole, from its start on: it is the line editor, and a line that is
  read is the line that was typed. Two places where the driver does not do what it means to.
\<close>

subsection \<open>A machine with a keyboard\<close>

definition plain_keyboard :: keyboard where
  "plain_keyboard = \<lparr>display = blank_screen, input_buffer = replicate 256 NUL, input_ready = 0,
     input_line = replicate 256 NUL, buffer_index = 0, shift_pressed = 0, caps_lock_on = 0, data_port = 0\<rparr>"

definition no_handlers :: "keyboard intr" where
  "no_handlers = \<lparr>interrupt_handlers = (\<lambda>_. None), port_log = [], device = plain_keyboard\<rparr>"

lemma plain_start:
  "fresh_keyboard (device no_handlers)" "vga_row (display (device no_handlers)) = 0" "vga_col (display (device no_handlers)) = 0"
  by (simp_all add: no_handlers_def plain_keyboard_def fresh_keyboard_def blank_screen_def)

lemma plain_driven:
  "\<exists>m x. drives m \<and> edits new_editor (device m) \<and> shows_tape (cell blank_screen) x (display (device m))"
proof -
  have "display (device no_handlers) = blank_screen" by (simp add: no_handlers_def plain_keyboard_def)
  with init_keyboard_drives [OF plain_start(1) screen_start [OF plain_start(2,3)]] show ?thesis by metis
qed

text \<open>The scan codes of the keys l, s, Enter and of the releases of l and s.\<close>

definition ls_keys :: "u8 list" where
  "ls_keys = [0x26, 0xA6, 0x1F, 0x9F, 0x1C]"

lemma pressed_simps:
  "pressed_key 0x26 0 0 = CHR ''l''" "pressed_key 0x1F 0 0 = CHR ''s''" "pressed_key 0x1C 0 0 = newline"
  "pressed_key 0x0E 0 0 = backspace"
  by (simp_all add: pressed_key_def scancode_to_ascii_def)

lemma press_ls:
  "press 0x26 new_editor = new_editor\<lparr>typed := ''l''\<rparr>"
  "press 0xA6 (new_editor\<lparr>typed := ''l''\<rparr>) = new_editor\<lparr>typed := ''l''\<rparr>"
  "press 0x1F (new_editor\<lparr>typed := ''l''\<rparr>) = new_editor\<lparr>typed := ''ls''\<rparr>"
  "press 0x9F (new_editor\<lparr>typed := ''ls''\<rparr>) = new_editor\<lparr>typed := ''ls''\<rparr>"
  "press 0x1C (new_editor\<lparr>typed := ''ls''\<rparr>) = new_editor\<lparr>ready := Some ''ls''\<rparr>"
  by (simp_all add: press_def key_of_def type_key_def new_editor_def pressed_simps)

lemma presses_ls: "fst (presses ls_keys new_editor) = new_editor\<lparr>ready := Some ''ls''\<rparr>"
  by (simp only: ls_keys_def presses_Cons press_ls presses.simps(1) fst_conv)

subsection \<open>Properties\<close>

text \<open>C4 (the keyboard is a line editor). From the driver's start on, any sequence of scan codes is handled
  without leaving an array. The buffer then holds the line that the editor is typing, with fewer than
  256 characters; when a line has been entered it is in \<open>input_line\<close> as a C string and \<open>input_ready\<close> is
  set; and the screen shows what the editor has echoed.\<close>

theorem keyboard_refines_editor:
  assumes "fresh_keyboard (device m)" "vga_row (display (device m)) = 0" "vga_col (display (device m)) = 0"
  shows "\<exists>m0 x0. init_keyboard m = Some m0 \<and> (\<forall>scs. \<exists>m' e out. key_events scs m0 = Some m'
    \<and> presses scs new_editor = (e, out)
    \<and> buffer_index (device m') = int (length (typed e)) \<and> length (typed e) < 256
    \<and> take (length (typed e)) (input_buffer (device m')) = typed e
    \<and> (case ready e of None \<Rightarrow> input_ready (device m') = 0
       | Some l \<Rightarrow> input_ready (device m') = 1 \<and> string_at (input_line (device m')) 0 = l)
    \<and> shows_tape (cell (display (device m))) (fold feed out x0) (display (device m')))"
proof -
  from init_keyboard_drives [OF assms(1) screen_start [OF assms(2,3)]] obtain m0 x0 where
    m0: "init_keyboard m = Some m0" "drives m0" "edits new_editor (device m0)"
      "shows_tape (cell (display (device m))) x0 (display (device m0))" by blast
  have "\<exists>m' e out. key_events scs m0 = Some m' \<and> presses scs new_editor = (e, out)
    \<and> buffer_index (device m') = int (length (typed e)) \<and> length (typed e) < 256
    \<and> take (length (typed e)) (input_buffer (device m')) = typed e
    \<and> (case ready e of None \<Rightarrow> input_ready (device m') = 0
       | Some l \<Rightarrow> input_ready (device m') = 1 \<and> string_at (input_line (device m')) 0 = l)
    \<and> shows_tape (cell (display (device m))) (fold feed out x0) (display (device m'))" for scs
  proof -
    obtain e out where p: "presses scs new_editor = (e, out)" by fastforce
    from key_events_edits [OF m0(2-4), of scs] p obtain m' where
      m': "key_events scs m0 = Some m'" "edits e (device m')"
        "shows_tape (cell (display (device m))) (fold feed out x0) (display (device m'))" by auto
    have "case ready e of None \<Rightarrow> input_ready (device m') = 0
       | Some l \<Rightarrow> input_ready (device m') = 1 \<and> string_at (input_line (device m')) 0 = l"
      using m'(2) string_at_append [of _ "[]" 0] by (auto simp: edits_def split: option.splits)
    then show ?thesis using m' p by (auto simp: edits_def)
  qed
  with m0(1) show ?thesis by blast
qed

theorem keyboard_refines_editor_witness:
  "\<exists>m0 m'. init_keyboard no_handlers = Some m0 \<and> key_events ls_keys m0 = Some m'
    \<and> input_ready (device m') = 1 \<and> string_at (input_line (device m')) 0 = ''ls''"
proof -
  from keyboard_refines_editor [OF plain_start] obtain m0 m' e out where
    "init_keyboard no_handlers = Some m0" "key_events ls_keys m0 = Some m'" "presses ls_keys new_editor = (e, out)"
    "case ready e of None \<Rightarrow> input_ready (device m') = 0
       | Some l \<Rightarrow> input_ready (device m') = 1 \<and> string_at (input_line (device m')) 0 = l" by blast
  moreover from this(3) presses_ls have "ready e = Some ''ls''" by simp
  ultimately show ?thesis by auto
qed

text \<open>Reading a line: If among the key events that arrive there is one that enters a line, \<open>read_line\<close> returns;
  it has taken the events up to the first such one, and its buffer holds the line as a C string,
  cut after \<open>max_length - 1\<close> characters; the line counts as read and the modifiers and the text
  typed since are kept.\<close>

theorem read_line_correct:
  assumes "drives m" "edits e (device m)" "shows_tape B x (display (device m))"
    and "ready (fst (presses keys e)) \<noteq> None" "0 < max_length" "max_length \<le> length buffer"
  shows "\<exists>ks rest l r m'. keys = ks @ rest \<and> ready (fst (presses ks e)) = Some l
    \<and> (\<forall>i<length ks. ready (fst (presses (take i ks) e)) = None)
    \<and> read_line buffer max_length keys m = Some (take (max_length - 1) l @ NUL # r, rest, m')
    \<and> edits ((fst (presses ks e))\<lparr>ready := None\<rparr>) (device m')"
  using read_line_edits [OF assms] by blast

theorem read_line_correct_witness:
  "\<exists>m r m'. drives m \<and> read_line (replicate 128 NUL) 128 (ls_keys @ [0x1F]) m = Some (''ls'' @ NUL # r, [0x1F], m')"
proof -
  obtain m x where m: "drives m" "edits new_editor (device m)" "shows_tape (cell blank_screen) x (display (device m))"
    using plain_driven by blast
  have n: "ready (fst (presses (take i (ls_keys @ [0x1F])) new_editor)) = (if i < 5 then None else Some ''ls'')" for i
  proof -
    consider "i = 0" | "i = 1" | "i = 2" | "i = 3" | "i = 4" | "i = 5" | "5 < i" by linarith
    then show ?thesis
    proof cases
      case 7
      then have "take i (ls_keys @ [0x1F]) = ls_keys @ [0x1F]" by (simp add: ls_keys_def)
      then have "fst (presses (take i (ls_keys @ [0x1F])) new_editor) = press 0x1F (new_editor\<lparr>ready := Some ''ls''\<rparr>)"
        by (simp only: ls_keys_def append.simps presses_Cons press_ls presses.simps(1) fst_conv)
      then show ?thesis using 7 by (simp add: press_def key_of_def type_key_def new_editor_def pressed_simps)
    qed (simp_all add: ls_keys_def case_prod_beta press_ls, simp_all add: new_editor_def)
  qed
  have "ready (fst (presses (ls_keys @ [0x1F]) new_editor)) \<noteq> None"
    using n [of 6] by (simp add: ls_keys_def)
  from read_line_correct [OF m this, of 128 "replicate 128 NUL"] obtain ks rest l r m' where
    r: "ls_keys @ [0x1F] = ks @ rest" "ready (fst (presses ks new_editor)) = Some l"
      "\<forall>i<length ks. ready (fst (presses (take i ks) new_editor)) = None"
      "read_line (replicate 128 NUL) 128 (ls_keys @ [0x1F]) m = Some (take 127 l @ NUL # r, rest, m')" by auto
  have ks: "ks = take (length ks) (ls_keys @ [0x1F])" using r(1) by simp
  have "\<not> length ks < 5"
  proof
    assume "length ks < 5"
    with n [of "length ks"] r(2) ks show False by simp
  qed
  moreover have "\<not> 5 < length ks"
  proof
    assume "5 < length ks"
    with r(3) have "ready (fst (presses (take 5 ks) new_editor)) = None" by blast
    moreover have "take 5 ks = take 5 (ls_keys @ [0x1F])" using ks \<open>5 < length ks\<close> r(1) by (simp add: ls_keys_def)
    ultimately show False using n [of 5] by simp
  qed
  ultimately have "length ks = 5" by simp
  with ks have "ks = ls_keys" by (simp add: ls_keys_def)
  with r(1) have "ks = ls_keys" "rest = [0x1F]" by simp_all
  moreover from this r(2) presses_ls have "l = ''ls''" by simp
  ultimately show ?thesis using m(1) r(4) by auto
qed

subsection \<open>Where the driver misses its aim\<close>

text \<open>Backspace leaves the character: The screen treats the backspace character as a glyph. When backspace
  deletes the last character of the line in the buffer, the character stays on the screen, three more
  cells are written behind it, and the cursor is three places further right.\<close>

theorem backspace_leaves_character:
  assumes "drives m" "edits e (device m)" "shows_tape B (ls, l) (display (device m))"
    and "typed e = w @ [c]" "length l + 3 < 80"
  shows "\<exists>m'. key_event 0x0E m = Some m' \<and> edits (e\<lparr>typed := w\<rparr>) (device m')
    \<and> shows_tape B (ls, l @ [backspace, CHR '' '', backspace]) (display (device m'))
    \<and> vga_col (display (device m')) = vga_col (display (device m)) + 3"
proof -
  have "pressed_key 0x0E (of_bool b) (of_bool d) = backspace" for b d
    by (cases b; cases d) (simp_all add: pressed_key_def scancode_to_ascii_def scancode_to_ascii_shift_def)
  then have k: "key_of 0x0E e = Some backspace" by (simp add: key_of_def Let_def)
  then have p: "press 0x0E e = e\<lparr>typed := w\<rparr>" using assms(4) by (simp add: press_def type_key_def)
  have "press_echo 0x0E e = [backspace, CHR '' '', backspace]" using k assms(4) by (simp add: press_echo_def echo_def)
  moreover have "fold feed [backspace, CHR '' '', backspace] (ls, l) = (ls, l @ [backspace, CHR '' '', backspace])"
    by (rule feed_short) (use assms(5) in simp_all)
  ultimately obtain m' where m': "key_event 0x0E m = Some m'" "edits (e\<lparr>typed := w\<rparr>) (device m')"
    "shows_tape B (ls, l @ [backspace, CHR '' '', backspace]) (display (device m'))"
    using key_event_edits [OF assms(1-3), of "0x0E"] p by auto
  moreover have "vga_col (display (device m')) = vga_col (display (device m)) + 3"
    using m'(3) assms(3) by (simp add: shows_tape_def)
  ultimately show ?thesis by blast
qed

theorem backspace_leaves_character_witness:
  "\<exists>m m' ls l. shows_tape (cell blank_screen) (ls, l) (display (device m))
    \<and> key_event 0x0E m = Some m' \<and> edits new_editor (device m')
    \<and> shows_tape (cell blank_screen) (ls, l @ [backspace, CHR '' '', backspace]) (display (device m'))"
proof -
  obtain m x where m: "drives m" "edits new_editor (device m)" "shows_tape (cell blank_screen) x (display (device m))"
    using plain_driven by blast
  have n: "press 0x1C new_editor = new_editor\<lparr>ready := Some []\<rparr>" "press_echo 0x1C new_editor = [newline]"
    by (simp_all add: press_def press_echo_def key_of_def type_key_def echo_def new_editor_def pressed_simps)
  obtain ls0 l0 where x: "fold feed [newline] x = (ls0 @ [l0], [])" by (cases x) auto
  from key_event_edits [OF m, of "0x1C"] n x obtain m1 where m1: "drives m1" "edits (new_editor\<lparr>ready := Some []\<rparr>) (device m1)"
    "shows_tape (cell blank_screen) (ls0 @ [l0], []) (display (device m1))" by auto
  let ?m2 = "m1\<lparr>device := (device m1)\<lparr>input_ready := 0\<rparr>\<rparr>"
  have m2: "drives ?m2" "edits new_editor (device ?m2)" "shows_tape (cell blank_screen) (ls0 @ [l0], []) (display (device ?m2))"
    using edits_take(1) [OF m1(2)] m1(1,3) by (simp_all add: drives_def new_editor_def)
  have l: "press_echo 0x26 new_editor = ''l''" by (simp add: press_echo_def key_of_def echo_def new_editor_def pressed_simps)
  from key_event_edits [OF m2, of "0x26"] l press_ls(1) obtain m3 where
    m3: "drives m3" "edits (new_editor\<lparr>typed := ''l''\<rparr>) (device m3)"
      "shows_tape (cell blank_screen) (ls0 @ [l0], ''l'') (display (device m3))" by auto
  from backspace_leaves_character [OF m3, of "[]" "CHR ''l''"] obtain m' where
    "key_event 0x0E m3 = Some m'" "edits new_editor (device m')"
    "shows_tape (cell blank_screen) (ls0 @ [l0], ''l'' @ [backspace, CHR '' '', backspace]) (display (device m'))"
    by (auto simp: new_editor_def)
  with m3(3) show ?thesis by blast
qed

text \<open>Caps lock and shift: with shift held the lower-case letters never come out, so the exclusive or of
  the two modifiers in the driver is never applied to both.\<close>

lemma shift_ignores_caps: "unat c < 128 \<Longrightarrow> pressed_key c 1 lock = pressed_key c 1 0"
proof -
  assume c: "unat c < 128"
  have "list_all (\<lambda>k. \<not> (uchar CHR ''a'' \<le> uchar k \<and> uchar k \<le> uchar CHR ''z'')) scancode_to_ascii_shift"
    by (simp add: scancode_to_ascii_shift_def list_all_iff)
  then have "\<not> (uchar CHR ''a'' \<le> uchar (scancode_to_ascii_shift ! unat c) \<and> uchar (scancode_to_ascii_shift ! unat c) \<le> uchar CHR ''z'')"
    using c tables_length(2) by (auto simp: list_all_length)
  then show ?thesis by (auto simp: pressed_key_def Let_def)
qed

text \<open>A second line entered before the first has been read replaces it.\<close>

lemma unread_line_lost: "ready (type_key newline (e\<lparr>ready := Some l\<rparr>)) = Some (typed e)"
  by (simp add: type_key_def)

end
