(* ===== verification/Programs.thy ===== *)
theory Programs
  imports MachineInv
begin

text \<open>
  The programs \<^verbatim>\<open>dummy1.c\<close>, \<^verbatim>\<open>dummy2.c\<close> and \<^verbatim>\<open>dummy3.c\<close> of \<^verbatim>\<open>test_processes\<close>, and the whole way of such a program
  from the command line to the processor and back.
\<close>

subsection \<open>The programs\<close>

text \<open>
  A call of \<open>exit_syscall\<close> that returns leads to a \<open>ret\<close> to address 0, which \<open>create_process\<close> has put on
  the stack; that has no result.
\<close>

definition leave :: "nat \<Rightarrow> machine \<Rightarrow> cli_result option" where
  "leave frame m = do {
     r \<leftarrow> exit_syscall 0 frame (kern m);
     (case r of
        Returned u k \<Rightarrow> None
      | Switched k \<Rightarrow> Some (Dispatched (m\<lparr>kern := k\<rparr>))
      | Idle k \<Rightarrow> Some (Nested (m\<lparr>kern := k\<rparr>)))
   }"

definition dummy1 :: "nat \<Rightarrow> machine \<Rightarrow> cli_result option" where
  "dummy1 frame m = do { m1 \<leftarrow> say ''Dummy Process 1 is running.\<newline>'' m; leave frame m1 }"

definition dummy2 :: "nat \<Rightarrow> machine \<Rightarrow> cli_result option" where
  "dummy2 frame m = do { m1 \<leftarrow> say ''Dummy Process 2 is running.\<newline>'' m; leave frame m1 }"

definition dummy3 :: "nat \<Rightarrow> machine \<Rightarrow> cli_result option" where
  "dummy3 frame m = do { m1 \<leftarrow> say ''Dummy Process 3 is running.\<newline>'' m; leave frame m1 }"

text \<open>What the processor does at the entry point of one of them.\<close>

definition run_program :: "symbols \<Rightarrow> nat \<Rightarrow> machine \<Rightarrow> cli_result option" where
  "run_program sy frame m =
     (if eip (kern m) = dummy_process_1 sy then dummy1 frame m
      else if eip (kern m) = dummy_process_2 sy then dummy2 frame m
      else if eip (kern m) = dummy_process_3 sy then dummy3 frame m
      else None)"

subsection \<open>A kernel with one process\<close>

lemma requeued_alone: "current_process k = None \<or> (\<exists>c. current_process k = Some c \<and> state (pcbs k c) \<noteq> STATE_RUNNING) \<Longrightarrow> requeued k rq = rq"
  by (auto simp: requeued_def)

lemma program_starts:
  assumes inv: "kernel_inv k [] []" and u: "unused_from n (arena k)" "n + 5 < NUM_PAGES"
  shows "\<exists>p k1 k2. create_process pd en prio dl ttr k = Some (Some p, k1) \<and> schedule frame k1 = Some (Switched k2)
    \<and> kernel_inv k2 [p] [] \<and> running k2 p \<and> eip k2 = en \<and> unused_from (n + 5) (arena k2)"
proof -
  from create_runs [OF assms, of pd en prio dl ttr] obtain p k1 where
    k1: "create_process pd en prio dl ttr k = Some (Some p, k1)" "unused_from (n + 5) (arena k1)" by blast
  note c = create_process_Some [OF inv k1(1)]
  have i: "kernel_inv k1 [p] [p]" using c(2) by (simp add: place_def)
  have f: "user_stack_ptr (pcbs k1 p) + 8 \<le> KERNEL_MEMORY_SIZE"
    "load32 (user_stack_ptr (pcbs k1 p) + 4) (kernel_memory (arena k1)) = en"
    using c(3) unfolding fresh_process_def Let_def by blast+
  have "current_process k = None" using kernel_invD(8) [OF inv] by (cases "current_process k") auto
  then have "requeued k1 [p] = [p]" using c(4) by (intro requeued_alone) simp
  from schedule_dispatch [OF i this, of frame] f(1) obtain k2 where
    k2: "schedule frame k1 = Some (Switched k2)" "kernel_inv k2 [p] []" "runs k1 p k2" by auto
  moreover have "running k2 p" "eip k2 = en" "arena k2 = arena k1" using k2(3) f(2) by (simp_all add: runs_def running_def)
  ultimately show ?thesis using k1 by auto
qed

lemma exit_alone:
  assumes inv: "kernel_inv k [p] []" and p: "running k p"
  shows "\<exists>k'. exit_syscall st frame k = Some (Idle k') \<and> kernel_inv k' [p] [] \<and> state (pcbs k' p) = STATE_ZOMBIE
    \<and> exit_status (pcbs k' p) = st"
proof -
  let ?k = "upd_pcb p (\<lambda>x. x\<lparr>exit_status := st, state := STATE_ZOMBIE\<rparr>) k"
  have cur: "current_process k = Some p" "state (pcbs k p) = STATE_RUNNING" using p by (simp_all add: running_def)
  have i: "kernel_inv ?k [p] []" by (rule kernel_inv_stop [OF inv]) (simp_all add: cur(2))
  have "state (pcbs ?k q) \<noteq> STATE_BLOCKED" for q
    using kernel_invD(9) [OF i, of q] by (cases "q = p") simp_all
  then have w: "(case parent (pcbs ?k p) of None \<Rightarrow> Some ?k
      | Some q \<Rightarrow> if state (pcbs ?k q) = STATE_BLOCKED then enqueue_ready q (upd_pcb q (state_update (\<lambda>_. STATE_READY)) ?k) else Some ?k)
      = Some ?k" by (simp split: option.split)
  have "requeued ?k [] = []" by (rule requeued_alone) (simp add: cur(1))
  from schedule_idle [OF i this] have "exit_syscall st frame k = Some (Idle ?k)"
    unfolding exit_syscall_def cur(1) option.case Let_def w Option.bind.bind_lunit .
  with i show ?thesis by auto
qed

end
