(* ===== verification/MachineProps.thy ===== *)
theory MachineProps
  imports MachineInv KeyProps Programs
begin

text \<open>
  The properties of the whole machine: it starts, it stays in order, the command line always answers,
  a file that is made and written at the command line is printed by reading it, and the one
  command that leaves its array.
\<close>

subsection \<open>Lines with a file name\<close>

text \<open>A word of a line: no blank, no terminator, not empty.\<close>

definition plain_word :: "string \<Rightarrow> bool" where
  "plain_word w \<longleftrightarrow> w \<noteq> [] \<and> NUL \<notin> set w \<and> (\<forall>c\<in>set w. c \<notin> set blanks)"

lemma next_word_blank:
  assumes "plain_word w" "b \<in> set blanks"
  shows "next_word blanks (w @ b # s) = Some (w, s)" "next_word blanks w = Some (w, [])"
proof -
  from assms(1) have a: "\<forall>c\<in>set w. c \<notin> set blanks" and n: "w \<noteq> []" by (simp_all add: plain_word_def)
  then have "\<not> hd w \<in> set blanks" by simp
  then have d: "dropWhile (\<lambda>c. c \<in> set blanks) (w @ t) = w @ t" for t
    using n by (cases w) (auto simp del: set_simps)
  have t: "takeWhile (\<lambda>c. c \<notin> set blanks) (w @ b # s) = w" "takeWhile (\<lambda>c. c \<notin> set blanks) w = w"
    using a assms(2) by (simp_all add: takeWhile_append2 del: set_simps)
  show "next_word blanks (w @ b # s) = Some (w, s)" using n unfolding next_word_def d Let_def t(1) by simp
  show "next_word blanks w = Some (w, [])" using n unfolding next_word_def d [of "[]", unfolded append_Nil2] Let_def t(2) by simp
qed

lemma next_word_line:
  assumes "d \<noteq> []" "newline \<notin> set d"
  shows "next_word ''\<newline>'' d = Some (d, [])"
proof -
  have "dropWhile (\<lambda>c. c \<in> set ''\<newline>'') d = d" "takeWhile (\<lambda>c. c \<notin> set ''\<newline>'') d = d"
    using assms by (cases d; auto simp: dropWhile_eq_self_iff takeWhile_eq_all_conv)+
  then show ?thesis using assms(1) by (simp only: next_word_def Let_def if_False) simp
qed

lemma command_words: "plain_word ''file''" "plain_word ''make''" "plain_word ''write''" "plain_word ''read''" "CHR '' '' \<in> set blanks"
  by (simp_all add: plain_word_def)

lemma parse_file_line: "parse sy (''file '' @ s) = parse_file s"
  using next_word_blank(1) [OF command_words(1,5), of s] by (simp add: parse_def)

lemma parse_lines:
  assumes "plain_word nm"
  shows "parse sy (''file make '' @ nm) = MakeFile nm" "parse sy (''file read '' @ nm) = ReadFile nm"
    "d \<noteq> [] \<Longrightarrow> newline \<notin> set d \<Longrightarrow> parse sy (''file write '' @ nm @ '' '' @ d) = WriteFile nm d"
proof -
  note nm = next_word_blank [OF assms command_words(5)]
  have "parse sy (''file '' @ ''make '' @ nm) = MakeFile nm"
    using next_word_blank(1) [OF command_words(2,5), of nm] nm(2)
    unfolding parse_file_line by (simp add: parse_file_def parse_name_def)
  then show "parse sy (''file make '' @ nm) = MakeFile nm" by simp
  have "parse sy (''file '' @ ''read '' @ nm) = ReadFile nm"
    using next_word_blank(1) [OF command_words(4,5), of nm] nm(2)
    unfolding parse_file_line by (simp add: parse_file_def parse_name_def)
  then show "parse sy (''file read '' @ nm) = ReadFile nm" by simp
  assume d: "d \<noteq> []" "newline \<notin> set d"
  have "parse sy (''file '' @ ''write '' @ nm @ '' '' @ d) = WriteFile nm d"
    using next_word_blank(1) [OF command_words(3,5), of "nm @ '' '' @ d"] nm(1) [of d] next_word_line [OF d]
    unfolding parse_file_line by (simp add: parse_file_def parse_argument_def)
  then show "parse sy (''file write '' @ nm @ '' '' @ d) = WriteFile nm d" by simp
qed

subsection \<open>What the commands on files show\<close>

lemma reply_shows:
  assumes "shows_tape B x (display (device (board m)))" "NUL \<notin> set s"
  shows "\<exists>m'. reply s m = Some (Continue m') \<and> disk m' = disk m \<and> shows_tape B (fold feed s x) (display (device (board m')))"
proof -
  from say_shows [OF assms] obtain t where "say s m = Some (show_on t m)" "shows_tape B (fold feed s x) t" by blast
  then show ?thesis by (intro exI [of _ "show_on t m"]) (simp add: reply_def)
qed

lemma report_shows:
  assumes "shows_tape B x (display (device (board m)))" "NUL \<notin> set good"
  shows "\<exists>m'. report bad good m (Some (d, Inr v)) = Some (Continue m') \<and> disk m' = d
    \<and> shows_tape B (fold feed good x) (display (device (board m')))"
  using reply_shows [of B x "m\<lparr>disk := d\<rparr>", OF _ assms(2)] assms(1) by (simp add: report_def)

lemma make_shows:
  assumes inv: "fs_inv (disk m)" and nm: "NUL \<notin> set nm" "length nm < MAX_FILENAME_LEN" and x: "shows_tape B x (display (device (board m)))"
    and new: "the_file (disk m) nm = None" "dom (files (disk m)) \<noteq> {..<MAX_FILES}" "free_block_set (disk m) \<noteq> {}"
  shows "\<exists>m'. execute frame junk (MakeFile nm) m = Some (Continue m') \<and> the_file (disk m') nm = Some (empty_file nm)
    \<and> shows_tape B (fold feed ''File created successfully.\<newline>'' x) (display (device (board m')))"
proof -
  from create_file_cases [OF inv nm] new(2,3) obtain t i n where t: "create_file (cstr nm) (disk m) = Some (t, Inr n)"
    "find_first (\<lambda>i. files (disk m) i = None) 0 MAX_FILES = Some i" "files t = (files (disk m))(i \<mapsto> empty_file nm)" by auto
  have "lookup (files (disk m)) nm = None"
    using new(1) by (cases rule: the_file_cases [of "disk m" nm]) auto
  then have no: "\<forall>j<MAX_FILES. \<not> (\<exists>f. files (disk m) j = Some f \<and> f_name f = nm)" by (simp add: lookup_def find_first_None)
  from find_first_SomeD [OF t(2)] have i: "i < MAX_FILES" by simp
  then have "j < MAX_FILES" if "j < i" for j using that by simp
  with no have "\<forall>j<i. \<not> (\<exists>f. files (disk m) j = Some f \<and> f_name f = nm)" by blast
  then have "lookup (files t) nm = Some i" using i by (simp add: lookup_def find_first_Some t(3))
  then have f: "the_file t nm = Some (empty_file nm)" by (simp add: the_file_def t(3))
  have "NUL \<notin> set ''File created successfully.\<newline>''" by simp
  from report_shows [OF x this, of _ t n] t(1) f show ?thesis
    unfolding execute.simps make_command_def by auto
qed

lemma write_shows:
  assumes inv: "fs_inv (disk m)" and nm: "NUL \<notin> set nm" and x: "shows_tape B x (display (device (board m)))"
    and f: "the_file (disk m) nm = Some f" "writable (f_perms f)" and d: "NUL \<notin> set d" "length d \<le> BLOCK_SIZE"
  shows "\<exists>m'. execute frame junk (WriteFile nm d) m = Some (Continue m') \<and> the_file (disk m') nm = Some (f\<lparr>f_data := d\<rparr>)
    \<and> shows_tape B (fold feed ''Data written to file successfully.\<newline>'' x) (display (device (board m')))"
proof -
  obtain i where i: "lookup (files (disk m)) nm = Some i" "files (disk m) i = Some f" "f_name f = nm"
    using f(1) by (cases rule: the_file_cases [of "disk m" nm]) auto
  have "blocks_for (length d) \<le> 1" using blocks_for_le [of "length d" 1] d(2) by simp
  then have w: "write_count (disk m) (entry_target (disk m) i) (length d) = length d"
    using d(2) by (simp add: write_count_def Let_def min_absorb1)
  have "length d \<le> length (cstr d)" "take (length d) (cstr d) = d" by (simp_all add: cstr_def)
  with write_file_ok [OF inv nm i(1,2) f(2), of "length d" "cstr d"] w obtain t where
    t: "write_file (cstr nm) (cstr d) (length d) (disk m) = Some (t, Inr (length d))"
      "files t = (files (disk m))(i \<mapsto> f\<lparr>f_data := d\<rparr>)" by auto
  have "lookup (files t) nm = lookup (files (disk m)) nm"
    unfolding lookup_def by (rule find_first_cong) (use i(2) in \<open>auto simp: t(2)\<close>)
  then have g: "the_file t nm = Some (f\<lparr>f_data := d\<rparr>)" by (simp add: the_file_def i(1) t(2))
  have "NUL \<notin> set ''Data written to file successfully.\<newline>''" by simp
  from report_shows [OF x this, of _ t "length d"] t(1) g show ?thesis
    unfolding execute.simps write_command_def strlen_word(2) [OF d(1)] Option.bind.bind_lunit by auto
qed

lemma read_shows:
  assumes inv: "fs_inv (disk m)" and nm: "NUL \<notin> set nm" and x: "shows_tape B x (display (device (board m)))"
    and f: "the_file (disk m) nm = Some f" "readable (f_perms f)" "NUL \<notin> set (f_data f)" "length (f_data f) < 128"
    and j: "length junk = 128"
  shows "\<exists>m'. execute frame junk (ReadFile nm) m = Some (Continue m') \<and> disk m' = disk m
    \<and> shows_tape B (fold feed (''File content: '' @ f_data f @ ''\<newline>'') x) (display (device (board m')))"
proof -
  define g where "g = ''File content: ''"
  have g: "NUL \<notin> set g" by (simp add: g_def)
  let ?n = "length (f_data f)" and ?r = "drop (Suc (length (f_data f))) junk"
  have rd: "read_file (cstr nm) junk 128 (disk m) = Some (Inr (?n, f_data f @ drop ?n junk))"
    using read_file_cases [OF inv nm, of 128 junk] f j by (simp add: Let_def min_absorb2)
  have st: "store_char (f_data f @ drop ?n junk) (int ?n) NUL = Some (f_data f @ NUL # ?r)"
    using store_char_eq [of ?n "f_data f @ drop ?n junk" NUL] f(4) j by simp
  from say_shows [OF x g] obtain t1 where t1: "say g m = Some (show_on t1 m)" "shows_tape B (fold feed g x) t1" by blast
  from show_text_shows [where m = "show_on t1 m", OF _ f(3), of B "fold feed g x" ?r] t1(2) obtain t2 where
    t2: "show_text (f_data f @ NUL # ?r) (show_on t1 m) = Some (show_on t2 m)" "shows_tape B (fold feed (f_data f) (fold feed g x)) t2"
    by (auto simp: show_on_twice)
  from reply_shows [of B _ "show_on t2 m" "[newline]"] t2(2) obtain m' where
    m': "reply ''\<newline>'' (show_on t2 m) = Some (Continue m')" "disk m' = disk m"
      "shows_tape B (fold feed [newline] (fold feed (f_data f) (fold feed g x))) (display (device (board m')))" by fastforce
  have "execute frame junk (ReadFile nm) m = Some (Continue m')"
    unfolding execute.simps read_command_def rd Option.bind.bind_lunit sum.case prod.case st g_def [symmetric] t1(1) t2(1) m'(1) ..
  with m'(2,3) show ?thesis unfolding g_def [symmetric] by auto
qed

text \<open>The listing of the directory: \<open>ls\<close> prints the names of the files in the order of their slots.\<close>

lemma list_shows:
  assumes inv: "fs_inv (disk m)" and x: "shows_tape B x (display (device (board m)))"
  defines "ns \<equiv> map f_name (List.map_filter (files (disk m)) [0..<MAX_FILES])"
  shows "\<exists>m'. cli_command sy frame junk (''ls'' @ NUL # r) m = Some (Continue m')
    \<and> shows_tape B (fold feed (concat (map (\<lambda>n. n @ [newline]) ns)) x) (display (device (board m')))"
proof -
  have l: "list_files (disk m) = Some ns"
    unfolding list_files_def ns_def by (rule list_loop_names) (use inv in \<open>auto simp: fs_inv_def dir_inv_def\<close>)
  have "\<forall>n\<in>set ns. NUL \<notin> set n"
    using files_SomeD(3) entry_name_clean by (auto simp: ns_def List.map_filter_def)
  from print_names_shows [OF x this] obtain m' where m': "print_names ns m = Some m'"
    "shows_tape B (fold feed (concat (map (\<lambda>n. n @ [newline]) ns)) x) (display (device (board m')))" by blast
  have c: "NUL \<notin> set ''ls''" "length ''ls'' < MAX_FILENAME_LEN" "parse sy ''ls'' = ListFiles"
    by (simp_all add: parse_def next_word_def)
  have "cli_command sy frame junk (''ls'' @ NUL # r) m = Some (Continue m')"
    using cli_command_parses [OF c(1,2), of sy frame junk r m] m'(1) by (simp only: c(3) execute.simps list_command_def l) simp
  with m'(2) show ?thesis by blast
qed



subsection \<open>An example\<close>

definition new_machine :: machine where
  "new_machine = \<lparr>kern = boot_kernel, disk = blank_disk, board = no_handlers\<rparr>"

lemma new_machine_loaded: "loaded new_machine"
  using plain_start booted_boot_kernel blank_disk_shape
  by (simp add: new_machine_def loaded_def booted_def) (simp add: no_handlers_def)

definition no_tables :: tables where
  "no_tables = \<lparr>gdtr = \<lparr>gdt_limit = 0, gdt_base = 0\<rparr>,
     gdt = (\<lambda>_. \<lparr>limit_low = 0, gdt_base_low = 0, base_middle = 0, access = 0, granularity = 0, gdt_base_high = 0\<rparr>),
     idtr = \<lparr>idt_limit = 0, idt_base = 0\<rparr>,
     idt = (\<lambda>_. \<lparr>base_low = 0, sel = 0, always0 = 0, flags = 0, base_high = 0\<rparr>)\<rparr>"

definition started :: "machine \<Rightarrow> bool" where
  "started m \<longleftrightarrow> (\<exists>t'. kernel_start (replicate 10 NUL) 0 0 0 0 0 (\<lambda>_. 0) no_tables new_machine = Some (t', m))"

lemma example_started:
  obtains m where "started m" "machine_ok m" "edits new_editor (device (board m))" "files (disk m) = Map.empty"
    "free_block_set (disk m) = {..<BLOCK_COUNT}" "booted (kern m)" "unused_from 0 (arena (kern m))"
proof -
  have "length (replicate 10 NUL) = 10" by simp
  from kernel_start_ok [OF new_machine_loaded this] that show ?thesis unfolding started_def by meson
qed

lemma after_command:
  assumes "machine_ok m" "execute frame junk c m = Some (Continue m')" "command_ok c" "length junk = 128"
  shows "machine_ok m'"
  using execute_keeps [OF assms(1,3,4,2)] by simp

text \<open>A machine with a file of any content of at most a block.\<close>

lemma example_file:
  assumes "NUL \<notin> set d" "length d \<le> BLOCK_SIZE"
  obtains m where "machine_ok m" "the_file (disk m) ''a'' = Some ((empty_file ''a'')\<lparr>f_data := d\<rparr>)"
proof -
  obtain m0 where m0: "machine_ok m0" "files (disk m0) = Map.empty" "free_block_set (disk m0) = {..<BLOCK_COUNT}"
    using example_started by blast
  from m0(1) obtain B x where fs: "fs_inv (disk m0)" "shows_tape B x (display (device (board m0)))" by (auto simp: machine_ok_def)
  have new: "the_file (disk m0) ''a'' = None" "dom (files (disk m0)) \<noteq> {..<MAX_FILES}" "free_block_set (disk m0) \<noteq> {}"
    using m0(2,3) lessThan_empty_iff [of MAX_FILES] lessThan_empty_iff [of BLOCK_COUNT]
    by (auto simp: the_file_def lookup_def find_first_None)
  from make_shows [OF fs(1) _ _ fs(2) new, of 0 "replicate 128 NUL"] obtain m1 where
    m1: "execute 0 (replicate 128 NUL) (MakeFile ''a'') m0 = Some (Continue m1)" "the_file (disk m1) ''a'' = Some (empty_file ''a'')"
    by auto
  have ok1: "machine_ok m1" using after_command [OF m0(1) m1(1)] by simp
  then obtain B1 x1 where fs1: "fs_inv (disk m1)" "shows_tape B1 x1 (display (device (board m1)))" by (auto simp: machine_ok_def)
  from write_shows [OF fs1(1) _ fs1(2) m1(2) _ assms, of 0 "replicate 128 NUL"] perms_7 obtain m2 where
    m2: "execute 0 (replicate 128 NUL) (WriteFile ''a'' d) m1 = Some (Continue m2)"
      "the_file (disk m2) ''a'' = Some ((empty_file ''a'')\<lparr>f_data := d\<rparr>)" by auto
  have "machine_ok m2" using after_command [OF ok1 m2(1)] assms(1) by simp
  then show ?thesis using m2(2) by (rule that)
qed

subsection \<open>Properties\<close>

text \<open>C31 (start). On a machine as the loader leaves it, \<open>kernel_main\<close> reaches the command line; then the
  kernel has no process, an empty ready queue and cleared control blocks, the file system is empty with all its blocks free and in
  order, the descriptor tables are the ones installed, and the keyboard driver is an empty line editor
  behind vector 33.\<close>

theorem machine_starts:
  assumes "loaded m" "length num = 10"
  shows "\<exists>t' m'. kernel_start num a1 a2 ga ia isr irq t m = Some (t', m')
    \<and> booted (kern m') \<and> pcbs (kern m') = (\<lambda>_. zero_PCB) \<and> fs_inv (disk m') \<and> files (disk m') = Map.empty \<and> free_block_set (disk m') = {..<BLOCK_COUNT}
    \<and> gdt_install ga (gdt t) = Some (gdtr t', gdt t')
    \<and> idtr t' = fst (idt_install isr ia (idt t)) \<and> idt t' = irq_install irq (snd (idt_install isr ia (idt t)))
    \<and> interrupt_handlers (board m') 33 = Some keyboard_handler \<and> edits new_editor (device (board m'))"
  using kernel_start_ok [OF assms, of a1 a2 ga ia isr irq t] by (auto simp: machine_ok_def drives_def)

theorem machine_starts_witness:
  "\<exists>t' m'. kernel_start (replicate 10 NUL) 0xB8 0x8E 4096 8192 64 (\<lambda>n. 100 + of_nat n) no_tables new_machine = Some (t', m')
    \<and> files (disk m') = Map.empty \<and> gate_offset (idt t' 33) = 101"
proof -
  have "length (replicate 10 NUL) = 10" by simp
  from machine_starts [OF new_machine_loaded this] obtain t' m' where
    s: "kernel_start (replicate 10 NUL) 0xB8 0x8E 4096 8192 64 (\<lambda>n. 100 + of_nat n) no_tables new_machine = Some (t', m')"
      "files (disk m') = Map.empty" "idt t' = irq_install (\<lambda>n. 100 + of_nat n) (snd (idt_install 64 8192 (idt no_tables)))" by blast
  have "gate_offset (idt t' 33) = 101"
    using set_gate_fields [of 33 "101" 8 "0x8E"] by (simp add: s(3) irq_install_eq)
  with s show ?thesis by blast
qed



text \<open>C16 (the command line always answers). In every state that the machine reaches, every line that \<open>read_line\<close> can
  deliver is carried out to its end, with no array left and no missing terminator, and leaves the
  kernel's state alone and the disk in order, unless it starts or queues a process or reads a file of 128
  bytes or more.\<close>

theorem command_line_answers:
  assumes "loaded m" "length num = 10" "kernel_start num a1 a2 ga ia isr irq t m = Some (t', m0)" "(machine_step sy)\<^sup>*\<^sup>* m0 m'"
    and "NUL \<notin> set line" "length line < 128" "length junk = 128"
    and "parse sy line \<noteq> Start" "\<And>tx en p. parse sy line \<noteq> Run tx en p"
    and "\<And>nm. parse sy line = ReadFile nm \<Longrightarrow> \<not> too_long nm (disk m')"
  shows "\<exists>res. cli_command sy frame junk (line @ NUL # r) m' = Some res \<and> kern (cli_state res) = kern m'
    \<and> fs_inv (disk (cli_state res))"
proof -
  from kernel_start_ok [OF assms(1,2), of a1 a2 ga ia isr irq t] assms(3) have "machine_ok m0" by auto
  from machine_steps_keep [OF assms(4) this] have m: "machine_ok m'" .
  have len: "length line < MAX_FILENAME_LEN" using assms(6) by simp
  from file_commands_ok [OF m parse_ok [OF assms(5) len] assms(7,8,9,10), of frame] obtain res where
    "execute frame junk (parse sy line) m' = Some res" "machine_ok (cli_state res)" "kern (cli_state res) = kern m'" by blast
  then show ?thesis using cli_command_parses [OF assms(5) len, of sy frame junk r m'] by (auto simp: machine_ok_def)
qed

theorem command_line_answers_witness:
  "\<exists>m res. started m \<and> cli_command some_symbols 0 (replicate 128 NUL) (''process dummy4'' @ NUL # []) m = Some res
    \<and> kern (cli_state res) = kern m"
proof -
  obtain m where m: "started m" using example_started by blast
  then obtain t' where s: "kernel_start (replicate 10 NUL) 0 0 0 0 0 (\<lambda>_. 0) no_tables new_machine = Some (t', m)"
    by (auto simp: started_def)
  have p: "parse some_symbols ''process dummy4'' = Say ''Error: Unknown process name.\<newline>''"
    by (simp add: parse_def next_word_def parse_process_def parse_program_def process_commands_def Let_def)
  have "length (replicate 10 NUL) = 10" by simp
  from command_line_answers [OF new_machine_loaded this s rtranclp.rtrancl_refl,
      where line = "''process dummy4''" and junk = "replicate 128 NUL" and frame = 0 and r = "[]" and sy = some_symbols] p m
  show ?thesis by auto
qed

text \<open>C10 (from \<open>file make\<close> to \<open>file read\<close>). In a machine in order with a free inode and a free block, the three command
  lines that make a new file, write to it and read it print, after the two confirmations, exactly the
  bytes that were written.\<close>

theorem file_session:
  assumes "machine_ok m" "shows_tape B x (display (device (board m)))" "length junk = 128"
    and "plain_word nm" "d \<noteq> []" "NUL \<notin> set d" "newline \<notin> set d" "length nm + length d < 116"
    and "the_file (disk m) nm = None" "dom (files (disk m)) \<noteq> {..<MAX_FILES}" "free_block_set (disk m) \<noteq> {}"
  shows "\<exists>m1 m2 m3. cli_command sy frame junk ((''file make '' @ nm) @ NUL # r1) m = Some (Continue m1)
    \<and> cli_command sy frame junk ((''file write '' @ nm @ '' '' @ d) @ NUL # r2) m1 = Some (Continue m2)
    \<and> cli_command sy frame junk ((''file read '' @ nm) @ NUL # r3) m2 = Some (Continue m3)
    \<and> shows_tape B (fold feed (''File created successfully.\<newline>'' @ ''Data written to file successfully.\<newline>''
        @ ''File content: '' @ d @ ''\<newline>'') x) (display (device (board m3)))"
proof -
  have nm: "NUL \<notin> set nm" "length nm < MAX_FILENAME_LEN" using assms(4,8) by (simp_all add: plain_word_def)
  define g1 g2 where "g1 = ''File created successfully.\<newline>''" and "g2 = ''Data written to file successfully.\<newline>''"
  have fs: "fs_inv (disk m)" using assms(1) by (simp add: machine_ok_def)
  from make_shows [OF fs nm assms(2,9-11)] obtain m1 where
    m1: "execute frame junk (MakeFile nm) m = Some (Continue m1)" "the_file (disk m1) nm = Some (empty_file nm)"
      "shows_tape B (fold feed g1 x) (display (device (board m1)))" unfolding g1_def by blast
  have ok1: "machine_ok m1" using after_command [OF assms(1) m1(1)] nm assms(3) by simp
  then have fs1: "fs_inv (disk m1)" by (simp add: machine_ok_def)
  have "length d \<le> BLOCK_SIZE" "writable (f_perms (empty_file nm))" using assms(8) perms_7 by simp_all
  from write_shows [OF fs1 nm(1) m1(3,2) this(2) assms(6) this(1)] obtain m2 where
    m2: "execute frame junk (WriteFile nm d) m1 = Some (Continue m2)" "the_file (disk m2) nm = Some ((empty_file nm)\<lparr>f_data := d\<rparr>)"
      "shows_tape B (fold feed g2 (fold feed g1 x)) (display (device (board m2)))" unfolding g2_def by blast
  have ok2: "machine_ok m2" using after_command [OF ok1 m2(1)] nm assms(3,6) by simp
  then have fs2: "fs_inv (disk m2)" by (simp add: machine_ok_def)
  from read_shows [OF fs2 nm(1) m2(3,2) _ _ _ assms(3), of frame] assms(6,8) perms_7 obtain m3 where
    m3: "execute frame junk (ReadFile nm) m2 = Some (Continue m3)"
      "shows_tape B (fold feed (''File content: '' @ d @ ''\<newline>'') (fold feed g2 (fold feed g1 x))) (display (device (board m3)))"
    by auto
  have c: "cli_command sy frame junk ((''file make '' @ nm) @ NUL # r1) m = Some (Continue m1)"
    "cli_command sy frame junk ((''file write '' @ nm @ '' '' @ d) @ NUL # r2) m1 = Some (Continue m2)"
    "cli_command sy frame junk ((''file read '' @ nm) @ NUL # r3) m2 = Some (Continue m3)"
    using cli_command_parses [of "''file make '' @ nm"] cli_command_parses [of "''file write '' @ nm @ '' '' @ d"]
      cli_command_parses [of "''file read '' @ nm"] parse_lines [OF assms(4)] nm(1) assms(5-8) m1(1) m2(1) m3(1)
    by (simp_all del: append_Cons)
  have "fold feed (g1 @ g2 @ ''File content: '' @ d @ ''\<newline>'') x
      = fold feed (''File content: '' @ d @ ''\<newline>'') (fold feed g2 (fold feed g1 x))" by (simp only: fold_append o_apply)
  with m3(2) have "shows_tape B (fold feed (g1 @ g2 @ ''File content: '' @ d @ ''\<newline>'') x) (display (device (board m3)))" by metis
  with c show ?thesis unfolding g1_def g2_def by blast
qed

theorem file_session_witness:
  "\<exists>m m1 m2 m3 B x. started m
    \<and> cli_command some_symbols 0 (replicate 128 NUL) ((''file make '' @ ''notes'') @ NUL # []) m = Some (Continue m1)
    \<and> cli_command some_symbols 0 (replicate 128 NUL) ((''file write '' @ ''notes'' @ '' '' @ ''hello there'') @ NUL # []) m1 = Some (Continue m2)
    \<and> cli_command some_symbols 0 (replicate 128 NUL) ((''file read '' @ ''notes'') @ NUL # []) m2 = Some (Continue m3)
    \<and> shows_tape B (fold feed (''File created successfully.\<newline>'' @ ''Data written to file successfully.\<newline>''
        @ ''File content: '' @ ''hello there'' @ ''\<newline>'') x) (display (device (board m3)))"
proof -
  obtain m where m: "started m" "machine_ok m" "files (disk m) = Map.empty" "free_block_set (disk m) = {..<BLOCK_COUNT}"
    using example_started by blast
  from m(2) obtain B x where x: "shows_tape B x (display (device (board m)))" by (auto simp: machine_ok_def)
  have new: "the_file (disk m) ''notes'' = None" "dom (files (disk m)) \<noteq> {..<MAX_FILES}" "free_block_set (disk m) \<noteq> {}"
    using m(3,4) lessThan_empty_iff [of MAX_FILES] lessThan_empty_iff [of BLOCK_COUNT]
    by (auto simp: the_file_def lookup_def find_first_None)
  have w: "plain_word ''notes''" by (simp add: plain_word_def)
  have d: "length (replicate 128 NUL) = 128" "''hello there'' \<noteq> []" "NUL \<notin> set ''hello there''" "newline \<notin> set ''hello there''"
    "length ''notes'' + length ''hello there'' < 116" by simp_all
  from file_session [OF m(2) x d(1) w d(2-5) new, of some_symbols 0 "[]" "[]" "[]"] m(1) show ?thesis by blast
qed

text \<open>C37 (\<open>file read\<close> of a long file). \<open>file read\<close> goes wrong exactly when the file that it selects is readable and has
  at least 128 bytes: \<open>read_file\<close> then fills the array \<open>buffer\<close>, and the terminator is stored behind
  it. In every other case the command is carried out.\<close>

theorem read_overruns_buffer:
  assumes "machine_ok m" "plain_word nm" "length nm < 118" "length junk = 128"
  shows "cli_command sy frame junk ((''file read '' @ nm) @ NUL # r) m = None
    \<longleftrightarrow> (\<exists>f. the_file (disk m) nm = Some f \<and> readable (f_perms f) \<and> 128 \<le> length (f_data f))"
proof -
  have nm: "NUL \<notin> set nm" using assms(2) by (simp add: plain_word_def)
  have "cli_command sy frame junk ((''file read '' @ nm) @ NUL # r) m = execute frame junk (ReadFile nm) m"
    using cli_command_parses [of "''file read '' @ nm"] parse_lines(2) [OF assms(2)] nm assms(3) by (simp del: append_Cons)
  moreover have "fs_inv (disk m)" using assms(1) by (simp add: machine_ok_def)
  ultimately show ?thesis
    using read_overruns [OF _ nm assms(4), of m frame] read_ok [OF assms(1) nm assms(4), of frame]
    unfolding too_long_def by (metis option.distinct(1))
qed

theorem read_overruns_buffer_witness:
  "\<exists>m. the_file (disk m) ''a'' = Some ((empty_file ''a'')\<lparr>f_data := replicate 128 CHR ''x''\<rparr>)
    \<and> cli_command some_symbols 0 (replicate 128 NUL) ((''file read '' @ ''a'') @ NUL # []) m = None"
proof -
  have "NUL \<notin> set (replicate 128 CHR ''x'')" "length (replicate 128 CHR ''x'') \<le> BLOCK_SIZE" by simp_all
  from example_file [OF this] obtain m where m: "machine_ok m"
    "the_file (disk m) ''a'' = Some ((empty_file ''a'')\<lparr>f_data := replicate 128 CHR ''x''\<rparr>)" by blast
  have "plain_word ''a''" "length ''a'' < 118" "length (replicate 128 NUL) = 128" by (simp_all add: plain_word_def)
  from read_overruns_buffer [OF m(1) this, of some_symbols 0 "[]"] m(2) perms_7
  have "cli_command some_symbols 0 (replicate 128 NUL) ((''file read '' @ ''a'') @ NUL # []) m = None" by auto
  with m(2) show ?thesis by blast
qed

text \<open>The lines that queue the three programs.\<close>

definition dummies :: "(string \<times> string) set" where
  "dummies = {(''dummy1'', ''Dummy Process 1 is running.\<newline>''), (''dummy2'', ''Dummy Process 2 is running.\<newline>''),
     (''dummy3'', ''Dummy Process 3 is running.\<newline>'')}"

lemma parse_dummy:
  assumes "plain_word w" "w \<noteq> ''start''" "w \<noteq> ''syscall''" "w \<noteq> ''process''" "map_of (process_commands sy) w = Some en"
  shows "parse sy (''process '' @ w) = Run ''Queueing process...\<newline>'' en 1"
proof -
  have "plain_word ''process''" by (simp add: plain_word_def)
  from next_word_blank(1) [OF this command_words(5), of w] next_word_blank(2) [OF assms(1) command_words(5)]
  have "parse sy (''process'' @ CHR '' '' # w) = Run ''Queueing process...\<newline>'' en 1"
    using assms(2-5) by (simp add: parse_def parse_process_def next_word_nil parse_program_def Let_def)
  then show ?thesis by simp
qed

lemma dummy_lines:
  assumes "(w, t) \<in> dummies" "distinct [dummy_process_1 sy, dummy_process_2 sy, dummy_process_3 sy]"
  shows "\<exists>en. parse sy (''process '' @ w) = Run ''Queueing process...\<newline>'' en 1 \<and> NUL \<notin> set t \<and> NUL \<notin> set w \<and> length w = 6
    \<and> (\<forall>m frame. eip (kern m) = en \<longrightarrow> run_program sy frame m = Option.bind (say t m) (leave frame))"
proof -
  have p: "parse sy (''process '' @ ''dummy1'') = Run ''Queueing process...\<newline>'' (dummy_process_1 sy) 1"
    "parse sy (''process '' @ ''dummy2'') = Run ''Queueing process...\<newline>'' (dummy_process_2 sy) 1"
    "parse sy (''process '' @ ''dummy3'') = Run ''Queueing process...\<newline>'' (dummy_process_3 sy) 1"
    by (rule parse_dummy; simp add: plain_word_def process_commands_def)+
  from assms(1) consider "w = ''dummy1''" "t = ''Dummy Process 1 is running.\<newline>''"
    | "w = ''dummy2''" "t = ''Dummy Process 2 is running.\<newline>''" | "w = ''dummy3''" "t = ''Dummy Process 3 is running.\<newline>''"
    by (auto simp: dummies_def)
  then show ?thesis
  proof cases
    case 1
    then show ?thesis unfolding 1 p(1) by (intro exI [of _ "dummy_process_1 sy"]) (simp add: run_program_def dummy1_def)
  next
    case 2
    then show ?thesis using assms(2) unfolding 2 p(2)
      by (intro exI [of _ "dummy_process_2 sy"]) (auto simp: run_program_def dummy2_def)
  next
    case 3
    then show ?thesis using assms(2) unfolding 3 p(3)
      by (intro exI [of _ "dummy_process_3 sy"]) (auto simp: run_program_def dummy3_def)
  qed
qed

text \<open>C12 (a program from the command line to the processor and back). When no process exists and memory is free, the line
  \<open>process dummyN\<close> queues the program, \<open>process start\<close> enters it at its address, it prints its line, and its
  exit leads back to a command line, with the process left in the table as a zombie with
  status 0. Nothing reaps it: every program that is run this way keeps its place in the table.\<close>

theorem program_session:
  assumes "machine_ok m" "kernel_inv (kern m) [] []" "unused_from n (arena (kern m))" "n + 5 < NUM_PAGES"
    and "shows_tape B x (display (device (board m)))" "distinct [dummy_process_1 sy, dummy_process_2 sy, dummy_process_3 sy]"
    and "(w, t) \<in> dummies"
  shows "\<exists>m1 m2 m3 p. cli_command sy frame junk ((''process '' @ w) @ NUL # r1) m = Some (Continue m1)
    \<and> cli_command sy frame junk (''process start'' @ NUL # r2) m1 = Some (Dispatched m2)
    \<and> run_program sy frame m2 = Some (Nested m3)
    \<and> kernel_inv (kern m3) [p] [] \<and> state (pcbs (kern m3) p) = STATE_ZOMBIE \<and> exit_status (pcbs (kern m3) p) = 0
    \<and> shows_tape B (fold feed (''Queueing process...\<newline>'' @ ''Starting scheduled processes...\<newline>'' @ t) x)
        (display (device (board m3)))"
proof -
  define g1 g2 where "g1 = ''Queueing process...\<newline>''" and "g2 = ''Starting scheduled processes...\<newline>''"
  obtain en where p: "parse sy (''process '' @ w) = Run g1 en 1" "NUL \<notin> set t" "NUL \<notin> set w" "length w = 6"
    and run: "\<And>m. eip (kern m) = en \<Longrightarrow> run_program sy frame m = Option.bind (say t m) (leave frame)"
    using dummy_lines [OF assms(7,6)] unfolding g1_def by blast
  have en: "NUL \<notin> set (''process '' @ w)" "length (''process '' @ w) < MAX_FILENAME_LEN" using p(3,4) by simp_all
  have g: "NUL \<notin> set g1" "NUL \<notin> set g2" "NUL \<notin> set t" using p(2) by (simp_all add: g1_def g2_def)
  have st: "parse sy ''process start'' = Start" "NUL \<notin> set ''process start''" "length ''process start'' < MAX_FILENAME_LEN"
    by (simp_all add: parse_def next_word_def parse_process_def)
  from say_shows [OF assms(5) g(1)] obtain t1 where t1: "say g1 m = Some (show_on t1 m)" "shows_tape B (fold feed g1 x) t1" by blast
  obtain pd k where k: "get_new_pid (kern m) = (pd, k)" by fastforce
  have ki: "kernel_inv k [] []" "unused_from n (arena k)"
    using assms(2,3) k by (auto simp: get_new_pid_def kernel_inv_regs)
  from program_starts [OF ki assms(4), of pd en "sint (1 :: u32)" 1 2 frame] obtain p k1 k2 where
    k1: "create_process pd en (sint (1 :: u32)) 1 2 k = Some (Some p, k1)" "schedule frame k1 = Some (Switched k2)"
      "kernel_inv k2 [p] []" "running k2 p" "eip k2 = en" by blast
  define m1 where "m1 = (show_on t1 m)\<lparr>kern := k1\<rparr>"
  have e1: "execute frame junk (Run g1 en 1) m = Some (Continue m1)"
    by (simp add: t1(1) queue_program_def k k1(1) [simplified] m1_def)
  have d1: "shows_tape B (fold feed g1 x) (display (device (board m1)))" "kern m1 = k1" using t1(2) by (simp_all add: m1_def)
  from say_shows [OF d1(1) g(2)] obtain t2 where t2: "say g2 m1 = Some (show_on t2 m1)" "shows_tape B (fold feed g2 (fold feed g1 x)) t2"
    by blast
  define m2 where "m2 = (show_on t2 m1)\<lparr>kern := k2\<rparr>"
  have "start_processes frame (show_on t2 m1) = Some (Dispatched m2)"
    using k1(2) d1(2) by (simp add: start_processes_def m2_def)
  then have e2: "execute frame junk Start m1 = Some (Dispatched m2)"
    unfolding execute.simps g2_def [symmetric] t2(1) Option.bind.bind_lunit .
  have d2: "shows_tape B (fold feed g2 (fold feed g1 x)) (display (device (board m2)))" "kern m2 = k2" using t2(2) by (simp_all add: m2_def)
  from say_shows [OF d2(1) g(3)] obtain t3 where
    t3: "say t m2 = Some (show_on t3 m2)" "shows_tape B (fold feed t (fold feed g2 (fold feed g1 x))) t3" by blast
  from exit_alone [OF k1(3,4), of 0 frame] obtain k3 where k3: "exit_syscall 0 frame k2 = Some (Idle k3)" "kernel_inv k3 [p] []"
    "state (pcbs k3 p) = STATE_ZOMBIE" "exit_status (pcbs k3 p) = 0" by blast
  define m3 where "m3 = (show_on t3 m2)\<lparr>kern := k3\<rparr>"
  have "leave frame (show_on t3 m2) = Some (Nested m3)" using k3(1) d2(2) by (simp add: leave_def m3_def)
  then have "run_program sy frame m2 = Some (Nested m3)" using run [of m2] d2(2) k1(5) t3(1) by simp
  moreover have "shows_tape B (fold feed (g1 @ g2 @ t) x) (display (device (board m3)))" using t3(2) by (simp add: m3_def)
  moreover have "kern m3 = k3" by (simp add: m3_def)
  moreover have "cli_command sy frame junk ((''process '' @ w) @ NUL # r1) m = Some (Continue m1)"
    using cli_command_parses [OF en, of sy frame junk r1 m] p(1) e1 by simp
  moreover have "cli_command sy frame junk (''process start'' @ NUL # r2) m1 = Some (Dispatched m2)"
    using cli_command_parses [OF st(2,3), of sy frame junk r2 m1] st(1) e2 by simp
  ultimately show ?thesis using k3(2-4) unfolding g1_def g2_def by blast
qed

theorem program_session_witness:
  "\<exists>m m1 m2 m3 B x. started m
    \<and> cli_command some_symbols 32 (replicate 128 NUL) ((''process '' @ ''dummy2'') @ NUL # []) m = Some (Continue m1)
    \<and> cli_command some_symbols 32 (replicate 128 NUL) (''process start'' @ NUL # []) m1 = Some (Dispatched m2)
    \<and> run_program some_symbols 32 m2 = Some (Nested m3)
    \<and> shows_tape B (fold feed (''Queueing process...\<newline>'' @ ''Starting scheduled processes...\<newline>''
        @ ''Dummy Process 2 is running.\<newline>'') x) (display (device (board m3)))"
proof -
  obtain m where m: "started m" "machine_ok m" "booted (kern m)" "unused_from 0 (arena (kern m))" using example_started by blast
  from m(2) obtain B x where x: "shows_tape B x (display (device (board m)))" by (auto simp: machine_ok_def)
  have n: "0 + 5 < NUM_PAGES" "distinct [dummy_process_1 some_symbols, dummy_process_2 some_symbols, dummy_process_3 some_symbols]"
    "(''dummy2'', ''Dummy Process 2 is running.\<newline>'') \<in> dummies" by (simp_all add: some_symbols_def dummies_def)
  from program_session [OF m(2) booted_inv [OF m(3)] m(4) n(1) x n(2,3), of 32 "replicate 128 NUL" "[]" "[]"] m(1)
  show ?thesis by blast
qed

end
