(* ===== verification/SessionProps.thy ===== *)
theory SessionProps
  imports Session MachineProps
begin

text \<open>
  Properties of the machine from the keys on: a typed line is carried out, and a session of harmless commands ends
  when \<open>exit\<close> is typed.
\<close>

subsection \<open>Keys for two lines\<close>

text \<open>The keys e, x, i, t and Enter, pressed only.\<close>

definition exit_keys :: "u8 list" where
  "exit_keys = [0x12, 0x2D, 0x17, 0x14, 0x1C]"

lemma enters_ls: "enters new_editor ls_keys ''ls'' new_editor"
proof -
  have "ready (fst (presses (take i ls_keys) new_editor)) = None" if "i < length ls_keys" for i
  proof -
    have "i = 0 \<or> i = 1 \<or> i = 2 \<or> i = 3 \<or> i = 4" using that by (simp add: ls_keys_def) linarith
    then show ?thesis
      by (elim disjE) (simp_all add: ls_keys_def case_prod_beta press_ls, simp_all add: new_editor_def)
  qed
  then show ?thesis by (simp add: enters_def presses_ls) (simp add: new_editor_def)
qed

lemma press_exit:
  "press 0x12 new_editor = new_editor\<lparr>typed := ''e''\<rparr>"
  "press 0x2D (new_editor\<lparr>typed := ''e''\<rparr>) = new_editor\<lparr>typed := ''ex''\<rparr>"
  "press 0x17 (new_editor\<lparr>typed := ''ex''\<rparr>) = new_editor\<lparr>typed := ''exi''\<rparr>"
  "press 0x14 (new_editor\<lparr>typed := ''exi''\<rparr>) = new_editor\<lparr>typed := ''exit''\<rparr>"
  "press 0x1C (new_editor\<lparr>typed := ''exit''\<rparr>) = new_editor\<lparr>ready := Some ''exit''\<rparr>"
proof -
  have "pressed_key 0x12 0 0 = CHR ''e''" "pressed_key 0x2D 0 0 = CHR ''x''" "pressed_key 0x17 0 0 = CHR ''i''"
    "pressed_key 0x14 0 0 = CHR ''t''"
    by (simp_all add: pressed_key_def scancode_to_ascii_def)
  then show "press 0x12 new_editor = new_editor\<lparr>typed := ''e''\<rparr>"
    "press 0x2D (new_editor\<lparr>typed := ''e''\<rparr>) = new_editor\<lparr>typed := ''ex''\<rparr>"
    "press 0x17 (new_editor\<lparr>typed := ''ex''\<rparr>) = new_editor\<lparr>typed := ''exi''\<rparr>"
    "press 0x14 (new_editor\<lparr>typed := ''exi''\<rparr>) = new_editor\<lparr>typed := ''exit''\<rparr>"
    "press 0x1C (new_editor\<lparr>typed := ''exit''\<rparr>) = new_editor\<lparr>ready := Some ''exit''\<rparr>"
    by (simp_all add: press_def key_of_def type_key_def new_editor_def pressed_simps)
qed

lemma enters_exit: "enters new_editor exit_keys ''exit'' new_editor"
proof -
  have p: "fst (presses exit_keys new_editor) = new_editor\<lparr>ready := Some ''exit''\<rparr>"
    by (simp only: exit_keys_def presses_Cons press_exit presses.simps(1) fst_conv)
  have "ready (fst (presses (take i exit_keys) new_editor)) = None" if "i < length exit_keys" for i
  proof -
    have "i = 0 \<or> i = 1 \<or> i = 2 \<or> i = 3 \<or> i = 4" using that by (simp add: exit_keys_def) linarith
    then show ?thesis
      by (elim disjE) (simp_all add: exit_keys_def case_prod_beta press_exit, simp_all add: new_editor_def)
  qed
  then show ?thesis by (simp add: enters_def p) (simp add: new_editor_def)
qed

subsection \<open>Properties\<close>

text \<open>C11 (from the keys to the command). In a machine in order, when the keys that arrive complete a line, one pass of
  the loop prints the prompt and the echo of the keys, takes exactly the keys up to the one that enters the line, and
  then does what the parsed line asks for (its first 127 characters), on the kernel and the disk as they were.\<close>

theorem typed_line_executes:
  assumes "machine_ok m" "edits e (device (board m))" "shows_tape B x (display (device (board m)))"
    and "length input = 128" "enters e ks l e'"
  shows "\<exists>m1. cli_pass sy frame input junk (ks @ rest) m
      = map_option (\<lambda>r. (rest, r)) (execute frame junk (parse sy (take 127 l)) m1)
    \<and> kern m1 = kern m \<and> disk m1 = disk m \<and> edits e' (device (board m1))
    \<and> shows_tape B (fold feed (''CLI> '' @ snd (presses ks e)) x) (display (device (board m1)))"
  using typed_line [OF assms, of sy frame junk rest] by blast

theorem typed_line_executes_witness:
  "\<exists>m m1. started m \<and> cli_pass some_symbols 0 (replicate 128 NUL) [] (ls_keys @ [0x1F]) m
      = map_option (\<lambda>r. ([0x1F], r)) (list_command m1)
    \<and> disk m1 = disk m"
proof -
  obtain m where m: "started m" "machine_ok m" "edits new_editor (device (board m))" using example_started by blast
  from m(2) obtain B x where x: "shows_tape B x (display (device (board m)))" by (auto simp: machine_ok_def)
  have l: "length (replicate 128 NUL) = 128" by simp
  have "parse some_symbols (take 127 ''ls'') = ListFiles" by (simp add: parse_def next_word_def)
  with typed_line_executes [OF m(2,3) x l enters_ls, of some_symbols 0 "[]" "[0x1F]"] m(1) show ?thesis by auto
qed

text \<open>C32 (a session ends). From the loader's state, commands on files, the listing, unknown commands and usage errors are
  typed and then \<open>exit\<close>. If every file that the session reads is shorter than 128 bytes when it is read, or missing, or not
  readable, \<open>kernel_main\<close> reaches its end and halts; the kernel is as it was started, and the disk is in order and what
  the commands have made of the one that was formatted. If some file is longer, the session does not get there: the array
  of \<open>file read\<close> is overrun. Keys after the last Enter are not looked at.\<close>

theorem session_ends:
  assumes "loaded m" "length num = 10" "length input = 128" "length junk = 128"
    and "enters_all new_editor ls e1" "\<forall>c\<in>set (commands sy ls). stays c"
    and "enters e1 ks l e2" "parse sy (take 127 l) = Exit"
  shows "\<exists>t' m0. kernel_start num a1 a2 ga ia isr irq t m = Some (t', m0) \<and> files (disk m0) = Map.empty
    \<and> (if reads_fit (commands sy ls) (disk m0)
       then \<exists>m'. kernel_main num a1 a2 ga ia isr irq sy frame input junk (concat (map fst ls) @ ks @ rest) t m = Some (t', Leave m') \<and> booted (kern m') \<and> fs_inv (disk m')
         \<and> disk m' = fold disk_after (commands sy ls) (disk m0)
       else kernel_main num a1 a2 ga ia isr irq sy frame input junk (concat (map fst ls) @ ks @ rest) t m = None)"
proof -
  let ?run = "kernel_main num a1 a2 ga ia isr irq sy frame input junk (concat (map fst ls) @ ks @ rest) t m"
  from kernel_start_ok [OF assms(1,2), of a1 a2 ga ia isr irq t] obtain t' m0 where
    s: "kernel_start num a1 a2 ga ia isr irq t m = Some (t', m0)" "machine_ok m0" "edits new_editor (device (board m0))"
      "booted (kern m0)" "files (disk m0) = Map.empty" by blast
  note script = script_runs [OF s(2,3) assms(3-6), of frame "ks @ rest"]
  have "if reads_fit (commands sy ls) (disk m0)
       then \<exists>m'. ?run = Some (t', Leave m') \<and> booted (kern m') \<and> fs_inv (disk m') \<and> disk m' = fold disk_after (commands sy ls) (disk m0)
       else ?run = None"
  proof (cases "reads_fit (commands sy ls) (disk m0)")
    case False
    then have "?run = None" unfolding kernel_main_def s(1) using script by simp
    with False show ?thesis by simp
  next
    case True
    with script obtain m1 where
      m1: "cli_loop sy frame input junk (concat (map fst ls) @ ks @ rest) m0 = cli_loop sy frame input junk (ks @ rest) m1"
        "machine_ok m1" "kern m1 = kern m0" "disk m1 = fold disk_after (commands sy ls) (disk m0)" "edits e1 (device (board m1))" by auto
    from exit_leaves [OF m1(2,5) assms(3,7,8), of frame junk rest] obtain m2 where
      m2: "cli_loop sy frame input junk (ks @ rest) m1 = Some (rest, Leave m2)" "machine_ok m2" "kern m2 = kern m1" "disk m2 = disk m1" by blast
    have "NUL \<notin> set ''Kernel execution terminated.\<newline>''" by simp
    from say_ok [OF m2(2) this] obtain m3 where
      m3: "say ''Kernel execution terminated.\<newline>'' m2 = Some m3" "machine_ok m3" "kern m3 = kern m2" "disk m3 = disk m2" by blast
    have "?run = Some (t', Leave m3)"
      by (simp only: kernel_main_def s(1) m1(1) m2(1) m3(1) Option.bind.bind_lunit prod.case cli_result.case)
    with True s(4) m1(3,4) m2(3,4) m3(2-4) show ?thesis by (simp add: machine_ok_def)
  qed
  with s(1,5) show ?thesis by blast
qed

theorem session_ends_witness:
  "\<exists>t' m'. kernel_main (replicate 10 NUL) 0 0 0 0 0 (\<lambda>_. 0) some_symbols 0 (replicate 128 NUL) (replicate 128 NUL)
      (ls_keys @ ls_keys @ exit_keys @ []) no_tables new_machine = Some (t', Leave m')
    \<and> booted (kern m')"
proof -
  have l: "length (replicate 10 NUL) = 10" "length (replicate 128 NUL) = 128" by simp_all
  have e: "enters_all new_editor [(ls_keys, ''ls''), (ls_keys, ''ls'')] new_editor" using enters_ls by auto
  have "parse some_symbols (take 127 ''ls'') = ListFiles" by (simp add: parse_def next_word_def)
  then have c: "commands some_symbols [(ls_keys, ''ls''), (ls_keys, ''ls'')] = [ListFiles, ListFiles]" by (simp add: commands_def)
  then have g: "\<forall>c\<in>set (commands some_symbols [(ls_keys, ''ls''), (ls_keys, ''ls'')]). stays c" by simp
  have x: "parse some_symbols (take 127 ''exit'') = Exit" by (simp add: parse_def next_word_def)
  from session_ends [OF new_machine_loaded l(1,2,2) e g enters_exit x, of 0 0 0 0 0 "\<lambda>_. 0" no_tables 0 "[]"]
  show ?thesis unfolding c by (simp only: list.map fst_conv concat.simps append.simps append_assoc append_Nil2) auto
qed

end
