(* ===== verification/SelfTests.thy ===== *)
theory SelfTests
  imports Process
begin

text \<open>
  The self tests \<^verbatim>\<open>test_processes/process_test.c\<close> and \<^verbatim>\<open>test_processes/syscall_test.c\<close>: programs that create processes and
  fork, yield, wait and exit. A program runs in pieces, from one switch of the processor to the next; where it
  continues is the address in \<open>eip\<close>, which the kernel has saved on the stack of the process and
  taken from there again.

  What the compiler chooses is in \<open>build\<close>: the addresses of the entry points and behind the calls, and how much
  room a function takes on the stack. The variables of a function live at its frame pointer \<open>ebp\<close>; \<open>frames\<close> has
  them by this address, so that two processes with the same frame pointer share them. What a
  program sends to the serial line is the list \<open>said\<close>, without the lines of the kernel.
\<close>

subsection \<open>State\<close>

datatype routine =
    Process_Test | Test_Scheduler | Test_Process_1 | Test_Process_2 | Test_Process_3
  | Syscall_Test | Simple_Fork | Multiple_Forks

text \<open>Where a program can be: at its beginning, behind a call that it comes back from, or behind its last \<open>yield_syscall\<close>.\<close>

datatype point =
    Start routine
  | Yielded routine
  | Forked nat
  | Waited routine
  | Woken
  | Over routine

definition points :: "point list" where
  "points = concat (map (\<lambda>r. [Start r, Yielded r, Waited r, Over r])
       [Process_Test, Test_Scheduler, Test_Process_1, Test_Process_2, Test_Process_3, Syscall_Test, Simple_Fork, Multiple_Forks])
     @ [Forked 0, Forked 1, Forked 2, Forked 3, Woken]"

datatype printed =
    Debug string
  | Serial string
  | Number u32

record locals =
  loop_i :: int
  local_x :: int
  child_pid :: int
  original_child_pid :: int
  child_pids :: "nat \<Rightarrow> int"
  fork_count :: int
  status_of :: int
  wait_result :: int
  children_collected :: int
  total_status :: int

record build =
  address :: "point \<Rightarrow> u32"
  room :: "routine \<Rightarrow> nat"
  schedule_frame :: nat
  x_offset :: "routine \<Rightarrow> u32"
  wait_room :: nat

record tester =
  os :: kernel
  frames :: "u32 \<Rightarrow> locals"
  test_processes :: "nat \<Rightarrow> ptr"
  said :: "printed list"

text \<open>The processor goes on in some process, or the command line is entered.\<close>

datatype progress =
    Goes tester
  | Stops tester

subsection \<open>Calls\<close>

definition send :: "printed list \<Rightarrow> tester \<Rightarrow> tester" where
  "send rs t = t\<lparr>said := said t @ rs\<rparr>"

definition my :: "tester \<Rightarrow> locals" where
  "my t = frames t (ebp (os t))"

definition set_my :: "(locals \<Rightarrow> locals) \<Rightarrow> tester \<Rightarrow> tester" where
  "set_my f t = t\<lparr>frames := (frames t)(ebp (os t) := f (my t))\<rparr>"

text \<open>The beginning of a function: \<^verbatim>\<open>push %ebp; mov %esp, %ebp; sub $n, %esp\<close>.\<close>

definition open_frame :: "build \<Rightarrow> routine \<Rightarrow> tester \<Rightarrow> tester option" where
  "open_frame b r t = do {
     k \<leftarrow> push (ebp (os t)) (os t);
     Some (t\<lparr>os := k\<lparr>ebp := of_nat (esp k), esp := esp k - room b r\<rparr>\<rparr>)
   }"

text \<open>The end of a function, \<^verbatim>\<open>leave; ret\<close>, with the result in \<open>eax\<close>.\<close>

definition give_back :: "kernel \<Rightarrow> kernel option" where
  "give_back k = resume (unat (ebp k)) k"

definition hand_over :: "unit outcome \<Rightarrow> tester \<Rightarrow> progress option" where
  "hand_over r t =
     (case r of
        Returned u k \<Rightarrow> map_option (\<lambda>k'. Goes (t\<lparr>os := k'\<rparr>)) (give_back k)
      | Switched k \<Rightarrow> Some (Goes (t\<lparr>os := k\<rparr>))
      | Idle k \<Rightarrow> Some (Stops (t\<lparr>os := k\<rparr>)))"

definition call_yield :: "build \<Rightarrow> point \<Rightarrow> tester \<Rightarrow> progress option" where
  "call_yield b p t = Option.bind (yield_syscall (address b p) (schedule_frame b) (os t)) (\<lambda>r. hand_over r t)"

text \<open>A call of \<open>exit_syscall\<close> that returns has no result here, as a program never gets there.\<close>

definition call_exit :: "build \<Rightarrow> int \<Rightarrow> tester \<Rightarrow> progress option" where
  "call_exit b st t = do {
     r \<leftarrow> exit_syscall st (schedule_frame b) (os t);
     (case r of Returned u k \<Rightarrow> None | Switched k \<Rightarrow> Some (Goes (t\<lparr>os := k\<rparr>)) | Idle k \<Rightarrow> Some (Stops (t\<lparr>os := k\<rparr>)))
   }"

definition call_fork :: "build \<Rightarrow> nat \<Rightarrow> tester \<Rightarrow> progress option" where
  "call_fork b n t = do {
     (v, k) \<leftarrow> fork_syscall (address b (Forked n)) (os t);
     k' \<leftarrow> give_back k;
     Some (Goes (t\<lparr>os := k'\<lparr>eax := word_of_int v\<rparr>\<rparr>))
   }"

text \<open>\<open>wait_syscall(&status)\<close> comes back: the status goes to the variable of the caller.\<close>

definition wait_done :: "(int \<times> int option) outcome \<Rightarrow> tester \<Rightarrow> progress option" where
  "wait_done r t =
     (case r of
        Returned (w, st) k \<Rightarrow> do {
          k' \<leftarrow> give_back k;
          let t' = t\<lparr>os := k'\<lparr>eax := word_of_int w\<rparr>\<rparr>;
          Some (Goes (case st of None \<Rightarrow> t' | Some v \<Rightarrow> set_my (status_of_update (\<lambda>_. v)) t'))
        }
      | Switched k \<Rightarrow> Some (Goes (t\<lparr>os := k\<rparr>))
      | Idle k \<Rightarrow> Some (Stops (t\<lparr>os := k\<rparr>)))"

definition call_wait :: "build \<Rightarrow> routine \<Rightarrow> tester \<Rightarrow> progress option" where
  "call_wait b r t = Option.bind
     (wait_syscall (address b (Waited r)) (wait_room b) (address b Woken) (schedule_frame b) True (os t)) (\<lambda>v. wait_done v t)"

definition woken :: "tester \<Rightarrow> progress option" where
  "woken t = do {
     p \<leftarrow> current_process (os t);
     r \<leftarrow> wait_resumed p True (os t);
     wait_done r t
   }"

text \<open>\<open>create_process(get_new_pid(), entry, ...)\<close>.\<close>

definition new_process :: "u32 \<Rightarrow> int \<Rightarrow> int \<Rightarrow> int \<Rightarrow> tester \<Rightarrow> (ptr \<times> tester) option" where
  "new_process entry prio dl ttr t = do {
     let (n, k) = get_new_pid (os t);
     (p, k') \<leftarrow> create_process n entry prio dl ttr k;
     Some (p, t\<lparr>os := k'\<rparr>)
   }"

text \<open>The last two statements of most of the programs.\<close>

definition leave_test :: "build \<Rightarrow> routine \<Rightarrow> tester \<Rightarrow> progress option" where
  "leave_test b r t = do {
     p \<leftarrow> current_process (os t);
     call_yield b (Over r) (t\<lparr>os := upd_pcb p (state_update (\<lambda>_. STATE_EXIT)) (os t)\<rparr>)
   }"

subsection \<open>\<^verbatim>\<open>process_test.c\<close>\<close>

text \<open>The lines of one iteration, with the value and the address of the variable.\<close>

definition iteration_1 :: "u32 \<Rightarrow> int \<Rightarrow> int \<Rightarrow> printed list" where
  "iteration_1 x_at i x = [Serial ''DEBUG: Test process 1 iteration '', Number (word_of_int i),
     Serial ''x is '', Number (word_of_int x), Serial ''and it is stored at location: '', Number x_at]"

definition iteration_2 :: "u32 \<Rightarrow> int \<Rightarrow> int \<Rightarrow> printed list" where
  "iteration_2 y_at i y = [Serial ''DEBUG: Test process 2 iteration '', Number (word_of_int i),
     Serial ''y is '', Number (word_of_int y), Serial ''and it is stored at location: '', Number y_at]"

definition variable_at :: "build \<Rightarrow> routine \<Rightarrow> tester \<Rightarrow> u32" where
  "variable_at b r t = ebp (os t) - x_offset b r"

text \<open>The loops from the test of the condition to the next \<open>yield_syscall\<close>.\<close>

definition test_process_1_loop :: "build \<Rightarrow> tester \<Rightarrow> progress option" where
  "test_process_1_loop b t =
     (if loop_i (my t) < 3
      then call_yield b (Yielded Test_Process_1) (send (iteration_1 (variable_at b Test_Process_1 t) (loop_i (my t)) (local_x (my t))) t)
      else leave_test b Test_Process_1 (send [Debug ''DEBUG: Test process 1 complete''] t))"

definition test_process_1 :: "build \<Rightarrow> tester \<Rightarrow> progress option" where
  "test_process_1 b t0 = do {
     t \<leftarrow> open_frame b Test_Process_1 t0;
     test_process_1_loop b (set_my (\<lambda>l. l\<lparr>local_x := 4, loop_i := 0\<rparr>) (send [Debug ''DEBUG: Test process 1 running''] t))
   }"

definition test_process_2_loop :: "build \<Rightarrow> tester \<Rightarrow> progress option" where
  "test_process_2_loop b t =
     (if loop_i (my t) < 2
      then call_yield b (Yielded Test_Process_2) (send (iteration_2 (variable_at b Test_Process_2 t) (loop_i (my t)) (local_x (my t))) t)
      else leave_test b Test_Process_2 (send [Debug ''DEBUG: Test process 2 complete''] t))"

definition test_process_2 :: "build \<Rightarrow> tester \<Rightarrow> progress option" where
  "test_process_2 b t0 = do {
     t \<leftarrow> open_frame b Test_Process_2 t0;
     test_process_2_loop b (set_my (\<lambda>l. l\<lparr>local_x := 5, loop_i := 0\<rparr>) (send [Debug ''DEBUG: Test process 2 running''] t))
   }"

definition test_process_3 :: "build \<Rightarrow> tester \<Rightarrow> progress option" where
  "test_process_3 b t0 = do {
     t \<leftarrow> open_frame b Test_Process_3 t0;
     leave_test b Test_Process_3 (send [Debug ''DEBUG: Test process 3 running'', Debug ''DEBUG: Test process 3 complete''] t)
   }"

text \<open>
  The queue of the test is a local variable. A NULL from \<open>create_process\<close> would be followed.
\<close>

definition verdict :: "bool \<Rightarrow> string \<Rightarrow> string \<Rightarrow> printed" where
  "verdict c yes no = Debug (if c then yes else no)"

definition test_queue_operations :: "build \<Rightarrow> tester \<Rightarrow> tester option" where
  "test_queue_operations b t = do {
     let q0 = initialize_queue;
     let t0 = send [Debug ''DEBUG: Testing queue operations'',
       verdict (is_queue_empty q0) ''DEBUG: Queue is empty - PASS'' ''DEBUG: Queue should be empty - FAIL''] t;
     (x1, t1) \<leftarrow> new_process (address b (Start Test_Process_1)) 1 2 3 t0;
     (x2, t2) \<leftarrow> new_process (address b (Start Test_Process_2)) 1 4 5 t1;
     p1 \<leftarrow> x1;
     (q1, h1) \<leftarrow> enqueue_process q0 p1 (pcbs (os t2));
     p2 \<leftarrow> x2;
     (q2, h2) \<leftarrow> enqueue_process q1 p2 h1;
     let (d1, q3, h3) = dequeue_process q2 h2;
     let (d2, q4, h4) = dequeue_process q3 h3;
     Some (send [verdict (\<not> is_queue_empty q1) ''DEBUG: Queue has one process - PASS'' ''DEBUG: Queue should have one process - FAIL'',
         verdict (d1 = Some p1) ''DEBUG: Dequeued first process - PASS'' ''DEBUG: Dequeued wrong process - FAIL'',
         verdict (d2 = Some p2) ''DEBUG: Dequeued second process - PASS'' ''DEBUG: Dequeued wrong process - FAIL'',
         verdict (is_queue_empty q4) ''DEBUG: Queue is empty after dequeuing - PASS''
           ''DEBUG: Queue should be empty after dequeuing - FAIL'',
         Debug ''DEBUG: Queue operations test complete'']
       (t2\<lparr>os := (os t2)\<lparr>pcbs := h4\<rparr>\<rparr>))
   }"

definition test_process_creation :: "build \<Rightarrow> tester \<Rightarrow> tester option" where
  "test_process_creation b t = do {
     let (initial_pid, k) = get_new_pid (os t);
     (x, t1) \<leftarrow> new_process (address b (Start Test_Process_1)) 1 2 3 (send [Debug ''DEBUG: Testing process creation''] (t\<lparr>os := k\<rparr>));
     case x of
       None \<Rightarrow> Some (send [Debug ''DEBUG: Process creation failed - FAIL''] t1)
     | Some p1 \<Rightarrow>
         Some (send [Debug ''DEBUG: Process created successfully - PASS'',
             verdict (pid (pcbs (os t1) p1) = initial_pid + 1) ''DEBUG: PID assigned correctly - PASS''
               ''DEBUG: PID assignment incorrect - FAIL'',
             verdict (state (pcbs (os t1) p1) = STATE_READY) ''DEBUG: Process state is READY - PASS''
               ''DEBUG: Process state should be READY - FAIL'',
             Debug ''DEBUG: Process creation test complete''] t1)
   }"

partial_function (option) clear_ready :: "kernel \<Rightarrow> kernel option" where
  "clear_ready k =
     (if is_queue_empty (ready_queue k) then Some k
      else clear_ready (let (p, q, h) = dequeue_process (ready_queue k) (pcbs k) in k\<lparr>ready_queue := q, pcbs := h\<rparr>))"

definition test_scheduler_loop :: "build \<Rightarrow> tester \<Rightarrow> progress option" where
  "test_scheduler_loop b t =
     (if loop_i (my t) < 5
      then call_yield b (Yielded Test_Scheduler) (send [Debug ''DEBUG: Scheduler iteration''] t)
      else leave_test b Test_Scheduler (send [Debug ''DEBUG: Scheduler test complete''] t))"

definition test_scheduler :: "build \<Rightarrow> tester \<Rightarrow> progress option" where
  "test_scheduler b t0 = do {
     t1 \<leftarrow> open_frame b Test_Scheduler t0;
     let t2 = send [Debug ''DEBUG: Testing scheduler started.''] t1;
     k \<leftarrow> clear_ready (os t2);
     (x0, t3) \<leftarrow> new_process (address b (Start Test_Process_1)) 1 2 3 (t2\<lparr>os := k\<rparr>);
     (x1, t4) \<leftarrow> new_process (address b (Start Test_Process_2)) 1 4 5 t3;
     (x2, t5) \<leftarrow> new_process (address b (Start Test_Process_3)) 1 6 7 t4;
     let t6 = t5\<lparr>test_processes := (test_processes t5)(0 := x0, 1 := x1, 2 := x2)\<rparr>;
     test_scheduler_loop b (set_my (loop_i_update (\<lambda>_. 0)) (send [Debug ''DEBUG: Created test processes''] t6))
   }"

text \<open>
  \<open>process_test\<close> calls \<open>schedule\<close> itself: what is saved of its context is what it was created with.
\<close>

definition process_test :: "build \<Rightarrow> tester \<Rightarrow> progress option" where
  "process_test b t0 = do {
     t1 \<leftarrow> open_frame b Process_Test t0;
     (x, t2) \<leftarrow> new_process (address b (Start Test_Scheduler)) 1 2 3
        (send [Debug ''DEBUG: Starting comprehensive process management test''] t1);
     r \<leftarrow> schedule (schedule_frame b) (os t2);
     hand_over r t2
   }"

subsection \<open>\<^verbatim>\<open>syscall_test.c\<close>\<close>

definition test_simple_fork :: "build \<Rightarrow> tester \<Rightarrow> progress option" where
  "test_simple_fork b t0 = do {
     t \<leftarrow> open_frame b Simple_Fork t0;
     call_fork b 0 (send [Debug ''DEBUG: Testing simple fork''] t)
   }"

text \<open>Behind \<open>fork_syscall\<close>, in the parent and in the child.\<close>

definition simple_fork_forked :: "build \<Rightarrow> tester \<Rightarrow> progress option" where
  "simple_fork_forked b t0 =
     (let v = sint (eax (os t0));
          t = send [Debug ''DEBUG: Fork returned with PID:'', Number (word_of_int v)] (set_my (child_pid_update (\<lambda>_. v)) t0) in
      if child_pid (my t) = 0
      then call_exit b 42 (send [Debug ''DEBUG: Child process running'', Debug ''DEBUG: Child process exiting''] t)
      else if child_pid (my t) > 0
      then call_wait b Simple_Fork (set_my (\<lambda>l. l\<lparr>original_child_pid := child_pid l, status_of := 0\<rparr>) t)
      else leave_test b Simple_Fork (send [Debug ''DEBUG: Fork failed''] t))"

definition simple_fork_waited :: "build \<Rightarrow> tester \<Rightarrow> progress option" where
  "simple_fork_waited b t0 =
     (let t = set_my (wait_result_update (\<lambda>_. sint (eax (os t0)))) t0 in
      leave_test b Simple_Fork (send [Debug ''DEBUG: Wait returned with PID:'', Number (word_of_int (wait_result (my t))),
          Debug ''DEBUG: Child exit status:'', Number (word_of_int (status_of (my t))),
          verdict (wait_result (my t) = original_child_pid (my t) \<and> status_of (my t) = 42)
            ''DEBUG: Simple fork test PASSED'' ''DEBUG: Simple fork test FAILED''] t))"

definition test_multiple_forks :: "build \<Rightarrow> tester \<Rightarrow> progress option" where
  "test_multiple_forks b t0 = do {
     t \<leftarrow> open_frame b Multiple_Forks t0;
     call_fork b 1 (set_my (fork_count_update (\<lambda>_. 0)) (send [Debug ''DEBUG: Testing multiple forks''] t))
   }"

text \<open>The loop that waits for the children, from its condition to the next call.\<close>

definition collect_loop :: "build \<Rightarrow> tester \<Rightarrow> progress option" where
  "collect_loop b t =
     (if loop_i (my t) < fork_count (my t) then call_wait b Multiple_Forks t
      else leave_test b Multiple_Forks (send
        (if children_collected (my t) = 3 \<and> total_status (my t) = 60
         then [Debug ''DEBUG: Multiple forks test PASSED'']
         else [Debug ''DEBUG: Multiple forks test FAILED'', Debug ''DEBUG: Children collected:'',
           Number (word_of_int (children_collected (my t))), Debug ''DEBUG: Total status:'', Number (word_of_int (total_status (my t)))]) t))"

text \<open>Behind the \<open>n\<close>-th of the three forks.\<close>

definition multiple_forks_forked :: "build \<Rightarrow> nat \<Rightarrow> tester \<Rightarrow> progress option" where
  "multiple_forks_forked b n t0 =
     (let v = sint (eax (os t0));
          t = set_my (child_pids_update (\<lambda>c. c(n - 1 := v))) t0 in
      if child_pids (my t) (n - 1) = 0
      then call_exit b (10 * int n) (send [Debug (if n = 1 then ''DEBUG: First child process running''
          else if n = 2 then ''DEBUG: Second child process running'' else ''DEBUG: Third child process running'')] t)
      else if child_pids (my t) (n - 1) > 0
      then (let t1 = set_my (fork_count_update (\<lambda>c. c + 1)) t in
        if n < 3 then call_fork b (n + 1) t1
        else collect_loop b (set_my (\<lambda>l. l\<lparr>status_of := 0, children_collected := 0, total_status := 0, loop_i := 0\<rparr>)
          (send [Debug ''DEBUG: Parent created 3 children''] t1)))
      else leave_test b Multiple_Forks (send [Debug (if n = 1 then ''DEBUG: First fork failed''
          else if n = 2 then ''DEBUG: Second fork failed'' else ''DEBUG: Third fork failed'')] t))"

definition multiple_forks_waited :: "build \<Rightarrow> tester \<Rightarrow> progress option" where
  "multiple_forks_waited b t0 =
     (let t1 = set_my (wait_result_update (\<lambda>_. sint (eax (os t0)))) t0;
          t2 = send [Debug ''DEBUG: Wait returned with PID:'', Number (word_of_int (wait_result (my t1))),
            Debug ''DEBUG: Child exit status:'', Number (word_of_int (status_of (my t1)))] t1;
          t3 = (if wait_result (my t2) > 0
                then set_my (\<lambda>l. l\<lparr>children_collected := children_collected l + 1, total_status := total_status l + status_of l\<rparr>) t2
                else t2) in
      collect_loop b (set_my (loop_i_update (\<lambda>i. i + 1)) t3))"

text \<open>A \<open>return\<close> from the program has no result, like one from \<open>exit_syscall\<close>.\<close>

definition syscall_test :: "build \<Rightarrow> tester \<Rightarrow> progress option" where
  "syscall_test b t0 = do {
     t1 \<leftarrow> open_frame b Syscall_Test t0;
     (x, t2) \<leftarrow> new_process (address b (Start Simple_Fork)) 1 2 3 (send [Debug ''DEBUG: Starting fork and wait syscall tests''] t1);
     parent_process \<leftarrow> x;
     call_exit b 0 (send [Debug ''DEBUG: Fork and wait syscall tests complete''] t2)
   }"

subsection \<open>The processor\<close>

text \<open>One piece of a program, at the address in \<open>eip\<close>. Behind the last call of a program there is nothing to go on with.\<close>

definition program :: "build \<Rightarrow> point \<Rightarrow> tester \<Rightarrow> progress option" where
  "program b p t =
     (case p of
        Start Process_Test \<Rightarrow> process_test b t
      | Start Test_Scheduler \<Rightarrow> test_scheduler b t
      | Start Test_Process_1 \<Rightarrow> test_process_1 b t
      | Start Test_Process_2 \<Rightarrow> test_process_2 b t
      | Start Test_Process_3 \<Rightarrow> test_process_3 b t
      | Start Syscall_Test \<Rightarrow> syscall_test b t
      | Start Simple_Fork \<Rightarrow> test_simple_fork b t
      | Start Multiple_Forks \<Rightarrow> test_multiple_forks b t
      | Yielded Test_Process_1 \<Rightarrow> test_process_1_loop b (set_my (loop_i_update (\<lambda>i. i + 1)) t)
      | Yielded Test_Process_2 \<Rightarrow> test_process_2_loop b (set_my (loop_i_update (\<lambda>i. i + 1)) t)
      | Yielded Test_Scheduler \<Rightarrow> test_scheduler_loop b (set_my (loop_i_update (\<lambda>i. i + 1)) t)
      | Forked n \<Rightarrow> if n = 0 then simple_fork_forked b t else multiple_forks_forked b n t
      | Waited Simple_Fork \<Rightarrow> simple_fork_waited b t
      | Waited Multiple_Forks \<Rightarrow> multiple_forks_waited b t
      | Woken \<Rightarrow> woken t
      | _ \<Rightarrow> None)"

definition piece :: "build \<Rightarrow> tester \<Rightarrow> progress option" where
  "piece b t = Option.bind (find (\<lambda>p. address b p = eip (os t)) points) (\<lambda>p. program b p t)"

text \<open>At most \<open>n\<close> pieces, until the command line is entered.\<close>

primrec pieces :: "build \<Rightarrow> nat \<Rightarrow> tester \<Rightarrow> progress option" where
  "pieces b 0 t = Some (Goes t)"
| "pieces b (Suc n) t =
     Option.bind (piece b t) (\<lambda>r. case r of Goes t' \<Rightarrow> pieces b n t' | Stops t' \<Rightarrow> Some (Stops t'))"

end
