(* ===== verification/TestRuns.thy ===== *)
theory TestRuns
  imports SelfTests CallProps
begin

text \<open>
  What \<open>yield_syscall\<close> does when the ready queue is a list of processes of one priority, whatever else the
  process table holds: the caller goes behind the others and the first of the queue
  continues with the context that it has saved. This does without the invariant of the kernel, which one of
  the self tests breaks.
\<close>

subsection \<open>One switch\<close>

definition peers :: "kernel \<Rightarrow> addr list \<Rightarrow> bool" where
  "peers k qs \<longleftrightarrow> queue_list (ready_queue k) (pcbs k) qs \<and> (\<forall>a\<in>set qs. priority (pcbs k a) = 1)"

definition rejoin :: "kernel \<Rightarrow> addr \<Rightarrow> addr list \<Rightarrow> addr list" where
  "rejoin k p qs = (if state (pcbs k p) = STATE_RUNNING then qs @ [p] else qs)"

lemma place_peers: "(\<forall>a\<in>set qs. f a = (1::int)) \<Longrightarrow> f p = 1 \<Longrightarrow> place f p qs = qs @ [p]"
proof -
  assume a: "\<forall>a\<in>set qs. f a = 1" "f p = 1"
  then have "takeWhile (\<lambda>a. f a \<le> f p) qs = qs" by (intro takeWhile_eq_all_conv [THEN iffD2]) auto
  moreover from a have "dropWhile (\<lambda>a. f a \<le> f p) qs = []" by auto
  ultimately show ?thesis by (simp add: place_def)
qed

lemma put_back_peers:
  assumes "current_process k = Some p" "peers k qs" "p \<notin> set qs" "priority (pcbs k p) = 1"
  shows "\<exists>q h. put_back k = Some (k\<lparr>ready_queue := q, pcbs := h\<rparr>) \<and> queue_list q h (rejoin k p qs)
    \<and> (\<forall>a. kernel_stack_ptr (h a) = kernel_stack_ptr (pcbs k a) \<and> is_new_child (h a) = is_new_child (pcbs k a)
        \<and> user_stack_ptr (h a) = user_stack_ptr (pcbs k a))"
proof (cases "state (pcbs k p) = STATE_RUNNING")
  case True
  let ?k = "upd_pcb p (state_update (\<lambda>_. STATE_READY)) k"
  have "queue_list (ready_queue ?k) (pcbs ?k) qs"
    using assms(2,3) by (auto simp: peers_def intro: queue_list_cong)
  from enqueue_ready_list [OF this assms(3)] obtain q h where
    e: "enqueue_ready p ?k = Some (?k\<lparr>ready_queue := q, pcbs := h\<rparr>)"
    and l: "queue_list q h (place (\<lambda>a. priority (pcbs ?k a)) p qs)" and s: "same_but_next (insert p (set qs)) (pcbs ?k) h" by blast
  have k': "?k\<lparr>ready_queue := q, pcbs := h\<rparr> = k\<lparr>ready_queue := q, pcbs := h\<rparr>" by (simp add: upd_pcb_def)
  have "place (\<lambda>a. priority (pcbs ?k a)) p qs = qs @ [p]"
    by (rule place_peers) (use assms(2,4) in \<open>auto simp: peers_def\<close>)
  moreover have "put_back k = enqueue_ready p ?k" using assms(1) True by (simp add: put_back_def)
  ultimately have "put_back k = Some (k\<lparr>ready_queue := q, pcbs := h\<rparr>)" "queue_list q h (rejoin k p qs)"
    using e l True by (simp_all add: k' rejoin_def)
  moreover have "kernel_stack_ptr (h a) = kernel_stack_ptr (pcbs k a) \<and> is_new_child (h a) = is_new_child (pcbs k a)
        \<and> user_stack_ptr (h a) = user_stack_ptr (pcbs k a)" for a by (simp add: same_but_nextD [OF s])
  ultimately show ?thesis by blast
next
  case False
  have "put_back k = Some (k\<lparr>ready_queue := ready_queue k, pcbs := pcbs k\<rparr>)" using assms(1) False by (simp add: put_back_def)
  moreover have "queue_list (ready_queue k) (pcbs k) (rejoin k p qs)" using assms(2) False by (simp add: rejoin_def peers_def)
  ultimately show ?thesis by blast
qed

lemma schedule_peers_idle:
  assumes "current_process k = Some p" "peers k qs" "p \<notin> set qs" "priority (pcbs k p) = 1" "rejoin k p qs = []"
  shows "schedule frame k = Some (Idle k)"
proof -
  have "qs = []" "state (pcbs k p) \<noteq> STATE_RUNNING" using assms(5) by (auto simp: rejoin_def split: if_splits)
  then have "put_back k = Some k" "queue_list (ready_queue k) (pcbs k) []" using assms(1,2) by (simp_all add: put_back_def peers_def)
  with dequeue_list(1) show ?thesis by (simp add: schedule_def)
qed

lemma schedule_peers:
  assumes "current_process k = Some p" "peers k qs" "p \<notin> set qs" "priority (pcbs k p) = 1"
    and "rejoin k p qs = q # rest" "user_stack_ptr (pcbs k q) + 8 \<le> KERNEL_MEMORY_SIZE"
  shows "\<exists>k'. schedule frame k = Some (Switched k') \<and> current_process k' = Some q \<and> peers k' rest
    \<and> arena k' = arena k \<and> process_table_head k' = process_table_head k \<and> next_pid k' = next_pid k
    \<and> ebp k' = load32 (user_stack_ptr (pcbs k q)) (kernel_memory (arena k))
    \<and> eip k' = load32 (user_stack_ptr (pcbs k q) + 4) (kernel_memory (arena k)) \<and> esp k' = user_stack_ptr (pcbs k q) + 8
    \<and> eax k' = (if is_new_child (pcbs k q) then 0 else eax k)
    \<and> (\<forall>a. kernel_stack_ptr (pcbs k a) \<noteq> None \<longrightarrow> kernel_stack_ptr (pcbs k' a) \<noteq> None)
    \<and> (\<forall>a. same_identity (pcbs k' a) (pcbs k a)
        \<and> state (pcbs k' a) = (if a = q then STATE_RUNNING
            else if a = p \<and> state (pcbs k p) = STATE_RUNNING then STATE_READY else state (pcbs k a)))"
proof -
  from put_back_peers [OF assms(1-4)] obtain q1 h1 where
    pb: "put_back k = Some (k\<lparr>ready_queue := q1, pcbs := h1\<rparr>)" and l: "queue_list q1 h1 (q # rest)"
    and h1: "\<And>a. kernel_stack_ptr (h1 a) = kernel_stack_ptr (pcbs k a) \<and> is_new_child (h1 a) = is_new_child (pcbs k a)
        \<and> user_stack_ptr (h1 a) = user_stack_ptr (pcbs k a)" unfolding assms(5) by blast
  from dequeue_list(2) [OF l] obtain q2 h2 where
    d: "dequeue_process q1 h1 = (Some q, q2, h2)" "queue_list q2 h2 rest" "same_but_next {q} h1 h2" by blast
  note n = same_but_nextD [OF d(3)]
  define k1 where "k1 = k\<lparr>ready_queue := q1, pcbs := h1\<rparr>"
  have k1: "dequeue_process (ready_queue k1) (pcbs k1) = (Some q, q2, h2)" by (simp add: k1_def d(1))
  define k3 where "k3 = upd_pcb q (state_update (\<lambda>_. STATE_RUNNING)) (k1\<lparr>ready_queue := q2, pcbs := h2\<rparr>)"
  define k4 where "k4 = (case current_process k3 of
                     None \<Rightarrow> k3
                   | Some c \<Rightarrow> upd_pcb c (kernel_stack_ptr_update (\<lambda>_. Some (esp k3 - frame))) k3)"
  define k5 where "k5 = (if is_new_child (pcbs k4 q)
     then (upd_pcb q (is_new_child_update (\<lambda>_. False)) k4)\<lparr>current_process := Some q, eax := 0\<rparr>
     else k4\<lparr>current_process := Some q\<rparr>)"
  have k4_eq: "k4 = upd_pcb p (kernel_stack_ptr_update (\<lambda>_. Some (esp k - frame))) k3"
    using assms(1) by (simp add: k4_def k3_def k1_def)
  have usp: "user_stack_ptr (pcbs k4 q) = user_stack_ptr (pcbs k q)" by (simp add: k4_eq k3_def k1_def n h1)
  have run: "schedule frame k = Option.bind (resume (user_stack_ptr (pcbs k q)) k5) (\<lambda>x. Some (Switched x))"
    by (simp only: schedule_def pb k1_def [symmetric] k1 Let_def split option.case bind.bind_lunit k3_def [symmetric]
        k4_def [symmetric] k5_def usp) (cases "is_new_child (pcbs k4 q)"; simp only: if_True if_False)
  have k5: "arena k5 = arena k" "process_table_head k5 = process_table_head k" "next_pid k5 = next_pid k"
    "current_process k5 = Some q" "ready_queue k5 = q2"
    by (simp_all add: k5_def k4_eq k3_def k1_def)
  have ax: "eax k5 = (if is_new_child (pcbs k q) then 0 else eax k)"
    by (simp add: k5_def k4_eq k3_def k1_def n h1)
  have pf: "next_ready (pcbs k5 a) = next_ready (h2 a)"
    "kernel_stack_ptr (pcbs k a) \<noteq> None \<Longrightarrow> kernel_stack_ptr (pcbs k5 a) \<noteq> None" for a
    by (auto simp: k5_def k4_eq k3_def k1_def n h1)
  from assms(6) obtain k' where k': "resume (user_stack_ptr (pcbs k q)) k5 = Some k'"
    by (simp add: resume_def read_word_def)
  note f = resume_frame [OF k']
  have sw: "schedule frame k = Some (Switched k')" using run k' by simp
  note s = schedule_keeps_pcbs [OF sw]
  have "set (q # rest) \<subseteq> insert p (set qs)" unfolding assms(5) [symmetric] by (auto simp: rejoin_def)
  then have "priority (pcbs k' a) = 1" if "a \<in> set rest" for a
    using s(1) [of a] assms(2,4) that by (auto simp: peers_def same_identity_def)
  moreover have "queue_list q2 (pcbs k') rest"
    by (rule queue_list_cong [OF d(2)]) (simp add: f pf)
  ultimately have "peers k' rest" by (simp add: peers_def f k5)
  then show ?thesis using sw f k5 ax pf(2) s assms(1) by auto
qed

text \<open>\<open>yield_syscall\<close>: the caller saves its context below its stack pointer.\<close>

lemma yield_prepares:
  assumes "current_process k = Some p" "kernel_stack_ptr (pcbs k p) \<noteq> None" "8 \<le> esp k" "esp k \<le> KERNEL_MEMORY_SIZE"
  shows "\<exists>k1. yield_syscall ret frame k = schedule frame k1 \<and> current_process k1 = Some p
    \<and> pcbs k1 = set_pcb p (user_stack_ptr_update (\<lambda>_. esp k - 8)) (pcbs k)
    \<and> arena k1 = (arena k)\<lparr>kernel_memory := store32 (esp k - 8) (ebp k) (store32 (esp k - 4) ret (kernel_memory (arena k)))\<rparr>
    \<and> ready_queue k1 = ready_queue k \<and> process_table_head k1 = process_table_head k \<and> next_pid k1 = next_pid k"
proof -
  have "4 \<le> esp k" "4 \<le> esp k - 4" "esp k - 4 \<le> KERNEL_MEMORY_SIZE" using assms(3,4) by linarith+
  then obtain k0 where e: "enter ret k = Some k0" using assms(4) by (simp add: enter_def push_def write_word_def)
  note f = enter_frame [OF e]
  have "unat (ebp k0) = esp k - 8" using assms(4) by (simp add: f(4) unsigned_of_nat take_bit_nat_eq_self)
  moreover obtain sp where "kernel_stack_ptr (pcbs k p) = Some sp" using assms(2) by blast
  ultimately have "yield_syscall ret frame k = schedule frame (upd_pcb p (user_stack_ptr_update (\<lambda>_. esp k - 8)) k0\<lparr>esp := sp\<rparr>)"
    using assms(1) by (simp add: yield_syscall_def e f(5,6))
  moreover have "arena k0 = (arena k)\<lparr>kernel_memory := store32 (esp k - 8) (ebp k) (store32 (esp k - 4) ret (kernel_memory (arena k)))\<rparr>"
    using f(10-12) by (simp add: mem_state.equality)
  ultimately show ?thesis using assms(1) f by (intro exI conjI) (assumption | simp add: upd_pcb_def)+
qed

definition saved_sp :: "kernel \<Rightarrow> addr \<Rightarrow> addr \<Rightarrow> addr" where
  "saved_sp k p a = (if a = p then esp k - 8 else user_stack_ptr (pcbs k a))"

definition saved_memory :: "u32 \<Rightarrow> kernel \<Rightarrow> nat \<Rightarrow> u8" where
  "saved_memory ret k = store32 (esp k - 8) (ebp k) (store32 (esp k - 4) ret (kernel_memory (arena k)))"

lemma yield_peers:
  assumes cur: "current_process k = Some p" and qs: "peers k qs" "p \<notin> set qs" "priority (pcbs k p) = 1"
    and sp: "kernel_stack_ptr (pcbs k p) \<noteq> None" "8 \<le> esp k" "esp k \<le> KERNEL_MEMORY_SIZE"
  shows "rejoin k p qs = [] \<Longrightarrow>
      \<exists>k'. yield_syscall ret frame k = Some (Idle k') \<and> is_queue_empty (ready_queue k') \<and> (\<forall>a. state (pcbs k' a) = state (pcbs k a))"
    and "rejoin k p qs = q # rest \<Longrightarrow> saved_sp k p q + 8 \<le> KERNEL_MEMORY_SIZE \<Longrightarrow>
      \<exists>k'. yield_syscall ret frame k = Some (Switched k') \<and> current_process k' = Some q \<and> peers k' rest
      \<and> kernel_memory (arena k') = saved_memory ret k
      \<and> ebp k' = load32 (saved_sp k p q) (saved_memory ret k)
      \<and> eip k' = load32 (saved_sp k p q + 4) (saved_memory ret k) \<and> esp k' = saved_sp k p q + 8
      \<and> (\<forall>a. kernel_stack_ptr (pcbs k a) \<noteq> None \<longrightarrow> kernel_stack_ptr (pcbs k' a) \<noteq> None)
      \<and> (\<forall>a. user_stack_ptr (pcbs k' a) = saved_sp k p a \<and> user_stack_base (pcbs k' a) = user_stack_base (pcbs k a)
          \<and> priority (pcbs k' a) = priority (pcbs k a)
          \<and> state (pcbs k' a) = (if a = q then STATE_RUNNING
              else if a = p \<and> state (pcbs k p) = STATE_RUNNING then STATE_READY else state (pcbs k a)))"
proof -
  from yield_prepares [OF cur sp, of ret frame] obtain k1 where
    y: "yield_syscall ret frame k = schedule frame k1" and c1: "current_process k1 = Some p"
    and h1: "pcbs k1 = set_pcb p (user_stack_ptr_update (\<lambda>_. esp k - 8)) (pcbs k)"
    and a1: "kernel_memory (arena k1) = saved_memory ret k" and q1: "ready_queue k1 = ready_queue k"
    by (auto simp: saved_memory_def)
  have f: "state (pcbs k1 a) = state (pcbs k a)" "priority (pcbs k1 a) = priority (pcbs k a)"
    "user_stack_base (pcbs k1 a) = user_stack_base (pcbs k a)" "user_stack_ptr (pcbs k1 a) = saved_sp k p a"
    "kernel_stack_ptr (pcbs k1 a) = kernel_stack_ptr (pcbs k a)" "next_ready (pcbs k1 a) = next_ready (pcbs k a)" for a
    by (simp_all add: h1 set_pcb_def saved_sp_def)
  have e1: "peers k1 qs"
    using qs(1) queue_list_cong [of "ready_queue k" "pcbs k" qs "pcbs k1"] by (simp add: peers_def q1 f)
  have r1: "rejoin k1 p qs = rejoin k p qs" by (simp add: rejoin_def f)
  have pr: "priority (pcbs k1 p) = 1" using qs(3) by (simp add: f)
  show "\<exists>k'. yield_syscall ret frame k = Some (Idle k') \<and> is_queue_empty (ready_queue k') \<and> (\<forall>a. state (pcbs k' a) = state (pcbs k a))"
    if "rejoin k p qs = []"
  proof -
    have "qs = []" using that by (simp add: rejoin_def split: if_splits)
    then have "is_queue_empty (ready_queue k1)" using e1 by (simp add: peers_def queue_list_def is_queue_empty_def)
    with schedule_peers_idle [OF c1 e1 qs(2) pr, of frame] that y f(1) show ?thesis by (simp add: r1)
  qed
  assume "rejoin k p qs = q # rest" "saved_sp k p q + 8 \<le> KERNEL_MEMORY_SIZE"
  then have q: "rejoin k1 p qs = q # rest" "user_stack_ptr (pcbs k1 q) + 8 \<le> KERNEL_MEMORY_SIZE" by (simp_all add: r1 f)
  from schedule_peers [OF c1 e1 qs(2) pr q, of frame] obtain k' where
    k': "schedule frame k1 = Some (Switched k')" "current_process k' = Some q" "peers k' rest" "arena k' = arena k1"
      "ebp k' = load32 (saved_sp k p q) (saved_memory ret k)" "eip k' = load32 (saved_sp k p q + 4) (saved_memory ret k)"
      "esp k' = saved_sp k p q + 8" "\<And>a. kernel_stack_ptr (pcbs k a) \<noteq> None \<Longrightarrow> kernel_stack_ptr (pcbs k' a) \<noteq> None"
    and id: "\<And>a. same_identity (pcbs k' a) (pcbs k1 a)"
    and st: "\<And>a. state (pcbs k' a) = (if a = q then STATE_RUNNING
            else if a = p \<and> state (pcbs k p) = STATE_RUNNING then STATE_READY else state (pcbs k a))"
    by (auto simp: f a1)
  have "user_stack_ptr (pcbs k' a) = saved_sp k p a \<and> user_stack_base (pcbs k' a) = user_stack_base (pcbs k a)
          \<and> priority (pcbs k' a) = priority (pcbs k a)" for a using id [of a] by (simp add: same_identity_def f)
  with k' st y a1 show "\<exists>k'. yield_syscall ret frame k = Some (Switched k')
      \<and> current_process k' = Some q \<and> peers k' rest
      \<and> kernel_memory (arena k') = saved_memory ret k
      \<and> ebp k' = load32 (saved_sp k p q) (saved_memory ret k)
      \<and> eip k' = load32 (saved_sp k p q + 4) (saved_memory ret k) \<and> esp k' = saved_sp k p q + 8
      \<and> (\<forall>a. kernel_stack_ptr (pcbs k a) \<noteq> None \<longrightarrow> kernel_stack_ptr (pcbs k' a) \<noteq> None)
      \<and> (\<forall>a. user_stack_ptr (pcbs k' a) = saved_sp k p a \<and> user_stack_base (pcbs k' a) = user_stack_base (pcbs k a)
          \<and> priority (pcbs k' a) = priority (pcbs k a)
          \<and> state (pcbs k' a) = (if a = q then STATE_RUNNING
              else if a = p \<and> state (pcbs k p) = STATE_RUNNING then STATE_READY else state (pcbs k a)))"
    by (intro exI [of _ k']) simp
qed

subsection \<open>Programs that take turns\<close>

text \<open>
  The abstract view: a program is at its beginning or behind a \<open>yield_syscall\<close> of its loop; one turn sends some lines
  and leads to the next place, or to the end of the program.
\<close>

datatype task =
    Fresh routine
  | Loop routine int

definition loop_turn :: "build \<Rightarrow> u32 \<Rightarrow> routine \<Rightarrow> int \<Rightarrow> printed list \<times> task option" where
  "loop_turn b bp r i =
     (if r = Test_Process_1 then
        if i < 3 then (iteration_1 (bp - x_offset b r) i 4, Some (Loop r i)) else ([Debug ''DEBUG: Test process 1 complete''], None)
      else if r = Test_Process_2 then
        if i < 2 then (iteration_2 (bp - x_offset b r) i 5, Some (Loop r i)) else ([Debug ''DEBUG: Test process 2 complete''], None)
      else
        if i < 5 then ([Debug ''DEBUG: Scheduler iteration''], Some (Loop r i)) else ([Debug ''DEBUG: Scheduler test complete''], None))"

fun task_turn :: "build \<Rightarrow> u32 \<Rightarrow> task \<Rightarrow> printed list \<times> task option" where
  "task_turn b bp (Loop r i) = loop_turn b bp r (i + 1)"
| "task_turn b bp (Fresh r) =
     (if r = Test_Process_1 then (case loop_turn b bp r 0 of (out, w) \<Rightarrow> (Debug ''DEBUG: Test process 1 running'' # out, w))
      else if r = Test_Process_2 then (case loop_turn b bp r 0 of (out, w) \<Rightarrow> (Debug ''DEBUG: Test process 2 running'' # out, w))
      else ([Debug ''DEBUG: Test process 3 running'', Debug ''DEBUG: Test process 3 complete''], None))"

fun known :: "task \<Rightarrow> bool" where
  "known (Fresh r) \<longleftrightarrow> r \<in> {Test_Process_1, Test_Process_2, Test_Process_3}"
| "known (Loop r i) \<longleftrightarrow> r \<in> {Test_Process_1, Test_Process_2, Test_Scheduler}"

definition again :: "addr \<Rightarrow> task option \<Rightarrow> (addr \<times> task) list" where
  "again p w = (case w of None \<Rightarrow> [] | Some tk \<Rightarrow> [(p, tk)])"

text \<open>The processes take turns in the order of the list; \<open>None\<close> when \<open>n\<close> turns are not enough.\<close>

primrec turns :: "build \<Rightarrow> (addr \<Rightarrow> u32) \<Rightarrow> nat \<Rightarrow> (addr \<times> task) list \<Rightarrow> printed list option" where
  "turns b bp 0 ws = (if ws = [] then Some [] else None)"
| "turns b bp (Suc n) ws =
     (case ws of
        [] \<Rightarrow> Some []
      | (p, tk) # rest \<Rightarrow>
          (case task_turn b (bp p) tk of (out, w) \<Rightarrow> map_option (\<lambda>o'. out @ o') (turns b bp n (rest @ again p w))))"

subsection \<open>The state of such a group\<close>

abbreviation stack_of :: "tester \<Rightarrow> addr \<Rightarrow> addr" where
  "stack_of t p \<equiv> user_stack_base (pcbs (os t) p)"

definition base_pointer :: "addr \<Rightarrow> u32" where
  "base_pointer s = of_nat (s + 4092)"

text \<open>The registers with which a program goes on.\<close>

fun saved_ebp :: "addr \<Rightarrow> task \<Rightarrow> u32" where
  "saved_ebp s (Fresh r) = 0"
| "saved_ebp s (Loop r i) = base_pointer s"

fun saved_eip :: "build \<Rightarrow> task \<Rightarrow> u32" where
  "saved_eip b (Fresh r) = address b (Start r)"
| "saved_eip b (Loop r i) = address b (Yielded r)"

fun saved_esp :: "build \<Rightarrow> addr \<Rightarrow> task \<Rightarrow> addr" where
  "saved_esp b s (Fresh r) = s + 4096"
| "saved_esp b s (Loop r i) = s + 4092 - room b r"

fun variables :: "(u32 \<Rightarrow> locals) \<Rightarrow> addr \<Rightarrow> task \<Rightarrow> bool" where
  "variables f s (Fresh r) = True"
| "variables f s (Loop r i) \<longleftrightarrow> loop_i (f (base_pointer s)) = i
     \<and> (r = Test_Process_1 \<longrightarrow> local_x (f (base_pointer s)) = 4) \<and> (r = Test_Process_2 \<longrightarrow> local_x (f (base_pointer s)) = 5)"

definition waits :: "build \<Rightarrow> tester \<Rightarrow> addr \<Rightarrow> task \<Rightarrow> bool" where
  "waits b t p tk \<longleftrightarrow> known tk \<and> variables (frames t) (stack_of t p) tk
     \<and> user_stack_ptr (pcbs (os t) p) + 8 = saved_esp b (stack_of t p) tk
     \<and> load32 (user_stack_ptr (pcbs (os t) p)) (kernel_memory (arena (os t))) = saved_ebp (stack_of t p) tk
     \<and> load32 (user_stack_ptr (pcbs (os t) p) + 4) (kernel_memory (arena (os t))) = saved_eip b tk"

definition continues :: "build \<Rightarrow> tester \<Rightarrow> addr \<Rightarrow> task \<Rightarrow> bool" where
  "continues b t p tk \<longleftrightarrow> known tk \<and> variables (frames t) (stack_of t p) tk \<and> state (pcbs (os t) p) = STATE_RUNNING
     \<and> esp (os t) = saved_esp b (stack_of t p) tk \<and> ebp (os t) = saved_ebp (stack_of t p) tk \<and> eip (os t) = saved_eip b tk"

definition crew :: "tester \<Rightarrow> addr list \<Rightarrow> bool" where
  "crew t ps \<longleftrightarrow> distinct ps
     \<and> (\<forall>p\<in>set ps. priority (pcbs (os t) p) = 1 \<and> kernel_stack_ptr (pcbs (os t) p) \<noteq> None
          \<and> stack_of t p + 4096 \<le> KERNEL_MEMORY_SIZE)
     \<and> (\<forall>p\<in>set ps. \<forall>q\<in>set ps. p \<noteq> q \<longrightarrow> stack_of t p + 4096 \<le> stack_of t q \<or> stack_of t q + 4096 \<le> stack_of t p)"

definition behind :: "build \<Rightarrow> tester \<Rightarrow> addr \<Rightarrow> (addr \<times> task) list \<Rightarrow> bool" where
  "behind b t p ws \<longleftrightarrow> current_process (os t) = Some p \<and> crew t (p # map fst ws) \<and> peers (os t) (map fst ws)
     \<and> (\<forall>(q, tk)\<in>set ws. waits b t q tk)"

definition small_frames :: "build \<Rightarrow> bool" where
  "small_frames b \<longleftrightarrow> (\<forall>r. room b r \<le> 4000)"

lemma base_pointer_unat: "s + 4096 \<le> KERNEL_MEMORY_SIZE \<Longrightarrow> unat (base_pointer s) = s + 4092"
  unfolding base_pointer_def by (subst unsigned_of_nat) (simp add: take_bit_nat_eq_self)

lemma base_pointer_eq:
  "s + 4096 \<le> KERNEL_MEMORY_SIZE \<Longrightarrow> s' + 4096 \<le> KERNEL_MEMORY_SIZE \<Longrightarrow> base_pointer s = base_pointer s' \<longleftrightarrow> s = s'"
  by (metis add_right_cancel base_pointer_unat)

lemma crewD:
  assumes "crew t ps" "p \<in> set ps"
  shows "priority (pcbs (os t) p) = 1" "kernel_stack_ptr (pcbs (os t) p) \<noteq> None" "stack_of t p + 4096 \<le> KERNEL_MEMORY_SIZE"
    "q \<in> set ps \<Longrightarrow> p \<noteq> q \<Longrightarrow> stack_of t p + 4096 \<le> stack_of t q \<or> stack_of t q + 4096 \<le> stack_of t p"
  using assms unfolding crew_def by blast+

lemma saved_esp_range:
  assumes "small_frames b"
  shows "s + 92 \<le> saved_esp b s tk" "saved_esp b s tk \<le> s + 4096"
proof -
  have "s + 92 \<le> saved_esp b s tk \<and> saved_esp b s tk \<le> s + 4096"
  proof (cases tk)
    case (Loop r i)
    have "room b r \<le> 4000" using assms by (simp add: small_frames_def)
    then have "s + 92 \<le> s + 4092 - room b r" "s + 4092 - room b r \<le> s + 4096" by linarith+
    with Loop show ?thesis by simp
  qed simp
  then show "s + 92 \<le> saved_esp b s tk" "saved_esp b s tk \<le> s + 4096" by simp_all
qed

text \<open>A waiting program does not notice what happens on another stack and in another frame.\<close>

lemma waits_keep:
  assumes "waits b t q tk" "small_frames b"
    and "user_stack_ptr (pcbs (os t') q) = user_stack_ptr (pcbs (os t) q)" "stack_of t' q = stack_of t q"
    and "frames t' (base_pointer (stack_of t q)) = frames t (base_pointer (stack_of t q))"
    and "\<And>a. stack_of t q \<le> a \<Longrightarrow> a < stack_of t q + 4096 \<Longrightarrow> kernel_memory (arena (os t')) a = kernel_memory (arena (os t)) a"
  shows "waits b t' q tk"
proof -
  let ?u = "user_stack_ptr (pcbs (os t) q)" and ?s = "stack_of t q"
  have u: "?u + 8 = saved_esp b ?s tk" using assms(1) by (simp add: waits_def)
  with saved_esp_range [OF assms(2), of ?s tk] have r: "?s \<le> ?u" "?u + 8 \<le> ?s + 4096" by simp_all
  have "load32 a (kernel_memory (arena (os t'))) = load32 a (kernel_memory (arena (os t)))" if "a = ?u \<or> a = ?u + 4" for a
    by (rule load32_cong) (use assms(6) r that in auto)
  moreover have "variables (frames t') ?s tk = variables (frames t) ?s tk" using assms(5) by (cases tk) simp_all
  ultimately show ?thesis using assms(1,3,4) by (simp add: waits_def)
qed

lemma behind_keep:
  assumes "behind b t p ws" "small_frames b"
    and "current_process (os t') = Some p" "ready_queue (os t') = ready_queue (os t)"
    and pcb: "\<And>a. \<exists>st. pcbs (os t') a = (pcbs (os t) a)\<lparr>state := st\<rparr>"
    and fr: "\<And>x. x \<noteq> base_pointer (stack_of t p) \<Longrightarrow> frames t' x = frames t x"
    and mem: "\<And>a. a < stack_of t p \<or> stack_of t p + 4096 \<le> a \<Longrightarrow> kernel_memory (arena (os t')) a = kernel_memory (arena (os t)) a"
  shows "behind b t' p ws"
proof -
  have f: "user_stack_ptr (pcbs (os t') a) = user_stack_ptr (pcbs (os t) a)" "stack_of t' a = stack_of t a"
    "priority (pcbs (os t') a) = priority (pcbs (os t) a)" "kernel_stack_ptr (pcbs (os t') a) = kernel_stack_ptr (pcbs (os t) a)"
    "next_ready (pcbs (os t') a) = next_ready (pcbs (os t) a)" for a
    using pcb [of a] by auto
  have b: "crew t (p # map fst ws)" "peers (os t) (map fst ws)" "\<forall>(q, tk)\<in>set ws. waits b t q tk"
    using assms(1) by (simp_all add: behind_def)
  have "waits b t' q tk" if q: "(q, tk) \<in> set ws" for q tk
  proof (rule waits_keep [OF _ assms(2)])
    show "waits b t q tk" using b(3) q by auto
    have "q \<in> set (map fst ws)" using q by force
    then have qp: "q \<in> set (p # map fst ws)" "p \<noteq> q" using b(1) by (auto simp: crew_def)
    then have d: "stack_of t p + 4096 \<le> stack_of t q \<or> stack_of t q + 4096 \<le> stack_of t p"
      using crewD(4) [OF b(1), of p q] by simp
    then show "kernel_memory (arena (os t')) a = kernel_memory (arena (os t)) a"
      if "stack_of t q \<le> a" "a < stack_of t q + 4096" for a using mem [of a] that by linarith
    have "stack_of t q + 4096 \<le> KERNEL_MEMORY_SIZE" "stack_of t p + 4096 \<le> KERNEL_MEMORY_SIZE"
      using crewD(3) [OF b(1) qp(1)] crewD(3) [OF b(1), of p] by simp_all
    moreover have "stack_of t q \<noteq> stack_of t p" using d by auto
    ultimately have "base_pointer (stack_of t q) \<noteq> base_pointer (stack_of t p)" by (simp add: base_pointer_eq)
    then show "frames t' (base_pointer (stack_of t q)) = frames t (base_pointer (stack_of t q))" by (rule fr)
  qed (simp_all add: f)
  moreover have "crew t' (p # map fst ws)" using b(1) by (simp add: crew_def f)
  moreover have "peers (os t') (map fst ws)"
    using b(2) queue_list_cong [of "ready_queue (os t)" "pcbs (os t)" "map fst ws" "pcbs (os t')"] by (simp add: peers_def f assms(4))
  ultimately show ?thesis unfolding behind_def using assms(3) by blast
qed

text \<open>The switch itself: the caller waits behind the others, or has ended.\<close>

definition joins :: "tester \<Rightarrow> addr \<Rightarrow> routine \<Rightarrow> (addr \<times> task) list" where
  "joins t p r = (if state (pcbs (os t) p) = STATE_RUNNING then [(p, Loop r (loop_i (my t)))] else [])"

lemma load32_saved:
  assumes "a + 4 \<le> esp k - 8 \<or> esp k \<le> a" "8 \<le> esp k"
  shows "load32 a (saved_memory ret k) = load32 a (kernel_memory (arena k))"
proof -
  have "a + 4 \<le> esp k - 8 \<or> esp k - 8 + 4 \<le> a" "a + 4 \<le> esp k - 4 \<or> esp k - 4 + 4 \<le> a" using assms by linarith+
  then show ?thesis by (simp add: saved_memory_def byte_simps)
qed

lemma load32_saved_own:
  assumes "8 \<le> esp k"
  shows "load32 (esp k - 8) (saved_memory ret k) = ebp k" "load32 (esp k - 8 + 4) (saved_memory ret k) = ret"
proof -
  have "esp k - 8 + 4 = esp k - 4" "esp k - 8 + 4 \<le> esp k - 4" using assms by linarith+
  then show "load32 (esp k - 8) (saved_memory ret k) = ebp k" "load32 (esp k - 8 + 4) (saved_memory ret k) = ret"
    by (simp_all add: saved_memory_def byte_simps)
qed

lemma waits_saved:
  assumes w: "waits b t q tk" and sf: "small_frames b"
    and k: "kernel_memory (arena (os t')) = saved_memory ret (os t)" "frames t' = frames t"
      "user_stack_ptr (pcbs (os t') q) = user_stack_ptr (pcbs (os t) q)" "stack_of t' q = stack_of t q"
    and d: "s + 4096 \<le> stack_of t q \<or> stack_of t q + 4096 \<le> s" "s + 92 \<le> esp (os t)" "esp (os t) \<le> s + 4096"
  shows "waits b t' q tk"
proof (rule waits_keep [OF w sf])
  fix a assume "stack_of t q \<le> a" "a < stack_of t q + 4096"
  then have "a < esp (os t) - 8 \<or> esp (os t) - 8 + 4 \<le> a" "a < esp (os t) - 4 \<or> esp (os t) - 4 + 4 \<le> a"
    and "\<not> (esp (os t) - 8 \<le> a \<and> a < esp (os t))" using d by linarith+
  then show "kernel_memory (arena (os t')) a = kernel_memory (arena (os t)) a"
    by (simp add: k(1) saved_memory_def store32_other)
qed (simp_all add: k)

text \<open>The new queue after a call of \<open>yield_syscall\<close> at \<open>pl\<close>: all of it still waits, whoever is next.\<close>

lemma joined_waits:
  assumes sf: "small_frames b" and bh: "behind b t p ws"
    and regs: "ebp (os t) = base_pointer (stack_of t p)" "esp (os t) = stack_of t p + 4092 - room b r"
    and running: "state (pcbs (os t) p) = STATE_RUNNING \<Longrightarrow> pl = Yielded r \<and> known (Loop r (loop_i (my t)))
      \<and> variables (frames t) (stack_of t p) (Loop r (loop_i (my t)))"
    and k: "kernel_memory (arena (os t')) = saved_memory (address b pl) (os t)" "frames t' = frames t"
      "\<And>a. user_stack_ptr (pcbs (os t') a) = saved_sp (os t) p a" "\<And>a. stack_of t' a = stack_of t a"
    and q: "(q, tk) \<in> set (ws @ joins t p r)"
  shows "waits b t' q tk"
proof -
  have cr: "crew t (p # map fst ws)" using bh by (simp add: behind_def)
  have rm: "room b r \<le> 4000" using sf by (simp add: small_frames_def)
  from q consider (other) "(q, tk) \<in> set ws" | (own) "state (pcbs (os t) p) = STATE_RUNNING" "q = p" "tk = Loop r (loop_i (my t))"
    by (auto simp: joins_def split: if_splits)
  then show ?thesis
  proof cases
    case other
    then have "q \<in> set (map fst ws)" by force
    then have qp: "q \<in> set (p # map fst ws)" "p \<noteq> q" using cr by (auto simp: crew_def)
    from other bh have w: "waits b t q tk" by (auto simp: behind_def)
    show ?thesis
    proof (rule waits_saved [OF w sf k(1,2)])
      show "stack_of t p + 4096 \<le> stack_of t q \<or> stack_of t q + 4096 \<le> stack_of t p" using crewD(4) [OF cr, of p q] qp by simp
      show "stack_of t p + 92 \<le> esp (os t)" "esp (os t) \<le> stack_of t p + 4096" using regs(2) rm by linarith+
    qed (use qp in \<open>simp_all add: k saved_sp_def\<close>)
  next
    case own
    have "8 \<le> esp (os t)" using regs(2) rm by linarith
    note l = load32_saved_own [OF this, of "address b pl"]
    have sp: "esp (os t) - 8 + 8 = stack_of t p + 4092 - room b r" using regs(2) rm by linarith
    have u: "user_stack_ptr (pcbs (os t') p) = esp (os t) - 8" by (simp add: k(3) saved_sp_def)
    show ?thesis unfolding waits_def own(2,3) u k(1,2,4) l sp using running [OF own(1)] regs(1)
      by (simp only: saved_esp.simps saved_ebp.simps saved_eip.simps simp_thms)
  qed
qed

lemma crew_cong:
  assumes "crew t ps" "set qs \<subseteq> set ps" "distinct qs"
    and "\<And>a. stack_of t' a = stack_of t a \<and> priority (pcbs (os t') a) = priority (pcbs (os t) a)"
    and "\<And>a. kernel_stack_ptr (pcbs (os t) a) \<noteq> None \<Longrightarrow> kernel_stack_ptr (pcbs (os t') a) \<noteq> None"
  shows "crew t' qs"
  unfolding crew_def
proof (intro conjI ballI impI)
  fix p assume "p \<in> set qs"
  then have p: "p \<in> set ps" using assms(2) by blast
  show "priority (pcbs (os t') p) = 1" "kernel_stack_ptr (pcbs (os t') p) \<noteq> None" "stack_of t' p + 4096 \<le> KERNEL_MEMORY_SIZE"
    using crewD(1,3) [OF assms(1) p] assms(4) [of p] assms(5) [OF crewD(2) [OF assms(1) p]] by simp_all
  fix q assume "q \<in> set qs" "p \<noteq> q"
  with crewD(4) [OF assms(1) p, of q] assms(2,4) show "stack_of t' p + 4096 \<le> stack_of t' q \<or> stack_of t' q + 4096 \<le> stack_of t' p"
    by auto
qed (rule assms(3))

lemma call_yield_turn:
  assumes sf: "small_frames b" and bh: "behind b t p ws"
    and regs: "ebp (os t) = base_pointer (stack_of t p)" "esp (os t) = stack_of t p + 4092 - room b r"
    and running: "state (pcbs (os t) p) = STATE_RUNNING \<Longrightarrow> pl = Yielded r \<and> known (Loop r (loop_i (my t)))
      \<and> variables (frames t) (stack_of t p) (Loop r (loop_i (my t)))"
  shows "ws @ joins t p r = [] \<Longrightarrow>
      \<exists>k'. call_yield b pl t = Some (Stops (t\<lparr>os := k'\<rparr>)) \<and> is_queue_empty (ready_queue k') \<and> (\<forall>a. state (pcbs k' a) = state (pcbs (os t) a))"
    and "ws @ joins t p r = (q, tk) # rest \<Longrightarrow>
      \<exists>k'. call_yield b pl t = Some (Goes (t\<lparr>os := k'\<rparr>)) \<and> continues b (t\<lparr>os := k'\<rparr>) q tk \<and> behind b (t\<lparr>os := k'\<rparr>) q rest
      \<and> (\<forall>a. user_stack_base (pcbs k' a) = user_stack_base (pcbs (os t) a))
      \<and> (\<forall>a. a \<notin> set (p # map fst ws) \<or> a = p \<and> joins t p r = [] \<longrightarrow> state (pcbs k' a) = state (pcbs (os t) a))"
proof -
  let ?k = "os t"
  have cur: "current_process ?k = Some p" and cr: "crew t (p # map fst ws)" and e: "peers ?k (map fst ws)"
    using bh by (simp_all add: behind_def)
  have p: "p \<notin> set (map fst ws)" "priority (pcbs ?k p) = 1" "kernel_stack_ptr (pcbs ?k p) \<noteq> None"
    "stack_of t p + 4096 \<le> KERNEL_MEMORY_SIZE" using cr crewD [OF cr, of p] by (auto simp: crew_def)
  have rm: "room b r \<le> 4000" using sf by (simp add: small_frames_def)
  have sp: "8 \<le> esp ?k" "esp ?k \<le> KERNEL_MEMORY_SIZE" using regs(2) rm p(4) by linarith+
  have rj: "rejoin ?k p (map fst ws) = map fst (ws @ joins t p r)" by (simp add: rejoin_def joins_def)
  note y = yield_peers [where ret = "address b pl" and frame = "schedule_frame b", OF cur e p(1-3) sp]
  show "\<exists>k'. call_yield b pl t = Some (Stops (t\<lparr>os := k'\<rparr>)) \<and> is_queue_empty (ready_queue k') \<and> (\<forall>a. state (pcbs k' a) = state (pcbs (os t) a))"
    if "ws @ joins t p r = []" using y(1) that by (auto simp: rj call_yield_def hand_over_def)
  assume new: "ws @ joins t p r = (q, tk) # rest"
  have range: "saved_sp ?k p q + 8 \<le> KERNEL_MEMORY_SIZE"
  proof -
    have "q = p \<or> (q, tk) \<in> set ws" using new by (cases ws) (auto simp: joins_def split: if_splits)
    then show ?thesis
    proof
      assume q: "(q, tk) \<in> set ws"
      then have w: "waits b t q tk" and "q \<in> set (p # map fst ws)" using bh by (force simp: behind_def)+
      then have "stack_of t q + 4096 \<le> KERNEL_MEMORY_SIZE" "q \<noteq> p" using crewD(3) [OF cr] p(1) q by (auto simp: image_iff)
      moreover have "user_stack_ptr (pcbs ?k q) + 8 = saved_esp b (stack_of t q) tk" using w by (simp add: waits_def)
      ultimately show ?thesis using saved_esp_range(2) [OF sf, of "stack_of t q" tk] by (simp add: saved_sp_def)
    qed (use sp in \<open>simp add: saved_sp_def\<close>)
  qed
  from y(2) [of q "map fst rest"] range new rj obtain k' where
    k': "yield_syscall (address b pl) (schedule_frame b) ?k = Some (Switched k')" "current_process k' = Some q" "peers k' (map fst rest)"
      "kernel_memory (arena k') = saved_memory (address b pl) ?k" "ebp k' = load32 (saved_sp ?k p q) (saved_memory (address b pl) ?k)"
      "eip k' = load32 (saved_sp ?k p q + 4) (saved_memory (address b pl) ?k)" "esp k' = saved_sp ?k p q + 8"
    and ks: "\<And>a. kernel_stack_ptr (pcbs ?k a) \<noteq> None \<Longrightarrow> kernel_stack_ptr (pcbs k' a) \<noteq> None"
    and f: "\<And>a. user_stack_ptr (pcbs k' a) = saved_sp ?k p a" "\<And>a. user_stack_base (pcbs k' a) = user_stack_base (pcbs ?k a)"
      "\<And>a. priority (pcbs k' a) = priority (pcbs ?k a)"
      "\<And>a. state (pcbs k' a) = (if a = q then STATE_RUNNING
              else if a = p \<and> state (pcbs ?k p) = STATE_RUNNING then STATE_READY else state (pcbs ?k a))" by auto
  let ?t' = "t\<lparr>os := k'\<rparr>"
  have ww: "waits b ?t' q' tk'" if "(q', tk') \<in> set (ws @ joins t p r)" for q' tk'
    by (rule joined_waits [OF sf bh regs _ _ _ _ _ that]; (erule running | simp add: k' f))
  have sub: "set (map fst ((q, tk) # rest)) \<subseteq> set (p # map fst ws)" "distinct (map fst ((q, tk) # rest))"
    unfolding new [symmetric] using cr by (auto simp: joins_def crew_def)
  have "call_yield b pl t = Some (Goes ?t')" by (simp add: call_yield_def k'(1) hand_over_def)
  moreover have "continues b ?t' q tk"
    using ww [of q tk] by (simp add: new continues_def waits_def k' f)
  moreover have "behind b ?t' q rest"
  proof -
    have "crew ?t' (map fst ((q, tk) # rest))" by (rule crew_cong [OF cr sub]) (use f ks in simp_all)
    moreover have "\<forall>(q', tk')\<in>set rest. waits b ?t' q' tk'" using ww by (auto simp: new)
    ultimately show ?thesis using k'(2,3) by (simp add: behind_def)
  qed
  moreover have "state (pcbs k' a) = state (pcbs ?k a)" if "a \<notin> set (p # map fst ws) \<or> a = p \<and> joins t p r = []" for a
  proof -
    have "a \<noteq> q" using that sub(1) new p(1) by (auto simp: image_iff)
    then show ?thesis using that by (auto simp: f(4) joins_def split: if_splits)
  qed
  ultimately show "\<exists>k'. call_yield b pl t = Some (Goes (t\<lparr>os := k'\<rparr>)) \<and> continues b (t\<lparr>os := k'\<rparr>) q tk \<and> behind b (t\<lparr>os := k'\<rparr>) q rest
      \<and> (\<forall>a. user_stack_base (pcbs k' a) = user_stack_base (pcbs (os t) a))
      \<and> (\<forall>a. a \<notin> set (p # map fst ws) \<or> a = p \<and> joins t p r = [] \<longrightarrow> state (pcbs k' a) = state (pcbs (os t) a))"
    using f(2) by (intro exI [of _ k']) simp
qed

subsection \<open>One turn of a program\<close>

text \<open>The program of \<open>p\<close> is inside its function, before a call; \<open>t0\<close> is the state at the beginning of the turn.\<close>

definition inside :: "build \<Rightarrow> tester \<Rightarrow> addr \<Rightarrow> (addr \<times> task) list \<Rightarrow> routine \<Rightarrow> bool" where
  "inside b t p ws r \<longleftrightarrow> behind b t p ws \<and> ebp (os t) = base_pointer (stack_of t p)
     \<and> esp (os t) = stack_of t p + 4092 - room b r \<and> state (pcbs (os t) p) = STATE_RUNNING"

definition since :: "tester \<Rightarrow> printed list \<Rightarrow> tester \<Rightarrow> bool" where
  "since t0 out t \<longleftrightarrow> said t = said t0 @ out \<and> pcbs (os t) = pcbs (os t0)"

text \<open>What a turn leads to: the lines \<open>out\<close>, and \<open>p\<close> at the end of the queue or in the state EXIT.\<close>

definition turned ::
  "build \<Rightarrow> tester \<Rightarrow> addr \<Rightarrow> (addr \<times> task) list \<Rightarrow> printed list \<times> task option \<Rightarrow> progress option \<Rightarrow> bool" where
  "turned b t p ws o_w res \<longleftrightarrow>
     (case ws @ again p (snd o_w) of
        [] \<Rightarrow> \<exists>t'. res = Some (Stops t') \<and> said t' = said t @ fst o_w
          \<and> is_queue_empty (ready_queue (os t')) \<and> (\<forall>a. state (pcbs (os t') a) = (if a = p then STATE_EXIT else state (pcbs (os t) a)))
      | (q, tk) # rest \<Rightarrow> \<exists>t'. res = Some (Goes t') \<and> said t' = said t @ fst o_w
          \<and> continues b t' q tk \<and> behind b t' q rest \<and> (\<forall>a. stack_of t' a = stack_of t a)
          \<and> (\<forall>a. a \<notin> set (p # map fst ws) \<longrightarrow> state (pcbs (os t') a) = state (pcbs (os t) a))
          \<and> (snd o_w = None \<longrightarrow> state (pcbs (os t') p) = STATE_EXIT))"

lemma send_simps [simp]:
  "os (send rs t) = os t" "frames (send rs t) = frames t" "my (send rs t) = my t" "said (send rs t) = said t @ rs"
  "os (set_my f t) = os t" "said (set_my f t) = said t" "my (set_my f t) = f (my t)"
  by (simp_all add: send_def set_my_def my_def)

lemma inside_send:
  assumes "inside b t p ws r" "small_frames b"
  shows "inside b (send rs t) p ws r"
proof -
  have b: "behind b t p ws" using assms(1) by (simp add: inside_def)
  have "behind b (send rs t) p ws"
  proof (rule behind_keep [OF b assms(2)])
    show "\<exists>st. pcbs (os (send rs t)) a = (pcbs (os t) a)\<lparr>state := st\<rparr>" for a
      by (rule exI [of _ "state (pcbs (os t) a)"]) simp
  qed (use b in \<open>simp_all add: behind_def\<close>)
  with assms(1) show ?thesis by (simp add: inside_def)
qed

lemma inside_set_my:
  assumes "inside b t p ws r" "small_frames b"
  shows "inside b (set_my f t) p ws r"
proof -
  have b: "behind b t p ws" "ebp (os t) = base_pointer (stack_of t p)" using assms(1) by (simp_all add: inside_def)
  have "behind b (set_my f t) p ws"
  proof (rule behind_keep [OF b(1) assms(2)])
    show "\<exists>st. pcbs (os (set_my f t)) a = (pcbs (os t) a)\<lparr>state := st\<rparr>" for a
      by (rule exI [of _ "state (pcbs (os t) a)"]) simp
    show "frames (set_my f t) x = frames t x" if "x \<noteq> base_pointer (stack_of t p)" for x
      using that b(2) by (simp add: set_my_def)
  qed (use b(1) in \<open>simp_all add: behind_def\<close>)
  with assms(1) show ?thesis by (simp add: inside_def)
qed

lemma since_send: "since t0 out t \<Longrightarrow> since t0 (out @ rs) (send rs t)"
  by (simp add: since_def)

lemma since_set_my: "since t0 out t \<Longrightarrow> since t0 out (set_my f t)"
  by (simp add: since_def)

lemma yield_turned:
  assumes i: "inside b t p ws r" and sf: "small_frames b" and s: "since t0 out t"
    and tk: "known (Loop r (loop_i (my t)))" "variables (frames t) (stack_of t p) (Loop r (loop_i (my t)))"
  shows "turned b t0 p ws (out, Some (Loop r (loop_i (my t)))) (call_yield b (Yielded r) t)"
proof -
  have bh: "behind b t p ws" and regs: "ebp (os t) = base_pointer (stack_of t p)" "esp (os t) = stack_of t p + 4092 - room b r"
    and run: "state (pcbs (os t) p) = STATE_RUNNING" using i by (simp_all add: inside_def)
  have new: "ws @ joins t p r = ws @ again p (Some (Loop r (loop_i (my t))))" using run by (simp add: joins_def again_def)
  then have "ws @ joins t p r \<noteq> []" by (simp add: again_def)
  then obtain q tk rest where w: "ws @ joins t p r = (q, tk) # rest" by (metis neq_Nil_conv surj_pair)
  from call_yield_turn(2) [OF sf bh regs _ w, of "Yielded r"] tk obtain k' where
    k': "call_yield b (Yielded r) t = Some (Goes (t\<lparr>os := k'\<rparr>))" "continues b (t\<lparr>os := k'\<rparr>) q tk" "behind b (t\<lparr>os := k'\<rparr>) q rest"
      "\<And>a. user_stack_base (pcbs k' a) = user_stack_base (pcbs (os t) a)"
      "\<And>a. a \<notin> set (p # map fst ws) \<Longrightarrow> state (pcbs k' a) = state (pcbs (os t) a)" by auto
  show ?thesis unfolding turned_def using w [unfolded new] k' s by (auto simp: since_def)
qed

lemma leave_turned:
  assumes i: "inside b t p ws r" and sf: "small_frames b" and s: "since t0 out t"
  shows "turned b t0 p ws (out, None) (leave_test b r t)"
proof -
  let ?t = "t\<lparr>os := upd_pcb p (state_update (\<lambda>_. STATE_EXIT)) (os t)\<rparr>"
  have i': "behind b t p ws" "ebp (os t) = base_pointer (stack_of t p)" "esp (os t) = stack_of t p + 4092 - room b r"
    using i by (simp_all add: inside_def)
  have bh: "behind b ?t p ws"
  proof (rule behind_keep [OF i'(1) sf])
    show "\<exists>st. pcbs (os ?t) a = (pcbs (os t) a)\<lparr>state := st\<rparr>" for a
      by (cases "a = p") (auto intro: exI [of _ "state (pcbs (os t) a)"])
  qed (use i'(1) in \<open>simp_all add: behind_def\<close>)
  have regs: "ebp (os ?t) = base_pointer (stack_of ?t p)" "esp (os ?t) = stack_of ?t p + 4092 - room b r"
    and st: "state (pcbs (os ?t) p) \<noteq> STATE_RUNNING" "joins ?t p r = []" using i' by (simp_all add: joins_def)
  have l: "leave_test b r t = call_yield b (Over r) ?t" using i'(1) by (simp add: leave_test_def behind_def)
  have same: "stack_of t a = stack_of t0 a" "state (pcbs (os ?t) a) = (if a = p then STATE_EXIT else state (pcbs (os t0) a))"
    "said t = said t0 @ out" for a using s by (simp_all add: since_def)
  show ?thesis
  proof (cases ws)
    case Nil
    with call_yield_turn(1) [OF sf bh regs, of "Over r"] st same show ?thesis by (auto simp: turned_def again_def l)
  next
    case (Cons w rest)
    obtain q tk where w: "w = (q, tk)" by fastforce
    have new: "ws @ joins ?t p r = (q, tk) # rest" using st Cons w by simp
    have "state (pcbs (os ?t) p) = STATE_RUNNING \<Longrightarrow> Over r = Yielded r \<and> known (Loop r (loop_i (my ?t)))
      \<and> variables (frames ?t) (stack_of ?t p) (Loop r (loop_i (my ?t)))" using st(1) by blast
    from call_yield_turn(2) [OF sf bh regs this new] obtain k' where
      "call_yield b (Over r) ?t = Some (Goes (?t\<lparr>os := k'\<rparr>))" "continues b (?t\<lparr>os := k'\<rparr>) q tk" "behind b (?t\<lparr>os := k'\<rparr>) q rest"
      and f: "\<And>a. user_stack_base (pcbs k' a) = user_stack_base (pcbs (os ?t) a)"
        "\<And>a. a \<notin> set (p # map fst ws) \<or> a = p \<and> joins ?t p r = [] \<Longrightarrow> state (pcbs k' a) = state (pcbs (os ?t) a)" by blast
    then have k': "call_yield b (Over r) ?t = Some (Goes (t\<lparr>os := k'\<rparr>))" "continues b (t\<lparr>os := k'\<rparr>) q tk"
      "behind b (t\<lparr>os := k'\<rparr>) q rest" by simp_all
    have "state (pcbs k' p) = STATE_EXIT" "\<And>a. user_stack_base (pcbs k' a) = stack_of t0 a"
      "\<And>a. a \<notin> set (p # map fst ws) \<Longrightarrow> state (pcbs k' a) = state (pcbs (os t0) a)"
      using f st(2) same by simp_all
    then show ?thesis unfolding turned_def l k'(1) using k'(2,3) same(3) by (simp add: again_def Cons w)
  qed
qed

lemma inside_my: "inside b t p ws r \<Longrightarrow> frames t (base_pointer (stack_of t p)) = my t"
  by (simp add: inside_def my_def)

lemma loop_1_turned:
  assumes "inside b t p ws Test_Process_1" "small_frames b" "since t0 out t" "local_x (my t) = 4"
  shows "turned b t0 p ws (map_prod (\<lambda>o'. out @ o') id (loop_turn b (base_pointer (stack_of t p)) Test_Process_1 (loop_i (my t))))
    (test_process_1_loop b t)"
proof -
  have v: "variable_at b Test_Process_1 t = base_pointer (stack_of t p) - x_offset b Test_Process_1"
    using assms(1) by (simp add: variable_at_def inside_def)
  show ?thesis
  proof (cases "loop_i (my t) < 3")
    case True
    with yield_turned [OF inside_send [OF assms(1,2)] assms(2) since_send [OF assms(3)]] inside_my [OF assms(1)] assms(4)
    show ?thesis by (simp add: test_process_1_loop_def loop_turn_def v)
  next
    case False
    with leave_turned [OF inside_send [OF assms(1,2)] assms(2) since_send [OF assms(3)]]
    show ?thesis by (simp add: test_process_1_loop_def loop_turn_def)
  qed
qed

lemma loop_2_turned:
  assumes "inside b t p ws Test_Process_2" "small_frames b" "since t0 out t" "local_x (my t) = 5"
  shows "turned b t0 p ws (map_prod (\<lambda>o'. out @ o') id (loop_turn b (base_pointer (stack_of t p)) Test_Process_2 (loop_i (my t))))
    (test_process_2_loop b t)"
proof -
  have v: "variable_at b Test_Process_2 t = base_pointer (stack_of t p) - x_offset b Test_Process_2"
    using assms(1) by (simp add: variable_at_def inside_def)
  show ?thesis
  proof (cases "loop_i (my t) < 2")
    case True
    with yield_turned [OF inside_send [OF assms(1,2)] assms(2) since_send [OF assms(3)]] inside_my [OF assms(1)] assms(4)
    show ?thesis by (simp add: test_process_2_loop_def loop_turn_def v)
  next
    case False
    with leave_turned [OF inside_send [OF assms(1,2)] assms(2) since_send [OF assms(3)]]
    show ?thesis by (simp add: test_process_2_loop_def loop_turn_def)
  qed
qed

lemma loop_s_turned:
  assumes "inside b t p ws Test_Scheduler" "small_frames b" "since t0 out t"
  shows "turned b t0 p ws (map_prod (\<lambda>o'. out @ o') id (loop_turn b (base_pointer (stack_of t p)) Test_Scheduler (loop_i (my t))))
    (test_scheduler_loop b t)"
proof (cases "loop_i (my t) < 5")
  case True
  with yield_turned [OF inside_send [OF assms(1,2)] assms(2) since_send [OF assms(3)]] inside_my [OF assms(1)]
  show ?thesis by (simp add: test_scheduler_loop_def loop_turn_def)
next
  case False
  with leave_turned [OF inside_send [OF assms(1,2)] assms(2) since_send [OF assms(3)]]
  show ?thesis by (simp add: test_scheduler_loop_def loop_turn_def)
qed

text \<open>The beginning of a function.\<close>

lemma open_frame_inside:
  assumes bh: "behind b t p ws" and sf: "small_frames b" and e: "esp (os t) = stack_of t p + 4096"
    and run: "state (pcbs (os t) p) = STATE_RUNNING"
  shows "\<exists>k. open_frame b r t = Some (t\<lparr>os := k\<rparr>) \<and> inside b (t\<lparr>os := k\<rparr>) p ws r \<and> pcbs k = pcbs (os t)
    \<and> page_table (arena k) = page_table (arena (os t)) \<and> last_page_index (arena k) = last_page_index (arena (os t))
    \<and> ready_queue k = ready_queue (os t) \<and> next_pid k = next_pid (os t) \<and> process_table_head k = process_table_head (os t)"
proof -
  let ?s = "stack_of t p"
  have s: "?s + 4096 \<le> KERNEL_MEMORY_SIZE" using bh crewD(3) by (fastforce simp: behind_def)
  have "4 \<le> esp (os t)" "esp (os t) - 4 = ?s + 4092" "?s + 4092 + 4 \<le> KERNEL_MEMORY_SIZE" using e s by linarith+
  then obtain k1 where k1: "push (ebp (os t)) (os t) = Some k1" "esp k1 = ?s + 4092" and f: "pcbs k1 = pcbs (os t)"
    "current_process k1 = current_process (os t)" "ready_queue k1 = ready_queue (os t)" "next_pid k1 = next_pid (os t)"
    "process_table_head k1 = process_table_head (os t)"
    "arena k1 = (arena (os t))\<lparr>kernel_memory := store32 (?s + 4092) (ebp (os t)) (kernel_memory (arena (os t)))\<rparr>"
    by (auto simp: push_def write_word_def)
  let ?k = "k1\<lparr>ebp := of_nat (esp k1), esp := esp k1 - room b r\<rparr>"
  have "behind b (t\<lparr>os := ?k\<rparr>) p ws"
  proof (rule behind_keep [OF bh sf])
    show "\<exists>st. pcbs (os (t\<lparr>os := ?k\<rparr>)) a = (pcbs (os t) a)\<lparr>state := st\<rparr>" for a
      by (rule exI [of _ "state (pcbs (os t) a)"]) (simp add: f)
  qed (use bh f in \<open>auto simp: behind_def store32_other\<close>)
  moreover have "open_frame b r t = Some (t\<lparr>os := ?k\<rparr>)" by (simp add: open_frame_def k1(1))
  moreover have "ebp ?k = base_pointer ?s" by (simp add: k1(2) base_pointer_def)
  ultimately show ?thesis using f k1(2) run by (intro exI [of _ ?k]) (simp add: inside_def)
qed

lemma piece_at:
  assumes "inj_on (address b) (set points)" "eip (os t) = address b pl" "pl \<in> set points"
  shows "piece b t = program b pl t"
proof -
  have "inj_on (address b) (set ps) \<Longrightarrow> pl \<in> set ps \<Longrightarrow> find (\<lambda>q. address b q = address b pl) ps = Some pl" for ps
    by (induction ps) auto
  then show ?thesis using assms(1,3) by (simp add: piece_def assms(2))
qed

text \<open>Each program takes its turn as the abstract one does.\<close>

lemma piece_turned:
  assumes inj: "inj_on (address b) (set points)" and sf: "small_frames b" and c: "continues b t p tk" and bh: "behind b t p ws"
  shows "turned b t p ws (task_turn b (base_pointer (stack_of t p)) tk) (piece b t)"
proof (cases tk)
  case (Fresh r)
  from c Fresh have e: "esp (os t) = stack_of t p + 4096" "state (pcbs (os t) p) = STATE_RUNNING" "eip (os t) = address b (Start r)"
    and r: "r \<in> {Test_Process_1, Test_Process_2, Test_Process_3}" by (simp_all add: continues_def)
  have pl: "piece b t = program b (Start r) t"
    by (rule piece_at [OF inj e(3)]) (use r in \<open>auto simp: points_def\<close>)
  from open_frame_inside [OF bh sf e(1,2), of r] obtain k where
    k: "open_frame b r t = Some (t\<lparr>os := k\<rparr>)" "inside b (t\<lparr>os := k\<rparr>) p ws r" "pcbs k = pcbs (os t)" by blast
  have s: "since t [] (t\<lparr>os := k\<rparr>)" by (simp add: since_def k(3))
  have i: "inside b (set_my f (send rs (t\<lparr>os := k\<rparr>))) p ws r" for f rs
    by (rule inside_set_my [OF inside_send [OF k(2) sf] sf])
  from r consider "r = Test_Process_1" | "r = Test_Process_2" | "r = Test_Process_3" by blast
  then show ?thesis
  proof cases
    case 1
    with loop_1_turned [OF i [unfolded 1, where f = "\<lambda>l. l\<lparr>local_x := 4, loop_i := 0\<rparr>" and rs = "[Debug ''DEBUG: Test process 1 running'']"]
        sf since_set_my [OF since_send [OF s]]] k
    show ?thesis by (simp add: Fresh pl program_def test_process_1_def map_prod_def split_beta)
  next
    case 2
    with loop_2_turned [OF i [unfolded 2, where f = "\<lambda>l. l\<lparr>local_x := 5, loop_i := 0\<rparr>" and rs = "[Debug ''DEBUG: Test process 2 running'']"]
        sf since_set_my [OF since_send [OF s]]] k
    show ?thesis by (simp add: Fresh pl program_def test_process_2_def map_prod_def split_beta)
  next
    case 3
    with leave_turned [OF inside_send [OF k(2) sf] sf since_send [OF s]] k
    show ?thesis by (simp add: Fresh pl program_def test_process_3_def)
  qed
next
  case (Loop r i)
  from c Loop have e: "esp (os t) = stack_of t p + 4092 - room b r" "state (pcbs (os t) p) = STATE_RUNNING"
    "eip (os t) = address b (Yielded r)" "ebp (os t) = base_pointer (stack_of t p)"
    and r: "r \<in> {Test_Process_1, Test_Process_2, Test_Scheduler}" and v: "variables (frames t) (stack_of t p) (Loop r i)"
    by (simp_all add: continues_def)
  have pl: "piece b t = program b (Yielded r) t"
    by (rule piece_at [OF inj e(3)]) (use r in \<open>auto simp: points_def\<close>)
  have "inside b t p ws r" using bh e by (simp add: inside_def)
  note i = inside_set_my [OF this sf]
  have s: "since t [] t" by (simp add: since_def)
  have my: "loop_i (my t) = i" "r = Test_Process_1 \<Longrightarrow> local_x (my t) = 4" "r = Test_Process_2 \<Longrightarrow> local_x (my t) = 5"
    using v e(4) by (simp_all add: my_def)
  from r consider "r = Test_Process_1" | "r = Test_Process_2" | "r = Test_Scheduler" by blast
  then show ?thesis
  proof cases
    case 1
    with loop_1_turned [OF i [unfolded 1] sf since_set_my [OF s], of "loop_i_update (\<lambda>i. i + 1)"] my
    show ?thesis by (simp add: Loop pl program_def map_prod_def split_beta)
  next
    case 2
    with loop_2_turned [OF i [unfolded 2] sf since_set_my [OF s], of "loop_i_update (\<lambda>i. i + 1)"] my
    show ?thesis by (simp add: Loop pl program_def map_prod_def split_beta)
  next
    case 3
    with loop_s_turned [OF i [unfolded 3] sf since_set_my [OF s], of "loop_i_update (\<lambda>i. i + 1)"] my
    show ?thesis by (simp add: Loop pl program_def map_prod_def split_beta)
  qed
qed

subsection \<open>The whole run\<close>

lemma turned_end:
  assumes "turned b t p [] (out, None) res"
  shows "\<exists>t'. res = Some (Stops t') \<and> said t' = said t @ out
    \<and> is_queue_empty (ready_queue (os t')) \<and> (\<forall>a. state (pcbs (os t') a) = (if a = p then STATE_EXIT else state (pcbs (os t) a)))"
  using assms by (simp add: turned_def again_def)

lemma turned_on:
  assumes "turned b t p ws (out, w) res" "ws @ again p w = (q, tk) # rest"
  shows "\<exists>t'. res = Some (Goes t') \<and> said t' = said t @ out
    \<and> continues b t' q tk \<and> behind b t' q rest \<and> (\<forall>a. stack_of t' a = stack_of t a)
    \<and> (\<forall>a. a \<notin> set (p # map fst ws) \<longrightarrow> state (pcbs (os t') a) = state (pcbs (os t) a))
    \<and> (w = None \<longrightarrow> state (pcbs (os t') p) = STATE_EXIT)"
  using assms by (simp add: turned_def)

lemma pieces_take_turns:
  assumes inj: "inj_on (address b) (set points)" and sf: "small_frames b"
    and c: "continues b t p tk" and bh: "behind b t p ws"
    and r: "turns b (\<lambda>a. base_pointer (stack_of t a)) n ((p, tk) # ws) = Some out"
  shows "\<exists>t'. pieces b n t = Some (Stops t') \<and> said t' = said t @ out
    \<and> is_queue_empty (ready_queue (os t')) \<and> (\<forall>a. state (pcbs (os t') a) = (if a \<in> set (p # map fst ws) then STATE_EXIT else state (pcbs (os t) a)))"
  using c bh r
proof (induction n arbitrary: t p tk ws out)
  case (Suc n)
  let ?bp = "\<lambda>a. base_pointer (stack_of t a)"
  obtain o1 w where tt: "task_turn b (?bp p) tk = (o1, w)" by fastforce
  note pt = piece_turned [OF inj sf Suc.prems(1,2), unfolded tt]
  obtain o2 where o2: "turns b ?bp n (ws @ again p w) = Some o2" "out = o1 @ o2" using Suc.prems(3) tt by auto
  show ?case
  proof (cases "ws @ again p w")
    case Nil
    then have e: "ws = []" "w = None" by (auto simp: again_def split: option.splits)
    then have "o2 = []" using o2(1) by (cases n) (simp_all add: again_def)
    with turned_end [OF pt [unfolded e]] o2(2) e(1) show ?thesis by (auto split: progress.splits)
  next
    case (Cons qt rest)
    obtain q tk' where qt: "qt = (q, tk')" by fastforce
    note new = Cons [unfolded qt]
    from turned_on [OF pt new] obtain t1 where
      t1: "piece b t = Some (Goes t1)" "said t1 = said t @ o1" "continues b t1 q tk'" "behind b t1 q rest"
        "\<And>a. stack_of t1 a = stack_of t a"
        "\<And>a. a \<notin> set (p # map fst ws) \<Longrightarrow> state (pcbs (os t1) a) = state (pcbs (os t) a)"
        "w = None \<Longrightarrow> state (pcbs (os t1) p) = STATE_EXIT" by blast
    have "turns b (\<lambda>a. base_pointer (stack_of t1 a)) n ((q, tk') # rest) = Some o2" using o2(1) by (simp add: new t1(5))
    from Suc.IH [OF t1(3,4) this] obtain t' where
      t': "pieces b n t1 = Some (Stops t')" "said t' = said t1 @ o2"
        "is_queue_empty (ready_queue (os t')) \<and> (\<forall>a. state (pcbs (os t') a) = (if a \<in> set (q # map fst rest) then STATE_EXIT else state (pcbs (os t1) a)))" by blast
    have qs: "set (q # map fst rest) = set (map fst (ws @ again p w))" by (simp add: new)
    have "state (pcbs (os t') a) = (if a \<in> set (p # map fst ws) then STATE_EXIT else state (pcbs (os t) a))" for a
      unfolding t'(3) [THEN conjunct2, rule_format, of a] qs using t1(6) [of a] t1(7) by (cases w) (auto simp: again_def)
    then show ?thesis using t1(1,2) t'(1,2) t'(3) [THEN conjunct1] o2(2) by simp
  qed
qed simp

end
