(* ===== verification/TestProps.thy ===== *)
theory TestProps
  imports TestRuns
begin

text \<open>
  The properties of the self tests: the run of \<open>process_test\<close> from its first instruction to the command line, what
  \<open>test_queue_operations\<close> does to the ready queue, what \<open>test_process_creation\<close> reports, and
  where \<open>test_simple_fork\<close> ends.
\<close>

subsection \<open>Creation beside others of the same priority\<close>

lemma kmalloc_unused_bytes:
  assumes "unused_from n m" "0 < pages_for r" "n + pages_for r < NUM_PAGES"
  shows "\<exists>m'. kmalloc r m = (m', Some (n * PAGE_SIZE + sizeof_block)) \<and> unused_from (n + pages_for r) m'
    \<and> (\<forall>a < n * PAGE_SIZE. kernel_memory m' a = kernel_memory m a)"
proof -
  from kmalloc_unused [OF assms] obtain m' where
    m': "kmalloc r m = (m', Some (n * PAGE_SIZE + sizeof_block))" "unused_from (n + pages_for r) m'" by blast
  from kmalloc_SomeD [OF m'(1)] obtain s where "n * PAGE_SIZE + sizeof_block = s * PAGE_SIZE + sizeof_block"
    and km: "kernel_memory m' = (store32 (s * PAGE_SIZE) r (kernel_memory m))(s * PAGE_SIZE + 4 := 0)" by metis
  then have "s = n" by simp
  with km have "kernel_memory m' a = kernel_memory m a" if "a < n * PAGE_SIZE" for a
    using that by (simp add: store32_other)
  with m' show ?thesis by blast
qed

text \<open>What a successful creation in fresh pages leaves.\<close>

definition created :: "u32 \<Rightarrow> u32 \<Rightarrow> nat \<Rightarrow> kernel \<Rightarrow> kernel \<Rightarrow> bool" where
  "created pd entry n k k' \<longleftrightarrow>
     (let p = n * PAGE_SIZE + sizeof_block; b = (n + 1) * PAGE_SIZE + sizeof_block in
      unused_from (n + 5) (arena k')
    \<and> pid (pcbs k' p) = pd \<and> state (pcbs k' p) = STATE_READY \<and> priority (pcbs k' p) = 1 \<and> kernel_stack_ptr (pcbs k' p) \<noteq> None
    \<and> user_stack_base (pcbs k' p) = b \<and> user_stack_ptr (pcbs k' p) = b + 4088
    \<and> load32 (b + 4088) (kernel_memory (arena k')) = 0 \<and> load32 (b + 4092) (kernel_memory (arena k')) = entry
    \<and> (\<forall>a < n * PAGE_SIZE. kernel_memory (arena k') a = kernel_memory (arena k) a)
    \<and> (\<forall>a. a \<noteq> p \<longrightarrow> (pcbs k' a)\<lparr>next_ready := None\<rparr> = (pcbs k a)\<lparr>next_ready := None\<rparr>)
    \<and> current_process k' = current_process k \<and> next_pid k' = next_pid k
    \<and> process_table_head k' = Some p \<and> next_in_table (pcbs k' p) = process_table_head k
    \<and> esp k' = esp k \<and> ebp k' = ebp k \<and> eip k' = eip k
    \<and> cr3 (pcbs k' p) = 0 \<and> parent (pcbs k' p) = parent (pcbs k p))"

lemma create_process_peers:
  assumes q: "peers k qs" "n * PAGE_SIZE + sizeof_block \<notin> set qs" and u: "unused_from n (arena k)" "n + 5 < NUM_PAGES"
  shows "\<exists>k'. create_process pd entry 1 dl ttr k = Some (Some (n * PAGE_SIZE + sizeof_block), k')
    \<and> peers k' (qs @ [n * PAGE_SIZE + sizeof_block]) \<and> created pd entry n k k'"
proof -
  define p where "p = n * PAGE_SIZE + sizeof_block"
  define base where "base = (n + 1) * PAGE_SIZE + sizeof_block"
  have pf: "pages_for sizeof_PCB = 1" "pages_for 4096 = 2" by (simp_all add: pages_for_def sizeof_PCB_def sizeof_block_def unat_div)
  obtain m1 where m1: "kmalloc sizeof_PCB (arena k) = (m1, Some p)" "unused_from (n + 1) m1"
    "\<forall>a < n * PAGE_SIZE. kernel_memory m1 a = kernel_memory (arena k) a"
    using kmalloc_unused_bytes [OF u(1), of sizeof_PCB] u(2) pf by (auto simp: p_def)
  obtain m2 where m2: "kmalloc 4096 m1 = (m2, Some base)" "unused_from (n + 3) m2"
    "\<forall>a < n * PAGE_SIZE. kernel_memory m2 a = kernel_memory m1 a"
    using kmalloc_unused_bytes [OF m1(2), of 4096] u(2) pf by (auto simp: numeral_3_eq_3 base_def)
  have bound: "base + 4096 \<le> KERNEL_MEMORY_SIZE" using u(2) by (simp add: sizeof_block_def base_def)
  define k1 where "k1 = upd_pcb p (\<lambda>x. x\<lparr>pid := pd, state := STATE_NEW, priority := 1, deadline := dl,
                          time_to_run := ttr, user_stack_base := base + STACK_SIZE - 4 * 1024\<rparr>) (k\<lparr>arena := m2\<rparr>)"
  obtain k2 where k2: "write_word (base + STACK_SIZE - 4) entry k1 = Some k2" using bound by (simp add: write_word_def)
  obtain k3 where k3: "write_word (base + STACK_SIZE - 8) 0 k2 = Some k3" using bound by (simp add: write_word_def)
  note w2 = write_word_frame(1) [OF k2] and w3 = write_word_frame(1) [OF k3]
  define k4 where "k4 = upd_pcb p (\<lambda>x. x\<lparr>user_stack_ptr := base + STACK_SIZE - 8, cr3 := 0, next_ready := None\<rparr>) k3"
  define k5 where "k5 = allocate_kernel_stack p k4"
  define k7 where "k7 = (upd_pcb p (next_in_table_update (\<lambda>_. process_table_head k5)) k5)\<lparr>process_table_head := Some p\<rparr>"
  define k8 where "k8 = upd_pcb p (state_update (\<lambda>_. STATE_READY)) k7"
  have "unused_from (n + 3) (arena k4)" using m2(2) by (simp add: k4_def w3 w2 k1_def unused_from_bytes)
  from kmalloc_unused_bytes [OF this, of 4096] u(2) obtain m5 b where
    m5: "kmalloc 4096 (arena k4) = (m5, Some b)" "unused_from (n + 3 + 2) m5"
      "\<forall>a < (n + 3) * PAGE_SIZE. kernel_memory m5 a = kernel_memory (arena k4) a" unfolding pf by auto
  have u5: "unused_from (n + 5) m5" using m5(2) by (simp only: add.assoc numeral_plus_numeral add_num_simps)
  have k5eq: "k5 = upd_pcb p (\<lambda>x. x\<lparr>kernel_stack_base := Some b, kernel_stack_ptr := Some (b + STACK_SIZE)\<rparr>)
      (k4\<lparr>arena := m5\<rparr>)" by (simp add: k5_def allocate_kernel_stack_def m5(1))
  have a8: "arena k8 = m5" "ready_queue k8 = ready_queue k" "\<And>a. a \<noteq> p \<Longrightarrow> pcbs k8 a = pcbs k a"
    by (simp_all add: k8_def k7_def k5eq k4_def w3 w2 k1_def set_pcb_def)
  have p8: "pid (pcbs k8 p) = pd" "state (pcbs k8 p) = STATE_READY" "priority (pcbs k8 p) = 1" "kernel_stack_ptr (pcbs k8 p) \<noteq> None"
    "user_stack_base (pcbs k8 p) = base" "user_stack_ptr (pcbs k8 p) = base + 4088" "next_in_table (pcbs k8 p) = process_table_head k"
    "cr3 (pcbs k8 p) = 0" "parent (pcbs k8 p) = parent (pcbs k p)"
    by (simp_all add: k8_def k7_def k5eq k4_def w3 w2 k1_def)
  have prq: "p \<notin> set qs" using q(2) by (simp add: p_def)
  have "queue_list (ready_queue k8) (pcbs k8) qs"
    unfolding a8(2) by (rule queue_list_cong [of _ "pcbs k"]) (use q(1) prq in \<open>simp add: peers_def, metis a8(3)\<close>)
  from enqueue_ready_list [OF this prq] obtain qq h where
    e: "enqueue_ready p k8 = Some (k8\<lparr>ready_queue := qq, pcbs := h\<rparr>)"
    and l: "queue_list qq h (place (\<lambda>a. priority (pcbs k8 a)) p qs)" and s: "same_but_next (insert p (set qs)) (pcbs k8) h" by blast
  have run: "create_process pd entry 1 dl ttr k = Some (Some p, k8\<lparr>ready_queue := qq, pcbs := h\<rparr>)"
    by (simp only: create_process_def m1(1) m2(1) prod.case option.case Let_def k2 k3 k1_def [symmetric] Option.bind.bind_lunit
        k4_def [symmetric] k5_def [symmetric] k7_def [symmetric] k8_def [symmetric] e)
  have pr: "priority (pcbs k8 a) = 1" if "a \<in> insert p (set qs)" for a
    using that p8(3) a8(3) [of a] q(1) by (cases "a = p") (auto simp: peers_def)
  then have "place (\<lambda>a. priority (pcbs k8 a)) p qs = qs @ [p]" by (intro place_peers) auto
  then have "peers (k8\<lparr>ready_queue := qq, pcbs := h\<rparr>) (qs @ [p])"
    using l pr by (auto simp: peers_def same_but_nextD [OF s])
  moreover have "created pd entry n k (k8\<lparr>ready_queue := qq, pcbs := h\<rparr>)"
  proof -
    have mem4: "kernel_memory (arena k4) = store32 (base + 4088) 0 (store32 (base + 4092) entry (kernel_memory m2))"
      by (simp add: k4_def w3 w2 k1_def ac_simps)
    have keep: "load32 a (kernel_memory m5) = load32 a (kernel_memory (arena k4))" if "a + 4 \<le> base + 4096" for a
      by (rule load32_cong) (use m5(3) that in \<open>auto simp: base_def sizeof_block_def\<close>)
    have "load32 (base + 4088) (kernel_memory m5) = 0" "load32 (base + 4092) (kernel_memory m5) = entry"
      using keep [of "base + 4088"] keep [of "base + 4092"] by (simp_all add: mem4 byte_simps)
    moreover have "kernel_memory m5 a = kernel_memory (arena k) a" if "a < n * PAGE_SIZE" for a
      using that m5(3) m2(3) m1(3) by (simp add: mem4 base_def store32_other)
    moreover have "(h a)\<lparr>next_ready := None\<rparr> = (pcbs k a)\<lparr>next_ready := None\<rparr>" if "a \<noteq> p" for a
      using s a8(3) [OF that] by (simp add: same_but_next_def)
    moreover have "current_process k8 = current_process k" "next_pid k8 = next_pid k" "process_table_head k8 = Some p"
      "esp k8 = esp k" "ebp k8 = ebp k" "eip k8 = eip k"
      by (simp_all add: k8_def k7_def k5eq k4_def w3 w2 k1_def)
    moreover have "cr3 (h p) = cr3 (pcbs k8 p)"
    proof -
      have "(h p)\<lparr>next_ready := None\<rparr> = (pcbs k8 p)\<lparr>next_ready := None\<rparr>" using s by (simp add: same_but_next_def)
      from arg_cong [OF this, of cr3] show ?thesis by simp
    qed
    ultimately show ?thesis using u5 p8
      unfolding created_def Let_def p_def [symmetric] base_def [symmetric] by (simp add: a8(1) same_but_nextD [OF s])
  qed
  ultimately show ?thesis using run unfolding p_def by blast
qed

lemma createdD:
  assumes "created pd entry n k k'" "p = n * PAGE_SIZE + sizeof_block" "base = (n + 1) * PAGE_SIZE + sizeof_block"
  shows "unused_from (n + 5) (arena k')" "pid (pcbs k' p) = pd" "state (pcbs k' p) = STATE_READY" "priority (pcbs k' p) = 1"
    "kernel_stack_ptr (pcbs k' p) \<noteq> None" "user_stack_base (pcbs k' p) = base" "user_stack_ptr (pcbs k' p) = base + 4088"
    "load32 (base + 4088) (kernel_memory (arena k')) = 0" "load32 (base + 4092) (kernel_memory (arena k')) = entry"
    "\<And>a. a < n * PAGE_SIZE \<Longrightarrow> kernel_memory (arena k') a = kernel_memory (arena k) a"
    "current_process k' = current_process k" "esp k' = esp k" "ebp k' = ebp k" "eip k' = eip k"
    "process_table_head k' = Some p" "next_in_table (pcbs k' p) = process_table_head k" "next_pid k' = next_pid k"
    "cr3 (pcbs k' p) = 0" "parent (pcbs k' p) = parent (pcbs k p)"
  using assms(1) unfolding created_def Let_def assms(2) [symmetric] assms(3) [symmetric] by blast+

lemma created_other:
  assumes "created pd entry n k k'" "a \<noteq> n * PAGE_SIZE + sizeof_block"
  shows "state (pcbs k' a) = state (pcbs k a)" "priority (pcbs k' a) = priority (pcbs k a)"
    "kernel_stack_ptr (pcbs k' a) = kernel_stack_ptr (pcbs k a)" "user_stack_base (pcbs k' a) = user_stack_base (pcbs k a)"
    "user_stack_ptr (pcbs k' a) = user_stack_ptr (pcbs k a)" "next_in_table (pcbs k' a) = next_in_table (pcbs k a)"
    "pid (pcbs k' a) = pid (pcbs k a)" "parent (pcbs k' a) = parent (pcbs k a)"
proof -
  have eq: "(pcbs k' a)\<lparr>next_ready := None\<rparr> = (pcbs k a)\<lparr>next_ready := None\<rparr>"
    using assms by (simp add: created_def Let_def)
  show "state (pcbs k' a) = state (pcbs k a)" using arg_cong [OF eq, of state] by simp
  show "priority (pcbs k' a) = priority (pcbs k a)" using arg_cong [OF eq, of priority] by simp
  show "kernel_stack_ptr (pcbs k' a) = kernel_stack_ptr (pcbs k a)" using arg_cong [OF eq, of kernel_stack_ptr] by simp
  show "user_stack_base (pcbs k' a) = user_stack_base (pcbs k a)" using arg_cong [OF eq, of user_stack_base] by simp
  show "user_stack_ptr (pcbs k' a) = user_stack_ptr (pcbs k a)" using arg_cong [OF eq, of user_stack_ptr] by simp
  show "next_in_table (pcbs k' a) = next_in_table (pcbs k a)" using arg_cong [OF eq, of next_in_table] by simp
  show "pid (pcbs k' a) = pid (pcbs k a)" using arg_cong [OF eq, of pid] by simp
  show "parent (pcbs k' a) = parent (pcbs k a)" using arg_cong [OF eq, of parent] by simp
qed

text \<open>\<open>low n t ps\<close>: the blocks and stacks of the processes lie below page \<open>n\<close>.\<close>

definition low :: "nat \<Rightarrow> tester \<Rightarrow> addr list \<Rightarrow> bool" where
  "low n t ps \<longleftrightarrow> (\<forall>p\<in>set ps. p < n * PAGE_SIZE \<and> stack_of t p + 4096 \<le> n * PAGE_SIZE)"

lemma new_process_inside:
  assumes i: "inside b t p ws r" and sf: "small_frames b" and u: "unused_from n (arena (os t))" "n + 5 < NUM_PAGES"
    and l: "low n t (p # map fst ws)" and e: "known (Fresh e)"
  defines "c \<equiv> n * PAGE_SIZE + sizeof_block"
  shows "\<exists>k. new_process (address b (Start e)) 1 dl ttr t = Some (Some c, t\<lparr>os := k\<rparr>)
    \<and> inside b (t\<lparr>os := k\<rparr>) p (ws @ [(c, Fresh e)]) r \<and> unused_from (n + 5) (arena k)
    \<and> low (n + 5) (t\<lparr>os := k\<rparr>) (p # map fst (ws @ [(c, Fresh e)]))
    \<and> user_stack_base (pcbs k c) = (n + 1) * PAGE_SIZE + sizeof_block
    \<and> (\<forall>a. a \<noteq> c \<longrightarrow> user_stack_base (pcbs k a) = stack_of t a \<and> state (pcbs k a) = state (pcbs (os t) a))"
proof -
  let ?k0 = "(os t)\<lparr>next_pid := next_pid (os t) + 1\<rparr>" and ?b = "(n + 1) * PAGE_SIZE + sizeof_block"
  have bh: "behind b t p ws" using i by (simp add: inside_def)
  then have cr: "crew t (p # map fst ws)" and pe: "peers (os t) (map fst ws)" and cur: "current_process (os t) = Some p"
    by (simp_all add: behind_def)
  have c: "c \<notin> set (p # map fst ws)" using l unfolding low_def c_def by (metis not_add_less1)
  have "peers ?k0 (map fst ws)" "n * PAGE_SIZE + sizeof_block \<notin> set (map fst ws)" "unused_from n (arena ?k0)"
    using pe c u(1) by (simp_all add: peers_def c_def)
  from create_process_peers [OF this u(2), of "next_pid (os t)" "address b (Start e)" dl ttr] obtain k where
    k: "create_process (next_pid (os t)) (address b (Start e)) 1 dl ttr ?k0 = Some (Some c, k)"
      "peers k (map fst ws @ [c])" "created (next_pid (os t)) (address b (Start e)) n ?k0 k" unfolding c_def by blast
  let ?t = "t\<lparr>os := k\<rparr>"
  note d = createdD [OF k(3) c_def [THEN meta_eq_to_obj_eq] refl]
  have f: "state (pcbs k a) = state (pcbs (os t) a)" "priority (pcbs k a) = priority (pcbs (os t) a)"
    "kernel_stack_ptr (pcbs k a) = kernel_stack_ptr (pcbs (os t) a)" "user_stack_base (pcbs k a) = stack_of t a"
    "user_stack_ptr (pcbs k a) = user_stack_ptr (pcbs (os t) a)" if "a \<noteq> c" for a
    using created_other [OF k(3), of a] that by (simp_all add: c_def)
  have old: "a \<noteq> c \<and> a < n * PAGE_SIZE \<and> stack_of t a + 4096 \<le> n * PAGE_SIZE" if "a \<in> set (p # map fst ws)" for a
    using that c l unfolding low_def by blast
  have new: "new_process (address b (Start e)) 1 dl ttr t = Some (Some c, ?t)"
    by (simp add: new_process_def get_new_pid_def k(1))
  have lo: "low (n + 5) ?t (p # map fst (ws @ [(c, Fresh e)]))"
  proof -
    have "a < (n + 5) * PAGE_SIZE \<and> stack_of ?t a + 4096 \<le> (n + 5) * PAGE_SIZE" if "a = c \<or> a \<in> set (p # map fst ws)" for a
      using that
    proof
      assume "a = c"
      then show ?thesis using d(6) by (simp add: c_def sizeof_block_def)
    next
      assume a: "a \<in> set (p # map fst ws)"
      show ?thesis using old [OF a] f(4) [of a] by simp
    qed
    then show ?thesis by (auto simp: low_def)
  qed
  have cw: "crew ?t (p # map fst (ws @ [(c, Fresh e)]))"
    unfolding crew_def
  proof (intro conjI ballI impI)
    show "distinct (p # map fst (ws @ [(c, Fresh e)]))" using cr c by (auto simp: crew_def)
  next
    fix a assume "a \<in> set (p # map fst (ws @ [(c, Fresh e)]))"
    then consider "a = c" | "a \<in> set (p # map fst ws)" by auto
    then have "priority (pcbs k a) = 1 \<and> kernel_stack_ptr (pcbs k a) \<noteq> None \<and> user_stack_base (pcbs k a) + 4096 \<le> KERNEL_MEMORY_SIZE"
    proof cases
      case 1
      then show ?thesis using d(4-6) u(2) by (simp add: sizeof_block_def)
    next
      case 2
      then show ?thesis using crewD(1-3) [OF cr 2] old [OF 2] f(2-4) [of a] by simp
    qed
    then show "priority (pcbs (os ?t) a) = 1" "kernel_stack_ptr (pcbs (os ?t) a) \<noteq> None" "stack_of ?t a + 4096 \<le> KERNEL_MEMORY_SIZE"
      by simp_all
  next
    fix a q assume a: "a \<in> set (p # map fst (ws @ [(c, Fresh e)]))" "q \<in> set (p # map fst (ws @ [(c, Fresh e)]))" "a \<noteq> q"
    have sc: "user_stack_base (pcbs k c) = ?b" by (rule d(6))
    have so: "user_stack_base (pcbs k x) + 4096 \<le> ?b" if "x \<in> set (p # map fst ws)" for x
      using old [OF that] f(4) [of x] by simp
    from a consider "a = c" "q \<in> set (p # map fst ws)" | "q = c" "a \<in> set (p # map fst ws)"
      | "a \<in> set (p # map fst ws)" "q \<in> set (p # map fst ws)" by auto
    then show "stack_of ?t a + 4096 \<le> stack_of ?t q \<or> stack_of ?t q + 4096 \<le> stack_of ?t a"
    proof cases
      case 3
      then show ?thesis using crewD(4) [OF cr 3(1,2) a(3)] old [OF 3(1)] old [OF 3(2)] f(4) by simp
    qed (use so sc in auto)
  qed
  have ww: "waits b ?t q tk" if "(q, tk) \<in> set (ws @ [(c, Fresh e)])" for q tk
  proof -
    from that consider "q = c" "tk = Fresh e" | "(q, tk) \<in> set ws" by auto
    then show ?thesis
    proof cases
      case 1
      with d(6-9) e show ?thesis by (simp add: waits_def add.assoc)
    next
      case 2
      then have qm: "q \<in> set (p # map fst ws)" by force
      from 2 bh have w: "waits b t q tk" by (auto simp: behind_def)
      show ?thesis by (rule waits_keep [OF w sf]) (use old [OF qm] f [of q] d(10) in auto)
    qed
  qed
  have "behind b ?t p (ws @ [(c, Fresh e)])"
    using cw ww k(2) d(11) cur by (auto simp: behind_def)
  moreover have "p \<noteq> c" using c by auto
  ultimately have "inside b ?t p (ws @ [(c, Fresh e)]) r" using i d(12,13) f by (simp add: inside_def)
  then show ?thesis using new lo d(1,6) f by blast
qed

subsection \<open>The run of \<open>process_test\<close>\<close>

text \<open>A process in front of the first instruction of a program, alone in the system but for what is not ready.\<close>

definition enters :: "build \<Rightarrow> tester \<Rightarrow> addr \<Rightarrow> routine \<Rightarrow> bool" where
  "enters b t p r \<longleftrightarrow> behind b t p [] \<and> state (pcbs (os t) p) = STATE_RUNNING \<and> esp (os t) = stack_of t p + 4096
     \<and> eip (os t) = address b (Start r)"

text \<open>The loop that empties the ready queue.\<close>

lemma clear_ready_empties:
  "queue_list (ready_queue k) (pcbs k) qs \<Longrightarrow> \<exists>q h. clear_ready k = Some (k\<lparr>ready_queue := q, pcbs := h\<rparr>)
    \<and> queue_list q h [] \<and> (\<forall>a. (h a)\<lparr>next_ready := None\<rparr> = (pcbs k a)\<lparr>next_ready := None\<rparr>)"
proof (induction qs arbitrary: k)
  case Nil
  have "k = k\<lparr>ready_queue := ready_queue k, pcbs := pcbs k\<rparr>" by simp
  moreover have "is_queue_empty (ready_queue k)" using Nil by (simp add: queue_list_def is_queue_empty_def)
  ultimately show ?case using Nil by (metis clear_ready.simps)
next
  case (Cons p ps)
  have ne: "\<not> is_queue_empty (ready_queue k)" using Cons.prems by (simp add: queue_list_def is_queue_empty_def)
  from dequeue_list(2) [OF Cons.prems] obtain q h where
    d: "dequeue_process (ready_queue k) (pcbs k) = (Some p, q, h)" "queue_list q h ps" "same_but_next {p} (pcbs k) h" by blast
  let ?k = "k\<lparr>ready_queue := q, pcbs := h\<rparr>"
  have "queue_list (ready_queue ?k) (pcbs ?k) ps" using d(2) by simp
  from Cons.IH [OF this] obtain q' h' where
    c: "clear_ready ?k = Some (?k\<lparr>ready_queue := q', pcbs := h'\<rparr>)" "queue_list q' h' []"
      "\<forall>a. (h' a)\<lparr>next_ready := None\<rparr> = (h a)\<lparr>next_ready := None\<rparr>" by auto
  have "clear_ready k = Some (k\<lparr>ready_queue := q', pcbs := h'\<rparr>)"
    using c(1) by (subst clear_ready.simps) (simp add: ne d(1))
  with c(2,3) d(3) show ?case by (auto simp: same_but_next_def)
qed

text \<open>\<open>test_scheduler\<close> up to its first \<open>yield_syscall\<close>, whatever the ready queue holds.\<close>

lemma open_frame_runs:
  assumes "4 \<le> esp (os t)" "esp (os t) \<le> KERNEL_MEMORY_SIZE"
  shows "open_frame b r t = Some (t\<lparr>os := (os t)\<lparr>arena := (arena (os t))\<lparr>kernel_memory :=
      store32 (esp (os t) - 4) (ebp (os t)) (kernel_memory (arena (os t)))\<rparr>,
    ebp := of_nat (esp (os t) - 4), esp := esp (os t) - 4 - room b r\<rparr>\<rparr>)"
proof -
  have "esp (os t) - 4 + 4 \<le> KERNEL_MEMORY_SIZE" using assms by simp
  then show ?thesis using assms(1) by (simp add: open_frame_def push_def write_word_def)
qed

lemma scheduler_opens:
  assumes cur: "current_process (os t) = Some p" and st: "state (pcbs (os t) p) = STATE_RUNNING"
    and sp: "esp (os t) = stack_of t p + 4096" and qs: "queue_list (ready_queue (os t)) (pcbs (os t)) qs" and cr: "crew t [p]"
    and sf: "small_frames b"
  shows "\<exists>t1 k. open_frame b Test_Scheduler t = Some t1 \<and> clear_ready (os t1) = Some k \<and> said t1 = said t
    \<and> inside b (t1\<lparr>os := k\<rparr>) p [] Test_Scheduler \<and> page_table (arena k) = page_table (arena (os t))
    \<and> last_page_index (arena k) = last_page_index (arena (os t))
    \<and> (\<forall>a. user_stack_base (pcbs k a) = stack_of t a \<and> state (pcbs k a) = state (pcbs (os t) a))"
proof -
  let ?s = "stack_of t p"
  have s: "?s + 4096 \<le> KERNEL_MEMORY_SIZE" "priority (pcbs (os t) p) = 1" "kernel_stack_ptr (pcbs (os t) p) \<noteq> None"
    using crewD [OF cr, of p] by simp_all
  define t1 where "t1 = t\<lparr>os := (os t)\<lparr>arena := (arena (os t))\<lparr>kernel_memory :=
      store32 (esp (os t) - 4) (ebp (os t)) (kernel_memory (arena (os t)))\<rparr>,
    ebp := of_nat (esp (os t) - 4), esp := esp (os t) - 4 - room b Test_Scheduler\<rparr>\<rparr>"
  have o: "open_frame b Test_Scheduler t = Some t1"
    unfolding t1_def by (rule open_frame_runs) (use sp s in simp_all)
  have f1: "pcbs (os t1) = pcbs (os t)" "ready_queue (os t1) = ready_queue (os t)" "current_process (os t1) = Some p"
    "said t1 = said t" "ebp (os t1) = base_pointer ?s" "esp (os t1) = ?s + 4092 - room b Test_Scheduler"
    using sp cur by (simp_all add: t1_def base_pointer_def)
  have "queue_list (ready_queue (os t1)) (pcbs (os t1)) qs" using qs by (simp add: f1)
  from clear_ready_empties [OF this] obtain q h where
    c: "clear_ready (os t1) = Some ((os t1)\<lparr>ready_queue := q, pcbs := h\<rparr>)" "queue_list q h []"
    and eq: "\<And>a. (h a)\<lparr>next_ready := None\<rparr> = (pcbs (os t) a)\<lparr>next_ready := None\<rparr>" unfolding f1(1) by blast
  have h: "state (h a) = state (pcbs (os t) a)" "priority (h a) = priority (pcbs (os t) a)"
    "kernel_stack_ptr (h a) = kernel_stack_ptr (pcbs (os t) a)" "user_stack_base (h a) = stack_of t a" for a
    using arg_cong [OF eq, of state] arg_cong [OF eq, of priority] arg_cong [OF eq, of kernel_stack_ptr]
      arg_cong [OF eq, of user_stack_base] by simp_all
  have "inside b (t1\<lparr>os := (os t1)\<lparr>ready_queue := q, pcbs := h\<rparr>\<rparr>) p [] Test_Scheduler"
    using c(2) f1 h s st by (simp add: inside_def behind_def crew_def peers_def)
  moreover have "page_table (arena (os t1)) = page_table (arena (os t))" "last_page_index (arena (os t1)) = last_page_index (arena (os t))"
    by (simp_all add: t1_def)
  ultimately show ?thesis using o c(1) f1(4) h
    by (intro exI [of _ t1] exI [of _ "(os t1)\<lparr>ready_queue := q, pcbs := h\<rparr>"]) simp
qed

text \<open>\<open>process_test\<close> up to the switch: the scheduler test goes first, as it was queued first.\<close>

lemma process_test_hands_over:
  assumes e: "enters b t p Process_Test" and sf: "small_frames b"
    and u: "unused_from n (arena (os t))" "n + 5 < NUM_PAGES" and l: "low n t [p]"
  defines "c \<equiv> n * PAGE_SIZE + sizeof_block" and "m \<equiv> [Debug ''DEBUG: Starting comprehensive process management test'']"
  shows "\<exists>k. process_test b t = Some (Goes (send m t\<lparr>os := k\<rparr>)) \<and> current_process k = Some c \<and> state (pcbs k c) = STATE_RUNNING
    \<and> esp k = user_stack_base (pcbs k c) + 4096 \<and> eip k = address b (Start Test_Scheduler)
    \<and> queue_list (ready_queue k) (pcbs k) [p] \<and> crew (send m t\<lparr>os := k\<rparr>) [c] \<and> unused_from (n + 5) (arena k)
    \<and> low (n + 5) (send m t\<lparr>os := k\<rparr>) [c] \<and> user_stack_base (pcbs k c) = (n + 1) * PAGE_SIZE + sizeof_block
    \<and> state (pcbs k p) = STATE_READY"
proof -
  have bh: "behind b t p []" and st: "state (pcbs (os t) p) = STATE_RUNNING" and sp: "esp (os t) = stack_of t p + 4096"
    using e by (simp_all add: enters_def)
  from open_frame_inside [OF bh sf sp st, of Process_Test] obtain k1 where
    k1: "open_frame b Process_Test t = Some (t\<lparr>os := k1\<rparr>)" "inside b (t\<lparr>os := k1\<rparr>) p [] Process_Test" "pcbs k1 = pcbs (os t)"
      "page_table (arena k1) = page_table (arena (os t))" "last_page_index (arena k1) = last_page_index (arena (os t))" by blast
  have pc: "p \<noteq> c" using l by (auto simp: low_def c_def)
  have b1: "current_process k1 = Some p" "peers k1 []" "priority (pcbs k1 p) = 1" "state (pcbs k1 p) = STATE_RUNNING"
    using k1(2) by (auto simp: inside_def behind_def crew_def)
  let ?k0 = "k1\<lparr>next_pid := next_pid k1 + 1\<rparr>"
  have "peers ?k0 []" "unused_from n (arena ?k0)" using b1(2) u(1) k1(4,5) by (simp_all add: peers_def unused_from_def)
  from create_process_peers [OF this(1) _ this(2) u(2), of "next_pid k1" "address b (Start Test_Scheduler)" 2 3] obtain k2 where
    k2: "create_process (next_pid k1) (address b (Start Test_Scheduler)) 1 2 3 ?k0 = Some (Some c, k2)" "peers k2 [c]"
      "created (next_pid k1) (address b (Start Test_Scheduler)) n ?k0 k2" unfolding c_def by auto
  note d = createdD [OF k2(3) c_def [THEN meta_eq_to_obj_eq] refl]
  have o: "state (pcbs k2 p) = STATE_RUNNING" "priority (pcbs k2 p) = 1" "user_stack_base (pcbs k2 p) = stack_of t p"
    using created_other [OF k2(3), of p] pc b1(3,4) k1(3) by (simp_all add: c_def)
  have cur: "current_process k2 = Some p" using d(11) b1(1) by simp
  have r: "rejoin k2 p [c] = c # [p]" by (simp add: rejoin_def o(1))
  have us: "user_stack_ptr (pcbs k2 c) + 8 \<le> KERNEL_MEMORY_SIZE" using d(7) u(2) by (simp add: sizeof_block_def)
  have "p \<notin> set [c]" using pc by simp
  from schedule_peers [OF cur k2(2) this o(2) r us, of "schedule_frame b"] obtain k where
    k: "schedule (schedule_frame b) k2 = Some (Switched k)" "current_process k = Some c" "peers k [p]" "arena k = arena k2"
      "eip k = load32 (user_stack_ptr (pcbs k2 c) + 4) (kernel_memory (arena k2))" "esp k = user_stack_ptr (pcbs k2 c) + 8"
    and ks: "\<And>a. kernel_stack_ptr (pcbs k2 a) \<noteq> None \<Longrightarrow> kernel_stack_ptr (pcbs k a) \<noteq> None"
    and id: "\<And>a. same_identity (pcbs k a) (pcbs k2 a)"
    and st': "\<And>a. state (pcbs k a) = (if a = c then STATE_RUNNING else if a = p \<and> state (pcbs k2 p) = STATE_RUNNING then STATE_READY
        else state (pcbs k2 a))" by blast
  have f: "user_stack_base (pcbs k c) = (n + 1) * PAGE_SIZE + sizeof_block" "priority (pcbs k c) = 1"
    "esp k = user_stack_base (pcbs k c) + 4096" "eip k = address b (Start Test_Scheduler)"
    using id [of c] d(4,6,7,9) k(5,6) by (simp_all add: same_identity_def add.assoc)
  let ?t = "send m t\<lparr>os := k\<rparr>"
  have "process_test b t = Some (Goes ?t)"
    using k(1) k1(1) k2(1) by (simp add: process_test_def new_process_def get_new_pid_def hand_over_def m_def send_def)
  moreover have "crew ?t [c]" using f(1,2) ks d(5) u(2) by (simp add: crew_def sizeof_block_def)
  moreover have "low (n + 5) ?t [c]" using f(1) by (simp add: low_def c_def sizeof_block_def)
  ultimately show ?thesis using k(2,3) st' [of c] st' [of p] pc o(1) f d(1) k(4)
    by (intro exI [of _ k]) (simp add: peers_def)
qed

text \<open>The three processes of the scheduler test, at the pages that they get.\<close>

definition three :: "nat \<Rightarrow> (addr \<times> task) list" where
  "three n = [(n * PAGE_SIZE + sizeof_block, Fresh Test_Process_1), ((n + 5) * PAGE_SIZE + sizeof_block, Fresh Test_Process_2),
     ((n + 10) * PAGE_SIZE + sizeof_block, Fresh Test_Process_3)]"

lemma scheduler_creates:
  assumes i: "inside b t p [] Test_Scheduler" and sf: "small_frames b" and u: "unused_from n (arena (os t))" "n + 15 < NUM_PAGES"
    and l: "low n t [p]"
  shows "\<exists>t'. (do {
     (x0, t3) \<leftarrow> new_process (address b (Start Test_Process_1)) 1 2 3 t;
     (x1, t4) \<leftarrow> new_process (address b (Start Test_Process_2)) 1 4 5 t3;
     (x2, t5) \<leftarrow> new_process (address b (Start Test_Process_3)) 1 6 7 t4;
     let t6 = t5\<lparr>test_processes := (test_processes t5)(0 := x0, 1 := x1, 2 := x2)\<rparr>;
     test_scheduler_loop b (set_my (loop_i_update (\<lambda>_. 0)) (send [Debug ''DEBUG: Created test processes''] t6))
   }) = test_scheduler_loop b t' \<and> inside b t' p (three n) Test_Scheduler \<and> loop_i (my t') = 0
    \<and> said t' = said t @ [Debug ''DEBUG: Created test processes'']
    \<and> map (stack_of t') (map fst (three n)) = [(n + 1) * PAGE_SIZE + sizeof_block, (n + 6) * PAGE_SIZE + sizeof_block,
        (n + 11) * PAGE_SIZE + sizeof_block]
    \<and> stack_of t' p = stack_of t p
    \<and> (\<forall>a. a \<notin> set (map fst (three n)) \<longrightarrow> state (pcbs (os t') a) = state (pcbs (os t) a))"
proof -
  let ?c1 = "n * PAGE_SIZE + sizeof_block" and ?c2 = "(n + 5) * PAGE_SIZE + sizeof_block" and ?c3 = "(n + 10) * PAGE_SIZE + sizeof_block"
  have pages: "n + 5 < NUM_PAGES" "n + 5 + 5 < NUM_PAGES" "n + 10 + 5 < NUM_PAGES" using u(2) by simp_all
  have known: "known (Fresh Test_Process_1)" "known (Fresh Test_Process_2)" "known (Fresh Test_Process_3)" by simp_all
  have l0: "low n t (p # map fst [])" using l by simp
  from new_process_inside [OF i sf u(1) pages(1) l0 known(1), of 2 3] obtain k1 where
    k1: "new_process (address b (Start Test_Process_1)) 1 2 3 t = Some (Some ?c1, t\<lparr>os := k1\<rparr>)"
      "inside b (t\<lparr>os := k1\<rparr>) p ([] @ [(?c1, Fresh Test_Process_1)]) Test_Scheduler" "unused_from (n + 5) (arena (os (t\<lparr>os := k1\<rparr>)))"
      "low (n + 5) (t\<lparr>os := k1\<rparr>) (p # map fst ([] @ [(?c1, Fresh Test_Process_1)]))"
      "user_stack_base (pcbs k1 ?c1) = (n + 1) * PAGE_SIZE + sizeof_block"
    and o1: "\<And>a. a \<noteq> ?c1 \<Longrightarrow> user_stack_base (pcbs k1 a) = stack_of t a \<and> state (pcbs k1 a) = state (pcbs (os t) a)" by auto
  from new_process_inside [OF k1(2) sf k1(3) pages(2) k1(4) known(2), of 4 5] obtain k2 where
    k2: "new_process (address b (Start Test_Process_2)) 1 4 5 (t\<lparr>os := k1\<rparr>) = Some (Some ?c2, t\<lparr>os := k2\<rparr>)"
      "inside b (t\<lparr>os := k2\<rparr>) p (([] @ [(?c1, Fresh Test_Process_1)]) @ [(?c2, Fresh Test_Process_2)]) Test_Scheduler"
      "unused_from (n + 5 + 5) (arena (os (t\<lparr>os := k2\<rparr>)))"
      "low (n + 5 + 5) (t\<lparr>os := k2\<rparr>) (p # map fst (([] @ [(?c1, Fresh Test_Process_1)]) @ [(?c2, Fresh Test_Process_2)]))"
      "user_stack_base (pcbs k2 ?c2) = (n + 5 + 1) * PAGE_SIZE + sizeof_block"
    and o2: "\<And>a. a \<noteq> ?c2 \<Longrightarrow> user_stack_base (pcbs k2 a) = user_stack_base (pcbs k1 a) \<and> state (pcbs k2 a) = state (pcbs k1 a)" by auto
  have n10: "n + 5 + 5 = n + 10" by simp
  from new_process_inside [OF k2(2) sf k2(3) [unfolded n10] pages(3) k2(4) [unfolded n10] known(3), of 6 7] obtain k3 where
    k3: "new_process (address b (Start Test_Process_3)) 1 6 7 (t\<lparr>os := k2\<rparr>) = Some (Some ?c3, t\<lparr>os := k3\<rparr>)"
      "inside b (t\<lparr>os := k3\<rparr>) p ((([] @ [(?c1, Fresh Test_Process_1)]) @ [(?c2, Fresh Test_Process_2)]) @ [(?c3, Fresh Test_Process_3)])
         Test_Scheduler"
      "user_stack_base (pcbs k3 ?c3) = (n + 10 + 1) * PAGE_SIZE + sizeof_block"
    and o3: "\<And>a. a \<noteq> ?c3 \<Longrightarrow> user_stack_base (pcbs k3 a) = user_stack_base (pcbs k2 a) \<and> state (pcbs k3 a) = state (pcbs k2 a)" by auto
  let ?t5 = "t\<lparr>os := k3\<rparr>"
  let ?t6 = "?t5\<lparr>test_processes := (test_processes ?t5)(0 := Some ?c1, 1 := Some ?c2, 2 := Some ?c3)\<rparr>"
  let ?t' = "set_my (loop_i_update (\<lambda>_. 0)) (send [Debug ''DEBUG: Created test processes''] ?t6)"
  have "inside b ?t5 p (three n) Test_Scheduler" using k3(2) by (simp add: three_def)
  then have "inside b ?t6 p (three n) Test_Scheduler" by (simp add: inside_def behind_def crew_def waits_def)
  then have "inside b ?t' p (three n) Test_Scheduler" by (rule inside_set_my [OF inside_send [OF _ sf] sf])
  moreover have "?c1 \<noteq> ?c2" "?c1 \<noteq> ?c3" "?c2 \<noteq> ?c3" by simp_all
  then have "map (stack_of ?t') (map fst (three n)) = [(n + 1) * PAGE_SIZE + sizeof_block, (n + 6) * PAGE_SIZE + sizeof_block,
        (n + 11) * PAGE_SIZE + sizeof_block]"
    using o3 o2 k1(5) k2(5) k3(3) by (simp add: three_def)
  moreover have "stack_of ?t' p = stack_of t p" "\<forall>a. a \<notin> set (map fst (three n)) \<longrightarrow> state (pcbs (os ?t') a) = state (pcbs (os t) a)"
    using o3 o2 o1 l by (auto simp: three_def low_def)
  ultimately show ?thesis using k1(1) k2(1) k3(1) by (intro exI [of _ ?t']) simp
qed

lemma scheduler_turned:
  assumes cur: "current_process (os t) = Some p" and st: "state (pcbs (os t) p) = STATE_RUNNING"
    and sp: "esp (os t) = stack_of t p + 4096" and qs: "queue_list (ready_queue (os t)) (pcbs (os t)) qs" and cr: "crew t [p]"
    and sf: "small_frames b" and u: "unused_from n (arena (os t))" "n + 15 < NUM_PAGES" and l: "low n t [p]"
  shows "\<exists>t'. test_scheduler b t = Some (Goes t') \<and> said t' = said t @ [Debug ''DEBUG: Testing scheduler started.'',
        Debug ''DEBUG: Created test processes'', Debug ''DEBUG: Scheduler iteration'']
    \<and> continues b t' (n * PAGE_SIZE + sizeof_block) (Fresh Test_Process_1)
    \<and> behind b t' (n * PAGE_SIZE + sizeof_block) (tl (three n) @ [(p, Loop Test_Scheduler 0)])
    \<and> map (stack_of t') (map fst (three n)) = [(n + 1) * PAGE_SIZE + sizeof_block, (n + 6) * PAGE_SIZE + sizeof_block,
        (n + 11) * PAGE_SIZE + sizeof_block]
    \<and> (\<forall>a. a \<notin> set (p # map fst (three n)) \<longrightarrow> state (pcbs (os t') a) = state (pcbs (os t) a))"
proof -
  let ?m = "[Debug ''DEBUG: Testing scheduler started.'']"
  from scheduler_opens [OF cur st sp qs cr sf] obtain t1 k where
    t1: "open_frame b Test_Scheduler t = Some t1" "clear_ready (os t1) = Some k" "said t1 = said t"
      "inside b (t1\<lparr>os := k\<rparr>) p [] Test_Scheduler" "page_table (arena k) = page_table (arena (os t))"
      "last_page_index (arena k) = last_page_index (arena (os t))"
    and f: "\<And>a. user_stack_base (pcbs k a) = stack_of t a \<and> state (pcbs k a) = state (pcbs (os t) a)" by blast
  let ?t2 = "send ?m (t1\<lparr>os := k\<rparr>)"
  have eq: "send ?m t1\<lparr>os := k\<rparr> = ?t2" by (simp add: send_def)
  have "unused_from n (arena (os ?t2))" "low n ?t2 [p]" using u(1) l t1(5,6) f by (simp_all add: unused_from_def low_def)
  from scheduler_creates [OF inside_send [OF t1(4) sf] sf this(1) u(2) this(2)] obtain t6 where
    t6: "test_scheduler b t = test_scheduler_loop b t6" "inside b t6 p (three n) Test_Scheduler" "loop_i (my t6) = 0"
      "said t6 = said t @ [Debug ''DEBUG: Testing scheduler started.'', Debug ''DEBUG: Created test processes'']"
      "map (stack_of t6) (map fst (three n)) = [(n + 1) * PAGE_SIZE + sizeof_block, (n + 6) * PAGE_SIZE + sizeof_block,
        (n + 11) * PAGE_SIZE + sizeof_block]"
      "\<And>a. a \<notin> set (map fst (three n)) \<Longrightarrow> state (pcbs (os t6) a) = state (pcbs (os t) a)"
    unfolding test_scheduler_def t1(1) Let_def using t1(2,3) f by (auto simp: eq)
  have "since t6 [] t6" by (simp add: since_def)
  from loop_s_turned [OF t6(2) sf this] have tu: "turned b t6 p (three n) ([Debug ''DEBUG: Scheduler iteration''],
      Some (Loop Test_Scheduler 0)) (test_scheduler_loop b t6)" by (simp add: t6(3) loop_turn_def)
  have "three n @ again p (Some (Loop Test_Scheduler 0))
      = (n * PAGE_SIZE + sizeof_block, Fresh Test_Process_1) # tl (three n) @ [(p, Loop Test_Scheduler 0)]"
    by (simp add: three_def again_def)
  from turned_on [OF tu this] t6 show ?thesis by auto
qed

lemma scheduler_turns:
  "turns b bp 13 [(p1, Fresh Test_Process_1), (p2, Fresh Test_Process_2), (p3, Fresh Test_Process_3), (p, Loop Test_Scheduler 0)]
    = Some (Debug ''DEBUG: Test process 1 running'' # iteration_1 (bp p1 - x_offset b Test_Process_1) 0 4
      @ Debug ''DEBUG: Test process 2 running'' # iteration_2 (bp p2 - x_offset b Test_Process_2) 0 5
      @ [Debug ''DEBUG: Test process 3 running'', Debug ''DEBUG: Test process 3 complete'', Debug ''DEBUG: Scheduler iteration'']
      @ iteration_1 (bp p1 - x_offset b Test_Process_1) 1 4 @ iteration_2 (bp p2 - x_offset b Test_Process_2) 1 5
      @ Debug ''DEBUG: Scheduler iteration'' # iteration_1 (bp p1 - x_offset b Test_Process_1) 2 4
      @ [Debug ''DEBUG: Test process 2 complete'', Debug ''DEBUG: Scheduler iteration'',
         Debug ''DEBUG: Test process 1 complete'', Debug ''DEBUG: Scheduler iteration'', Debug ''DEBUG: Scheduler test complete''])"
proof -
  have "(13::nat) = Suc (Suc (Suc (Suc (Suc (Suc (Suc (Suc (Suc (Suc (Suc (Suc (Suc 0))))))))))))" by simp
  then show ?thesis by (simp only: turns.simps) (simp add: loop_turn_def again_def)
qed

text \<open>The first two pieces: \<open>process_test\<close> hands over to \<open>test_scheduler\<close>, which yields to the first of its three processes.\<close>

lemma process_test_opens:
  assumes "inj_on (address b) (set points)" "small_frames b" "enters b t p Process_Test"
    and "unused_from n (arena (os t))" "n + 20 < NUM_PAGES" "low n t [p]"
  defines "c \<equiv> n * PAGE_SIZE + sizeof_block"
  shows "\<exists>t3. (\<forall>m. pieces b (Suc (Suc m)) t = pieces b m t3) \<and> said t3 = said t
      @ [Debug ''DEBUG: Starting comprehensive process management test'', Debug ''DEBUG: Testing scheduler started.'',
         Debug ''DEBUG: Created test processes'', Debug ''DEBUG: Scheduler iteration'']
    \<and> continues b t3 ((n + 5) * PAGE_SIZE + sizeof_block) (Fresh Test_Process_1)
    \<and> behind b t3 ((n + 5) * PAGE_SIZE + sizeof_block) (tl (three (n + 5)) @ [(c, Loop Test_Scheduler 0)])
    \<and> map (stack_of t3) (map fst (three (n + 5))) = [(n + 6) * PAGE_SIZE + sizeof_block, (n + 11) * PAGE_SIZE + sizeof_block,
        (n + 16) * PAGE_SIZE + sizeof_block]
    \<and> state (pcbs (os t3) p) = STATE_READY"
proof -
  have pages: "n + 5 < NUM_PAGES" "n + 5 + 15 < NUM_PAGES" using assms(5) by simp_all
  let ?hello = "[Debug ''DEBUG: Starting comprehensive process management test'']"
  from process_test_hands_over [OF assms(3,2,4) pages(1) assms(6)] obtain k where
    k: "process_test b t = Some (Goes (send ?hello t\<lparr>os := k\<rparr>))"
      "current_process k = Some c" "state (pcbs k c) = STATE_RUNNING" "esp k = user_stack_base (pcbs k c) + 4096"
      "eip k = address b (Start Test_Scheduler)" "queue_list (ready_queue k) (pcbs k) [p]"
      "crew (send ?hello t\<lparr>os := k\<rparr>) [c]" "unused_from (n + 5) (arena k)" "low (n + 5) (send ?hello t\<lparr>os := k\<rparr>) [c]"
      "state (pcbs k p) = STATE_READY" by (auto simp: c_def)
  define t2 where "t2 = send ?hello t\<lparr>os := k\<rparr>"
  have os2: "os t2 = k" "said t2 = said t @ ?hello" by (simp_all add: t2_def send_def)
  have "piece b t = program b (Start Process_Test) t"
    by (rule piece_at [OF assms(1)]) (use assms(3) in \<open>simp_all add: enters_def points_def\<close>)
  then have p1: "piece b t = Some (Goes t2)" using k(1) by (simp add: program_def t2_def)
  have s2: "current_process (os t2) = Some c" "state (pcbs (os t2) c) = STATE_RUNNING" "esp (os t2) = stack_of t2 c + 4096"
    "queue_list (ready_queue (os t2)) (pcbs (os t2)) [p]" "crew t2 [c]" "unused_from (n + 5) (arena (os t2))" "low (n + 5) t2 [c]"
    using k(2-4,6,8) k(7,9) [folded t2_def] by (simp_all add: os2)
  from scheduler_turned [OF s2(1-5) assms(2) s2(6) pages(2) s2(7)] obtain t3 where
    t3: "test_scheduler b t2 = Some (Goes t3)" "said t3 = said t2 @ [Debug ''DEBUG: Testing scheduler started.'',
        Debug ''DEBUG: Created test processes'', Debug ''DEBUG: Scheduler iteration'']"
      "continues b t3 ((n + 5) * PAGE_SIZE + sizeof_block) (Fresh Test_Process_1)"
      "behind b t3 ((n + 5) * PAGE_SIZE + sizeof_block) (tl (three (n + 5)) @ [(c, Loop Test_Scheduler 0)])"
      "map (stack_of t3) (map fst (three (n + 5))) = [(n + 6) * PAGE_SIZE + sizeof_block, (n + 11) * PAGE_SIZE + sizeof_block,
        (n + 16) * PAGE_SIZE + sizeof_block]"
    and o3: "\<And>a. a \<notin> set (c # map fst (three (n + 5))) \<Longrightarrow> state (pcbs (os t3) a) = state (pcbs (os t2) a)" by auto
  have "piece b t2 = program b (Start Test_Scheduler) t2"
    by (rule piece_at [OF assms(1)]) (simp_all add: points_def os2 k(5))
  then have p2: "piece b t2 = Some (Goes t3)" using t3(1) by (simp add: program_def)
  have "p \<notin> set (c # map fst (three (n + 5)))" using assms(6) by (auto simp: low_def three_def c_def)
  then have "state (pcbs (os t3) p) = STATE_READY" using o3 [of p] k(10) by (simp add: os2)
  moreover have "pieces b (Suc (Suc m)) t = pieces b m t3" for m by (simp add: p1 p2)
  moreover note t3(3-5)
  ultimately show ?thesis using t3(2) by (intro exI [of _ t3]) (simp add: os2)
qed

text \<open>C15 (the scheduler test). \<open>process_test\<close>, started as the only ready process of priority 1 in a kernel with
  twenty fresh pages, runs through the context switches of the kernel to the end: the scheduler test, the three
  processes that it creates take turns in the order of their creation, each iteration
  prints its variables unharmed, the test sees its five turns and says that it is complete, and the command
  line is entered with an empty queue after fifteen pieces of program. The four processes are in the state EXIT; the
  process that started the test is READY for ever, as it was thrown out of the queue.\<close>

theorem process_test_runs:
  assumes "inj_on (address b) (set points)" "small_frames b" "enters b t p Process_Test"
    and "unused_from n (arena (os t))" "n + 20 < NUM_PAGES" "low n t [p]"
  defines "x \<equiv> base_pointer ((n + 6) * PAGE_SIZE + sizeof_block) - x_offset b Test_Process_1"
    and "y \<equiv> base_pointer ((n + 11) * PAGE_SIZE + sizeof_block) - x_offset b Test_Process_2"
  shows "\<exists>t'. pieces b 15 t = Some (Stops t') \<and> said t' = said t
      @ [Debug ''DEBUG: Starting comprehensive process management test'', Debug ''DEBUG: Testing scheduler started.'',
         Debug ''DEBUG: Created test processes'', Debug ''DEBUG: Scheduler iteration'']
      @ Debug ''DEBUG: Test process 1 running'' # iteration_1 x 0 4
      @ Debug ''DEBUG: Test process 2 running'' # iteration_2 y 0 5
      @ [Debug ''DEBUG: Test process 3 running'', Debug ''DEBUG: Test process 3 complete'', Debug ''DEBUG: Scheduler iteration'']
      @ iteration_1 x 1 4 @ iteration_2 y 1 5 @ Debug ''DEBUG: Scheduler iteration'' # iteration_1 x 2 4
      @ [Debug ''DEBUG: Test process 2 complete'', Debug ''DEBUG: Scheduler iteration'',
         Debug ''DEBUG: Test process 1 complete'', Debug ''DEBUG: Scheduler iteration'', Debug ''DEBUG: Scheduler test complete'']
    \<and> is_queue_empty (ready_queue (os t')) \<and> state (pcbs (os t') p) = STATE_READY
    \<and> (\<forall>i<4. state (pcbs (os t') ((n + 5 * i) * PAGE_SIZE + sizeof_block)) = STATE_EXIT)"
proof -
  let ?c = "n * PAGE_SIZE + sizeof_block" and ?p1 = "(n + 5) * PAGE_SIZE + sizeof_block"
    and ?p2 = "(n + 5 + 5) * PAGE_SIZE + sizeof_block" and ?p3 = "(n + 5 + 10) * PAGE_SIZE + sizeof_block"
  from process_test_opens [OF assms(1-6)] obtain t3 where
    t3: "\<And>m. pieces b (Suc (Suc m)) t = pieces b m t3" "said t3 = said t
      @ [Debug ''DEBUG: Starting comprehensive process management test'', Debug ''DEBUG: Testing scheduler started.'',
         Debug ''DEBUG: Created test processes'', Debug ''DEBUG: Scheduler iteration'']"
      "continues b t3 ?p1 (Fresh Test_Process_1)" "behind b t3 ?p1 (tl (three (n + 5)) @ [(?c, Loop Test_Scheduler 0)])"
      "map (stack_of t3) (map fst (three (n + 5))) = [(n + 6) * PAGE_SIZE + sizeof_block, (n + 11) * PAGE_SIZE + sizeof_block,
        (n + 16) * PAGE_SIZE + sizeof_block]" "state (pcbs (os t3) p) = STATE_READY" by auto
  have st: "stack_of t3 ?p1 = (n + 6) * PAGE_SIZE + sizeof_block" "stack_of t3 ?p2 = (n + 11) * PAGE_SIZE + sizeof_block"
    using t3(5) by (simp_all add: three_def)
  note tr = scheduler_turns [of b "\<lambda>a. base_pointer (stack_of t3 a)" ?p1 ?p2 ?p3 ?c, unfolded st]
  have ws: "(?p1, Fresh Test_Process_1) # tl (three (n + 5)) @ [(?c, Loop Test_Scheduler 0)]
      = [(?p1, Fresh Test_Process_1), (?p2, Fresh Test_Process_2), (?p3, Fresh Test_Process_3), (?c, Loop Test_Scheduler 0)]"
    by (simp add: three_def)
  from pieces_take_turns [OF assms(1,2) t3(3,4) tr [folded ws]] obtain t' where
    t': "pieces b 13 t3 = Some (Stops t')" "said t' = said t3 @
      (Debug ''DEBUG: Test process 1 running'' # iteration_1 x 0 4
      @ Debug ''DEBUG: Test process 2 running'' # iteration_2 y 0 5
      @ [Debug ''DEBUG: Test process 3 running'', Debug ''DEBUG: Test process 3 complete'', Debug ''DEBUG: Scheduler iteration'']
      @ iteration_1 x 1 4 @ iteration_2 y 1 5 @ Debug ''DEBUG: Scheduler iteration'' # iteration_1 x 2 4
      @ [Debug ''DEBUG: Test process 2 complete'', Debug ''DEBUG: Scheduler iteration'',
         Debug ''DEBUG: Test process 1 complete'', Debug ''DEBUG: Scheduler iteration'', Debug ''DEBUG: Scheduler test complete''])"
    "is_queue_empty (ready_queue (os t'))"
    and o': "\<And>a. state (pcbs (os t') a) = (if a \<in> set (map fst ((?p1, Fresh Test_Process_1)
        # tl (three (n + 5)) @ [(?c, Loop Test_Scheduler 0)])) then STATE_EXIT else state (pcbs (os t3) a))"
    unfolding x_def y_def by auto
  have s': "state (pcbs (os t') a) = (if a \<in> {?p1, ?p2, ?p3, ?c} then STATE_EXIT else state (pcbs (os t3) a))" for a
    using o' [of a] unfolding ws by (simp only: list.map fst_conv list.set)
  have "p \<notin> {?p1, ?p2, ?p3, ?c}" using assms(6) by (auto simp: low_def)
  then have "state (pcbs (os t') p) = STATE_READY" using s' [of p] t3(6) by simp
  moreover have "state (pcbs (os t') ((n + 5 * i) * PAGE_SIZE + sizeof_block)) = STATE_EXIT" if "i < 4" for i
  proof -
    have "i = 0 \<or> i = 1 \<or> i = 2 \<or> i = 3" using that by auto
    then show ?thesis using s' by auto
  qed
  moreover have "pieces b 15 t = Some (Stops t')"
  proof -
    have "(15::nat) = Suc (Suc 13)" by simp
    then show ?thesis by (simp only: t3(1) t'(1))
  qed
  ultimately show ?thesis using t'(2,3) by (simp add: t3(2))
qed

text \<open>A machine on which the tests run: five pages in use, and a process in front of a program.\<close>

definition test_build :: build where
  "test_build = \<lparr>address = (\<lambda>p. of_nat (length (takeWhile (\<lambda>q. q \<noteq> p) points) + 1)), room = (\<lambda>_. 24), schedule_frame = 32,
     x_offset = (\<lambda>_. 16), wait_room = 24\<rparr>"

definition test_machine :: "routine \<Rightarrow> tester" where
  "test_machine r = \<lparr>os = \<lparr>arena = \<lparr>kernel_memory = (\<lambda>_. 0), page_table = (\<lambda>p. if p < 5 then 1 else 0), last_page_index = 5\<rparr>,
      pcbs = (\<lambda>a. if a = 8 then example_pcb\<lparr>pid := 1, state := STATE_RUNNING, priority := 1, user_stack_base := 4104, kernel_stack_ptr := Some 16400\<rparr>
        else example_pcb), current_process = Some 8, ready_queue = initialize_queue, process_table_head = Some 8, next_pid = 2,
      esp = 8200, ebp = 0, eip = address test_build (Start r), eax = 0\<rparr>,
     frames = (\<lambda>_. \<lparr>loop_i = 0, local_x = 0, child_pid = 0, original_child_pid = 0, child_pids = (\<lambda>_. 0), fork_count = 0, status_of = 0,
       wait_result = 0, children_collected = 0, total_status = 0\<rparr>), test_processes = (\<lambda>_. None), said = []\<rparr>"

lemma test_build_addresses: "inj_on (address test_build) (set points)"
proof -
  have "distinct (map (address test_build) points)" by code_simp
  then show ?thesis by (simp add: distinct_map)
qed

lemma test_machine_ready:
  "enters test_build (test_machine r) 8 r" "unused_from 5 (arena (os (test_machine r)))" "low 5 (test_machine r) [8]"
  "small_frames test_build"
  by (simp_all add: enters_def behind_def crew_def peers_def test_machine_def queue_list_def initialize_queue_def unused_from_def
      low_def small_frames_def test_build_def)

theorem process_test_runs_witness:
  "\<exists>t'. pieces test_build 15 (test_machine Process_Test) = Some (Stops t') \<and> is_queue_empty (ready_queue (os t'))
    \<and> hd (said t') = Debug ''DEBUG: Starting comprehensive process management test'' \<and> state (pcbs (os t') 8) = STATE_READY"
proof -
  have "said (test_machine Process_Test) = []" by (simp add: test_machine_def)
  with process_test_runs [OF test_build_addresses test_machine_ready(4,1,2) _ test_machine_ready(3)] show ?thesis by auto
qed

end
