(* ===== verification/TestFork.thy ===== *)
theory TestFork
  imports TestProps
begin

text \<open>
  The test of \<open>fork\<close>, \<open>wait\<close> and \<open>exit\<close>: \<open>syscall_test\<close> creates the process of \<open>test_simple_fork\<close>, which forks; its \<open>wait\<close>
  follows the NULL pointer in the field \<open>parent\<close> that \<open>create_process\<close> has not set.
\<close>

subsection \<open>A fork in fresh pages\<close>

lemma fork_child_fresh:
  assumes m: "copy_memory base (user_stack_base (pcbs kk par)) 4096 (arena kk) = Some m"
    and c: "cr3 (pcbs kk par) = 0" and pc: "par \<noteq> child"
    and q: "peers kk []" "priority (pcbs kk child) = 1"
    and m5: "kmalloc 4096 m = (m5, b)"
  shows "\<exists>k'. fork_child par child base kk = Some (sint (pid (pcbs kk child)), k') \<and> peers k' [child] \<and> arena k' = m5
    \<and> current_process k' = current_process kk \<and> ebp k' = ebp kk \<and> process_table_head k' = Some child
    \<and> pid (pcbs k' child) = pid (pcbs kk child) \<and> parent (pcbs k' child) = parent (pcbs kk child)
    \<and> priority (pcbs k' child) = priority (pcbs kk child)
    \<and> state (pcbs k' child) = STATE_READY \<and> is_new_child (pcbs k' child) \<and> next_in_table (pcbs k' child) = process_table_head kk
    \<and> user_stack_ptr (pcbs k' child)
        = unat (of_nat base + (of_nat (user_stack_ptr (pcbs kk par)) - of_nat (user_stack_base (pcbs kk par))) :: u32)
    \<and> (pcbs k' par)\<lparr>next_ready := None\<rparr> = (pcbs kk par)\<lparr>next_ready := None\<rparr>"
proof -
  define off where "off = (of_nat (user_stack_ptr (pcbs kk par)) - of_nat (user_stack_base (pcbs kk par)) :: u32)"
  define k4 where "k4 = upd_pcb child (user_stack_ptr_update (\<lambda>_. unat (of_nat base + off))) (kk\<lparr>arena := m\<rparr>)"
  define ks where "ks = allocate_kernel_stack child k4"
  define k6 where "k6 = (upd_pcb child (\<lambda>x. x\<lparr>state := STATE_READY, is_new_child := True,
                  next_in_table := process_table_head ks\<rparr>) ks)\<lparr>process_table_head := Some child\<rparr>"
  have c4: "cr3 (pcbs k4 par) = 0" using c pc by (simp add: k4_def)
  have k4id: "k4\<lparr>arena := arena k4\<rparr> = k4" by simp
  have a4: "arena k4 = m" by (simp add: k4_def)
  have ks_eq: "ks = upd_pcb child (\<lambda>x. x\<lparr>kernel_stack_base := b, kernel_stack_ptr := map_option (\<lambda>a. a + STACK_SIZE) b\<rparr>) (k4\<lparr>arena := m5\<rparr>)"
    by (simp add: ks_def allocate_kernel_stack_def a4 m5)
  have f: "arena k6 = m5" "current_process k6 = current_process kk" "ebp k6 = ebp kk" "process_table_head k6 = Some child"
    "ready_queue k6 = ready_queue kk" "pid (pcbs k6 child) = pid (pcbs kk child)" "parent (pcbs k6 child) = parent (pcbs kk child)"
    "priority (pcbs k6 child) = priority (pcbs kk child)" "state (pcbs k6 child) = STATE_READY" "is_new_child (pcbs k6 child)"
    "next_in_table (pcbs k6 child) = process_table_head kk" "user_stack_ptr (pcbs k6 child) = unat (of_nat base + off)"
    "pcbs k6 par = pcbs kk par"
    using pc by (simp_all add: k6_def ks_eq k4_def)
  have "queue_list (ready_queue k6) (pcbs k6) []" using q(1) by (simp add: f(5) peers_def queue_list_def)
  from enqueue_ready_list [OF this, of child] obtain qq h where
    e: "enqueue_ready child k6 = Some (k6\<lparr>ready_queue := qq, pcbs := h\<rparr>)"
    and l: "queue_list qq h [child]" and sm: "same_but_next (insert child {}) (pcbs k6) h" by (auto simp: place_def)
  note n = same_but_nextD [OF sm]
  have "fork_child par child base kk
      = Some (sint (pid (pcbs (k6\<lparr>ready_queue := qq, pcbs := h\<rparr>) child)), k6\<lparr>ready_queue := qq, pcbs := h\<rparr>)"
    by (simp only: fork_child_def m Option.bind.bind_lunit Let_def off_def [symmetric] k4_def [symmetric] c4
        simp_thms if_False prod.case option.case k4id ks_def [symmetric] k6_def [symmetric] e)
  moreover have "peers (k6\<lparr>ready_queue := qq, pcbs := h\<rparr>) [child]" using l q(2) f(8) by (simp add: peers_def n)
  moreover have "(h par)\<lparr>next_ready := None\<rparr> = (pcbs kk par)\<lparr>next_ready := None\<rparr>" using sm f(13) by (simp add: same_but_next_def)
  moreover have "pid (h child) = pid (pcbs kk child)" by (simp add: n f)
  ultimately show ?thesis unfolding off_def [symmetric]
    by (intro exI [of _ "k6\<lparr>ready_queue := qq, pcbs := h\<rparr>"]) (simp add: n f)
qed

text \<open>What the call leaves when the caller is the only process that could run.\<close>

definition fork_done :: "nat \<Rightarrow> u32 \<Rightarrow> addr \<Rightarrow> kernel \<Rightarrow> kernel \<Rightarrow> bool" where
  "fork_done n ret p k0 k' \<longleftrightarrow>
     (let c = n * PAGE_SIZE + sizeof_block; base = (n + 1) * PAGE_SIZE + sizeof_block; s = user_stack_base (pcbs k0 p) in
      peers k' [c] \<and> current_process k' = Some p \<and> ebp k' = of_nat (esp k0 - 8) \<and> process_table_head k' = Some c
    \<and> pid (pcbs k' c) = next_pid k0 \<and> parent (pcbs k' c) = Some p \<and> priority (pcbs k' c) = 1
    \<and> state (pcbs k' c) = STATE_READY \<and> is_new_child (pcbs k' c) \<and> next_in_table (pcbs k' c) = process_table_head k0
    \<and> user_stack_ptr (pcbs k' c) = base + (esp k0 - 8 - s)
    \<and> (\<exists>u. (pcbs k' p)\<lparr>next_ready := None\<rparr> = (pcbs k0 p)\<lparr>user_stack_ptr := u, next_ready := None\<rparr>)
    \<and> page_table (arena k') n = 1
    \<and> (\<forall>a < n * PAGE_SIZE. kernel_memory (arena k') a = saved_memory ret k0 a)
    \<and> (\<forall>i < 4096. kernel_memory (arena k') (base + i) = saved_memory ret k0 (s + i)))"

lemma fork_fresh:
  assumes cur: "current_process k0 = Some p" and q: "peers k0 []" "priority (pcbs k0 p) = 1" and c3: "cr3 (pcbs k0 p) = 0"
    and lo: "p < n * PAGE_SIZE" "user_stack_base (pcbs k0 p) + 4096 \<le> n * PAGE_SIZE"
    and sp: "user_stack_base (pcbs k0 p) + 8 \<le> esp k0" "esp k0 \<le> user_stack_base (pcbs k0 p) + 4096"
    and u: "unused_from n (arena k0)" "n + 5 < NUM_PAGES"
  shows "\<exists>k'. fork_syscall ret k0 = Some (sint (next_pid k0), k') \<and> fork_done n ret p k0 k'"
proof -
  define c where "c = n * PAGE_SIZE + sizeof_block"
  define base where "base = (n + 1) * PAGE_SIZE + sizeof_block"
  define s where "s = user_stack_base (pcbs k0 p)"
  have "4 \<le> esp k0" "4 \<le> esp k0 - 4" "esp k0 - 4 \<le> KERNEL_MEMORY_SIZE" "esp k0 \<le> KERNEL_MEMORY_SIZE"
    using sp lo(2) u(2) by linarith+
  then obtain k where e: "enter ret k0 = Some k" by (simp add: enter_def push_def write_word_def)
  note f = enter_frame [OF e]
  have mem: "kernel_memory (arena k) = saved_memory ret k0" using f(12) by (simp add: saved_memory_def)
  have cur': "current_process k = Some p" using cur f(6) by simp
  have pf: "pages_for sizeof_PCB = 1" "pages_for 4096 = 2"
    by (simp_all add: pages_for_def sizeof_PCB_def sizeof_block_def unat_div)
  have uk: "unused_from n (arena k)" using u(1) f(10,11) by (simp add: unused_from_def)
  obtain m1 where m1: "kmalloc sizeof_PCB (arena k) = (m1, Some c)" "unused_from (n + 1) m1"
    "\<forall>a < n * PAGE_SIZE. kernel_memory m1 a = kernel_memory (arena k) a"
    using kmalloc_unused_bytes [OF uk, of sizeof_PCB] u(2) pf by (auto simp: c_def)
  obtain m2 where m2: "kmalloc 4096 m1 = (m2, Some base)" "unused_from (n + 3) m2"
    "\<forall>a < (n + 1) * PAGE_SIZE. kernel_memory m2 a = kernel_memory m1 a"
    using kmalloc_unused_bytes [OF m1(2), of 4096] u(2) pf by (auto simp: numeral_3_eq_3 base_def)
  have pc: "p \<noteq> c" using lo(1) by (simp add: c_def)
  define k1 where "k1 = upd_pcb p (user_stack_ptr_update (\<lambda>_. unat (ebp k))) k"
  define k3 where "k3 = upd_pcb c (\<lambda>x. x\<lparr>pid := next_pid k, parent := Some p, priority := priority (pcbs k1 p)\<rparr>)
         (k1\<lparr>arena := m1, next_pid := next_pid k + 1\<rparr>)"
  define kk where "kk = k3\<lparr>arena := m2\<rparr>"
  have k1f: "arena k1 = arena k" "next_pid k1 = next_pid k" by (simp_all add: k1_def)
  have k3a: "arena k3 = m1" by (simp add: k3_def)
  have run: "fork_syscall ret k0 = fork_child p c base kk"
  proof -
    have g: "get_new_pid (k1\<lparr>arena := m1\<rparr>) = (next_pid k, k1\<lparr>arena := m1, next_pid := next_pid k + 1\<rparr>)"
      by (simp add: get_new_pid_def k1f)
    have "priority (pcbs (k1\<lparr>arena := m1, next_pid := next_pid k + 1\<rparr>) p) = priority (pcbs k1 p)" by simp
    then show ?thesis
      by (simp only: fork_syscall_def e Option.bind.bind_lunit cur' option.case Let_def k1_def [symmetric] k1f m1(1) prod.case
          g k3_def [symmetric] k3a m2(1) kk_def [symmetric])
  qed
  have kp: "pcbs kk p = (pcbs k0 p)\<lparr>user_stack_ptr := unat (ebp k)\<rparr>" "arena kk = m2"
    "pid (pcbs kk c) = next_pid k0" "parent (pcbs kk c) = Some p" "priority (pcbs kk c) = 1"
    "ready_queue kk = ready_queue k0" "current_process kk = Some p" "ebp kk = ebp k" "process_table_head kk = process_table_head k0"
    using pc q(2) cur by (simp_all add: kk_def k3_def k1_def f(5-9))
  have bounds: "base + 4096 \<le> KERNEL_MEMORY_SIZE" "s + 4096 \<le> base" using u(2) lo(2) by (simp_all add: base_def s_def sizeof_block_def)
  obtain m where m: "copy_memory base s 4096 m2 = Some m" using bounds by (simp add: copy_memory_def)
  then have cm: "kernel_memory m = (\<lambda>x. if base \<le> x \<and> x < base + 4096 then kernel_memory m2 (s + (x - base)) else kernel_memory m2 x)"
    "page_table m = page_table m2" "last_page_index m = last_page_index m2"
    using bounds by (auto simp: copy_memory_def copy_bytes_eq split: if_splits)
  have "unused_from (n + 3) m" using m2(2) cm(2,3) by (simp add: unused_from_def)
  from kmalloc_unused_bytes [OF this, of 4096] u(2) obtain m5 b where
    m5: "kmalloc 4096 m = (m5, Some b)" "\<forall>a < (n + 3) * PAGE_SIZE. kernel_memory m5 a = kernel_memory m a" unfolding pf by auto
  have "peers kk []" using q(1) kp(6) by (simp add: peers_def queue_list_def)
  moreover have "cr3 (pcbs kk p) = 0" using c3 kp(1) by simp
  moreover have "copy_memory base (user_stack_base (pcbs kk p)) 4096 (arena kk) = Some m" using m kp(1,2) by (simp add: s_def)
  ultimately obtain k' where k': "fork_child p c base kk = Some (sint (pid (pcbs kk c)), k')" "peers k' [c]" "arena k' = m5"
    "current_process k' = Some p" "ebp k' = ebp k" "process_table_head k' = Some c" "pid (pcbs k' c) = next_pid k0"
    "parent (pcbs k' c) = Some p" "priority (pcbs k' c) = 1" "state (pcbs k' c) = STATE_READY" "is_new_child (pcbs k' c)"
    "next_in_table (pcbs k' c) = process_table_head k0"
    "user_stack_ptr (pcbs k' c) = unat (of_nat base + (of_nat (user_stack_ptr (pcbs kk p)) - of_nat (user_stack_base (pcbs kk p))) :: u32)"
    "(pcbs k' p)\<lparr>next_ready := None\<rparr> = (pcbs k0 p)\<lparr>user_stack_ptr := unat (ebp k), next_ready := None\<rparr>"
    using fork_child_fresh [OF _ _ pc _ kp(5) m5(1)] unfolding kp by auto
  have b8: "s + 8 \<le> esp k0" "esp k0 \<le> s + 4096" using sp by (simp_all add: s_def)
  have "user_stack_ptr (pcbs k' c) = base + (esp k0 - 8 - s)"
  proof -
    have ub: "unat (ebp k) = esp k0 - 8" unfolding f(4) using b8 bounds by (subst unsigned_of_nat) (simp add: take_bit_nat_eq_self)
    have "of_nat base + (of_nat (user_stack_ptr (pcbs kk p)) - of_nat (user_stack_base (pcbs kk p))) = (of_nat (base + (esp k0 - 8 - s)) :: u32)"
      using b8 by (simp add: kp(1) ub s_def [symmetric] of_nat_diff)
    moreover have "base + (esp k0 - 8 - s) < 2 ^ 32" using bounds b8 by simp
    ultimately show ?thesis unfolding k'(13) by (simp only: unat_of_nat) simp
  qed
  moreover have "kernel_memory (arena k') a = saved_memory ret k0 a" if "a < n * PAGE_SIZE" for a
    using that m5(2) m2(3) m1(3) by (simp add: k'(3) cm(1) base_def mem)
  moreover have "kernel_memory (arena k') (base + i) = saved_memory ret k0 (s + i)" if "i < 4096" for i
  proof -
    have "base + i < (n + 3) * PAGE_SIZE" "s + i < n * PAGE_SIZE" using that lo(2) by (simp_all add: base_def s_def sizeof_block_def)
    then show ?thesis using that m5(2) m2(3) m1(3) by (simp add: k'(3) cm(1) mem)
  qed
  moreover have "page_table (arena k') n = 1"
  proof -
    have "pcb_block m1 c" by (rule kmalloc_block(1) [OF m1(1)])
    then have "pcb_block m2 c" by (rule kmalloc_keeps_blocks [OF m2(1)])
    then have "pcb_block m c" using cm(2) by (simp add: pcb_block_def)
    then have "pcb_block (arena k') c" unfolding k'(3) by (rule kmalloc_keeps_blocks [OF m5(1)])
    then show ?thesis by (auto simp: pcb_block_def c_def)
  qed
  ultimately have "fork_done n ret p k0 k'"
    unfolding fork_done_def Let_def c_def [symmetric] base_def [symmetric] s_def [symmetric]
    using k'(2,4,6-12) k'(14) k'(5) [unfolded f(4)] by blast
  with k'(1) run kp(3) show ?thesis by auto
qed

subsection \<open>The two processes of the test\<close>

text \<open>The child heads the process table, its parent \<open>p\<close> is the other entry, with the parent \<open>g\<close>.\<close>

abbreviation child_at :: "nat \<Rightarrow> addr" where
  "child_at n \<equiv> n * PAGE_SIZE + sizeof_block"

definition kin :: "nat \<Rightarrow> addr \<Rightarrow> ptr \<Rightarrow> u32 \<Rightarrow> kernel \<Rightarrow> bool" where
  "kin n p g c_pid k \<longleftrightarrow>
     process_table_head k = Some (child_at n) \<and> next_in_table (pcbs k (child_at n)) = Some p \<and> (g \<noteq> None \<longrightarrow> next_in_table (pcbs k p) = None)
   \<and> parent (pcbs k (child_at n)) = Some p \<and> parent (pcbs k p) = g \<and> pid (pcbs k (child_at n)) = c_pid
   \<and> priority (pcbs k p) = 1 \<and> priority (pcbs k (child_at n)) = 1 \<and> page_table (arena k) n = 1
   \<and> kernel_stack_ptr (pcbs k p) \<noteq> None \<and> p \<noteq> child_at n \<and> n < NUM_PAGES"

lemma kinD:
  assumes "kin n p g c_pid k"
  shows "process_table_head k = Some (child_at n)" "next_in_table (pcbs k (child_at n)) = Some p" "g \<noteq> None \<Longrightarrow> next_in_table (pcbs k p) = None"
    "parent (pcbs k (child_at n)) = Some p" "parent (pcbs k p) = g" "pid (pcbs k (child_at n)) = c_pid"
    "priority (pcbs k p) = 1" "priority (pcbs k (child_at n)) = 1" "page_table (arena k) n = 1"
    "kernel_stack_ptr (pcbs k p) \<noteq> None" "p \<noteq> child_at n" "n < NUM_PAGES"
  using assms unfolding kin_def by blast+

lemma kin_cong:
  assumes "kin n p g c_pid k" "process_table_head k' = process_table_head k" "page_table (arena k') = page_table (arena k)"
    and "\<And>a. next_in_table (pcbs k' a) = next_in_table (pcbs k a) \<and> parent (pcbs k' a) = parent (pcbs k a)
      \<and> pid (pcbs k' a) = pid (pcbs k a) \<and> priority (pcbs k' a) = priority (pcbs k a)"
    and "kernel_stack_ptr (pcbs k p) \<noteq> None \<Longrightarrow> kernel_stack_ptr (pcbs k' p) \<noteq> None"
  shows "kin n p g c_pid k'"
  using assms unfolding kin_def by simp

text \<open>The search of the parent before the child has left.\<close>

lemma search_kin:
  assumes k: "kin n p g c_pid k" and p: "state (pcbs k p) \<noteq> STATE_ZOMBIE" "state (pcbs k (child_at n)) \<noteq> STATE_ZOMBIE"
  shows "find_zombie_child p k = (if g = None then None else Some (None, k))"
proof -
  note d = kinD [OF k]
  have w: "zombie_walk (pcbs k) (pid (pcbs k p)) (Some (child_at n)) (Some p) = (if g = None then None else Some (Some p, None))"
    using p d(3) by (subst zombie_walk.simps) (cases g; simp add: d(4-11) zombie_walk.simps [of _ _ _ None])
  show ?thesis
    unfolding find_zombie_child_def d(1) by (subst zombie_walk.simps) (simp add: d(2,4) p(2) w)
qed

text \<open>What the child will resume: its frame pointer is that of its parent.\<close>

definition child_resumes :: "nat \<Rightarrow> u32 \<Rightarrow> u32 \<Rightarrow> kernel \<Rightarrow> bool" where
  "child_resumes n bp ret k \<longleftrightarrow>
     (let u = user_stack_ptr (pcbs k (child_at n)) in
      n * PAGE_SIZE \<le> u \<and> u + 8 \<le> KERNEL_MEMORY_SIZE \<and> is_new_child (pcbs k (child_at n))
    \<and> load32 u (kernel_memory (arena k)) = bp \<and> load32 (u + 4) (kernel_memory (arena k)) = ret)"

text \<open>The parent stands behind its call of \<open>fork\<close>, with its frame at \<open>bp\<close> and the stack pointer \<open>sp\<close>.\<close>

definition parent_forked :: "build \<Rightarrow> nat \<Rightarrow> addr \<Rightarrow> ptr \<Rightarrow> u32 \<Rightarrow> u32 \<Rightarrow> addr \<Rightarrow> kernel \<Rightarrow> bool" where
  "parent_forked b n p g c_pid bp sp k \<longleftrightarrow>
     kin n p g c_pid k \<and> current_process k = Some p \<and> state (pcbs k p) = STATE_RUNNING \<and> peers k [child_at n]
   \<and> state (pcbs k (child_at n)) = STATE_READY \<and> child_resumes n bp (address b (Forked 0)) k
   \<and> ebp k = bp \<and> esp k = sp \<and> eip k = address b (Forked 0) \<and> eax k = c_pid"

lemma simple_fork_forks:
  assumes sf: "small_frames b" and e: "enters b t p Simple_Fork" and c3: "cr3 (pcbs (os t) p) = 0"
    and tb: "process_table_head (os t) = Some p" "parent (pcbs (os t) p) \<noteq> None \<Longrightarrow> next_in_table (pcbs (os t) p) = None"
    and u: "unused_from n (arena (os t))" "n + 5 < NUM_PAGES" and l: "low n t [p]"
  shows "\<exists>k. test_simple_fork b t = Some (Goes (send [Debug ''DEBUG: Testing simple fork''] t\<lparr>os := k\<rparr>))
    \<and> parent_forked b n p (parent (pcbs (os t) p)) (next_pid (os t)) (base_pointer (stack_of t p)) (stack_of t p + 4092 - room b Simple_Fork) k"
proof -
  let ?s = "stack_of t p" and ?c = "child_at n"
  have bh: "behind b t p []" and st: "state (pcbs (os t) p) = STATE_RUNNING" and sp: "esp (os t) = ?s + 4096"
    using e by (simp_all add: enters_def)
  from open_frame_inside [OF bh sf sp st, of Simple_Fork] obtain k1 where
    k1: "open_frame b Simple_Fork t = Some (t\<lparr>os := k1\<rparr>)" "inside b (t\<lparr>os := k1\<rparr>) p [] Simple_Fork" "pcbs k1 = pcbs (os t)"
      "page_table (arena k1) = page_table (arena (os t))" "last_page_index (arena k1) = last_page_index (arena (os t))"
      "next_pid k1 = next_pid (os t)" "process_table_head k1 = process_table_head (os t)" by blast
  have i1: "current_process k1 = Some p" "peers k1 []" "priority (pcbs k1 p) = 1" "kernel_stack_ptr (pcbs k1 p) \<noteq> None"
    "ebp k1 = base_pointer ?s" "esp k1 = ?s + 4092 - room b Simple_Fork"
    using k1(2,3) by (auto simp: inside_def behind_def crew_def)
  have lo: "p < n * PAGE_SIZE" "user_stack_base (pcbs k1 p) + 4096 \<le> n * PAGE_SIZE" using l by (simp_all add: low_def k1(3))
  have rm: "room b Simple_Fork \<le> 4000" using sf by (simp add: small_frames_def)
  have sp1: "user_stack_base (pcbs k1 p) + 8 \<le> esp k1" "esp k1 \<le> user_stack_base (pcbs k1 p) + 4096"
    unfolding i1(6) k1(3) using rm by linarith+
  have u1: "unused_from n (arena k1)" "cr3 (pcbs k1 p) = 0" using u(1) c3 k1(3-5) by (simp_all add: unused_from_def)
  let ?ret = "address b (Forked 0)"
  from fork_fresh [OF i1(1-3) u1(2) lo sp1 u1(1) u(2), of ?ret] obtain k2 where
    k2: "fork_syscall ?ret k1 = Some (sint (next_pid k1), k2)" and fd: "fork_done n ?ret p k1 k2" by blast
  note d = fd [unfolded fork_done_def Let_def]
  obtain v where v: "(pcbs k2 p)\<lparr>next_ready := None\<rparr> = (pcbs k1 p)\<lparr>user_stack_ptr := v, next_ready := None\<rparr>" using d by blast
  have pf: "state (pcbs k2 p) = STATE_RUNNING" "priority (pcbs k2 p) = 1" "next_in_table (pcbs k2 p) = next_in_table (pcbs (os t) p)"
    "parent (pcbs k2 p) = parent (pcbs (os t) p)" "kernel_stack_ptr (pcbs k2 p) \<noteq> None"
    using arg_cong [OF v, of state] arg_cong [OF v, of priority] arg_cong [OF v, of next_in_table] arg_cong [OF v, of parent]
      arg_cong [OF v, of kernel_stack_ptr] i1(3,4) st k1(3) by simp_all
  have m8: "8 \<le> esp k1" using sp1 by linarith
  note own = load32_saved_own [OF m8, of ?ret]
  have low_mem: "load32 a (kernel_memory (arena k2)) = load32 a (saved_memory ?ret k1)" if "a + 4 \<le> n * PAGE_SIZE" for a
    by (rule load32_cong) (use d that in auto)
  have r8: "esp k1 - 8 + 4 \<le> n * PAGE_SIZE" "esp k1 - 8 + 4 + 4 \<le> n * PAGE_SIZE" "esp k1 - 8 + 8 = esp k1"
    using sp1 lo(2) m8 by linarith+
  have bp: "ebp k2 = of_nat (esp k1 - 8)" using d by blast
  have ub: "unat (ebp k2) = esp k1 - 8" unfolding bp using r8 u(2) by (subst unsigned_of_nat) (simp add: take_bit_nat_eq_self)
  have rd: "read_word (esp k1 - 8) k2 = Some (base_pointer ?s)" "read_word (esp k1 - 8 + 4) k2 = Some ?ret"
    using r8 u(2) low_mem [OF r8(1)] low_mem [OF r8(2)] own i1(5) by (simp_all add: read_word_def)
  define k where "k = (k2\<lparr>ebp := base_pointer ?s, eip := ?ret, esp := esp k1\<rparr>)\<lparr>eax := word_of_int (sint (next_pid k1))\<rparr>"
  have gb: "give_back k2 = Some (k2\<lparr>ebp := base_pointer ?s, eip := ?ret, esp := esp k1\<rparr>)"
    unfolding give_back_def ub resume_def rd Option.bind.bind_lunit r8(3) ..
  have run: "test_simple_fork b t = Some (Goes (send [Debug ''DEBUG: Testing simple fork''] t\<lparr>os := k\<rparr>))"
    by (simp add: test_simple_fork_def k1(1) call_fork_def k2 gb k_def send_def)
  have "child_resumes n (base_pointer ?s) ?ret k"
  proof -
    let ?base = "(n + 1) * PAGE_SIZE + sizeof_block" and ?o = "esp k1 - 8 - user_stack_base (pcbs k1 p)"
    have us: "user_stack_ptr (pcbs k2 ?c) = ?base + ?o" using d by blast
    have o: "?o + 8 \<le> 4096" "user_stack_base (pcbs k1 p) + ?o = esp k1 - 8" using sp1 m8 by linarith+
    have cp: "load32 (?base + ?o + j) (kernel_memory (arena k2)) = load32 (esp k1 - 8 + j) (saved_memory ?ret k1)" if "j = 0 \<or> j = 4" for j
    proof (rule load32_cong)
      fix i :: nat assume "i < 4"
      then have "?o + j + i < 4096" using that o(1) by auto
      then have a: "kernel_memory (arena k2) (?base + (?o + j + i)) = saved_memory ?ret k1 (user_stack_base (pcbs k1 p) + (?o + j + i))"
        using d by blast
      have e: "?base + (?o + j + i) = ?base + ?o + j + i" "user_stack_base (pcbs k1 p) + (?o + j + i) = esp k1 - 8 + j + i"
        using o(2) by (simp_all only: add.assoc [symmetric])
      show "kernel_memory (arena k2) (?base + ?o + j + i) = saved_memory ?ret k1 (esp k1 - 8 + j + i)" using a unfolding e .
    qed
    have "n * PAGE_SIZE \<le> ?base + ?o" "?base + ?o + 8 \<le> KERNEL_MEMORY_SIZE" using o(1) u(2) by (simp_all add: sizeof_block_def)
    moreover have "is_new_child (pcbs k2 ?c)" using d by blast
    ultimately show ?thesis unfolding child_resumes_def Let_def using cp [of 0] cp [of 4] own i1(5) us
      by (simp add: k_def)
  qed
  moreover have "kin n p (parent (pcbs (os t) p)) (next_pid (os t)) k"
    using d pf k1(6,7) tb lo(1) u(2) by (simp add: kin_def k_def)
  moreover have "peers k [?c]" using d by (simp add: peers_def k_def)
  moreover have "current_process k2 = Some p" "state (pcbs k2 ?c) = STATE_READY" using d by blast+
  ultimately show ?thesis using run pf(1) i1(6) k1(6)
    by (intro exI [of _ k]) (simp add: parent_forked_def k_def)
qed

text \<open>A parent that has no parent itself does not get through its search.\<close>

lemma parent_waits:
  assumes pf: "parent_forked b n p None c_pid bp sp (os t)"
    and sp: "sp \<le> n * PAGE_SIZE" "wait_room b + 16 \<le> sp" and n: "n < NUM_PAGES"
  shows "call_wait b Simple_Fork t = None"
proof -
  let ?k = "os t"
  have k: "kin n p None c_pid ?k" and cur: "current_process ?k = Some p" and st: "state (pcbs ?k p) = STATE_RUNNING"
    and cst: "state (pcbs ?k (child_at n)) = STATE_READY" and rg: "esp ?k = sp" using pf by (simp_all add: parent_forked_def)
  have s: "4 \<le> sp" "4 \<le> sp - 4" "sp - 4 \<le> KERNEL_MEMORY_SIZE" "sp \<le> KERNEL_MEMORY_SIZE" using sp n by linarith+
  obtain ke where e: "enter (address b (Waited Simple_Fork)) ?k = Some ke" using s rg by (simp add: enter_def push_def write_word_def)
  note f = enter_frame [OF e]
  have "kin n p None c_pid ke" by (rule kin_cong [OF k]) (simp_all add: f)
  from search_kin [OF this] have "find_zombie_child p ke = None" using st cst by (simp add: f(5))
  then show ?thesis using cur by (simp add: call_wait_def wait_syscall_def e f(6))
qed

subsection \<open>The test\<close>

lemma frames_set_my: "frames (set_my f t) a = (if a = ebp (os t) then f (frames t a) else frames t a)"
  by (simp add: set_my_def my_def)

lemma os_set_my: "os (set_my f t) = os t" "said (set_my f t) = said t"
  by (simp_all add: set_my_def)

lemma send_frames: "frames (send rs t) = frames t"
  by (simp add: send_def)

lemmas tester_steps = frames_set_my os_set_my send_frames send_simps my_def

text \<open>What the parent does between its two system calls.\<close>

lemma fork_piece_at:
  assumes "inj_on (address b) (set points)" "eip (os u) = address b pl" "pl \<in> {Start Simple_Fork, Forked 0, Woken, Waited Simple_Fork}"
  shows "piece b u = program b pl u"
  by (rule piece_at [OF assms(1,2)]) (use assms(3) in \<open>auto simp: points_def\<close>)

lemma parent_piece:
  assumes i: "inj_on (address b) (set points)" and pf: "parent_forked b n p g c_pid bp sp (os t)" and c: "0 < sint c_pid"
  shows "\<exists>t'. piece b t = call_wait b Simple_Fork t' \<and> os t' = os t \<and> original_child_pid (frames t' bp) = sint c_pid
    \<and> said t' = said t @ [Debug ''DEBUG: Fork returned with PID:'', Number c_pid]"
proof -
  let ?out = "[Debug ''DEBUG: Fork returned with PID:'', Number c_pid]"
  let ?t = "set_my (\<lambda>l. l\<lparr>original_child_pid := child_pid l, status_of := 0\<rparr>) (send ?out (set_my (child_pid_update (\<lambda>_. sint c_pid)) t))"
  have r: "ebp (os t) = bp" "eip (os t) = address b (Forked 0)" "eax (os t) = c_pid" using pf by (simp_all add: parent_forked_def)
  have "piece b t = simple_fork_forked b t" using fork_piece_at [OF i r(2)] by (simp add: program_def)
  also have "\<dots> = call_wait b Simple_Fork ?t" using c by (simp add: simple_fork_forked_def Let_def tester_steps r)
  finally show ?thesis by (intro exI [of _ ?t]) (simp add: tester_steps r)
qed

text \<open>The first two pieces, up to \<open>wait_syscall\<close> in the parent.\<close>

lemma simple_fork_opens:
  assumes i: "inj_on (address b) (set points)" and sf: "small_frames b" "room b Simple_Fork + wait_room b \<le> 4000"
    and e: "enters b t p Simple_Fork" "cr3 (pcbs (os t) p) = 0"
    and tb: "process_table_head (os t) = Some p" "parent (pcbs (os t) p) \<noteq> None \<Longrightarrow> next_in_table (pcbs (os t) p) = None"
    and u: "unused_from n (arena (os t))" "n + 5 < NUM_PAGES" "low n t [p]" and c: "0 < sint (next_pid (os t))"
  defines "bp \<equiv> base_pointer (stack_of t p)" and "sp \<equiv> stack_of t p + 4092 - room b Simple_Fork"
  shows "\<exists>t1 t2. piece b t = Some (Goes t1) \<and> said t1 = said t @ [Debug ''DEBUG: Testing simple fork'']
    \<and> piece b t1 = call_wait b Simple_Fork t2 \<and> original_child_pid (frames t2 bp) = sint (next_pid (os t))
    \<and> said t2 = said t1 @ [Debug ''DEBUG: Fork returned with PID:'', Number (next_pid (os t))]
    \<and> parent_forked b n p (parent (pcbs (os t) p)) (next_pid (os t)) bp sp (os t2)"
    and "sp \<le> n * PAGE_SIZE" "wait_room b + 16 \<le> sp" "8 \<le> sp" "sp \<le> KERNEL_MEMORY_SIZE"
proof -
  have lo: "stack_of t p + 4096 \<le> n * PAGE_SIZE" using u(3) by (simp add: low_def)
  show "sp \<le> n * PAGE_SIZE" "wait_room b + 16 \<le> sp" "8 \<le> sp" "sp \<le> KERNEL_MEMORY_SIZE"
    using lo sf(2) u(2) unfolding sp_def by linarith+
  from simple_fork_forks [OF sf(1) e tb u] obtain t1 where
    t1: "test_simple_fork b t = Some (Goes t1)" "parent_forked b n p (parent (pcbs (os t) p)) (next_pid (os t)) bp sp (os t1)"
      "said t1 = said t @ [Debug ''DEBUG: Testing simple fork'']" by (auto simp: sp_def bp_def send_def)
  have p1: "piece b t = Some (Goes t1)"
    using fork_piece_at [OF i, of t "Start Simple_Fork"] e t1(1) by (simp add: enters_def program_def)
  with parent_piece [OF i t1(2) c] t1(2,3)
  show "\<exists>t1 t2. piece b t = Some (Goes t1) \<and> said t1 = said t @ [Debug ''DEBUG: Testing simple fork'']
    \<and> piece b t1 = call_wait b Simple_Fork t2 \<and> original_child_pid (frames t2 bp) = sint (next_pid (os t))
    \<and> said t2 = said t1 @ [Debug ''DEBUG: Fork returned with PID:'', Number (next_pid (os t))]
    \<and> parent_forked b n p (parent (pcbs (os t) p)) (next_pid (os t)) bp sp (os t2)"
    by metis
qed

subsection \<open>The system call test\<close>

text \<open>\<open>syscall_test\<close> creates the process of the fork test and exits; it has no parent to wake.\<close>

lemma syscall_test_hands_over:
  assumes e: "enters b t p Syscall_Test" "parent (pcbs (os t) p) = None" and sf: "small_frames b"
    and u: "unused_from n (arena (os t))" "n + 5 < NUM_PAGES" and l: "low n t [p]"
  defines "c \<equiv> n * PAGE_SIZE + sizeof_block"
    and "m \<equiv> [Debug ''DEBUG: Starting fork and wait syscall tests'', Debug ''DEBUG: Fork and wait syscall tests complete'']"
  shows "\<exists>k. syscall_test b t = Some (Goes (send m t\<lparr>os := k\<rparr>)) \<and> enters b (send m t\<lparr>os := k\<rparr>) c Simple_Fork
    \<and> cr3 (pcbs k c) = 0 \<and> parent (pcbs k c) = parent (pcbs (os t) c) \<and> process_table_head k = Some c
    \<and> unused_from (n + 5) (arena k) \<and> low (n + 5) (send m t\<lparr>os := k\<rparr>) [c] \<and> next_pid k = next_pid (os t) + 1
    \<and> state (pcbs k p) = STATE_ZOMBIE \<and> exit_status (pcbs k p) = 0"
proof -
  have bh: "behind b t p []" and st: "state (pcbs (os t) p) = STATE_RUNNING" and sp: "esp (os t) = stack_of t p + 4096"
    using e by (simp_all add: enters_def)
  from open_frame_inside [OF bh sf sp st, of Syscall_Test] obtain k1 where
    k1: "open_frame b Syscall_Test t = Some (t\<lparr>os := k1\<rparr>)" "inside b (t\<lparr>os := k1\<rparr>) p [] Syscall_Test" "pcbs k1 = pcbs (os t)"
      "page_table (arena k1) = page_table (arena (os t))" "last_page_index (arena k1) = last_page_index (arena (os t))"
      "next_pid k1 = next_pid (os t)" by blast
  have pc: "p \<noteq> c" using l by (auto simp: low_def c_def)
  have b1: "current_process k1 = Some p" "peers k1 []" "priority (pcbs k1 p) = 1"
    using k1(2) by (auto simp: inside_def behind_def crew_def)
  let ?k0 = "k1\<lparr>next_pid := next_pid k1 + 1\<rparr>"
  have "peers ?k0 []" "unused_from n (arena ?k0)" using b1(2) u(1) k1(4,5) by (simp_all add: peers_def unused_from_def)
  from create_process_peers [OF this(1) _ this(2) u(2), of "next_pid k1" "address b (Start Simple_Fork)" 2 3] obtain k2 where
    k2: "create_process (next_pid k1) (address b (Start Simple_Fork)) 1 2 3 ?k0 = Some (Some c, k2)" "peers k2 [c]"
      "created (next_pid k1) (address b (Start Simple_Fork)) n ?k0 k2" unfolding c_def by auto
  note d = createdD [OF k2(3) c_def [THEN meta_eq_to_obj_eq] refl]
  let ?k3 = "upd_pcb p (\<lambda>x. x\<lparr>exit_status := 0, state := STATE_ZOMBIE\<rparr>) k2"
  have o: "priority (pcbs ?k3 p) = 1" "parent (pcbs ?k3 p) = None"
    using created_other [OF k2(3), of p] pc b1(3) e(2) k1(3) by (simp_all add: c_def)
  have cur: "current_process ?k3 = Some p" "peers ?k3 [c]" "rejoin ?k3 p [c] = [c]"
    using d(11) b1(1) k2(2) pc by (auto simp: rejoin_def peers_def queue_list_def)
  have us: "user_stack_ptr (pcbs ?k3 c) + 8 \<le> KERNEL_MEMORY_SIZE" using d(7) u(2) pc by (simp add: sizeof_block_def)
  have "p \<notin> set [c]" using pc by simp
  from schedule_peers [OF cur(1,2) this o(1) cur(3) us, of "schedule_frame b"] obtain k where
    k: "schedule (schedule_frame b) ?k3 = Some (Switched k)" "current_process k = Some c" "peers k []" "arena k = arena k2"
      "eip k = load32 (user_stack_ptr (pcbs ?k3 c) + 4) (kernel_memory (arena k2))" "esp k = user_stack_ptr (pcbs ?k3 c) + 8"
      "process_table_head k = process_table_head k2" "next_pid k = next_pid k2"
    and ks: "\<And>a. kernel_stack_ptr (pcbs ?k3 a) \<noteq> None \<Longrightarrow> kernel_stack_ptr (pcbs k a) \<noteq> None"
    and id: "\<And>a. same_identity (pcbs k a) (pcbs ?k3 a)"
    and st': "\<And>a. state (pcbs k a) = (if a = c then STATE_RUNNING else if a = p \<and> state (pcbs ?k3 p) = STATE_RUNNING then STATE_READY
        else state (pcbs ?k3 a))" by auto
  have f: "user_stack_base (pcbs k c) = (n + 1) * PAGE_SIZE + sizeof_block" "priority (pcbs k c) = 1"
    "esp k = user_stack_base (pcbs k c) + 4096" "eip k = address b (Start Simple_Fork)" "cr3 (pcbs k c) = 0"
    "parent (pcbs k c) = parent (pcbs (os t) c)" "kernel_stack_ptr (pcbs k c) \<noteq> None"
    using id [of c] d(4-7,9,18,19) k(5,6) pc ks [of c] k1(3) by (simp_all add: same_identity_def add.assoc)
  let ?t = "send m t\<lparr>os := k\<rparr>"
  have "call_exit b 0 (send [Debug ''DEBUG: Fork and wait syscall tests complete'']
      (send [Debug ''DEBUG: Starting fork and wait syscall tests''] t\<lparr>os := k2\<rparr>)) = Some (Goes ?t)"
    using d(11) b1(1) o(2) k(1) by (simp add: call_exit_def exit_syscall_def Let_def send_def m_def)
  then have "syscall_test b t = Some (Goes ?t)"
    using k1(1) k2(1) by (simp add: syscall_test_def new_process_def get_new_pid_def send_def)
  moreover have "crew ?t [c]" using f(1,2,7) u(2) by (simp add: crew_def sizeof_block_def)
  moreover have "low (n + 5) ?t [c]" using f(1) by (simp add: low_def c_def sizeof_block_def)
  moreover have "state (pcbs k p) = STATE_ZOMBIE" "exit_status (pcbs k p) = 0"
    using st' [of p] id [of p] pc by (simp_all add: same_identity_def)
  ultimately show ?thesis using k(2-4,7,8) st' [of c] f d(1,15,17) k1(6)
    by (intro exI [of _ k]) (simp add: enters_def behind_def)
qed

text \<open>C19 (the system call test). \<open>syscall_test\<close>, alone in a kernel with pages left and in a process without parent, announces that the tests are
  complete, leaves, and the process of the fork test forks; its call of \<open>wait_syscall\<close> then follows the NULL pointer in the field
  \<open>parent\<close> of that process, which \<open>create_process\<close> does not set, so no verdict is ever printed.\<close>

theorem syscall_test_follows_null:
  assumes "inj_on (address b) (set points)" "small_frames b" "room b Simple_Fork + wait_room b \<le> 4000"
    and "enters b t p Syscall_Test" "parent (pcbs (os t) p) = None" "parent (pcbs (os t) (n * PAGE_SIZE + sizeof_block)) = None"
    and "unused_from n (arena (os t))" "n + 10 < NUM_PAGES" "low n t [p]" "0 < sint (next_pid (os t) + 1)"
  shows "\<exists>t'. pieces b 2 t = Some (Goes t') \<and> pieces b 3 t = None \<and> said t' = said t
      @ [Debug ''DEBUG: Starting fork and wait syscall tests'', Debug ''DEBUG: Fork and wait syscall tests complete'',
         Debug ''DEBUG: Testing simple fork'']"
proof -
  let ?c = "n * PAGE_SIZE + sizeof_block"
    and ?m = "[Debug ''DEBUG: Starting fork and wait syscall tests'', Debug ''DEBUG: Fork and wait syscall tests complete'']"
  have pages: "n + 5 < NUM_PAGES" "n + 5 + 5 < NUM_PAGES" "n + 5 < NUM_PAGES" using assms(8) by simp_all
  from syscall_test_hands_over [OF assms(4,5,2,7) pages(1) assms(9)] obtain k where
    k: "syscall_test b t = Some (Goes (send ?m t\<lparr>os := k\<rparr>))" "enters b (send ?m t\<lparr>os := k\<rparr>) ?c Simple_Fork"
      "cr3 (pcbs k ?c) = 0" "parent (pcbs k ?c) = None" "process_table_head k = Some ?c" "unused_from (n + 5) (arena k)"
      "low (n + 5) (send ?m t\<lparr>os := k\<rparr>) [?c]" "next_pid k = next_pid (os t) + 1" using assms(6) by auto
  define t1 where "t1 = send ?m t\<lparr>os := k\<rparr>"
  have o1: "os t1 = k" "said t1 = said t @ ?m" by (simp_all add: t1_def send_def)
  have "piece b t = program b (Start Syscall_Test) t"
    by (rule piece_at [OF assms(1)]) (use assms(4) in \<open>simp_all add: enters_def points_def\<close>)
  then have p1: "piece b t = Some (Goes t1)" using k(1) by (simp add: program_def t1_def)
  note k' = k(2-8) [folded t1_def, folded o1(1)]
  have np: "0 < sint (next_pid (os t1))" using assms(10) k'(7) by (simp add: o1(1))
  note opens = simple_fork_opens [OF assms(1-3) k'(1,2,4) _ k'(5) pages(2) k'(6) np, unfolded k'(3) simp_thms]
  from opens(1) obtain t2 t3 where
    t2: "piece b t1 = Some (Goes t2)" "said t2 = said t1 @ [Debug ''DEBUG: Testing simple fork'']" "piece b t2 = call_wait b Simple_Fork t3"
      "parent_forked b (n + 5) ?c None (next_pid (os t1)) (base_pointer (stack_of t1 ?c)) (stack_of t1 ?c + 4092 - room b Simple_Fork) (os t3)"
    by blast
  have p3: "piece b t2 = None" using parent_waits [OF t2(4) opens(2,3) pages(1)] t2(3) by simp
  have "pieces b 2 t = Some (Goes t2)" "pieces b 3 t = None" by (simp_all add: numeral_2_eq_2 numeral_3_eq_3 p1 t2(1) p3)
  then show ?thesis by (simp add: t2(2) o1(2))
qed

lemma test_machine_orphan: "parent (pcbs (os (test_machine r)) a) = None" "next_pid (os (test_machine r)) = 2" "said (test_machine r) = []"
  by (simp_all add: test_machine_def example_pcb_def)

theorem syscall_test_follows_null_witness:
  "pieces test_build 3 (test_machine Syscall_Test) = None
   \<and> (\<exists>t'. pieces test_build 2 (test_machine Syscall_Test) = Some (Goes t') \<and> last (said t') = Debug ''DEBUG: Testing simple fork'')"
proof -
  have r: "room test_build Simple_Fork + wait_room test_build \<le> 4000" by (simp add: test_build_def)
  have n: "0 < sint (next_pid (os (test_machine Syscall_Test)) + 1)" by (simp add: test_machine_orphan)
  from syscall_test_follows_null [OF test_build_addresses test_machine_ready(4) r test_machine_ready(1) test_machine_orphan(1)
      test_machine_orphan(1) test_machine_ready(2) _ test_machine_ready(3) n] show ?thesis by auto
qed

end
