(* ===== verification/Spec2Isabelle.thy ===== *)
theory Spec2Isabelle
  imports Memory CString NumConv FileProps WaitProps FairQueue Debug SessionProps TestFork
begin

text \<open>
  \<^bold>\<open>ApnaOS in Isabelle/HOL.\<close>
  ApnaOS is a small 32-bit kernel in C: a page allocator, processes with a priority scheduler and the calls fork, wait,
  exit and yield, a red-black tree, a file system in memory, drivers for the keyboard, the text screen
  and the serial port, the descriptor tables and interrupt controllers, and a command line that puts them
  together. The development models the C code, function by function, and proves what the components
  promise, what happens when they are composed, and where the code does not do what it means to.

  \<^bold>\<open>Conventions.\<close>
  A structure is a record, an array that the code only indexes with constants of its own is a function on
  \<open>nat\<close>, an array whose end matters is a list. \<open>unsigned\<close> integers are words of
  their width, \<open>int\<close> is \<open>int\<close> where the code cannot overflow and a word otherwise. Strings are lists of
  \<open>char\<close> with their terminator, \<open>cstr s\<close> is \<open>s\<close> with it. The result \<open>None\<close> stands for whatever C leaves
  undefined (an access outside an array, the use of a null pointer) and for a loop that does not
  end; a theorem that a function returns \<open>Some\<close> says that none of that happens. The error returns of the code
  (\<open>-1\<close>, \<open>NULL\<close>) are values, \<open>Inl\<close> of an error or \<open>None\<close> inside the result. Definitions have the names of
  the functions; the helpers are their loops and branches. Messages for the serial port are left out everywhere
  but in the serial driver itself, and in the kernel an interrupt happens between two operations.

  \<^bold>\<open>Theories.\<close>

  \<^item> \<open>Prelude\<close>: words in memory, searches and updates in loops, collections of facts.
  \<^item> \<open>Memory\<close> (\<^verbatim>\<open>memory/memory.c\<close>): arena, page table, \<open>kmalloc\<close>, \<open>kfree\<close>, copying. The
    contract of an allocator (live blocks and their capacities) is a locale; it is interpreted on the code.
    An allocation can wrap around the end of the arena and a size near the word's end overflows; the theorems on \<open>kmalloc\<close>
    and \<open>kfree\<close> cover these cases and say exactly when they break the contract.
  \<^item> \<open>CString\<close> (\<^verbatim>\<open>keyboard/string.c\<close>), \<open>NumConv\<close> (the conversions of \<^verbatim>\<open>kernel.c\<close>): against lists and numerals;
    \<open>strtok\<close> with its static pointer and its writes to the buffer.
  \<^item> \<open>FileSystem\<close> (\<^verbatim>\<open>filesystem/filesystem.c\<close>): all operations on superblock, inodes, bitmap, directory and
    blocks. \<open>FileInv\<close> has the invariant of bitmap and block pointers, \<open>FileSpec\<close> the abstract view (a map from
    directory slots to name, contents and permissions) and the invariant \<open>fs_inv\<close>, \<open>FileOps\<close> and \<open>FileDir\<close>
    show what each operation does to that view on every branch, \<open>FileStore\<close> collects them by cases and
    interprets a locale of stores, \<open>FileProps\<close> has the properties.
  \<^item> \<open>ProcQueue\<close> (the queues of \<^verbatim>\<open>process/process.c\<close>): linked lists on a heap of control blocks, with a
    locale of stable priority queues that is interpreted for the three orders, and for the fair queue.
  \<^item> \<open>Process\<close> (\<^verbatim>\<open>process/process.c\<close>, \<^verbatim>\<open>process/syscall.c\<close>): creation, \<open>schedule\<close>, fork, wait, exit, yield. The
    state has the arena with the stacks, the control blocks, the table, the queue and the registers; the inline
    assembly is modelled as what it does to them. A call that does not return to its caller has the
    outcome \<open>Switched\<close> or \<open>Idle\<close>. \<open>KernelInv\<close>, \<open>KernelSched\<close>, \<open>KernelCalls\<close>, \<open>KernelFork\<close> and \<open>KernelWait\<close> show that each
    function keeps the invariant \<open>kernel_inv\<close>; \<open>KernelStep\<close> has the step relation of the kernel and its
    reachable states; \<open>KernelProps\<close>, \<open>CallProps\<close> and \<open>ForkProps\<close> have the properties. \<open>clear_memory\<close> is \<open>memory_init\<close> on
    the whole kernel, control blocks included; \<open>WaitProps\<close> shows that after it no call of \<open>wait\<close> ever blocks its
    caller, since the first process has no parent and stays in the table.
  \<^item> \<open>RBTree\<close> (\<^verbatim>\<open>process/rbtree.c\<close>, \<^verbatim>\<open>process/rbtree.h\<close>): every function on a heap of nodes. \<open>RBShape\<close> relates a heap to a
    tree with a path to the place of work, \<open>RBRotate\<close>, \<open>RBInsert\<close>, \<open>RBErase\<close> and \<open>RBUnlink\<close> are the rotations, the two
    repair loops and the unlinking; \<open>FairQueue\<close> is the queue of the fair scheduler on top of it.
  \<^item> \<open>Screen\<close>, \<open>Descriptors\<close>, \<open>Interrupts\<close>, \<open>Keyboard\<close>, \<open>KeyProps\<close> (\<^verbatim>\<open>kernel.c\<close>, \<^verbatim>\<open>keyboard\<close>, \<^verbatim>\<open>interrupts\<close>, \<^verbatim>\<open>serial.c\<close>):
    the screen shows the end of a tape of lines, and the locale of consoles says that a text is added to the end of
    it (interpreted for the screen, the echo of the keys and the command line, whose \<open>list_shows\<close> is the listing); descriptors and gates decode to what was
    put in; an interrupt runs the handler of its line once; the driver is a line editor on strings.
  \<^item> \<open>Cli\<close>, \<open>CliParse\<close> (\<open>cli_loop\<close> of \<^verbatim>\<open>kernel.c\<close>): a pass of the loop on the whole machine, and the proof that it
    parses the line and carries out the command.
  \<^item> \<open>Debug\<close>: what the debug output of a number puts on the serial line; \<open>Programs\<close> (\<^verbatim>\<open>test_processes/dummy1.c\<close> to
    \<^verbatim>\<open>dummy3.c\<close>): the programs that the command line starts, and their way to the processor and back.
  \<^item> \<open>Machine\<close>, \<open>MachineInv\<close>, \<open>MachineProps\<close> (\<open>kernel_main\<close>): the start, the steps of the machine, the invariant of all
    parts together, and the properties that span the components. \<open>Session\<close>, \<open>SessionProps\<close>: the whole loop and the end
    of \<open>kernel_main\<close>, from the keys that are pressed to the commands that are carried out, reading files included.
  \<^item> \<open>SelfTests\<close> (\<^verbatim>\<open>test_processes/process_test.c\<close>, \<^verbatim>\<open>syscall_test.c\<close>): every function of the self tests, as programs in
    pieces from one switch of the processor to the next. The next piece is found by the address in \<open>eip\<close>, the
    variables of a function by the frame pointer \<open>ebp\<close>, so that a forked child shares those of its parent; what the
    compiler chooses is the parameter \<open>build\<close>. \<open>TestRuns\<close> shows that processes of equal priority that are programs of
    this kind take turns, \<open>TestProps\<close> runs \<open>process_test\<close> with the four processes that it creates, \<open>TestFork\<close> runs
    \<open>syscall_test\<close>, which starts the test of fork, wait and exit, up to the \<open>wait\<close> at which it fails.

  \<^bold>\<open>Bounds.\<close>
  Loops are functions with a measure. \<open>strtok_scan\<close>, \<open>str_loop\<close> and the like return \<open>None\<close> when the C code would
  leave an array. The loops over links (\<open>find_link\<close>, the repair loops of the tree) and \<open>cli_loop\<close> are partial
  functions; that they end is part of the properties, and \<open>find_link_within\<close> counts the tests of a descent. \<open>read_line\<close> waits for
  the key events of a list and has no result when they run out. \<open>pieces b n\<close> runs at most \<open>n\<close> pieces of the self
  tests: 15 reach the end of \<open>process_test\<close>, and the third piece of \<open>syscall_test\<close> is where it fails.

  \<^bold>\<open>What the model leaves open.\<close>
  The control blocks are a heap of their own beside the bytes of the arena: a process that writes into a
  control block of another is not covered. The processor's tables, the stubs in assembly and the boot code
  enter as the addresses that the code is given. Writes to the screen by a handler inside another write
  are not interleaved. What is in uninitialised arrays is arbitrary, and so are the control
  blocks wherever a theorem does not start at \<open>clear_memory\<close>.

  \<^bold>\<open>Not modelled.\<close>
  The assembly files, the linker script and the instructions that load the table registers. What
  a process does between two calls, other than the programs of \<^verbatim>\<open>test_processes\<close>, is the step \<open>work\<close>.
\<close>

end
